(* ===== verification/Prelude.thy ===== *)
theory Prelude
  imports Main "HOL-Library.Word" "HOL-Library.Monad_Syntax"
begin

text \<open>
  Shared vocabulary of the development: machine words and byte strings, little-endian
  integers, slices of a byte buffer and their in-place update, and bounds-checked readers
  with the round-trip law that every on-disk and on-wire codec of the repository obeys.

  Conventions. \<open>usize\<close> quantities are \<open>nat\<close>; fixed-width integers are words. A Rust panic
  (slice out of range, checked subtraction below zero) is \<open>None\<close> of the type \<open>'a exec\<close>;
  a Rust \<open>Result\<close> is a sum with the error on the left.
\<close>

unbundle bit_operations_syntax

type_synonym u8 = "8 word"
type_synonym u16 = "16 word"
type_synonym u32 = "32 word"
type_synonym u64 = "64 word"
type_synonym bytes = "u8 list"
type_synonym 'a exec = "'a option"

named_theorems byte_simps \<open>equations about slices and in-place writes of byte buffers\<close>
named_theorems reader_simps \<open>equations that run a reader on an encoded prefix\<close>


section \<open>Words that hold small numbers\<close>

lemma unat_small_u16: "n < 65536 \<Longrightarrow> unat (word_of_nat n :: u16) = n"
  by (simp add: unat_of_nat)

lemma unat_small_u32: "n < 4294967296 \<Longrightarrow> unat (word_of_nat n :: u32) = n"
  by (simp add: unat_of_nat)

lemma unat_small_u64: "n < 18446744073709551616 \<Longrightarrow> unat (word_of_nat n :: u64) = n"
  by (simp add: unat_of_nat)

lemma unat_u16_less: "unat (w :: u16) < 65536"
  using unsigned_less [of w] by simp

lemma unat_u32_less: "unat (w :: u32) < 4294967296"
  using unsigned_less [of w] by simp


section \<open>Lists\<close>

lemma find_SomeD: "find P xs = Some x \<Longrightarrow> x \<in> set xs \<and> P x"
  by (induction xs) (auto split: if_splits)

lemma find_NoneD: "find P xs = None \<Longrightarrow> x \<in> set xs \<Longrightarrow> \<not> P x"
  by (induction xs) (auto split: if_splits)


section \<open>Little-endian integers\<close>

primrec nat_le :: "nat \<Rightarrow> nat \<Rightarrow> bytes" where
  "nat_le 0 n = []"
| "nat_le (Suc k) n = word_of_nat n # nat_le k (n div 256)"

primrec le_nat :: "bytes \<Rightarrow> nat" where
  "le_nat [] = 0"
| "le_nat (b # bs) = unat b + 256 * le_nat bs"

definition to_le_bytes :: "'a::len word \<Rightarrow> bytes" where
  "to_le_bytes w = nat_le (LENGTH('a) div 8) (unat w)"

definition from_le_bytes :: "bytes \<Rightarrow> 'a::len word" where
  "from_le_bytes bs = word_of_nat (le_nat bs)"

lemma length_nat_le [simp]: "length (nat_le k n) = k"
  by (induction k arbitrary: n) auto

lemma le_nat_nat_le: "le_nat (nat_le k n) = n mod 256 ^ k"
proof (induction k arbitrary: n)
  case (Suc k)
  have "unat (word_of_nat n :: u8) = n mod 256"
    by (simp add: unat_of_nat)
  then show ?case
    using Suc by (simp add: mod_mult2_eq)
qed simp

lemma le_nat_less: "le_nat bs < 256 ^ length bs"
proof (induction bs)
  case (Cons b bs)
  have "unat b < 256" using unsigned_less [of b] by simp
  with Cons show ?case by simp
qed simp

lemma nat_le_le_nat: "nat_le (length bs) (le_nat bs) = bs"
proof (induction bs)
  case (Cons b bs)
  have b: "unat b < 256" using unsigned_less [of b] by simp
  have "(unat b + 256 * le_nat bs) div 256 = le_nat bs" using b by simp
  moreover have "word_of_nat (unat b + 256 * le_nat bs) = b"
  proof -
    have "(256 :: u8) = 0" by simp
    then have "b + 256 * word_of_nat (le_nat bs) = b" by (simp only: mult_zero_left add_0_right)
    then show ?thesis by simp
  qed
  ultimately show ?case using Cons by simp
qed simp

lemma length_to_le_bytes [simp]: "length (to_le_bytes (w :: 'a::len word)) = LENGTH('a) div 8"
  by (simp add: to_le_bytes_def)

lemma from_to_le_bytes:
  assumes "8 dvd LENGTH('a::len)"
  shows "from_le_bytes (to_le_bytes (w :: 'a word)) = w"
proof -
  have "(256::nat) ^ (LENGTH('a) div 8) = 2 ^ (8 * (LENGTH('a) div 8))"
    by (simp add: power_mult)
  also have "\<dots> = 2 ^ LENGTH('a)" using assms by simp
  finally have "unat w mod 256 ^ (LENGTH('a) div 8) = unat w"
    by simp
  then show ?thesis
    by (simp add: from_le_bytes_def to_le_bytes_def le_nat_nat_le)
qed

lemma from_to_le_bytes_width [simp]:
  "from_le_bytes (to_le_bytes (a :: u8)) = a"
  "from_le_bytes (to_le_bytes (b :: u16)) = b"
  "from_le_bytes (to_le_bytes (c :: u32)) = c"
  "from_le_bytes (to_le_bytes (d :: u64)) = d"
  by (simp_all add: from_to_le_bytes)

lemma to_from_le_bytes:
  assumes "8 dvd LENGTH('a::len)" and "length bs = LENGTH('a) div 8"
  shows "to_le_bytes (from_le_bytes bs :: 'a word) = bs"
proof -
  have "(256::nat) ^ (LENGTH('a) div 8) = 2 ^ (8 * (LENGTH('a) div 8))"
    by (simp add: power_mult)
  also have "\<dots> = 2 ^ LENGTH('a)" using assms(1) by simp
  finally have "le_nat bs < 2 ^ LENGTH('a)"
    using le_nat_less [of bs] assms(2) by simp
  then have "unat (word_of_nat (le_nat bs) :: 'a word) = le_nat bs"
    by (simp add: unat_of_nat)
  then show ?thesis
    using nat_le_le_nat [of bs] assms(2) by (simp add: from_le_bytes_def to_le_bytes_def)
qed


lemma le_nat_replicate_0 [simp]: "le_nat (replicate n 0) = 0"
  by (induction n) simp_all


section \<open>Slices and in-place writes\<close>

definition slice :: "nat \<Rightarrow> nat \<Rightarrow> 'a list \<Rightarrow> 'a list" where
  "slice off n b = take n (drop off b)"

definition wr :: "nat \<Rightarrow> 'a list \<Rightarrow> 'a list \<Rightarrow> 'a list" where
  "wr off v b = take off b @ v @ drop (off + length v) b"

text \<open>\<open>b[off..off + v.len()].copy_from_slice(v)\<close>, which panics out of range.\<close>

definition copy_at :: "nat \<Rightarrow> 'a list \<Rightarrow> 'a list \<Rightarrow> 'a list exec" where
  "copy_at off v b = (if off + length v \<le> length b then Some (wr off v b) else None)"

text \<open>\<open>b.get(s..e)\<close>, which is \<open>None\<close> out of range.\<close>

definition get_range :: "nat \<Rightarrow> nat \<Rightarrow> 'a list \<Rightarrow> 'a list option" where
  "get_range s e b = (if s \<le> e \<and> e \<le> length b then Some (slice s (e - s) b) else None)"

definition checked_sub :: "nat \<Rightarrow> nat \<Rightarrow> nat exec" where
  "checked_sub a b = (if b \<le> a then Some (a - b) else None)"

lemma length_wr [simp]: "off + length v \<le> length b \<Longrightarrow> length (wr off v b) = length b"
  by (simp add: wr_def)

lemma length_slice [simp]: "length (slice off n b) = min n (length b - off)"
  by (simp add: slice_def)

lemma slice_wr_same [byte_simps]:
  "off + length v \<le> length b \<Longrightarrow> n = length v \<Longrightarrow> slice off n (wr off v b) = v"
  by (simp add: slice_def wr_def)

lemma slice_wr_before [byte_simps]:
  "off' + n \<le> off \<Longrightarrow> off + length v \<le> length b \<Longrightarrow> slice off' n (wr off v b) = slice off' n b"
  by (simp add: slice_def wr_def drop_take)

lemma slice_wr_after [byte_simps]:
  assumes "off + length v \<le> off'" and "off + length v \<le> length b"
  shows "slice off' n (wr off v b) = slice off' n b"
proof -
  have "off' - (off + length v) + (off + length v) = off'" using assms(1) by simp
  moreover have "min (length b) off = off" using assms(2) by simp
  ultimately show ?thesis
    using assms by (simp add: slice_def wr_def min_def add.commute)
qed

lemma slice_wr_disjoint:
  "off' + n \<le> off \<or> off + length v \<le> off' \<Longrightarrow> off + length v \<le> length b \<Longrightarrow>
   slice off' n (wr off v b) = slice off' n b"
  using slice_wr_before slice_wr_after by metis

lemma slice_slice: "off + n \<le> m \<Longrightarrow> slice off n (slice k m b) = slice (k + off) n b"
  by (simp add: slice_def drop_take min_def add.commute)

lemma slice_wr_within:
  assumes "off \<le> off'" and "off' + n \<le> off + length v" and "off + length v \<le> length b"
  shows "slice off' n (wr off v b) = slice (off' - off) n v"
proof -
  have "slice off' n (wr off v b) = slice (off' - off) n (slice off (length v) (wr off v b))"
    using assms by (simp add: slice_slice)
  then show ?thesis using assms by (simp add: slice_wr_same)
qed

lemma slice_append_exact: "length a = off \<Longrightarrow> length v = n \<Longrightarrow> slice off n (a @ v @ c) = v"
  by (auto simp: slice_def)

lemma take_append_exact: "length a = n \<Longrightarrow> take n (a @ b) = a"
  by auto

lemma slice_append_right: "slice (length a + off) n (a @ b) = slice off n b"
  by (simp add: slice_def)

lemma slice_append_left: "off + n \<le> length a \<Longrightarrow> slice off n (a @ b) = slice off n a"
  by (simp add: slice_def)

lemma slice_0_all [simp]: "slice 0 (length b) b = b"
  by (simp add: slice_def)

lemma copy_at_Some [simp]: "off + length v \<le> length b \<Longrightarrow> copy_at off v b = Some (wr off v b)"
  by (simp add: copy_at_def)

lemma checked_sub_Some [simp]: "b \<le> a \<Longrightarrow> checked_sub a b = Some (a - b)"
  by (simp add: checked_sub_def)


text \<open>A buffer filled field by field, in the order of the offsets.\<close>

fun wr_all :: "(nat \<times> 'a list) list \<Rightarrow> 'a list \<Rightarrow> 'a list" where
  "wr_all [] b = b"
| "wr_all ((off, v) # fs) b = wr_all fs (wr off v b)"

fun fields_ok :: "nat \<Rightarrow> (nat \<times> 'a list) list \<Rightarrow> nat \<Rightarrow> bool" where
  "fields_ok lo [] hi \<longleftrightarrow> lo \<le> hi"
| "fields_ok lo ((off, v) # fs) hi \<longleftrightarrow> lo \<le> off \<and> fields_ok (off + length v) fs hi"

lemma fields_ok_le: "fields_ok lo fs hi \<Longrightarrow> lo \<le> hi"
  by (induction fs arbitrary: lo) fastforce+

lemma wr_all_frame:
  "fields_ok lo fs (length b) \<Longrightarrow> length (wr_all fs b) = length b \<and> take lo (wr_all fs b) = take lo b"
proof (induction fs arbitrary: lo b)
  case (Cons f fs)
  obtain off v where f: "f = (off, v)" by (cases f)
  have in_range: "lo \<le> off" "off + length v \<le> length b" "fields_ok (off + length v) fs (length b)"
    using Cons.prems fields_ok_le by (auto simp: f)
  let ?b = "wr off v b"
  have IH: "length (wr_all fs ?b) = length b" "take (off + length v) (wr_all fs ?b) = take (off + length v) ?b"
    using Cons.IH [of "off + length v" ?b] in_range by simp_all
  have "take lo (wr_all fs ?b) = take lo ?b"
    using arg_cong [OF IH(2), of "take lo"] in_range(1) by (simp add: min_def)
  then show ?case using IH(1) in_range by (simp add: f wr_def)
qed simp

lemma slice_wr_all:
  assumes "fields_ok lo fs (length b)" and "(off, v) \<in> set fs" and "n = length v"
  shows "slice off n (wr_all fs b) = v"
  using assms
proof (induction fs arbitrary: lo b)
  case (Cons f fs)
  obtain off' v' where f: "f = (off', v')" by (cases f)
  have in_range: "off' + length v' \<le> length b" "fields_ok (off' + length v') fs (length b)"
    using Cons.prems(1) fields_ok_le by (auto simp: f)
  let ?b = "wr off' v' b"
  show ?case
  proof (cases "(off, v) \<in> set fs")
    case True
    then show ?thesis using Cons.IH [of "off' + length v'" ?b] in_range Cons.prems(3) by (simp add: f)
  next
    case False
    then have "off' = off" "v' = v" using Cons.prems(2) by (auto simp: f)
    moreover have "take (off' + length v') (wr_all fs ?b) = take (off' + length v') ?b"
      using wr_all_frame [of "off' + length v'" fs ?b] in_range by simp
    then have "slice off' (length v') (wr_all fs ?b) = slice off' (length v') ?b"
      by (metis add_diff_cancel_left' drop_take slice_def)
    ultimately show ?thesis using in_range Cons.prems(3) by (simp add: f slice_wr_same)
  qed
qed simp


section \<open>Results\<close>

text \<open>The \<open>?\<close> operator: continue on \<open>Ok\<close>, return the error otherwise.\<close>

definition bindE :: "'e + 'a \<Rightarrow> ('a \<Rightarrow> 'e + 'b) \<Rightarrow> 'e + 'b" where
  "bindE r f = (case r of Inl e \<Rightarrow> Inl e | Inr x \<Rightarrow> f x)"

lemma bindE_simps [simp]: "bindE (Inl e) f = Inl e" "bindE (Inr x) f = f x"
  by (simp_all add: bindE_def)

lemma bindE_Inr_iff: "bindE r f = Inr y \<longleftrightarrow> (\<exists>x. r = Inr x \<and> f x = Inr y)"
  by (cases r) auto

lemma bindE_Inl_iff: "bindE r f = Inl e \<longleftrightarrow> r = Inl e \<or> (\<exists>x. r = Inr x \<and> f x = Inl e)"
  by (cases r) auto


section \<open>Bounds-checked readers\<close>

text \<open>
  The \<open>Reader\<close> structs of the repository are a slice and a cursor. A reader is modelled by
  the bytes that the cursor has not consumed yet.
\<close>

type_synonym ('e, 'a) reader = "bytes \<Rightarrow> 'e + ('a \<times> bytes)"

definition retR :: "'a \<Rightarrow> ('e, 'a) reader" where
  "retR x b = Inr (x, b)"

definition failR :: "'e \<Rightarrow> ('e, 'a) reader" where
  "failR e b = Inl e"

definition bindR :: "('e, 'a) reader \<Rightarrow> ('a \<Rightarrow> ('e, 'b) reader) \<Rightarrow> ('e, 'b) reader" where
  "bindR r f b = bindE (r b) (\<lambda>(x, b'). f x b')"

definition takeR :: "'e \<Rightarrow> nat \<Rightarrow> ('e, bytes) reader" where
  "takeR e n b = (if n \<le> length b then Inr (take n b, drop n b) else Inl e)"

definition wordR :: "'e \<Rightarrow> ('e, 'a::len word) reader" where
  "wordR e = bindR (takeR e (LENGTH('a) div 8)) (\<lambda>s. retR (from_le_bytes s))"

definition bytes_u16R :: "'e \<Rightarrow> ('e, bytes) reader" where
  "bytes_u16R e = bindR (wordR e) (\<lambda>n :: u16. takeR e (unat n))"

definition bytes_u32R :: "'e \<Rightarrow> ('e, bytes) reader" where
  "bytes_u32R e = bindR (wordR e) (\<lambda>n :: u32. takeR e (unat n))"

primrec repR :: "nat \<Rightarrow> ('e, 'a) reader \<Rightarrow> ('e, 'a list) reader" where
  "repR 0 r = retR []"
| "repR (Suc n) r = bindR r (\<lambda>x. bindR (repR n r) (\<lambda>xs. retR (x # xs)))"

lemma retR_apply [reader_simps]: "retR x b = Inr (x, b)"
  by (simp add: retR_def)

lemma failR_apply [reader_simps]: "failR e b = Inl e"
  by (simp add: failR_def)

lemma bindR_Inr [reader_simps]: "r b = Inr (x, b') \<Longrightarrow> bindR r f b = f x b'"
  by (simp add: bindR_def)

lemma bindR_Inl [reader_simps]: "r b = Inl e \<Longrightarrow> bindR r f b = Inl e"
  by (simp add: bindR_def)

lemma takeR_append [reader_simps]: "n = length v \<Longrightarrow> takeR e n (v @ rest) = Inr (v, rest)"
  by (simp add: takeR_def)

lemma wordR_append:
  assumes "8 dvd LENGTH('a::len)"
  shows "wordR e (to_le_bytes (w :: 'a word) @ rest) = Inr (w, rest)"
  by (simp add: wordR_def reader_simps from_to_le_bytes [OF assms])

lemma wordR_append_width [reader_simps]:
  "wordR e (to_le_bytes (a :: u8) @ rest) = Inr (a, rest)"
  "wordR e (to_le_bytes (b :: u16) @ rest) = Inr (b, rest)"
  "wordR e (to_le_bytes (c :: u32) @ rest) = Inr (c, rest)"
  "wordR e (to_le_bytes (d :: u64) @ rest) = Inr (d, rest)"
  by (simp_all add: wordR_append)

lemma to_le_bytes_u8: "to_le_bytes (b :: u8) = [b]"
  by (simp add: to_le_bytes_def)

lemma wordR_u8_Cons [reader_simps]: "wordR e ((a :: u8) # rest) = Inr (a, rest)"
  using wordR_append_width(1) [of e a rest] by (simp add: to_le_bytes_u8)


section \<open>The codec interface\<close>

text \<open>
  A codec encodes the values that satisfy \<open>fits\<close> (lengths that fit their prefix) and its
  reader consumes exactly the encoding from the front of any input. The law makes the
  encoding uniquely readable, and lifts to counted sequences.
\<close>

locale codec =
  fixes enc :: "'a \<Rightarrow> bytes"
    and dec :: "('e, 'a) reader"
    and fits :: "'a \<Rightarrow> bool"
  assumes dec_enc: "fits x \<Longrightarrow> dec (enc x @ rest) = Inr (x, rest)"
begin

lemma dec_enc_exact: "fits x \<Longrightarrow> dec (enc x) = Inr (x, [])"
  using dec_enc [of x "[]"] by simp

lemma enc_unique:
  assumes "fits x" and "fits y" and "enc x @ r = enc y @ s"
  shows "x = y \<and> r = s"
proof -
  have "Inr (x, r) = (Inr (y, s) :: 'e + 'a \<times> bytes)"
    using dec_enc [OF assms(1), of r] dec_enc [OF assms(2), of s] assms(3) by metis
  then show ?thesis by simp
qed

lemma enc_inj: "fits x \<Longrightarrow> fits y \<Longrightarrow> enc x = enc y \<Longrightarrow> x = y"
  using enc_unique [of x y "[]" "[]"] by simp

lemma rep_enc:
  "\<forall>x \<in> set xs. fits x \<Longrightarrow> n = length xs \<Longrightarrow>
   repR n dec (concat (map enc xs) @ rest) = Inr (xs, rest)"
proof (induction xs arbitrary: n)
  case Nil
  then show ?case by (simp add: reader_simps)
next
  case (Cons x xs)
  have IH: "repR (length xs) dec (concat (map enc xs) @ rest) = Inr (xs, rest)"
    using Cons by simp
  have "dec (enc x @ concat (map enc xs) @ rest) = Inr (x, concat (map enc xs) @ rest)"
    using Cons.prems by (simp add: dec_enc)
  with IH show ?case using Cons.prems(2) by (simp add: reader_simps)
qed

end

definition put_bytes_u16 :: "bytes \<Rightarrow> bytes" where
  "put_bytes_u16 v = to_le_bytes (word_of_nat (length v) :: u16) @ v"

definition put_bytes_u32 :: "bytes \<Rightarrow> bytes" where
  "put_bytes_u32 v = to_le_bytes (word_of_nat (length v) :: u32) @ v"

interpretation c_u16: codec "to_le_bytes :: u16 \<Rightarrow> bytes" "wordR e" "\<lambda>_. True"
  for e by unfold_locales (simp add: reader_simps)

interpretation c_u32: codec "to_le_bytes :: u32 \<Rightarrow> bytes" "wordR e" "\<lambda>_. True"
  for e by unfold_locales (simp add: reader_simps)

interpretation c_u64: codec "to_le_bytes :: u64 \<Rightarrow> bytes" "wordR e" "\<lambda>_. True"
  for e by unfold_locales (simp add: reader_simps)

interpretation c_bytes_u16: codec put_bytes_u16 "bytes_u16R e" "\<lambda>v. length v < 2 ^ 16"
  for e
  by unfold_locales
    (simp add: bytes_u16R_def put_bytes_u16_def reader_simps unat_of_nat)

interpretation c_bytes_u32: codec put_bytes_u32 "bytes_u32R e" "\<lambda>v. length v < 2 ^ 32"
  for e
  by unfold_locales
    (simp add: bytes_u32R_def put_bytes_u32_def reader_simps unat_of_nat)

lemmas codec_enc = c_bytes_u16.dec_enc c_bytes_u32.dec_enc
declare codec_enc [reader_simps]

end
