(* ===== verification/WalRecord.thy ===== *)
theory WalRecord
  imports Prelude
begin

text \<open>
  The log records of the write-ahead log and their framing
  (\<open>prism-wal/src/lib.rs\<close>, \<open>record.rs\<close> and \<open>segment.rs\<close>): log sequence numbers, the
  payload encodings, the frame of header, body and CRC, and the segment header.  The CRC32
  of the \<open>crc32fast\<close> crate is the parameter \<open>crc32\<close> of the definitions that use it.
\<close>


section \<open>Log sequence numbers\<close>

type_synonym lsn = u64

definition lsn_from_parts :: "u32 \<Rightarrow> u32 \<Rightarrow> lsn" where
  "lsn_from_parts segment_id offset = (push_bit 32 (ucast segment_id) OR ucast offset)"

definition lsn_segment_id :: "lsn \<Rightarrow> u32" where
  "lsn_segment_id l = ucast (drop_bit 32 l)"

definition lsn_offset :: "lsn \<Rightarrow> u32" where
  "lsn_offset l = ucast (l AND 0xFFFFFFFF)"


section \<open>Records\<close>

definition RECORD_HEADER_SIZE :: nat where [simp]: "RECORD_HEADER_SIZE = 32"
definition RECORD_CRC_SIZE :: nat where [simp]: "RECORD_CRC_SIZE = 4"

definition T_INSERT :: u8 where [simp]: "T_INSERT = 0x01"
definition T_UPDATE :: u8 where [simp]: "T_UPDATE = 0x02"
definition T_DELETE :: u8 where [simp]: "T_DELETE = 0x03"
definition T_COMMIT :: u8 where [simp]: "T_COMMIT = 0x10"
definition T_ABORT :: u8 where [simp]: "T_ABORT = 0x11"
definition T_CLR :: u8 where [simp]: "T_CLR = 0x20"
definition T_BEGIN_CHECKPOINT :: u8 where [simp]: "T_BEGIN_CHECKPOINT = 0x30"
definition T_CHECKPOINT_CONTENTS :: u8 where [simp]: "T_CHECKPOINT_CONTENTS = 0x31"
definition T_END_CHECKPOINT :: u8 where [simp]: "T_END_CHECKPOINT = 0x32"
definition T_FULL_PAGE_IMAGE :: u8 where [simp]: "T_FULL_PAGE_IMAGE = 0x50"
definition T_HEAP_PAGE :: u8 where [simp]: "T_HEAP_PAGE = 0x60"

text \<open>
  The fields of each constructor in the source's order: \<open>Insert page_id slot_id after_image\<close>,
  \<open>Update page_id slot_id before_image after_image\<close>, \<open>Delete page_id slot_id before_image\<close>,
  \<open>Commit commit_micros flags\<close>, \<open>Clr page_id slot_id undo_image undo_next_lsn\<close>,
  \<open>CheckpointContents dirty_pages active_txns\<close>, \<open>FullPageImage page_id image\<close> and
  \<open>HeapPage heap_id page_id\<close>.
\<close>

datatype RecordPayload =
    Insert u64 u16 bytes
  | Update u64 u16 bytes bytes
  | Delete u64 u16 bytes
  | Commit u64 u32
  | Abort
  | Clr u64 u16 bytes u64
  | BeginCheckpoint u64
  | CheckpointContents "(u64 \<times> u64) list" "(u64 \<times> u8 \<times> u64) list"
  | EndCheckpoint u64
  | FullPageImage u64 bytes
  | HeapPage u64 u64

record LogRecord =
  lr_txn_id :: u64
  lr_prev_lsn :: u64
  lr_payload :: RecordPayload

definition log_system :: "RecordPayload \<Rightarrow> LogRecord" where
  "log_system payload = \<lparr>lr_txn_id = 0, lr_prev_lsn = 0, lr_payload = payload\<rparr>"

definition log_txn :: "u64 \<Rightarrow> lsn \<Rightarrow> RecordPayload \<Rightarrow> LogRecord" where
  "log_txn txn_id prev_lsn payload =
     \<lparr>lr_txn_id = txn_id, lr_prev_lsn = prev_lsn, lr_payload = payload\<rparr>"

datatype WalError =
    WalIo
  | RecordTooLarge nat nat
  | UnknownRecordType u8
  | WalDecode string
  | CrcMismatch
  | WalBadMagic
  | WalIncompatibleVersion u32


section \<open>Encoding\<close>

definition enc_dirty :: "u64 \<times> u64 \<Rightarrow> bytes" where
  "enc_dirty = (\<lambda>(page_id, rec_lsn). to_le_bytes page_id @ to_le_bytes rec_lsn)"

definition enc_active :: "u64 \<times> u8 \<times> u64 \<Rightarrow> bytes" where
  "enc_active = (\<lambda>(txn_id, state, last_lsn). to_le_bytes txn_id @ [state] @ to_le_bytes last_lsn)"

fun encode_body :: "RecordPayload \<Rightarrow> u8 \<times> bytes" where
  "encode_body (Insert page_id slot_id after_image) =
     (T_INSERT, to_le_bytes page_id @ to_le_bytes slot_id @ put_bytes_u32 after_image)"
| "encode_body (Update page_id slot_id before_image after_image) =
     (T_UPDATE, to_le_bytes page_id @ to_le_bytes slot_id @ put_bytes_u32 before_image
        @ put_bytes_u32 after_image)"
| "encode_body (Delete page_id slot_id before_image) =
     (T_DELETE, to_le_bytes page_id @ to_le_bytes slot_id @ put_bytes_u32 before_image)"
| "encode_body (Commit commit_micros flags) =
     (T_COMMIT, to_le_bytes commit_micros @ to_le_bytes flags)"
| "encode_body Abort = (T_ABORT, [])"
| "encode_body (Clr page_id slot_id undo_image undo_next_lsn) =
     (T_CLR, to_le_bytes page_id @ to_le_bytes slot_id @ put_bytes_u32 undo_image
        @ to_le_bytes undo_next_lsn)"
| "encode_body (BeginCheckpoint checkpoint_id) = (T_BEGIN_CHECKPOINT, to_le_bytes checkpoint_id)"
| "encode_body (CheckpointContents dirty_pages active_txns) =
     (T_CHECKPOINT_CONTENTS,
      to_le_bytes (word_of_nat (length dirty_pages) :: u32) @ concat (map enc_dirty dirty_pages) @
      to_le_bytes (word_of_nat (length active_txns) :: u32) @ concat (map enc_active active_txns))"
| "encode_body (EndCheckpoint checkpoint_id) = (T_END_CHECKPOINT, to_le_bytes checkpoint_id)"
| "encode_body (FullPageImage page_id img) =
     (T_FULL_PAGE_IMAGE, to_le_bytes page_id @ put_bytes_u32 img)"
| "encode_body (HeapPage heap_id page_id) =
     (T_HEAP_PAGE, to_le_bytes heap_id @ to_le_bytes page_id)"

definition assemble_frame :: "(bytes \<Rightarrow> u32) \<Rightarrow> lsn \<Rightarrow> u64 \<Rightarrow> u64 \<Rightarrow> u8 \<Rightarrow> bytes \<Rightarrow> bytes" where
  "assemble_frame crc32 l txn_id prev_lsn rtype body =
     (let out = to_le_bytes l @ to_le_bytes (word_of_nat (length body) :: u32) @ [rtype] @ [0, 0, 0] @
            to_le_bytes txn_id @ to_le_bytes prev_lsn @ body
      in out @ to_le_bytes (crc32 out))"

definition encode_record :: "(bytes \<Rightarrow> u32) \<Rightarrow> lsn \<Rightarrow> LogRecord \<Rightarrow> bytes" where
  "encode_record crc32 l rec =
     (let (rtype, body) = encode_body (lr_payload rec)
      in assemble_frame crc32 l (lr_txn_id rec) (lr_prev_lsn rec) rtype body)"


section \<open>Decoding\<close>

definition truncated :: WalError where
  "truncated = WalDecode ''record body truncated''"

definition dec_dirty :: "(WalError, u64 \<times> u64) reader" where
  "dec_dirty = bindR (wordR truncated) (\<lambda>p. bindR (wordR truncated) (\<lambda>l. retR (p, l)))"

definition dec_active :: "(WalError, u64 \<times> u8 \<times> u64) reader" where
  "dec_active = bindR (wordR truncated) (\<lambda>t. bindR (wordR truncated) (\<lambda>s.
     bindR (wordR truncated) (\<lambda>l. retR (t, s, l))))"

definition decode_bodyR :: "u8 \<Rightarrow> (WalError, RecordPayload) reader" where
  "decode_bodyR rtype =
    (if rtype = T_INSERT then
       bindR (wordR truncated) (\<lambda>p. bindR (wordR truncated) (\<lambda>s.
       bindR (bytes_u32R truncated) (\<lambda>a. retR (Insert p s a))))
     else if rtype = T_UPDATE then
       bindR (wordR truncated) (\<lambda>p. bindR (wordR truncated) (\<lambda>s.
       bindR (bytes_u32R truncated) (\<lambda>b. bindR (bytes_u32R truncated) (\<lambda>a.
       retR (Update p s b a)))))
     else if rtype = T_DELETE then
       bindR (wordR truncated) (\<lambda>p. bindR (wordR truncated) (\<lambda>s.
       bindR (bytes_u32R truncated) (\<lambda>b. retR (Delete p s b))))
     else if rtype = T_COMMIT then
       bindR (wordR truncated) (\<lambda>m. bindR (wordR truncated) (\<lambda>f. retR (Commit m f)))
     else if rtype = T_ABORT then retR Abort
     else if rtype = T_CLR then
       bindR (wordR truncated) (\<lambda>p. bindR (wordR truncated) (\<lambda>s.
       bindR (bytes_u32R truncated) (\<lambda>u. bindR (wordR truncated) (\<lambda>n.
       retR (Clr p s u n)))))
     else if rtype = T_BEGIN_CHECKPOINT then
       bindR (wordR truncated) (\<lambda>c. retR (BeginCheckpoint c))
     else if rtype = T_CHECKPOINT_CONTENTS then
       bindR (wordR truncated) (\<lambda>n :: u32. bindR (repR (unat n) dec_dirty) (\<lambda>d.
       bindR (wordR truncated) (\<lambda>m :: u32. bindR (repR (unat m) dec_active) (\<lambda>a.
       retR (CheckpointContents d a)))))
     else if rtype = T_END_CHECKPOINT then
       bindR (wordR truncated) (\<lambda>c. retR (EndCheckpoint c))
     else if rtype = T_FULL_PAGE_IMAGE then
       bindR (wordR truncated) (\<lambda>p. bindR (bytes_u32R truncated) (\<lambda>i. retR (FullPageImage p i)))
     else if rtype = T_HEAP_PAGE then
       bindR (wordR truncated) (\<lambda>h. bindR (wordR truncated) (\<lambda>p. retR (HeapPage h p)))
     else failR (UnknownRecordType rtype))"

text \<open>The bytes a body has beyond its last field are ignored, as in the source.\<close>

definition decode_body :: "u8 \<Rightarrow> bytes \<Rightarrow> WalError + RecordPayload" where
  "decode_body rtype body = bindE (decode_bodyR rtype body) (\<lambda>(payload, _). Inr payload)"

definition get_u32 :: "bytes \<Rightarrow> nat \<Rightarrow> u32" where
  "get_u32 b off = from_le_bytes (slice off 4 b)"

definition get_u64 :: "bytes \<Rightarrow> nat \<Rightarrow> u64" where
  "get_u64 b off = from_le_bytes (slice off 8 b)"

definition decode_record :: "(bytes \<Rightarrow> u32) \<Rightarrow> bytes \<Rightarrow> WalError + (lsn \<times> LogRecord \<times> nat)" where
  "decode_record crc32 frame =
     (if length frame < RECORD_HEADER_SIZE then Inl (WalDecode ''frame shorter than header'')
      else
        let l = get_u64 frame 0;
            body_len = unat (get_u32 frame 8);
            rtype = frame ! 12;
            txn_id = get_u64 frame 16;
            prev_lsn = get_u64 frame 24;
            total = RECORD_HEADER_SIZE + body_len + RECORD_CRC_SIZE
        in if length frame < total then Inl (WalDecode ''frame shorter than declared length'')
        else
          let crc_pos = RECORD_HEADER_SIZE + body_len in
          if get_u32 frame crc_pos \<noteq> crc32 (take crc_pos frame) then Inl CrcMismatch
          else bindE (decode_body rtype (slice RECORD_HEADER_SIZE body_len frame)) (\<lambda>payload.
            Inr (l, \<lparr>lr_txn_id = txn_id, lr_prev_lsn = prev_lsn, lr_payload = payload\<rparr>, total)))"


section \<open>Segment headers\<close>

definition SEGMENT_HEADER_SIZE :: nat where [simp]: "SEGMENT_HEADER_SIZE = 64"
definition WAL_FORMAT_VERSION :: u32 where "WAL_FORMAT_VERSION = 1"

definition SEG_MAGIC :: bytes where
  "SEG_MAGIC = [0x50, 0x52, 0x53, 0x4D, 0x57, 0x41, 0x4C, 0x00]"

definition CRC_BODY_LEN :: nat where [simp]: "CRC_BODY_LEN = 44"

record SegmentHeader =
  sh_format_version :: u32
  sh_segment_size :: u32
  sh_segment_id :: u64
  sh_first_lsn :: u64
  sh_created_at_micros :: u64
  sh_prev_segment_id :: u64

text \<open>
  The fields are written into a zeroed 64-byte buffer at their offsets.  The CRC covers the
  bytes 0..44, which leaves out the upper half of \<open>prev_segment_id\<close> (bytes 40..48).
\<close>

definition segment_header_encode :: "(bytes \<Rightarrow> u32) \<Rightarrow> SegmentHeader \<Rightarrow> bytes" where
  "segment_header_encode crc32 h =
     (let buf = replicate SEGMENT_HEADER_SIZE 0;
          buf = wr 0 SEG_MAGIC buf;
          buf = wr 8 (to_le_bytes (sh_format_version h)) buf;
          buf = wr 12 (to_le_bytes (sh_segment_size h)) buf;
          buf = wr 16 (to_le_bytes (sh_segment_id h)) buf;
          buf = wr 24 (to_le_bytes (sh_first_lsn h)) buf;
          buf = wr 32 (to_le_bytes (sh_created_at_micros h)) buf;
          buf = wr 40 (to_le_bytes (sh_prev_segment_id h)) buf
      in wr 48 (to_le_bytes (crc32 (take CRC_BODY_LEN buf))) buf)"

definition segment_header_decode :: "(bytes \<Rightarrow> u32) \<Rightarrow> bytes \<Rightarrow> WalError + SegmentHeader" where
  "segment_header_decode crc32 buf =
     (if length buf < SEGMENT_HEADER_SIZE then Inl (WalDecode ''segment shorter than header'')
      else if slice 0 8 buf \<noteq> SEG_MAGIC then Inl WalBadMagic
      else if get_u32 buf 48 \<noteq> crc32 (take CRC_BODY_LEN buf)
        then Inl (WalDecode ''segment header CRC mismatch'')
      else if get_u32 buf 8 \<noteq> WAL_FORMAT_VERSION then Inl (WalIncompatibleVersion (get_u32 buf 8))
      else Inr \<lparr>sh_format_version = get_u32 buf 8, sh_segment_size = get_u32 buf 12,
        sh_segment_id = get_u64 buf 16, sh_first_lsn = get_u64 buf 24,
        sh_created_at_micros = get_u64 buf 32, sh_prev_segment_id = get_u64 buf 40\<rparr>)"


section \<open>Log sequence numbers locate their record\<close>

lemma unat_lsn_from_parts: "unat (lsn_from_parts s off) = unat s * 4294967296 + unat off"
proof -
  let ?a = "push_bit 32 (ucast s :: u64)" and ?b = "ucast off :: u64"
  have "?a + ?b = ?a OR ?b"
    by (rule disjunctive_add) (auto simp: bit_simps dest: bit_imp_le_length)
  moreover have "unat ?a = unat s * 4294967296" "unat ?b = unat off"
    using unat_u32_less [of s] unat_u32_less [of off]
    by (simp_all add: push_bit_eq_mult unat_word_ariths unsigned_ucast_eq take_bit_eq_mod)
  ultimately show ?thesis
    using unat_u32_less [of s] unat_u32_less [of off] unat_add_lem [of ?a ?b]
    by (simp add: lsn_from_parts_def)
qed

lemma lsn_parts [simp]:
  "lsn_segment_id (lsn_from_parts s off) = s" "lsn_offset (lsn_from_parts s off) = off"
proof -
  have m: "(0xFFFFFFFF :: u64) = mask 32" by (simp add: mask_eq_exp_minus_1)
  have o: "unat off < 4294967296" by (rule unat_u32_less)
  have "unat (lsn_segment_id (lsn_from_parts s off)) = unat s"
    using o unat_u32_less [of s]
    by (simp add: lsn_segment_id_def unsigned_ucast_eq unat_lsn_from_parts
        drop_bit_eq_div unat_div take_bit_eq_mod)
  moreover have "unat (lsn_offset (lsn_from_parts s off)) = unat off"
    using o by (simp add: lsn_offset_def m take_bit_eq_mask [symmetric] unsigned_ucast_eq
        unat_lsn_from_parts take_bit_eq_mod unat_mod)
  ultimately show "lsn_segment_id (lsn_from_parts s off) = s" "lsn_offset (lsn_from_parts s off) = off"
    by (simp_all add: word_unat_eq_iff)
qed

section \<open>Round trips\<close>

interpretation c_dirty: codec enc_dirty dec_dirty "\<lambda>_. True"
  by unfold_locales (auto simp: enc_dirty_def dec_dirty_def reader_simps)

interpretation c_active: codec enc_active dec_active "\<lambda>_. True"
  by unfold_locales (auto simp: enc_active_def dec_active_def reader_simps)

text \<open>The lengths of a payload fit the 32-bit prefixes they are written with.\<close>

fun payload_fits :: "RecordPayload \<Rightarrow> bool" where
  "payload_fits (Insert p s a) \<longleftrightarrow> length a < 2 ^ 32"
| "payload_fits (Update p s b a) \<longleftrightarrow> length b < 2 ^ 32 \<and> length a < 2 ^ 32"
| "payload_fits (Delete p s b) \<longleftrightarrow> length b < 2 ^ 32"
| "payload_fits (Clr p s u n) \<longleftrightarrow> length u < 2 ^ 32"
| "payload_fits (CheckpointContents d a) \<longleftrightarrow> length d < 2 ^ 32 \<and> length a < 2 ^ 32"
| "payload_fits (FullPageImage p i) \<longleftrightarrow> length i < 2 ^ 32"
| "payload_fits _ \<longleftrightarrow> True"

lemma decode_bodyR_encode:
  "payload_fits p \<Longrightarrow> decode_bodyR (fst (encode_body p)) (snd (encode_body p) @ rest) = Inr (p, rest)"
  by (cases p) (simp_all add: decode_bodyR_def reader_simps c_dirty.rep_enc c_active.rep_enc unat_small_u32)

lemma decode_body_encode:
  "payload_fits p \<Longrightarrow> decode_body (fst (encode_body p)) (snd (encode_body p)) = Inr p"
  using decode_bodyR_encode [of p "[]"] by (simp add: decode_body_def)

definition frame_len :: "LogRecord \<Rightarrow> nat" where
  "frame_len r = RECORD_HEADER_SIZE + length (snd (encode_body (lr_payload r))) + RECORD_CRC_SIZE"

text \<open>A record can be framed: its fields fit their prefixes, and so does its body.\<close>

definition record_fits :: "LogRecord \<Rightarrow> bool" where
  "record_fits r \<longleftrightarrow> payload_fits (lr_payload r) \<and> length (snd (encode_body (lr_payload r))) < 2 ^ 32"

lemma assemble_frame_fields:
  assumes "length body < 2 ^ 32" and "f = assemble_frame crc32 l t p rt body @ rest"
  shows "length f = 36 + length body + length rest"
    and "get_u64 f 0 = l" and "unat (get_u32 f 8) = length body"
    and "f ! 12 = rt" and "get_u64 f 16 = t" and "get_u64 f 24 = p"
    and "slice 32 (length body) f = body"
    and "get_u32 f (32 + length body) = crc32 (take (32 + length body) f)"
proof -
  let ?h = "to_le_bytes l @ to_le_bytes (word_of_nat (length body) :: u32) @ [rt] @ [0, 0, 0] @
    to_le_bytes t @ to_le_bytes p"
  let ?crc = "to_le_bytes (crc32 (?h @ body))"
  have h: "length ?h = 32" by simp
  have f: "f = ?h @ body @ ?crc @ rest"
    using assms(2) by (simp add: assemble_frame_def Let_def)
  show "length f = 36 + length body + length rest" unfolding f using h by simp
  show "slice 32 (length body) f = body"
    unfolding f by (rule slice_append_exact [OF h refl])
  have f2: "f = (?h @ body) @ ?crc @ rest" using f by simp
  have "take (32 + length body) f = ?h @ body"
    unfolding f2 by (rule take_append_exact) simp
  moreover have "slice (32 + length body) 4 f = ?crc"
    unfolding f2 by (rule slice_append_exact) simp_all
  ultimately show "get_u32 f (32 + length body) = crc32 (take (32 + length body) f)"
    by (simp add: get_u32_def from_to_le_bytes)
qed (use assms in \<open>simp_all add: assemble_frame_def Let_def get_u64_def get_u32_def slice_def
      nth_append from_to_le_bytes unat_small_u32\<close>)

lemma length_encode_record [simp]: "record_fits r \<Longrightarrow> length (encode_record crc32 l r) = frame_len r"
  by (simp add: encode_record_def frame_len_def record_fits_def split_beta
      assemble_frame_fields(1) [OF _ append_Nil2 [symmetric]])

lemma decode_record_encode:
  assumes "record_fits r"
  shows "decode_record crc32 (encode_record crc32 l r @ rest) = Inr (l, r, frame_len r)"
proof -
  let ?body = "snd (encode_body (lr_payload r))"
  have fits: "length ?body < 2 ^ 32" "payload_fits (lr_payload r)"
    using assms by (simp_all add: record_fits_def)
  note f = assemble_frame_fields [OF fits(1) refl, of crc32 l "lr_txn_id r" "lr_prev_lsn r"
      "fst (encode_body (lr_payload r))" rest]
  show ?thesis
    using f decode_body_encode [OF fits(2)]
    by (simp add: encode_record_def decode_record_def split_beta frame_len_def Let_def)
qed

text \<open>What the scan loops read in front of a record: its LSN and its declared length.\<close>

lemma encode_record_head:
  assumes "record_fits r"
  shows "get_u64 (encode_record crc32 l r @ rest) 0 = l"
    and "unat (get_u32 (encode_record crc32 l r @ rest) 8) = frame_len r - 36"
  using assms
  by (simp_all add: encode_record_def split_beta frame_len_def record_fits_def
      assemble_frame_fields [OF _ refl])

text \<open>A frame cut short is reported as such, whatever the CRC function.\<close>

lemma decode_record_cut:
  assumes "record_fits r" and "n < frame_len r"
  shows "\<exists>m. decode_record crc32 (take n (encode_record crc32 l r)) = Inl (WalDecode m)"
proof (cases "n < 32")
  case True
  then show ?thesis by (simp add: decode_record_def min_less_iff_disj)
next
  case False
  let ?e = "encode_record crc32 l r"
  have "get_u32 (take n ?e) 8 = get_u32 ?e 8"
    using False by (simp add: get_u32_def slice_def drop_take)
  moreover have "unat (get_u32 ?e 8) = frame_len r - 36"
    using encode_record_head(2) [OF assms(1), of crc32 l "[]"] by simp
  moreover have "36 \<le> frame_len r" by (simp add: frame_len_def)
  ultimately show ?thesis using False assms by (simp add: decode_record_def Let_def)
qed

text \<open>A decoded frame passed its CRC check, and what was consumed lies inside the input.\<close>

lemma decode_record_consumed:
  assumes "decode_record crc32 b = Inr (l, r, n)"
  shows "36 \<le> n \<and> n \<le> length b \<and> l = get_u64 b 0 \<and> get_u32 b (n - 4) = crc32 (take (n - 4) b)"
  using assms by (auto simp: decode_record_def Let_def bindE_Inr_iff split: if_splits)

lemma segment_header_length [simp]: "length (segment_header_encode crc32 h) = 64"
  by (simp add: segment_header_encode_def Let_def SEG_MAGIC_def)

lemma segment_header_roundtrip:
  assumes "sh_format_version h = WAL_FORMAT_VERSION"
  shows "segment_header_decode crc32 (segment_header_encode crc32 h @ rest) = Inr h"
proof -
  define b0 where "b0 = wr 0 SEG_MAGIC (replicate 64 0)"
  define b1 where "b1 = wr 8 (to_le_bytes (sh_format_version h)) b0"
  define b2 where "b2 = wr 12 (to_le_bytes (sh_segment_size h)) b1"
  define b3 where "b3 = wr 16 (to_le_bytes (sh_segment_id h)) b2"
  define b4 where "b4 = wr 24 (to_le_bytes (sh_first_lsn h)) b3"
  define b5 where "b5 = wr 32 (to_le_bytes (sh_created_at_micros h)) b4"
  define b6 where "b6 = wr 40 (to_le_bytes (sh_prev_segment_id h)) b5"
  define b where "b = wr 48 (to_le_bytes (crc32 (take 44 b6))) b6"
  have e: "segment_header_encode crc32 h = b"
    by (simp add: segment_header_encode_def Let_def b_def b6_def b5_def b4_def b3_def b2_def b1_def b0_def)
  have m: "length SEG_MAGIC = 8" by (simp add: SEG_MAGIC_def)
  have l0: "length b0 = 64" using m by (simp add: b0_def)
  have l1: "length b1 = 64" using l0 by (simp add: b1_def)
  have l2: "length b2 = 64" using l1 by (simp add: b2_def)
  have l3: "length b3 = 64" using l2 by (simp add: b3_def)
  have l4: "length b4 = 64" using l3 by (simp add: b4_def)
  have l5: "length b5 = 64" using l4 by (simp add: b5_def)
  have l6: "length b6 = 64" using l5 by (simp add: b6_def)
  note w = l0 l1 l2 l3 l4 l5 l6 byte_simps
  have "take 44 b = take 44 b6" using l6 by (simp add: b_def wr_def)
  moreover have "slice 48 4 b = to_le_bytes (crc32 (take 44 b6))" by (simp add: w b_def)
  moreover have "slice 40 8 b = to_le_bytes (sh_prev_segment_id h)" by (simp add: w b_def b6_def)
  moreover have "slice 32 8 b = to_le_bytes (sh_created_at_micros h)" by (simp add: w b_def b6_def b5_def)
  moreover have "slice 24 8 b = to_le_bytes (sh_first_lsn h)" by (simp add: w b_def b6_def b5_def b4_def)
  moreover have "slice 16 8 b = to_le_bytes (sh_segment_id h)"
    by (simp add: w b_def b6_def b5_def b4_def b3_def)
  moreover have "slice 12 4 b = to_le_bytes (sh_segment_size h)"
    by (simp add: w b_def b6_def b5_def b4_def b3_def b2_def)
  moreover have "slice 8 4 b = to_le_bytes (sh_format_version h)"
    by (simp add: w b_def b6_def b5_def b4_def b3_def b2_def b1_def)
  moreover have "slice 0 8 b = SEG_MAGIC"
    using m by (simp add: w b_def b6_def b5_def b4_def b3_def b2_def b1_def b0_def)
  moreover have "length b = 64" using l6 by (simp add: b_def)
  ultimately show ?thesis
    using assms by (simp add: e segment_header_decode_def slice_append_left get_u32_def get_u64_def from_to_le_bytes)
qed

end
