(* ===== verification/Wal.thy ===== *)
theory Wal
  imports WalRecord "HOL-Library.AList" "HOL-Library.Sublist"
begin

text \<open>
  The write-ahead log (\<open>prism-wal/src/wal.rs\<close>): opening, appending with segment rotation,
  the coalescing flush and replay.  A directory is an association list from segment ids to
  file contents.  Besides the contents the process sees, the state keeps the contents as of
  the last \<open>sync_data\<close> of each file: a crash may keep, lose or tear every byte written since.
\<close>


section \<open>State\<close>

datatype SyncMode = Fsync | NoSync

type_synonym wal_dir = "(nat \<times> bytes) list"

record Config =
  cfg_segment_size :: nat
  cfg_sync_mode :: SyncMode

text \<open>\<open>Inner\<close> and the atomics of \<open>Wal\<close>; the open file handle is the file \<open>active_id\<close>.\<close>

record Wal =
  wal_files :: wal_dir
  wal_synced :: wal_dir
  wal_segment_size :: nat
  wal_sync_mode :: SyncMode
  wal_active_id :: nat
  wal_active_offset :: nat
  wal_last_lsn :: lsn
  wal_durable_lsn :: lsn

text \<open>\<open>seek\<close> followed by \<open>write_all\<close>: a write past the end extends the file with zeros.\<close>

definition file_write :: "nat \<Rightarrow> bytes \<Rightarrow> bytes \<Rightarrow> bytes" where
  "file_write off v b = take off (b @ replicate (off - length b) 0) @ v @ drop (off + length v) b"

definition lsn_at :: "nat \<Rightarrow> nat \<Rightarrow> lsn" where
  "lsn_at seg off = lsn_from_parts (word_of_nat seg) (word_of_nat off)"

definition sync_file :: "nat \<Rightarrow> Wal \<Rightarrow> Wal" where
  "sync_file seg w = (case map_of (wal_files w) seg of
     Some b \<Rightarrow> w\<lparr>wal_synced := AList.update seg b (wal_synced w)\<rparr>
   | None \<Rightarrow> w)"


section \<open>Segments\<close>

text \<open>
  \<open>create_segment\<close>: \<open>create_new\<close> refuses an existing file; the file is sized, gets its header
  and is synced when asked to.  The clock is the parameter \<open>now\<close>.
\<close>

definition segment_content :: "(bytes \<Rightarrow> u32) \<Rightarrow> u64 \<Rightarrow> nat \<Rightarrow> nat \<Rightarrow> nat \<Rightarrow> bytes" where
  "segment_content crc32 now seg prev_id sz =
     file_write 0 (segment_header_encode crc32
       \<lparr>sh_format_version = WAL_FORMAT_VERSION, sh_segment_size = word_of_nat sz,
        sh_segment_id = word_of_nat seg, sh_first_lsn = lsn_at seg SEGMENT_HEADER_SIZE,
        sh_created_at_micros = now, sh_prev_segment_id = word_of_nat prev_id\<rparr>)
       (replicate sz 0)"

definition create_segment ::
  "(bytes \<Rightarrow> u32) \<Rightarrow> u64 \<Rightarrow> nat \<Rightarrow> nat \<Rightarrow> bool \<Rightarrow> Wal \<Rightarrow> WalError + Wal" where
  "create_segment crc32 now seg prev_id sync w =
     (if map_of (wal_files w) seg \<noteq> None then Inl WalIo
      else
        let w1 = w\<lparr>wal_files := AList.update seg
              (segment_content crc32 now seg prev_id (wal_segment_size w)) (wal_files w)\<rparr>
        in Inr (if sync then sync_file seg w1 else w1))"

definition wal_rotate :: "(bytes \<Rightarrow> u32) \<Rightarrow> u64 \<Rightarrow> Wal \<Rightarrow> Wal \<times> (WalError + unit)" where
  "wal_rotate crc32 now w =
     (let sync = (wal_sync_mode w = Fsync);
          w1 = (if sync then sync_file (wal_active_id w) w else w);
          new_id = wal_active_id w + 1
      in case create_segment crc32 now new_id (wal_active_id w) sync w1 of
           Inl e \<Rightarrow> (w1, Inl e)
         | Inr w2 \<Rightarrow> (w2\<lparr>wal_active_id := new_id, wal_active_offset := SEGMENT_HEADER_SIZE\<rparr>, Inr ()))"

text \<open>
  \<open>scan_active\<close>: the next write offset and the last valid LSN of the active segment.  The
  loop consumes at least a header and a CRC per round.
\<close>

function scan_from :: "(bytes \<Rightarrow> u32) \<Rightarrow> bytes \<Rightarrow> nat \<Rightarrow> lsn \<Rightarrow> nat \<times> lsn" where
  "scan_from crc32 b off last_ok =
     (if off + RECORD_HEADER_SIZE > length b then (off, last_ok)
      else if get_u64 b off = 0 then (off, last_ok)
      else
        let total = RECORD_HEADER_SIZE + unat (get_u32 b (off + 8)) + RECORD_CRC_SIZE in
        if off + total > length b then (off, last_ok)
        else case decode_record crc32 (slice off total b) of
          Inr _ \<Rightarrow> scan_from crc32 b (off + total) (get_u64 b off)
        | Inl _ \<Rightarrow> (off, last_ok))"
  by pat_completeness auto
termination
  by (relation "measure (\<lambda>(_, b, off, _). length b - off)") auto

declare scan_from.simps [simp del]

definition scan_active :: "(bytes \<Rightarrow> u32) \<Rightarrow> bytes \<Rightarrow> nat \<times> lsn" where
  "scan_active crc32 b = scan_from crc32 b SEGMENT_HEADER_SIZE 0"


section \<open>Opening, appending, flushing\<close>

text \<open>
  \<open>Wal::open\<close> on a directory: the highest segment is scanned, or segment 0 is created.  What
  was read from the device counts as synced.
\<close>

definition wal_open :: "(bytes \<Rightarrow> u32) \<Rightarrow> u64 \<Rightarrow> Config \<Rightarrow> wal_dir \<Rightarrow> WalError + Wal" where
  "wal_open crc32 now cfg dir =
     (let ids = map fst dir;
          base = \<lparr>wal_files = dir, wal_synced = dir, wal_segment_size = cfg_segment_size cfg,
            wal_sync_mode = cfg_sync_mode cfg, wal_active_id = 0,
            wal_active_offset = SEGMENT_HEADER_SIZE, wal_last_lsn = 0, wal_durable_lsn = 0\<rparr>
      in if ids \<noteq> [] then
           let mx = fold max ids 0;
               b = the (map_of dir mx)
           in bindE (segment_header_decode crc32 b) (\<lambda>h.
             let (off, last_ok) = scan_active crc32 b
             in Inr (base\<lparr>wal_segment_size := unat (sh_segment_size h), wal_active_id := mx,
               wal_active_offset := off, wal_last_lsn := last_ok, wal_durable_lsn := last_ok\<rparr>))
         else create_segment crc32 now 0 0 (cfg_sync_mode cfg = Fsync) base)"

text \<open>The tail of \<open>Wal::append\<close>: the frame is written at the active offset.\<close>

definition wal_write :: "(bytes \<Rightarrow> u32) \<Rightarrow> Wal \<Rightarrow> LogRecord \<Rightarrow> Wal \<times> lsn" where
  "wal_write crc32 w r =
     (let (rtype, body) = encode_body (lr_payload r);
          total = RECORD_HEADER_SIZE + length body + RECORD_CRC_SIZE;
          l = lsn_at (wal_active_id w) (wal_active_offset w);
          frame = assemble_frame crc32 l (lr_txn_id r) (lr_prev_lsn r) rtype body;
          b = the (map_of (wal_files w) (wal_active_id w))
      in (w\<lparr>wal_files := AList.update (wal_active_id w)
                (file_write (wal_active_offset w) frame b) (wal_files w),
              wal_active_offset := wal_active_offset w + total,
              wal_last_lsn := l\<rparr>, l))"

text \<open>\<open>Wal::append\<close>; a segment size below the header size makes the subtraction panic.\<close>

definition wal_append ::
  "(bytes \<Rightarrow> u32) \<Rightarrow> u64 \<Rightarrow> Wal \<Rightarrow> LogRecord \<Rightarrow> (Wal \<times> (WalError + lsn)) exec" where
  "wal_append crc32 now w r = do {
     let (rtype, body) = encode_body (lr_payload r);
     let total = RECORD_HEADER_SIZE + length body + RECORD_CRC_SIZE;
     usable \<leftarrow> checked_sub (wal_segment_size w) SEGMENT_HEADER_SIZE;
     if total > usable then Some (w, Inl (RecordTooLarge total usable))
     else
       let (w1, res) =
         (if wal_active_offset w + total > wal_segment_size w then wal_rotate crc32 now w
          else (w, Inr ()))
       in case res of
            Inl e \<Rightarrow> Some (w1, Inl e)
          | Inr _ \<Rightarrow> (let (w2, l) = wal_write crc32 w1 r in Some (w2, Inr l)) }"

text \<open>
  \<open>flush_through\<close> in its three moments: under the inner lock it takes the last LSN and a
  handle of the active file, it syncs that file with the lock released, and it publishes the
  target.  Appends of other threads may fall in between; \<open>flush_lock\<close> admits one flusher.
\<close>

definition flush_capture :: "Wal \<Rightarrow> lsn \<times> nat \<times> bool" where
  "flush_capture w = (wal_last_lsn w, wal_active_id w, wal_sync_mode w = Fsync)"

definition flush_sync :: "lsn \<times> nat \<times> bool \<Rightarrow> Wal \<Rightarrow> Wal" where
  "flush_sync c w = (case c of (_, seg, sync) \<Rightarrow> if sync then sync_file seg w else w)"

definition flush_publish :: "lsn \<Rightarrow> Wal \<Rightarrow> Wal" where
  "flush_publish target w = w\<lparr>wal_durable_lsn := max (wal_durable_lsn w) target\<rparr>"

definition flush_through :: "lsn \<Rightarrow> Wal \<Rightarrow> Wal" where
  "flush_through up_to w =
     (if wal_durable_lsn w \<ge> up_to then w
      else let c = flush_capture w in flush_publish (fst c) (flush_sync c w))"


section \<open>Replay\<close>

lemma segments_above_less:
  assumes "(seg :: nat, b) \<in> set dir" and "seg < seg'"
  shows "card {k \<in> fst ` set dir. seg' \<le> k} < card {k \<in> fst ` set dir. seg \<le> k}"
proof (rule psubset_card_mono)
  have "seg \<in> fst ` set dir" using rev_image_eqI [OF assms(1), of seg fst] by simp
  then have "seg \<in> {k \<in> fst ` set dir. seg \<le> k} - {k \<in> fst ` set dir. seg' \<le> k}"
    using assms(2) by simp
  moreover have "{k \<in> fst ` set dir. seg' \<le> k} \<subseteq> {k \<in> fst ` set dir. seg \<le> k}"
    using assms(2) by auto
  ultimately show "{k \<in> fst ` set dir. seg' \<le> k} \<subset> {k \<in> fst ` set dir. seg \<le> k}" by blast
qed simp

record Replay =
  rp_seg_id :: nat
  rp_offset :: nat
  rp_done :: bool

text \<open>
  \<open>Replay::next\<close>.  The iterator's cached copy of the segment is the file itself: replay is
  single-threaded by contract.
\<close>

function replay_next :: "(bytes \<Rightarrow> u32) \<Rightarrow> wal_dir \<Rightarrow> nat \<Rightarrow> nat \<Rightarrow>
    Replay \<times> (WalError + lsn \<times> LogRecord) option" where
  "replay_next crc32 dir seg off =
     (case map_of dir seg of
        None \<Rightarrow> (\<lparr>rp_seg_id = seg, rp_offset = off, rp_done = True\<rparr>, None)
      | Some b \<Rightarrow>
          if off + RECORD_HEADER_SIZE > length b \<or> get_u64 b off = 0
          then replay_next crc32 dir (seg + 1) SEGMENT_HEADER_SIZE
          else
            let total = RECORD_HEADER_SIZE + unat (get_u32 b (off + 8)) + RECORD_CRC_SIZE in
            if off + total > length b
            then (\<lparr>rp_seg_id = seg, rp_offset = off, rp_done = True\<rparr>, None)
            else case decode_record crc32 (slice off total b) of
              Inr (l, r, consumed) \<Rightarrow>
                (\<lparr>rp_seg_id = seg, rp_offset = off + consumed, rp_done = False\<rparr>, Some (Inr (l, r)))
            | Inl e \<Rightarrow>
                (\<lparr>rp_seg_id = seg, rp_offset = off, rp_done = True\<rparr>,
                 if e = CrcMismatch then None else Some (Inl e)))"
  by pat_completeness auto
termination
  by (relation "measure (\<lambda>(_, dir, seg, _). card {k \<in> fst ` set dir. seg \<le> k})")
    (auto intro!: segments_above_less dest: map_of_SomeD)

declare replay_next.simps [simp del]

lemma replay_next_missing:
  "map_of dir seg = None \<Longrightarrow>
   replay_next crc32 dir seg off = (\<lparr>rp_seg_id = seg, rp_offset = off, rp_done = True\<rparr>, None)"
  by (simp add: replay_next.simps [of _ _ seg])

lemma replay_next_skip:
  "map_of dir seg = Some b \<Longrightarrow> off + 32 > length b \<or> get_u64 b off = 0 \<Longrightarrow>
   replay_next crc32 dir seg off = replay_next crc32 dir (seg + 1) 64"
  by (simp add: replay_next.simps [of _ _ seg])

lemma replay_next_frame:
  assumes "map_of dir seg = Some b" and "off + 32 \<le> length b" and "get_u64 b off \<noteq> 0"
    and "tot = 36 + unat (get_u32 b (off + 8))"
  shows "replay_next crc32 dir seg off =
    (if off + tot > length b then (\<lparr>rp_seg_id = seg, rp_offset = off, rp_done = True\<rparr>, None)
     else case decode_record crc32 (slice off tot b) of
       Inr (l, r, consumed) \<Rightarrow>
         (\<lparr>rp_seg_id = seg, rp_offset = off + consumed, rp_done = False\<rparr>, Some (Inr (l, r)))
     | Inl e \<Rightarrow> (\<lparr>rp_seg_id = seg, rp_offset = off, rp_done = True\<rparr>,
         if e = CrcMismatch then None else Some (Inl e)))"
proof -
  have "\<not> (off + RECORD_HEADER_SIZE > length b \<or> get_u64 b off = 0)"
    "RECORD_HEADER_SIZE + unat (get_u32 b (off + 8)) + RECORD_CRC_SIZE = tot"
    using assms by simp_all
  then show ?thesis
    unfolding replay_next.simps [of _ _ seg] assms(1) option.case Let_def by simp
qed

lemma replay_next_progress:
  assumes "replay_next crc32 dir seg off = (st, Some x)" and "\<not> rp_done st"
  shows "(\<exists>b. (seg, b) \<in> set dir) \<and> (\<exists>b. map_of dir (rp_seg_id st) = Some b \<and>
    rp_offset st \<le> length b \<and> seg \<le> rp_seg_id st \<and> (rp_seg_id st = seg \<longrightarrow> off < rp_offset st))"
  using assms
proof (induction crc32 dir seg off rule: replay_next.induct)
  case (1 crc32 dir seg off)
  show ?case
  proof (cases "map_of dir seg")
    case None
    then show ?thesis using 1(2) by (simp add: replay_next_missing)
  next
    case (Some b)
    then have mem: "(seg, b) \<in> set dir" by (rule map_of_SomeD)
    show ?thesis
    proof (cases "off + 32 > length b \<or> get_u64 b off = 0")
      case True
      then have "replay_next crc32 dir (seg + 1) 64 = (st, Some x)"
        using 1(2) replay_next_skip [OF Some True] by simp
      then show ?thesis using 1(1) [OF Some] True 1(3) mem by fastforce
    next
      case False
      define tot where "tot = 36 + unat (get_u32 b (off + 8))"
      have "off + 32 \<le> length b" "get_u64 b off \<noteq> 0" using False by auto
      note nx = replay_next_frame [OF Some this tot_def, of crc32]
      obtain l r n where d: "decode_record crc32 (slice off tot b) = Inr (l, r, n)"
        and st: "st = \<lparr>rp_seg_id = seg, rp_offset = off + n, rp_done = False\<rparr>" and "off + tot \<le> length b"
        using 1(2,3) unfolding nx by (auto split: if_splits sum.splits)
      then show ?thesis using decode_record_consumed [OF d] mem Some by auto
    qed
  qed
qed

text \<open>Draining the iterator: what recovery sees.\<close>

function replay_list :: "(bytes \<Rightarrow> u32) \<Rightarrow> wal_dir \<Rightarrow> nat \<Rightarrow> nat \<Rightarrow>
    (WalError + lsn \<times> LogRecord) list" where
  "replay_list crc32 dir seg off =
     (case replay_next crc32 dir seg off of
        (st, None) \<Rightarrow> []
      | (st, Some x) \<Rightarrow>
          x # (if rp_done st then [] else replay_list crc32 dir (rp_seg_id st) (rp_offset st)))"
  by pat_completeness auto
termination
proof (relation "measures [\<lambda>(_, dir, seg, _). card {k \<in> fst ` set dir. seg \<le> k},
    \<lambda>(_, dir, seg, off). length (the (map_of dir seg)) - off]", goal_cases)
  case (2 crc32 dir seg off x y z)
  then obtain b b0 where b: "map_of dir (rp_seg_id x) = Some b" "rp_offset x \<le> length b"
    "seg \<le> rp_seg_id x" "rp_seg_id x = seg \<longrightarrow> off < rp_offset x"
    and mem: "(seg, b0) \<in> set dir"
    using replay_next_progress [of crc32 dir seg off x] by metis
  show ?case
    using b segments_above_less [OF mem, of "rp_seg_id x"] by (cases "rp_seg_id x = seg") auto
qed simp

declare replay_list.simps [simp del]

definition wal_replay :: "(bytes \<Rightarrow> u32) \<Rightarrow> wal_dir \<Rightarrow> lsn \<Rightarrow> (WalError + lsn \<times> LogRecord) list" where
  "wal_replay crc32 dir from = replay_list crc32 dir (unat (lsn_segment_id from))
     (max (unat (lsn_offset from)) SEGMENT_HEADER_SIZE)"


section \<open>Specification: the log as a list of records per segment\<close>

fun frames :: "(bytes \<Rightarrow> u32) \<Rightarrow> nat \<Rightarrow> nat \<Rightarrow> LogRecord list \<Rightarrow> bytes" where
  "frames crc32 seg off [] = []"
| "frames crc32 seg off (r # rs) =
     encode_record crc32 (lsn_at seg off) r @ frames crc32 seg (off + frame_len r) rs"

definition frames_len :: "LogRecord list \<Rightarrow> nat" where
  "frames_len rs = sum_list (map frame_len rs)"

fun log_items :: "nat \<Rightarrow> nat \<Rightarrow> LogRecord list \<Rightarrow> (lsn \<times> LogRecord) list" where
  "log_items seg off [] = []"
| "log_items seg off (r # rs) = (lsn_at seg off, r) # log_items seg (off + frame_len r) rs"

text \<open>The bytes \<open>b\<close> of segment \<open>seg\<close> hold the records \<open>rs\<close> from its header on.\<close>

definition holds :: "(bytes \<Rightarrow> u32) \<Rightarrow> nat \<Rightarrow> bytes \<Rightarrow> LogRecord list \<Rightarrow> bool" where
  "holds crc32 seg b rs \<longleftrightarrow> 64 + frames_len rs \<le> length b \<and> (\<forall>r \<in> set rs. record_fits r) \<and>
     slice 64 (frames_len rs) b = frames crc32 seg 64 rs"

lemma frames_len_simps [simp]:
  "frames_len [] = 0" "frames_len (r # rs) = frame_len r + frames_len rs"
  "frames_len (rs @ rs') = frames_len rs + frames_len rs'"
  by (simp_all add: frames_len_def)

lemma frame_len_pos: "36 \<le> frame_len r"
  by (simp add: frame_len_def)

lemma length_frames [simp]:
  "\<forall>r \<in> set rs. record_fits r \<Longrightarrow> length (frames crc32 seg off rs) = frames_len rs"
  by (induction rs arbitrary: off) simp_all

lemma frames_append [simp]:
  "frames crc32 seg off (rs @ rs') = frames crc32 seg off rs @ frames crc32 seg (off + frames_len rs) rs'"
  by (induction rs arbitrary: off) (simp_all add: add.assoc)

lemma log_items_append [simp]:
  "log_items seg off (rs @ rs') = log_items seg off rs @ log_items seg (off + frames_len rs) rs'"
  by (induction rs arbitrary: off) (simp_all add: add.assoc)

lemma unat_lsn_at:
  "seg < 4294967296 \<Longrightarrow> off < 4294967296 \<Longrightarrow> unat (lsn_at seg off) = seg * 4294967296 + off"
  by (simp add: lsn_at_def unat_lsn_from_parts unat_small_u32)

text \<open>Segments are at most 4 GiB, so every record of a log has a nonzero LSN.\<close>

lemma lsn_at_nonzero:
  assumes "seg < 4294967296" and "off < 4294967296" and "0 < off"
  shows "lsn_at seg off \<noteq> 0"
proof
  assume "lsn_at seg off = 0"
  then have "unat (lsn_at seg off) = 0" by simp
  then show False using unat_lsn_at [OF assms(1,2)] assms(3) by simp
qed

text \<open>Reading one frame in place.\<close>

lemma frame_in_place:
  assumes "slice off (frame_len r) b = encode_record crc32 l r" and "off + frame_len r \<le> length b"
    and "record_fits r"
  shows "get_u64 b off = l" and "36 + unat (get_u32 b (off + 8)) = frame_len r"
    and "decode_record crc32 (slice off (frame_len r) b) = Inr (l, r, frame_len r)"
proof -
  have sub: "slice (off + k) n b = slice k n (encode_record crc32 l r)" if "k + n \<le> frame_len r" for k n
    using slice_slice [OF that, of off b] assms(1) by simp
  show "get_u64 b off = l"
    using sub [of 0 8] encode_record_head(1) [OF assms(3), of crc32 l "[]"] frame_len_pos [of r]
    by (simp add: get_u64_def)
  show "36 + unat (get_u32 b (off + 8)) = frame_len r"
    using sub [of 8 4] encode_record_head(2) [OF assms(3), of crc32 l "[]"] frame_len_pos [of r]
    by (simp add: get_u32_def)
  show "decode_record crc32 (slice off (frame_len r) b) = Inr (l, r, frame_len r)"
    using decode_record_encode [OF assms(3), of crc32 l "[]"] assms(1) by simp
qed

lemma slice_frames_Cons:
  assumes "slice off (frames_len (r # rs)) b = frames crc32 seg off (r # rs)"
    and "off + frames_len (r # rs) \<le> length b" and "\<forall>r \<in> set (r # rs). record_fits r"
  shows "slice off (frame_len r) b = encode_record crc32 (lsn_at seg off) r"
    and "slice (off + frame_len r) (frames_len rs) b = frames crc32 seg (off + frame_len r) rs"
proof -
  have "slice off (frame_len r) b = slice 0 (frame_len r) (slice off (frames_len (r # rs)) b)"
    by (simp add: slice_slice)
  then show "slice off (frame_len r) b = encode_record crc32 (lsn_at seg off) r"
    unfolding assms(1) using assms(3) by (simp add: slice_def)
  have "slice (off + frame_len r) (frames_len rs) b =
      slice (frame_len r) (frames_len rs) (slice off (frames_len (r # rs)) b)"
    by (simp add: slice_slice)
  then show "slice (off + frame_len r) (frames_len rs) b = frames crc32 seg (off + frame_len r) rs"
    unfolding assms(1) using assms(2,3) by (simp add: slice_def)
qed

lemma frames_head:
  assumes "slice off (frames_len (r # rs)) b = frames crc32 seg off (r # rs)"
    and "off + frames_len (r # rs) \<le> length b" and "\<forall>r \<in> set (r # rs). record_fits r"
    and "seg < 4294967296" and "length b \<le> 4294967295" and "0 < off"
  shows "off + 32 \<le> length b" and "off + frame_len r \<le> length b" and "get_u64 b off = lsn_at seg off"
    and "get_u64 b off \<noteq> 0" and "36 + unat (get_u32 b (off + 8)) = frame_len r"
    and "decode_record crc32 (slice off (frame_len r) b) = Inr (lsn_at seg off, r, frame_len r)"
    and "slice (off + frame_len r) (frames_len rs) b = frames crc32 seg (off + frame_len r) rs"
proof -
  have fit: "record_fits r" and len: "off + frame_len r \<le> length b" using assms(2,3) by auto
  note sl = slice_frames_Cons [OF assms(1-3)]
  note fr = frame_in_place [OF sl(1) len fit]
  show "off + 32 \<le> length b" "off + frame_len r \<le> length b" "get_u64 b off = lsn_at seg off"
    "get_u64 b off \<noteq> 0"
    using fr(1) lsn_at_nonzero [of seg off] assms(4-) len frame_len_pos [of r] by auto
  show "36 + unat (get_u32 b (off + 8)) = frame_len r"
    "decode_record crc32 (slice off (frame_len r) b) = Inr (lsn_at seg off, r, frame_len r)"
    "slice (off + frame_len r) (frames_len rs) b = frames crc32 seg (off + frame_len r) rs"
    by (fact fr(2) fr(3) sl(2))+
qed

text \<open>Replay and the scan of the active segment walk over the frames they find.\<close>

lemma replay_list_frames:
  assumes "map_of dir seg = Some b" and "seg < 4294967296" and "length b \<le> 4294967295"
    and "0 < off" and "off + frames_len rs \<le> length b" and "\<forall>r \<in> set rs. record_fits r"
    and "slice off (frames_len rs) b = frames crc32 seg off rs"
  shows "replay_list crc32 dir seg off =
    map Inr (log_items seg off rs) @ replay_list crc32 dir seg (off + frames_len rs)"
  using assms(4-)
proof (induction rs arbitrary: off)
  case (Cons r rs)
  note hd = frames_head [OF Cons.prems(4,2,3) assms(2,3) Cons.prems(1)]
  have "replay_next crc32 dir seg off =
      (\<lparr>rp_seg_id = seg, rp_offset = off + frame_len r, rp_done = False\<rparr>, Some (Inr (lsn_at seg off, r)))"
    using replay_next_frame [OF assms(1) hd(1,4) hd(5) [symmetric], of crc32] hd by simp
  then have "replay_list crc32 dir seg off =
      Inr (lsn_at seg off, r) # replay_list crc32 dir seg (off + frame_len r)"
    by (simp add: replay_list.simps [of _ _ seg off])
  then show ?case using Cons.IH [OF _ _ _ hd(7)] Cons.prems by (simp add: add.assoc)
qed simp

lemma scan_from_frames:
  assumes "seg < 4294967296" and "length b \<le> 4294967295"
    and "0 < off" and "off + frames_len rs \<le> length b" and "\<forall>r \<in> set rs. record_fits r"
    and "slice off (frames_len rs) b = frames crc32 seg off rs"
  shows "scan_from crc32 b off l =
    scan_from crc32 b (off + frames_len rs) (last (l # map fst (log_items seg off rs)))"
  using assms(3-)
proof (induction rs arbitrary: off l)
  case (Cons r rs)
  note hd = frames_head [OF Cons.prems(4,2,3) assms(1,2) Cons.prems(1)]
  have tot: "RECORD_HEADER_SIZE + unat (get_u32 b (off + 8)) + RECORD_CRC_SIZE = frame_len r"
    using hd(5) by simp
  have "scan_from crc32 b off l = scan_from crc32 b (off + frame_len r) (lsn_at seg off)"
    using hd unfolding scan_from.simps [of _ _ off] tot Let_def by simp
  then show ?case using Cons.IH [OF _ _ _ hd(7)] Cons.prems by (simp add: add.assoc)
qed simp

text \<open>An exhausted segment, and a segment that ends in a torn frame.\<close>

lemma replay_list_skip:
  "map_of dir seg = Some b \<Longrightarrow> off + 32 > length b \<or> get_u64 b off = 0 \<Longrightarrow>
   replay_list crc32 dir seg off = replay_list crc32 dir (seg + 1) 64"
  using replay_next_skip [of dir seg b off crc32]
  by (simp only: replay_list.simps [of _ _ seg off] replay_list.simps [of _ _ "seg + 1" 64])

lemma replay_list_missing: "map_of dir seg = None \<Longrightarrow> replay_list crc32 dir seg off = []"
  by (simp add: replay_list.simps replay_next_missing)


section \<open>Well-formed logs\<close>

text \<open>A segment of size \<open>sz\<close> with a valid header, that holds \<open>rs\<close> and is zero behind them.\<close>

definition header_ok :: "(bytes \<Rightarrow> u32) \<Rightarrow> nat \<Rightarrow> bytes \<Rightarrow> bool" where
  "header_ok crc32 sz b \<longleftrightarrow>
     (\<exists>h. segment_header_decode crc32 (take 64 b) = Inr h \<and> unat (sh_segment_size h) = sz)"

definition seg_clean :: "(bytes \<Rightarrow> u32) \<Rightarrow> nat \<Rightarrow> nat \<Rightarrow> bytes \<Rightarrow> LogRecord list \<Rightarrow> bool" where
  "seg_clean crc32 seg sz b rs \<longleftrightarrow> length b = sz \<and> header_ok crc32 sz b \<and> holds crc32 seg b rs \<and>
     drop (64 + frames_len rs) b = replicate (sz - (64 + frames_len rs)) 0"

definition wal_inv :: "(bytes \<Rightarrow> u32) \<Rightarrow> Wal \<Rightarrow> LogRecord list list \<Rightarrow> bool" where
  "wal_inv crc32 w L \<longleftrightarrow>
     length L = Suc (wal_active_id w) \<and> wal_active_id w < 4294967296 \<and>
     64 \<le> wal_segment_size w \<and> wal_segment_size w \<le> 4294967295 \<and>
     (\<forall>i. map_of (wal_files w) i \<noteq> None \<longleftrightarrow> i \<le> wal_active_id w) \<and>
     (\<forall>i \<le> wal_active_id w.
        seg_clean crc32 i (wal_segment_size w) (the (map_of (wal_files w) i)) (L ! i)) \<and>
     wal_active_offset w = 64 + frames_len (last L)"

definition all_items :: "LogRecord list list \<Rightarrow> (lsn \<times> LogRecord) list" where
  "all_items L = concat (map (\<lambda>i. log_items i 64 (L ! i)) [0..<length L])"

lemma all_items_snoc: "all_items (L @ [rs]) = all_items L @ log_items (length L) 64 rs"
proof -
  have eq: "map (\<lambda>i. log_items i 64 ((L @ [rs]) ! i)) [0..<length L] =
      map (\<lambda>i. log_items i 64 (L ! i)) [0..<length L]"
    by (simp add: nth_append)
  show ?thesis by (simp add: all_items_def eq)
qed

lemma all_items_last:
  "L \<noteq> [] \<Longrightarrow> all_items L = all_items (butlast L) @ log_items (length L - 1) 64 (last L)"
  using all_items_snoc [of "butlast L" "last L"] by simp

lemma file_write_in_range: "off + length v \<le> length b \<Longrightarrow> file_write off v b = wr off v b"
  by (simp add: file_write_def wr_def)

lemma fits_of_body: "length (snd (encode_body p)) < 2 ^ 32 \<Longrightarrow> payload_fits p"
proof (cases p)
  case (CheckpointContents d a)
  have "length (concat (map enc_dirty d)) = 16 * length d"
    by (simp add: length_concat enc_dirty_def split_beta comp_def sum_list_triv)
  moreover have "length (concat (map enc_active a)) = 17 * length a"
    by (simp add: length_concat enc_active_def split_beta comp_def sum_list_triv)
  moreover assume "length (snd (encode_body p)) < 2 ^ 32"
  ultimately show ?thesis using CheckpointContents by simp
qed (simp_all add: put_bytes_u32_def)

lemma record_fits_of_frame: "frame_len r \<le> 4294967295 \<Longrightarrow> record_fits r"
  using fits_of_body [of "lr_payload r"] by (simp add: record_fits_def frame_len_def)

lemma zero_tail_get_u64:
  assumes "drop off b = replicate n 0"
  shows "get_u64 b off = 0"
proof -
  show ?thesis using assms by (simp add: get_u64_def slice_def from_le_bytes_def)
qed

lemma header_decode_take:
  assumes "64 \<le> length b"
  shows "segment_header_decode crc32 (take 64 b) = segment_header_decode crc32 b"
  using assms by (simp add: segment_header_decode_def get_u32_def get_u64_def slice_def drop_take)

lemma seg_clean_new:
  assumes "64 \<le> sz" and "sz \<le> 4294967295"
  shows "seg_clean crc32 seg sz (segment_content crc32 now seg prev sz) []"
proof -
  have "header_ok crc32 sz (segment_content crc32 now seg prev sz)"
    using assms segment_header_roundtrip [of _ crc32 "[]"]
    by (simp add: header_ok_def segment_content_def file_write_def unat_small_u32)
  then show ?thesis
    using assms by (simp add: seg_clean_def holds_def segment_content_def file_write_def slice_def)
qed

lemma seg_clean_append:
  assumes c: "seg_clean crc32 seg sz b rs" and fit: "record_fits r"
    and room: "64 + frames_len rs + frame_len r \<le> sz"
  defines "off \<equiv> 64 + frames_len rs"
  shows "seg_clean crc32 seg sz (file_write off (encode_record crc32 (lsn_at seg off) r) b) (rs @ [r])"
proof -
  let ?e = "encode_record crc32 (lsn_at seg off) r"
  have len: "length b = sz" "length ?e = frame_len r" "off + length ?e \<le> length b"
    using c fit room by (simp_all add: seg_clean_def off_def)
  let ?b = "wr off ?e b"
  have fw: "file_write off ?e b = ?b" by (rule file_write_in_range [OF len(3)])
  have split: "slice 64 (frames_len rs + frame_len r) x = slice 64 (frames_len rs) x @ slice off (frame_len r) x"
    for x :: bytes
    by (simp add: slice_def off_def take_add drop_drop add.commute)
  have "slice 64 (frames_len rs) ?b = frames crc32 seg 64 rs" "slice off (frame_len r) ?b = ?e"
    using c len by (simp_all add: byte_simps off_def seg_clean_def holds_def)
  moreover have "64 + (frames_len rs + frame_len r) \<le> length ?b" using len room by simp
  ultimately have "holds crc32 seg ?b (rs @ [r])"
    using c fit by (simp add: holds_def seg_clean_def split off_def [symmetric])
  moreover have "drop off b = replicate (sz - off) 0" using c by (simp add: seg_clean_def off_def)
  then have "drop (frame_len r) (drop off b) = replicate (sz - (off + frame_len r)) 0" by simp
  then have "drop (off + frame_len r) ?b = replicate (sz - (off + frame_len r)) 0"
    using len by (simp add: wr_def add.commute)
  moreover have "take 64 ?b = take 64 b" using len by (simp add: wr_def off_def)
  ultimately show ?thesis
    using c len fw by (simp add: seg_clean_def header_ok_def off_def add.assoc)
qed


lemma wal_inv_files:
  assumes "wal_inv crc32 w L" and "i \<le> wal_active_id w"
  obtains b where "map_of (wal_files w) i = Some b" and "seg_clean crc32 i (wal_segment_size w) b (L ! i)"
  using assms unfolding wal_inv_def by (metis option.collapse)

lemma wal_inv_last: "wal_inv crc32 w L \<Longrightarrow> L \<noteq> [] \<and> last L = L ! wal_active_id w"
  by (cases L rule: rev_cases) (auto simp: wal_inv_def nth_append)

text \<open>Replay of a well-formed run of segments.\<close>

lemma replay_segments:
  assumes "\<And>i. i < n \<Longrightarrow> \<exists>b. map_of dir i = Some b \<and> seg_clean crc32 i sz b (L ! i)"
    and "sz \<le> 4294967295" and "n \<le> 4294967296" and "n \<le> length L"
  shows "replay_list crc32 dir 0 64 = map Inr (all_items (take n L)) @ replay_list crc32 dir n 64"
  using assms(1,3,4)
proof (induction n)
  case 0
  then show ?case by (simp add: all_items_def)
next
  case (Suc n)
  obtain b where b: "map_of dir n = Some b" "seg_clean crc32 n sz b (L ! n)" using Suc.prems(1) by blast
  let ?off = "64 + frames_len (L ! n)"
  have h: "holds crc32 n b (L ! n)" "length b = sz" using b(2) by (simp_all add: seg_clean_def)
  have "replay_list crc32 dir n 64 =
      map Inr (log_items n 64 (L ! n)) @ replay_list crc32 dir n ?off"
    using h assms(2) Suc.prems(2) by (intro replay_list_frames [OF b(1)]) (simp_all add: holds_def)
  also have "get_u64 b ?off = 0"
    by (rule zero_tail_get_u64) (use b(2) in \<open>simp add: seg_clean_def\<close>)
  then have "replay_list crc32 dir n ?off = replay_list crc32 dir (n + 1) 64"
    by (intro replay_list_skip [OF b(1)]) simp
  finally show ?case
    using Suc by (simp add: take_Suc_conv_app_nth all_items_snoc)
qed

lemma wal_inv_replay:
  assumes "wal_inv crc32 w L"
  shows "wal_replay crc32 (wal_files w) 0 = map Inr (all_items L)"
proof -
  let ?n = "Suc (wal_active_id w)"
  have "replay_list crc32 (wal_files w) 0 64 =
      map Inr (all_items (take ?n L)) @ replay_list crc32 (wal_files w) ?n 64"
    using assms wal_inv_files [OF assms]
    by (intro replay_segments [where sz = "wal_segment_size w"]) (auto simp: wal_inv_def, metis less_Suc_eq_le)
  moreover have "map_of (wal_files w) ?n = None"
    using assms unfolding wal_inv_def by (meson Suc_n_not_le_n)
  moreover have "length L = ?n" using assms by (simp add: wal_inv_def)
  ultimately show ?thesis
    by (simp add: wal_replay_def replay_list_missing lsn_segment_id_def lsn_offset_def)
qed

text \<open>The effect of rotation and of the write of one frame.\<close>

lemma sync_file_frame [simp]:
  "wal_files (sync_file seg w) = wal_files w" "wal_segment_size (sync_file seg w) = wal_segment_size w"
  "wal_sync_mode (sync_file seg w) = wal_sync_mode w" "wal_active_id (sync_file seg w) = wal_active_id w"
  "wal_active_offset (sync_file seg w) = wal_active_offset w"
  "wal_last_lsn (sync_file seg w) = wal_last_lsn w" "wal_durable_lsn (sync_file seg w) = wal_durable_lsn w"
  by (simp_all add: sync_file_def split: option.splits)

lemma sync_file_synced:
  "map_of (wal_files w) seg = Some b \<Longrightarrow>
   map_of (wal_synced (sync_file seg w)) = (map_of (wal_synced w))(seg \<mapsto> b)"
  by (simp add: sync_file_def update_conv')

lemma wal_rotate_spec:
  assumes inv: "wal_inv crc32 w L" and bound: "wal_active_id w + 1 < 4294967296"
    and sync: "wal_sync_mode w = Fsync"
  obtains w' b nb where "wal_rotate crc32 now w = (w', Inr ())" and "wal_inv crc32 w' (L @ [[]])"
    and "wal_segment_size w' = wal_segment_size w" and "wal_sync_mode w' = Fsync"
    and "wal_active_id w' = wal_active_id w + 1" and "wal_durable_lsn w' = wal_durable_lsn w"
    and "map_of (wal_files w) (wal_active_id w) = Some b"
    and "map_of (wal_files w') = (map_of (wal_files w))(wal_active_id w + 1 \<mapsto> nb)"
    and "map_of (wal_synced w') = (map_of (wal_synced w))(wal_active_id w \<mapsto> b, wal_active_id w + 1 \<mapsto> nb)"
proof -
  let ?a = "wal_active_id w" and ?sz = "wal_segment_size w"
  define nb where "nb = segment_content crc32 now (?a + 1) ?a ?sz"
  define w' where "w' = snd (wal_rotate crc32 now w, fst (wal_rotate crc32 now w))"
  obtain b where b: "map_of (wal_files w) ?a = Some b" using wal_inv_files [OF inv, of ?a] by blast
  have new: "map_of (wal_files w) (?a + 1) = None"
    using inv unfolding wal_inv_def by (metis Suc_eq_plus1 Suc_n_not_le_n)
  have rot: "wal_rotate crc32 now w = (w', Inr ())"
    using new sync by (simp add: w'_def wal_rotate_def create_segment_def Let_def)
  have f: "wal_segment_size w' = ?sz" "wal_sync_mode w' = Fsync" "wal_active_id w' = ?a + 1"
    "wal_durable_lsn w' = wal_durable_lsn w" "wal_active_offset w' = 64"
    "map_of (wal_files w') = (map_of (wal_files w))(?a + 1 \<mapsto> nb)"
    using new sync by (simp_all add: w'_def wal_rotate_def create_segment_def Let_def update_conv' nb_def)
  have s: "map_of (wal_synced w') = (map_of (wal_synced w))(?a \<mapsto> b, ?a + 1 \<mapsto> nb)"
    using new sync b
    by (simp add: w'_def wal_rotate_def create_segment_def Let_def update_conv' nb_def sync_file_synced)
  have "wal_inv crc32 w' (L @ [[]])"
    using inv bound seg_clean_new [of ?sz crc32 "?a + 1" now ?a]
    by (auto simp: wal_inv_def f nb_def nth_append le_Suc_eq)
  then show thesis using that rot f(1-4,6) b s by blast
qed

lemma wal_write_spec:
  assumes inv: "wal_inv crc32 w L" and room: "wal_active_offset w + frame_len r \<le> wal_segment_size w"
    and w': "wal_write crc32 w r = (w', l)"
  shows "l = lsn_at (wal_active_id w) (wal_active_offset w)"
    and "wal_inv crc32 w' (butlast L @ [last L @ [r]])" and "wal_last_lsn w' = l"
    and "wal_segment_size w' = wal_segment_size w" and "wal_sync_mode w' = wal_sync_mode w"
    and "wal_active_id w' = wal_active_id w" and "wal_durable_lsn w' = wal_durable_lsn w"
    and "wal_active_offset w' = wal_active_offset w + frame_len r" and "wal_synced w' = wal_synced w"
    and "map_of (wal_files w') = (map_of (wal_files w))(wal_active_id w \<mapsto>
      file_write (wal_active_offset w) (encode_record crc32 l r) (the (map_of (wal_files w) (wal_active_id w))))"
proof -
  let ?a = "wal_active_id w" and ?off = "wal_active_offset w"
  show f: "l = lsn_at ?a ?off" "wal_last_lsn w' = l" "wal_segment_size w' = wal_segment_size w"
    "wal_sync_mode w' = wal_sync_mode w" "wal_active_id w' = ?a" "wal_durable_lsn w' = wal_durable_lsn w"
    "wal_active_offset w' = ?off + frame_len r" "wal_synced w' = wal_synced w"
    "map_of (wal_files w') = (map_of (wal_files w))(?a \<mapsto>
      file_write ?off (encode_record crc32 l r) (the (map_of (wal_files w) ?a)))"
    using w' by (auto simp: wal_write_def Let_def split_beta frame_len_def encode_record_def update_conv')
  note la = wal_inv_last [OF inv]
  have off: "?off = 64 + frames_len (last L)" using inv by (simp add: wal_inv_def)
  have fit: "record_fits r" using room inv by (intro record_fits_of_frame) (simp add: wal_inv_def)
  obtain b where b: "map_of (wal_files w) ?a = Some b" "seg_clean crc32 ?a (wal_segment_size w) b (last L)"
    using wal_inv_files [OF inv, of ?a] la by auto
  have new: "seg_clean crc32 ?a (wal_segment_size w) (file_write ?off (encode_record crc32 l r) b) (last L @ [r])"
    unfolding f(1) off using seg_clean_append [OF b(2) fit] room off by simp
  have len: "length L = Suc ?a" using inv by (simp add: wal_inv_def)
  have nth: "(butlast L @ [last L @ [r]]) ! i = (if i = ?a then last L @ [r] else L ! i)" if "i \<le> ?a" for i
    using that len by (auto simp: nth_append nth_butlast)
  show "wal_inv crc32 w' (butlast L @ [last L @ [r]])"
    using inv new nth b len off by (auto simp: wal_inv_def f(3,5,7,9))
qed

lemma wal_append_spec:
  assumes inv: "wal_inv crc32 w L" and bound: "wal_active_id w + 1 < 4294967296"
    and sync: "wal_sync_mode w = Fsync"
  shows "if frame_len r > wal_segment_size w - 64
    then wal_append crc32 now w r = Some (w, Inl (RecordTooLarge (frame_len r) (wal_segment_size w - 64)))
    else \<exists>w1 w' l L1. wal_append crc32 now w r = Some (w', Inr l) \<and> wal_write crc32 w1 r = (w', l) \<and>
      wal_inv crc32 w1 L1 \<and> wal_active_offset w1 + frame_len r \<le> wal_segment_size w1 \<and>
      (w1 = w \<and> L1 = L \<or> wal_rotate crc32 now w = (w1, Inr ()) \<and> L1 = L @ [[]])"
proof (cases "frame_len r > wal_segment_size w - 64")
  case True
  then show ?thesis using inv by (simp add: wal_append_def split_beta frame_len_def wal_inv_def)
next
  case False
  have sz: "64 \<le> wal_segment_size w" using inv by (simp add: wal_inv_def)
  show ?thesis
  proof (cases "wal_active_offset w + frame_len r \<le> wal_segment_size w")
    case fits: True
    obtain w' l where "wal_write crc32 w r = (w', l)" by fastforce
    then show ?thesis
      using False fits sz inv by (auto simp: wal_append_def split_beta frame_len_def)
  next
    case full: False
    obtain w1 where rot: "wal_rotate crc32 now w = (w1, Inr ())" "wal_inv crc32 w1 (L @ [[]])"
      "wal_segment_size w1 = wal_segment_size w"
      by (rule wal_rotate_spec [OF inv bound sync, of now])
    obtain w' l where wr: "wal_write crc32 w1 r = (w', l)" by fastforce
    have "wal_active_offset w1 = 64" using rot(2) by (simp add: wal_inv_def)
    then have "wal_active_offset w1 + frame_len r \<le> wal_segment_size w1" using False sz rot(3) by linarith
    moreover have "wal_append crc32 now w r = Some (w', Inr l)"
      using False full sz rot(1) wr by (simp add: wal_append_def split_beta frame_len_def)
    ultimately show ?thesis unfolding if_not_P [OF False] using rot wr by blast
  qed
qed


section \<open>Interleaved appends and flushes, and crashes\<close>

text \<open>
  A run of the log in a fresh directory: the state, the flusher that holds \<open>flush_lock\<close> (what
  it captured, and whether it has synced), and the history of the appends that returned.
\<close>

type_synonym flusher = "((lsn \<times> nat \<times> bool) \<times> bool) option"

inductive wal_reach ::
  "(bytes \<Rightarrow> u32) \<Rightarrow> Config \<Rightarrow> Wal \<Rightarrow> flusher \<Rightarrow> (lsn \<times> LogRecord) list \<Rightarrow> bool"
  for crc32 :: "bytes \<Rightarrow> u32" and cfg :: Config
where
  Open: "wal_open crc32 now cfg [] = Inr w \<Longrightarrow> wal_reach crc32 cfg w None []"
| Append: "wal_reach crc32 cfg w fl h \<Longrightarrow> wal_active_id w + 1 < 4294967296 \<Longrightarrow>
    wal_append crc32 now w r = Some (w', Inr l) \<Longrightarrow> wal_reach crc32 cfg w' fl (h @ [(l, r)])"
| AppendErr: "wal_reach crc32 cfg w fl h \<Longrightarrow> wal_active_id w + 1 < 4294967296 \<Longrightarrow>
    wal_append crc32 now w r = Some (w', Inl e) \<Longrightarrow> wal_reach crc32 cfg w' fl h"
| Capture: "wal_reach crc32 cfg w None h \<Longrightarrow> wal_reach crc32 cfg w (Some (flush_capture w, False)) h"
| Sync: "wal_reach crc32 cfg w (Some (c, False)) h \<Longrightarrow>
    wal_reach crc32 cfg (flush_sync c w) (Some (c, True)) h"
| Publish: "wal_reach crc32 cfg w (Some (c, True)) h \<Longrightarrow>
    wal_reach crc32 cfg (flush_publish (fst c) w) None h"

definition config_ok :: "Config \<Rightarrow> bool" where
  "config_ok cfg \<longleftrightarrow> cfg_sync_mode cfg = Fsync \<and> 64 \<le> cfg_segment_size cfg \<and>
     cfg_segment_size cfg \<le> 4294967295"

text \<open>
  What a crash may leave: every synced file exists with its synced length, and every byte on
  which the synced and the current contents agree is that byte.  All others are arbitrary.
\<close>

definition crash_image :: "Wal \<Rightarrow> wal_dir \<Rightarrow> bool" where
  "crash_image w D \<longleftrightarrow> (\<forall>i. case map_of (wal_synced w) i of
       None \<Rightarrow> map_of D i = None
     | Some sb \<Rightarrow> \<exists>db. map_of D i = Some db \<and> length db = length sb \<and>
         (\<forall>fb. map_of (wal_files w) i = Some fb \<longrightarrow>
            (\<forall>p < length sb. sb ! p = fb ! p \<longrightarrow> db ! p = sb ! p)))"

text \<open>The synced contents agree with the current ones up to the first \<open>k\<close> records of the active segment.\<close>

definition synced_ok :: "Wal \<Rightarrow> LogRecord list list \<Rightarrow> nat \<Rightarrow> bool" where
  "synced_ok w L k \<longleftrightarrow>
     (\<forall>i < wal_active_id w. map_of (wal_synced w) i = map_of (wal_files w) i) \<and>
     (\<forall>i > wal_active_id w. map_of (wal_synced w) i = None) \<and>
     (\<exists>sb. map_of (wal_synced w) (wal_active_id w) = Some sb \<and>
        length sb = wal_segment_size w \<and>
        take (64 + frames_len (take k (last L))) sb =
        take (64 + frames_len (take k (last L))) (the (map_of (wal_files w) (wal_active_id w))))"

definition covered :: "Wal \<Rightarrow> LogRecord list list \<Rightarrow> lsn \<Rightarrow> bool" where
  "covered w L t \<longleftrightarrow> (\<exists>k \<le> length (last L). synced_ok w L k \<and>
     unat t < wal_active_id w * 4294967296 + 64 + frames_len (take k (last L)))"

definition flusher_ok :: "Wal \<Rightarrow> LogRecord list list \<Rightarrow> flusher \<Rightarrow> bool" where
  "flusher_ok w L fl \<longleftrightarrow> (case fl of
       None \<Rightarrow> True
     | Some ((t, seg, sync), False) \<Rightarrow> sync \<and> seg \<le> wal_active_id w \<and>
         unat t < wal_active_id w * 4294967296 + (if seg = wal_active_id w then wal_active_offset w else 64)
     | Some ((t, seg, sync), True) \<Rightarrow> covered w L t)"

definition run_inv :: "(bytes \<Rightarrow> u32) \<Rightarrow> Wal \<Rightarrow> flusher \<Rightarrow> (lsn \<times> LogRecord) list \<Rightarrow> LogRecord list list \<Rightarrow> bool" where
  "run_inv crc32 w fl h L \<longleftrightarrow> wal_inv crc32 w L \<and> wal_sync_mode w = Fsync \<and> h = all_items L \<and>
     covered w L (wal_durable_lsn w) \<and> flusher_ok w L fl \<and>
     unat (wal_last_lsn w) < wal_active_id w * 4294967296 + wal_active_offset w"

lemma run_inv_open:
  assumes "config_ok cfg" and "wal_open crc32 now cfg [] = Inr w"
  shows "run_inv crc32 w None [] [[]]"
proof -
  let ?b = "segment_content crc32 now 0 0 (cfg_segment_size cfg)"
  have w: "wal_files w = [(0, ?b)]" "wal_synced w = [(0, ?b)]" "wal_active_id w = 0"
    "wal_segment_size w = cfg_segment_size cfg" "wal_active_offset w = 64" "wal_sync_mode w = Fsync"
    "wal_last_lsn w = 0" "wal_durable_lsn w = 0"
    using assms by (auto simp: wal_open_def create_segment_def Let_def config_ok_def sync_file_def)
  have c: "seg_clean crc32 0 (cfg_segment_size cfg) ?b []"
    using assms(1) by (intro seg_clean_new) (simp_all add: config_ok_def)
  then show ?thesis
    using assms(1) w
    by (auto simp: run_inv_def wal_inv_def covered_def synced_ok_def flusher_ok_def all_items_def
        config_ok_def seg_clean_def split: if_splits)
qed

lemma frames_len_take: "frames_len (take k rs) \<le> frames_len rs"
  by (metis append_take_drop_id frames_len_simps(3) le_add1)

lemma wal_inv_room:
  assumes "wal_inv crc32 w L"
  shows "wal_active_offset w \<le> wal_segment_size w"
proof -
  obtain b where "seg_clean crc32 (wal_active_id w) (wal_segment_size w) b (last L)"
    using wal_inv_files [OF assms, of "wal_active_id w"] wal_inv_last [OF assms] by auto
  then show ?thesis using assms by (simp add: seg_clean_def holds_def wal_inv_def)
qed

lemma covered_write:
  assumes inv: "wal_inv crc32 w L" and room: "wal_active_offset w + frame_len r \<le> wal_segment_size w"
    and wr: "wal_write crc32 w r = (w', l)" and cov: "covered w L t"
  shows "covered w' (butlast L @ [last L @ [r]]) t"
proof -
  note sp = wal_write_spec [OF inv room wr]
  obtain k where k: "k \<le> length (last L)" "synced_ok w L k"
    "unat t < wal_active_id w * 4294967296 + 64 + frames_len (take k (last L))"
    using cov by (auto simp: covered_def)
  let ?n = "64 + frames_len (take k (last L))" and ?a = "wal_active_id w"
  have n: "?n \<le> wal_active_offset w"
    using frames_len_take [of k "last L"] inv by (simp add: wal_inv_def)
  obtain b where b: "map_of (wal_files w) ?a = Some b" "length b = wal_segment_size w"
    using wal_inv_files [OF inv, of ?a] by (auto simp: seg_clean_def)
  define fb where "fb = file_write (wal_active_offset w) (encode_record crc32 l r) b"
  have "take ?n fb = take ?n b"
    using n wal_inv_room [OF inv] b(2) by (simp add: fb_def file_write_def min_def)
  moreover have "map_of (wal_files w') = (map_of (wal_files w))(?a \<mapsto> fb)"
    using sp(10) b(1) by (simp add: fb_def)
  ultimately have "synced_ok w' (butlast L @ [last L @ [r]]) k"
    using k(1,2) b(1) by (simp add: synced_ok_def sp(4,6,9))
  then show ?thesis using k(1,3) sp(6) unfolding covered_def by (intro exI [of _ k]) simp
qed

lemma covered_rotate:
  assumes inv: "wal_inv crc32 w L" and bound: "wal_active_id w + 1 < 4294967296"
    and sync: "wal_sync_mode w = Fsync" and rot: "wal_rotate crc32 now w = (w', Inr ())"
    and cov: "covered w L t"
  shows "covered w' (L @ [[]]) t"
proof (rule wal_rotate_spec [OF inv bound sync, of now])
  fix w'' b nb
  let ?a = "wal_active_id w"
  assume "wal_rotate crc32 now w = (w'', Inr ())" and i: "wal_inv crc32 w'' (L @ [[]])"
    and sz: "wal_segment_size w'' = wal_segment_size w" and a: "wal_active_id w'' = ?a + 1"
    and b: "map_of (wal_files w) ?a = Some b"
    and f: "map_of (wal_files w'') = (map_of (wal_files w))(?a + 1 \<mapsto> nb)"
    and s: "map_of (wal_synced w'') = (map_of (wal_synced w))(?a \<mapsto> b, ?a + 1 \<mapsto> nb)"
  then have w: "w'' = w'" using rot by simp
  obtain k where k: "k \<le> length (last L)" "synced_ok w L k"
    "unat t < ?a * 4294967296 + 64 + frames_len (take k (last L))"
    using cov by (auto simp: covered_def)
  have "length nb = wal_segment_size w"
    using wal_inv_files [OF i, of "?a + 1"] a f sz by (auto simp: seg_clean_def)
  then have "synced_ok w' (L @ [[]]) 0"
    using k(2) a f s sz b unfolding w by (auto simp: synced_ok_def less_Suc_eq)
  moreover have "unat t < (?a + 1) * 4294967296 + 64"
    using k(3) frames_len_take [of k "last L"] inv wal_inv_room [OF inv] by (simp add: wal_inv_def)
  ultimately show ?thesis using a unfolding w by (auto simp: covered_def)
qed

lemma sync_covered:
  assumes inv: "wal_inv crc32 w L" and cov: "covered w L t" and seg: "seg \<le> wal_active_id w"
    and u: "unat u < wal_active_id w * 4294967296 + (if seg = wal_active_id w then wal_active_offset w else 64)"
  shows "covered (sync_file seg w) L t" and "covered (sync_file seg w) L u"
proof -
  let ?a = "wal_active_id w"
  obtain k where k: "k \<le> length (last L)" "synced_ok w L k"
    "unat t < ?a * 4294967296 + 64 + frames_len (take k (last L))"
    using cov by (auto simp: covered_def)
  obtain b where b: "map_of (wal_files w) seg = Some b" "length b = wal_segment_size w"
    using wal_inv_files [OF inv seg] by (auto simp: seg_clean_def)
  note sy = sync_file_synced [OF b(1)]
  have "covered (sync_file seg w) L t \<and> covered (sync_file seg w) L u"
  proof (cases "seg = ?a")
    case True
    have "synced_ok (sync_file seg w) L (length (last L))"
      using k(2) b sy True by (auto simp: synced_ok_def)
    moreover have "64 + frames_len (last L) = wal_active_offset w" using inv by (simp add: wal_inv_def)
    moreover have "unat t < ?a * 4294967296 + 64 + frames_len (last L)"
      using k(3) frames_len_take [of k "last L"] by linarith
    ultimately show ?thesis
      using u True by (auto simp: covered_def intro!: exI [of _ "length (last L)"])
  next
    case False
    then have "synced_ok (sync_file seg w) L k"
      using k(2) b sy seg by (auto simp: synced_ok_def)
    moreover have "unat u < ?a * 4294967296 + 64 + frames_len (take k (last L))" using u False by simp
    ultimately show ?thesis using k(1,3) by (auto simp: covered_def intro!: exI [of _ k])
  qed
  then show "covered (sync_file seg w) L t" "covered (sync_file seg w) L u" by blast+
qed

lemma wal_rotate_last_lsn:
  "wal_rotate crc32 now w = (w', Inr ()) \<Longrightarrow> wal_last_lsn w' = wal_last_lsn w"
  by (auto simp: wal_rotate_def create_segment_def Let_def split: sum.splits if_splits)

lemma run_inv_rotate:
  assumes inv: "run_inv crc32 w fl h L" and bound: "wal_active_id w + 1 < 4294967296"
    and rot: "wal_rotate crc32 now w = (w', Inr ())"
  shows "run_inv crc32 w' fl h (L @ [[]])"
proof -
  have i: "wal_inv crc32 w L" "wal_sync_mode w = Fsync" "covered w L (wal_durable_lsn w)"
    "unat (wal_last_lsn w) < wal_active_id w * 4294967296 + wal_active_offset w"
    "flusher_ok w L fl" "h = all_items L"
    using inv by (simp_all add: run_inv_def)
  obtain w'' where w: "wal_rotate crc32 now w = (w'', Inr ())" "wal_inv crc32 w'' (L @ [[]])"
    "wal_sync_mode w'' = Fsync" "wal_active_id w'' = wal_active_id w + 1" "wal_durable_lsn w'' = wal_durable_lsn w"
    by (rule wal_rotate_spec [OF i(1) bound i(2), of now])
  then have eq: "w'' = w'" using rot by simp
  have off: "wal_active_offset w' = 64" "wal_active_offset w \<le> 4294967295"
    using w(2) wal_inv_room [OF i(1)] i(1) unfolding eq by (simp_all add: wal_inv_def)
  note cov = covered_rotate [OF i(1) bound i(2) rot]
  have "flusher_ok w' (L @ [[]]) fl"
    using i(5) cov w(4) off unfolding eq
    by (auto simp: flusher_ok_def split: option.splits bool.splits if_splits)
  then show ?thesis
    using w i cov off wal_rotate_last_lsn [OF rot] unfolding eq by (simp add: run_inv_def all_items_snoc)
qed

lemma run_inv_write:
  assumes inv: "run_inv crc32 w fl h L" and room: "wal_active_offset w + frame_len r \<le> wal_segment_size w"
    and wr: "wal_write crc32 w r = (w', l)"
  shows "run_inv crc32 w' fl (h @ [(l, r)]) (butlast L @ [last L @ [r]])"
proof -
  have i: "wal_inv crc32 w L" "wal_sync_mode w = Fsync" "covered w L (wal_durable_lsn w)"
    "flusher_ok w L fl" "h = all_items L"
    using inv by (simp_all add: run_inv_def)
  note sp = wal_write_spec [OF i(1) room wr]
  note cov = covered_write [OF i(1) room wr]
  have L: "L \<noteq> []" "length L - 1 = wal_active_id w" "wal_active_offset w = 64 + frames_len (last L)"
    using i(1) by (auto simp: wal_inv_def)
  have "all_items (butlast L @ [last L @ [r]]) = all_items L @ [(l, r)]"
    unfolding all_items_snoc all_items_last [OF L(1)] using sp(1) L by simp
  moreover have "wal_active_id w < 4294967296" "wal_active_offset w < 4294967296"
    using i(1) wal_inv_room [OF i(1)] by (simp_all add: wal_inv_def)
  then have "unat l < wal_active_id w * 4294967296 + (wal_active_offset w + frame_len r)"
    using frame_len_pos [of r] by (simp add: sp(1) unat_lsn_at)
  moreover have "flusher_ok w' (butlast L @ [last L @ [r]]) fl"
    using i(4) cov sp(6,8)
    by (auto simp: flusher_ok_def split: option.splits bool.splits if_splits)
  ultimately show ?thesis
    using i cov sp by (simp add: run_inv_def)
qed

lemma run_inv_reach:
  assumes "wal_reach crc32 cfg w fl h" and "config_ok cfg"
  shows "\<exists>L. run_inv crc32 w fl h L \<and> (h = [] \<or> last L \<noteq> [])"
  using assms(1)
proof induction
  case (Open now w)
  then show ?case using run_inv_open [OF assms(2)] by blast
next
  case (Append w fl h now r w' l)
  then obtain L where L: "run_inv crc32 w fl h L" by blast
  then have i: "wal_inv crc32 w L" "wal_sync_mode w = Fsync" by (simp_all add: run_inv_def)
  obtain w1 L1 where w1: "wal_write crc32 w1 r = (w', l)"
    "wal_active_offset w1 + frame_len r \<le> wal_segment_size w1"
    "w1 = w \<and> L1 = L \<or> wal_rotate crc32 now w = (w1, Inr ()) \<and> L1 = L @ [[]]"
    using wal_append_spec [OF i(1) Append.hyps(2) i(2), of r now] Append.hyps(3)
    by (auto split: if_splits)
  have "run_inv crc32 w1 fl h L1"
    using w1(3) L run_inv_rotate [OF L Append.hyps(2)] by blast
  from run_inv_write [OF this w1(2,1)] show ?case by fastforce
next
  case (AppendErr w fl h now r w' e)
  then obtain L where L: "run_inv crc32 w fl h L" "h = [] \<or> last L \<noteq> []" by blast
  then have i: "wal_inv crc32 w L" "wal_sync_mode w = Fsync" by (simp_all add: run_inv_def)
  have "w' = w"
    using wal_append_spec [OF i(1) AppendErr.hyps(2) i(2), of r now] AppendErr.hyps(3)
    by (auto split: if_splits)
  then show ?case using L by blast
next
  case (Capture w h)
  then show ?case by (auto simp: run_inv_def flusher_ok_def flush_capture_def)
next
  case (Sync w c h)
  obtain t seg sync where c: "c = (t, seg, sync)" by (cases c)
  from Sync obtain L where L: "run_inv crc32 w (Some (c, False)) h L" "h = [] \<or> last L \<noteq> []" by blast
  then have i: "wal_inv crc32 w L" "covered w L (wal_durable_lsn w)" "sync" "seg \<le> wal_active_id w"
    "unat t < wal_active_id w * 4294967296 + (if seg = wal_active_id w then wal_active_offset w else 64)"
    by (simp_all add: run_inv_def flusher_ok_def c)
  note sc = sync_covered [OF i(1,2,4,5)]
  have "run_inv crc32 (sync_file seg w) (Some (c, True)) h L"
    using L sc by (simp add: run_inv_def flusher_ok_def c wal_inv_def)
  then show ?case using i(3) L(2) by (auto simp: flush_sync_def c)
next
  case (Publish w c h)
  obtain t seg sync where c: "c = (t, seg, sync)" by (cases c)
  from Publish obtain L where L: "run_inv crc32 w (Some (c, True)) h L" "h = [] \<or> last L \<noteq> []" by blast
  then have "covered w L (max (wal_durable_lsn w) t)"
    by (simp add: run_inv_def flusher_ok_def c max_def)
  then have "run_inv crc32 (flush_publish t w) None h L"
    using L by (simp add: run_inv_def flusher_ok_def flush_publish_def wal_inv_def covered_def synced_ok_def)
  then show ?case using L(2) by (auto simp: c)
qed

lemma takeWhile_append_prefix:
  assumes "B = [] \<or> \<not> P (hd B)"
  shows "prefix (takeWhile P (A @ B)) A"
proof (cases "\<forall>x \<in> set A. P x")
  case True
  have "takeWhile P B = []" using assms by (cases B) auto
  then show ?thesis using True by simp
next
  case False
  then show ?thesis using takeWhile_append1 [of _ A P B] takeWhile_is_prefix by (metis)
qed

lemma holds_take:
  assumes "holds crc32 seg fb rs" and "take (64 + frames_len (take k rs)) db = take (64 + frames_len (take k rs)) fb"
    and "length db = length fb"
  shows "holds crc32 seg db (take k rs)"
proof -
  let ?n = "frames_len (take k rs)"
  have n: "?n \<le> frames_len rs" by (rule frames_len_take)
  have fit: "\<forall>r \<in> set (take k rs). record_fits r" using assms(1) by (auto simp: holds_def dest: in_set_takeD)
  have "slice 64 ?n db = slice 64 ?n fb"
    using arg_cong [OF assms(2), of "drop 64"] by (simp add: slice_def drop_take)
  also have "\<dots> = slice 0 ?n (slice 64 (frames_len rs) fb)" using n by (simp add: slice_slice)
  also have "\<dots> = slice 0 ?n (frames crc32 seg 64 (take k rs @ drop k rs))"
    using assms(1) by (simp add: holds_def)
  also have "\<dots> = frames crc32 seg 64 (take k rs)"
    unfolding frames_append using length_frames [OF fit] by (simp add: slice_def)
  finally show ?thesis using assms n fit by (simp add: holds_def)
qed

lemma crash_image_agrees:
  assumes "crash_image w D" and "map_of (wal_synced w) i = Some sb" and "map_of (wal_files w) i = Some fb"
    and "length sb = length fb" and "take n sb = take n fb"
  obtains db where "map_of D i = Some db" and "length db = length fb" and "take n db = take n fb"
proof -
  obtain db where db: "map_of D i = Some db" "length db = length sb"
    "\<And>p. p < length sb \<Longrightarrow> sb ! p = fb ! p \<Longrightarrow> db ! p = sb ! p"
    using assms(1) [unfolded crash_image_def, rule_format, of i] assms(2,3) by auto
  have "db ! p = fb ! p" if "p < n" "p < length sb" for p
    using db(3) [of p] that arg_cong [OF assms(5), of "\<lambda>x. x ! p"] assms(4) by simp
  then have "take n db = take n fb" using db(2) assms(4) by (intro nth_equalityI) auto
  then show thesis using that db assms(4) by simp
qed

text \<open>The durable records are among those of the earlier segments and the first \<open>k\<close> of the active one.\<close>

lemma durable_prefix:
  assumes inv: "wal_inv crc32 w L" and k: "k \<le> length (last L)"
    and t: "unat t < wal_active_id w * 4294967296 + 64 + frames_len (take k (last L))"
  shows "prefix (takeWhile (\<lambda>(l, _). l \<le> t) (all_items L))
    (all_items (take (wal_active_id w) L) @ log_items (wal_active_id w) 64 (take k (last L)))"
proof -
  let ?a = "wal_active_id w" and ?k = "take k (last L)" and ?d = "drop k (last L)"
  have L: "L \<noteq> []" "length L = Suc ?a" "?a < 4294967296" using inv by (auto simp: wal_inv_def)
  have s: "64 + frames_len ?k \<le> wal_active_offset w" "wal_active_offset w < 4294967296"
    using inv frames_len_take [of k "last L"] wal_inv_room [OF inv] by (simp_all add: wal_inv_def)
  have "log_items ?a 64 (?k @ ?d) = log_items ?a 64 ?k @ log_items ?a (64 + frames_len ?k) ?d"
    by (rule log_items_append)
  then have split: "all_items L = (all_items (take ?a L) @ log_items ?a 64 ?k) @
      log_items ?a (64 + frames_len ?k) ?d"
    using all_items_last [OF L(1)] L(2) by (simp add: butlast_conv_take)
  have "unat (lsn_at ?a (64 + frames_len ?k)) = ?a * 4294967296 + (64 + frames_len ?k)"
    using L s by (intro unat_lsn_at) auto
  then have "\<not> lsn_at ?a (64 + frames_len ?k) \<le> t" using t by (simp add: word_le_nat_alt)
  then show ?thesis
    unfolding split by (intro takeWhile_append_prefix) (cases ?d, auto)
qed

lemma crash_replay:
  assumes inv: "run_inv crc32 w fl h L" and D: "crash_image w D"
  shows "prefix (map Inr (takeWhile (\<lambda>(l, _). l \<le> wal_durable_lsn w) h)) (wal_replay crc32 D 0)"
proof -
  let ?a = "wal_active_id w" and ?t = "wal_durable_lsn w" and ?sz = "wal_segment_size w"
  have i: "wal_inv crc32 w L" "covered w L ?t" "h = all_items L" using inv by (simp_all add: run_inv_def)
  have sz: "?sz \<le> 4294967295" "?a < 4294967296" "length L = Suc ?a" using i(1) by (simp_all add: wal_inv_def)
  obtain k where k: "k \<le> length (last L)" "synced_ok w L k"
    "unat ?t < ?a * 4294967296 + 64 + frames_len (take k (last L))"
    using i(2) by (auto simp: covered_def)
  let ?k = "take k (last L)"
  have old: "\<exists>b. map_of D j = Some b \<and> seg_clean crc32 j ?sz b (L ! j)" if j: "j < ?a" for j
  proof -
    obtain fb where fb: "map_of (wal_files w) j = Some fb" "seg_clean crc32 j ?sz fb (L ! j)"
      using wal_inv_files [OF i(1), of j] j by auto
    then have "map_of (wal_synced w) j = Some fb" using k(2) j by (simp add: synced_ok_def)
    then obtain db where "map_of D j = Some db" "length db = length fb" "take (length fb) db = take (length fb) fb"
      using crash_image_agrees [OF D _ fb(1) refl refl] by blast
    then show ?thesis using fb(2) by simp
  qed
  have r1: "replay_list crc32 D 0 64 = map Inr (all_items (take ?a L)) @ replay_list crc32 D ?a 64"
    using sz by (intro replay_segments [OF old]) auto
  obtain fb where fb: "map_of (wal_files w) ?a = Some fb" "seg_clean crc32 ?a ?sz fb (last L)"
    using wal_inv_files [OF i(1), of ?a] wal_inv_last [OF i(1)] by auto
  obtain sb where sb: "map_of (wal_synced w) ?a = Some sb" "length sb = length fb"
    "take (64 + frames_len ?k) sb = take (64 + frames_len ?k) fb"
    using k(2) fb by (auto simp: synced_ok_def seg_clean_def)
  obtain db where db: "map_of D ?a = Some db" "length db = length fb"
    "take (64 + frames_len ?k) db = take (64 + frames_len ?k) fb"
    by (rule crash_image_agrees [OF D sb(1) fb(1) sb(2,3)])
  have "holds crc32 ?a db ?k" using fb(2) db(2,3) by (intro holds_take [of crc32 ?a fb]) (auto simp: seg_clean_def)
  then have r2: "replay_list crc32 D ?a 64 =
      map Inr (log_items ?a 64 ?k) @ replay_list crc32 D ?a (64 + frames_len ?k)"
    using sz db fb by (intro replay_list_frames [OF db(1)]) (simp_all add: holds_def seg_clean_def)
  have "prefix (map Inr (takeWhile (\<lambda>(l, _). l \<le> ?t) h)) (map Inr (all_items (take ?a L) @ log_items ?a 64 ?k))"
    using durable_prefix [OF i(1) k(1,3)] i(3) by (intro map_mono_prefix) simp
  then have "prefix (map Inr (takeWhile (\<lambda>(l, _). l \<le> ?t) h))
      (map Inr (all_items (take ?a L) @ log_items ?a 64 ?k) @ replay_list crc32 D ?a (64 + frames_len ?k))"
    by (rule prefix_prefix)
  then show ?thesis
    using r1 r2 by (simp add: wal_replay_def lsn_segment_id_def lsn_offset_def)
qed

lemma scan_from_zero: "get_u64 b off = 0 \<Longrightarrow> scan_from crc32 b off l = (off, l)"
  by (simp add: scan_from.simps [of _ _ off])

text \<open>Opening a well-formed directory finds the write position and the last LSN.\<close>

lemma wal_open_clean:
  assumes inv: "wal_inv crc32 w L"
  shows "\<exists>w2. wal_open crc32 now cfg (wal_files w) = Inr w2 \<and> wal_files w2 = wal_files w \<and>
    wal_active_id w2 = wal_active_id w \<and> wal_active_offset w2 = wal_active_offset w \<and>
    wal_segment_size w2 = wal_segment_size w \<and>
    wal_last_lsn w2 = last (0 # map fst (log_items (wal_active_id w) 64 (last L)))"
proof -
  let ?a = "wal_active_id w" and ?ids = "map fst (wal_files w)"
  have i: "?a < 4294967296" "wal_segment_size w \<le> 4294967295" "64 \<le> wal_segment_size w"
    "wal_active_offset w = 64 + frames_len (last L)" using inv by (simp_all add: wal_inv_def)
  have set: "set ?ids = {..?a}"
    using inv by (force simp: wal_inv_def map_of_eq_None_iff)
  have "Max (insert 0 {..?a}) = ?a" by (rule Max_eqI) auto
  then have mx: "fold max ?ids 0 = ?a" using Max.set_eq_fold [of 0 ?ids] set by simp
  have "0 \<in> set ?ids" unfolding set by simp
  then have ids: "?ids \<noteq> []" by (metis empty_iff empty_set)
  obtain b where b: "map_of (wal_files w) ?a = Some b" "seg_clean crc32 ?a (wal_segment_size w) b (last L)"
    using wal_inv_files [OF inv, of ?a] wal_inv_last [OF inv] by auto
  have len: "length b = wal_segment_size w" "holds crc32 ?a b (last L)" using b(2) by (simp_all add: seg_clean_def)
  obtain h where h: "segment_header_decode crc32 b = Inr h" "unat (sh_segment_size h) = wal_segment_size w"
    using b(2) header_decode_take [of b crc32] i(3) by (auto simp: seg_clean_def header_ok_def)
  have "get_u64 b (64 + frames_len (last L)) = 0"
    by (rule zero_tail_get_u64) (use b(2) in \<open>simp add: seg_clean_def\<close>)
  then have "scan_active crc32 b = (wal_active_offset w, last (0 # map fst (log_items ?a 64 (last L))))"
    unfolding scan_active_def using scan_from_frames [of ?a b 64 "last L" crc32 0] i len scan_from_zero
    by (simp add: holds_def)
  then show ?thesis using ids mx b(1) h by (simp add: wal_open_def Let_def)
qed

text \<open>Appends hand out strictly increasing LSNs.\<close>

lemma wal_reach_sorted:
  assumes "wal_reach crc32 cfg w fl h" and cfg: "config_ok cfg"
  shows "sorted_wrt (<) (map fst h) \<and>
    (\<forall>x \<in> set h. unat (fst x) < wal_active_id w * 4294967296 + wal_active_offset w \<and> 64 \<le> unat (fst x))"
  using assms(1)
proof induction
  case (Append w fl h now r w' l)
  obtain L where L: "run_inv crc32 w fl h L" using run_inv_reach [OF Append.hyps(1) cfg] by blast
  then have i: "wal_inv crc32 w L" "wal_sync_mode w = Fsync" by (simp_all add: run_inv_def)
  obtain w1 L1 where w1: "wal_write crc32 w1 r = (w', l)" "wal_inv crc32 w1 L1"
    "wal_active_offset w1 + frame_len r \<le> wal_segment_size w1"
    "w1 = w \<or> wal_rotate crc32 now w = (w1, Inr ())"
    using wal_append_spec [OF i(1) Append.hyps(2) i(2), of r now] Append.hyps(3)
    by (auto split: if_splits)
  note sp = wal_write_spec [OF w1(2,3,1)]
  let ?pos = "wal_active_id w1 * 4294967296 + wal_active_offset w1"
  have "wal_active_id w1 = wal_active_id w + 1 \<and> wal_active_offset w1 = 64"
    if "wal_rotate crc32 now w = (w1, Inr ())"
    using that by (auto simp: wal_rotate_def Let_def split: sum.splits)
  then have "wal_active_id w * 4294967296 + wal_active_offset w \<le> ?pos"
    using w1(4) wal_inv_room [OF i(1)] i(1) by (auto simp: wal_inv_def)
  then have old: "unat (fst x) < ?pos" if "x \<in> set h" for x
    using Append.IH that by fastforce
  have "unat l = ?pos"
    unfolding sp(1) using w1(2) wal_inv_room [OF w1(2)] by (intro unat_lsn_at) (simp_all add: wal_inv_def)
  moreover have "64 \<le> ?pos" using w1(2) by (simp add: wal_inv_def)
  ultimately show ?case
    using Append.IH old sp(6,8) frame_len_pos [of r]
    by (fastforce simp: sorted_wrt_append word_less_nat_alt)
next
  case (AppendErr w fl h now r w' e)
  obtain L where L: "run_inv crc32 w fl h L" using run_inv_reach [OF AppendErr.hyps(1) cfg] by blast
  then have i: "wal_inv crc32 w L" "wal_sync_mode w = Fsync" by (simp_all add: run_inv_def)
  have "w' = w"
    using wal_append_spec [OF i(1) AppendErr.hyps(2) i(2), of r now] AppendErr.hyps(3)
    by (auto split: if_splits)
  then show ?case using AppendErr.IH by simp
qed (auto simp: flush_sync_def flush_publish_def split: prod.splits)


section \<open>A torn tail that survives a rotation\<close>

lemma flush_through_reach:
  assumes "wal_reach crc32 cfg w None h"
  shows "wal_reach crc32 cfg (flush_through l w) None h"
  using assms wal_reach.Publish [OF wal_reach.Sync [OF wal_reach.Capture [OF assms]]]
  by (simp add: flush_through_def Let_def)

lemma flush_through_durable: "wal_last_lsn w = l \<Longrightarrow> l \<le> wal_durable_lsn (flush_through l w)"
  by (simp add: flush_through_def flush_publish_def flush_capture_def flush_sync_def Let_def)

lemma wal_append_last_lsn:
  assumes "wal_append crc32 now w r = Some (w', Inr l)"
  shows "wal_last_lsn w' = l"
  using assms by (auto simp: wal_append_def wal_write_def Let_def split_beta
      split: if_splits sum.splits Option.bind_splits)

text \<open>The last LSN bounds every appended record's and grows with the log.\<close>

lemma wal_reach_last:
  assumes "wal_reach crc32 cfg w fl h" and cfg: "config_ok cfg"
  shows "(wal_last_lsn w = 0 \<or> wal_last_lsn w \<in> fst ` set h) \<and> (\<forall>x \<in> fst ` set h. x \<le> wal_last_lsn w)"
  using assms(1)
proof induction
  case (Open now w)
  then show ?case using run_inv_open [OF cfg] by (auto simp: wal_open_def create_segment_def Let_def split: if_splits)
next
  case (Append w fl h now r w' l)
  have "sorted_wrt (<) (map fst (h @ [(l, r)]))"
    using wal_reach_sorted [OF wal_reach.Append [OF Append.hyps] cfg] by blast
  then show ?case
    using wal_append_last_lsn [OF Append.hyps(3)] by (auto simp: sorted_wrt_append less_imp_le)
next
  case (AppendErr w fl h now r w' e)
  obtain L where "run_inv crc32 w fl h L" using run_inv_reach [OF AppendErr.hyps(1) cfg] by blast
  then have i: "wal_inv crc32 w L" "wal_sync_mode w = Fsync" by (simp_all add: run_inv_def)
  have "w' = w"
    using wal_append_spec [OF i(1) AppendErr.hyps(2) i(2), of r now] AppendErr.hyps(3)
    by (auto split: if_splits)
  then show ?case using AppendErr.IH by simp
qed (auto simp: flush_sync_def flush_publish_def split: prod.splits)

lemma wal_reach_pos: "wal_reach crc32 cfg w fl h \<Longrightarrow> config_ok cfg \<Longrightarrow> x \<in> set h \<Longrightarrow> 0 < fst x"
  using wal_reach_sorted [of crc32 cfg w fl h] by (auto simp: word_less_nat_alt)

lemma wal_reach_replay:
  assumes "wal_reach crc32 cfg w fl h" and "config_ok cfg"
  shows "wal_replay crc32 (wal_files w) 0 = map Inr h"
proof -
  obtain L where "run_inv crc32 w fl h L" using run_inv_reach [OF assms] by blast
  then show ?thesis using wal_inv_replay [of crc32 w L] by (auto simp: run_inv_def)
qed

lemma wal_append_last_mono:
  assumes "wal_reach crc32 cfg w fl h" and "config_ok cfg" and "wal_active_id w + 1 < 4294967296"
    and "wal_append crc32 now w r = Some (w', Inr l)"
  shows "wal_last_lsn w \<le> wal_last_lsn w'"
  using wal_reach_last [OF assms(1,2)] wal_reach_last [OF wal_reach.Append [OF assms(1,3,4)] assms(2)]
  by auto

lemma flush_through_simps [simp]:
  "wal_last_lsn (flush_through l w) = wal_last_lsn w"
  "wal_durable_lsn w \<le> wal_durable_lsn (flush_through l w)"
  by (simp_all add: flush_through_def flush_publish_def flush_capture_def flush_sync_def Let_def)

lemma flush_through_upto: "l \<le> wal_last_lsn w \<Longrightarrow> l \<le> wal_durable_lsn (flush_through l w)"
  by (simp add: flush_through_def flush_publish_def flush_capture_def flush_sync_def Let_def le_max_iff_disj)

lemma flush_through_le_last: "wal_durable_lsn w \<le> wal_last_lsn w \<Longrightarrow> wal_durable_lsn (flush_through l w) \<le> wal_last_lsn w"
  by (simp add: flush_through_def flush_publish_def flush_capture_def flush_sync_def Let_def)

text \<open>
  \<open>scan_active\<close> stops in front of a torn frame and leaves it in the file, expecting the next
  append to overwrite it.  When the next record does not fit the rest of the segment, the log
  rotates instead, and replay then stops at the torn frame for good.
\<close>

definition torn_at :: "(bytes \<Rightarrow> u32) \<Rightarrow> bytes \<Rightarrow> nat \<Rightarrow> bool" where
  "torn_at crc32 b off \<longleftrightarrow> off + 32 \<le> length b \<and> get_u64 b off \<noteq> 0 \<and>
     (let n = 36 + unat (get_u32 b (off + 8))
      in off + n > length b \<or> decode_record crc32 (slice off n b) = Inl CrcMismatch)"

lemma replay_list_torn:
  assumes "map_of dir seg = Some b" and "torn_at crc32 b off"
  shows "replay_list crc32 dir seg off = []"
proof -
  have "off + 32 \<le> length b" "get_u64 b off \<noteq> 0" using assms(2) by (simp_all add: torn_at_def)
  from replay_next_frame [OF assms(1) this refl, of crc32]
  have "snd (replay_next crc32 dir seg off) = None"
    using assms(2) by (auto simp: torn_at_def Let_def)
  then show ?thesis
    by (cases "replay_next crc32 dir seg off") (simp add: replay_list.simps [of _ _ seg off])
qed

lemma log_items_segment:
  "(l, r) \<in> set (log_items seg off rs) \<Longrightarrow> lsn_segment_id l = word_of_nat seg"
  by (induction rs arbitrary: off) (auto simp: lsn_at_def)

lemma scan_from_torn: "torn_at crc32 b off \<Longrightarrow> scan_from crc32 b off l = (off, l)"
  by (auto simp: torn_at_def scan_from.simps [of _ _ off] Let_def)

lemma torn_open:
  assumes "segment_header_decode crc32 b = Inr h" and "unat (sh_segment_size h) = length b"
    and "holds crc32 0 b rs" and "torn_at crc32 b (64 + frames_len rs)"
  shows "\<exists>w. wal_open crc32 now cfg [(0, b)] = Inr w \<and> wal_files w = [(0, b)] \<and>
    wal_segment_size w = length b \<and> wal_active_id w = 0 \<and> wal_active_offset w = 64 + frames_len rs"
proof -
  have "length b \<le> 4294967295" using assms(2) unat_u32_less [of "sh_segment_size h"] by simp
  then have "scan_active crc32 b = (64 + frames_len rs, last (0 # map fst (log_items 0 64 rs)))"
    unfolding scan_active_def using assms(3) scan_from_frames [of 0 b 64 rs crc32 0] scan_from_torn [OF assms(4)]
    by (simp add: holds_def)
  then show ?thesis using assms(1,2) by (simp add: wal_open_def Let_def)
qed

lemma append_rotates:
  assumes "wal_files w = [(0, b)]" and "wal_active_id w = 0" and "wal_segment_size w = length b"
    and "length b < wal_active_offset w + frame_len r" and "64 + frame_len r \<le> length b"
  shows "\<exists>w'. wal_append crc32 now w r = Some (w', Inr (lsn_at 1 64)) \<and>
    map_of (wal_files w') 0 = Some b \<and> wal_last_lsn w' = lsn_at 1 64"
proof -
  define w0 where "w0 = (if wal_sync_mode w = Fsync then sync_file (wal_active_id w) w else w)"
  have "wal_files w0 = [(0, b)]" "wal_active_id w0 = 0" using assms(1,2) by (simp_all add: w0_def)
  then obtain w1 where w1: "wal_rotate crc32 now w = (w1, Inr ())" "wal_active_id w1 = 1"
    "wal_active_offset w1 = 64" "map_of (wal_files w1) 0 = Some b"
    using assms(2) by (simp add: wal_rotate_def create_segment_def Let_def w0_def [symmetric])
  obtain w' l where w': "wal_write crc32 w1 r = (w', l)" by fastforce
  then have "l = lsn_at 1 64" "map_of (wal_files w') 0 = Some b" "wal_last_lsn w' = lsn_at 1 64"
    using w1 by (auto simp: wal_write_def Let_def split_beta update_conv')
  then show ?thesis
    using assms(3-5) w1(1) w' by (simp add: wal_append_def split_beta frame_len_def Let_def)
qed


section \<open>Properties of the log\<close>

text \<open>
  C5: A log record decodes from its frame to itself, with its LSN and its length, whatever
  follows it; and every proper prefix of a frame is reported as malformed.
\<close>

theorem log_record_roundtrip:
  assumes "record_fits r"
  shows "decode_record crc32 (encode_record crc32 l r @ rest) = Inr (l, r, length (encode_record crc32 l r)) \<and>
    (n < length (encode_record crc32 l r) \<longrightarrow>
      (\<exists>m. decode_record crc32 (take n (encode_record crc32 l r)) = Inl (WalDecode m)))"
  using decode_record_encode [OF assms] decode_record_cut [OF assms] assms by simp

theorem log_record_roundtrip_witness:
  "decode_record (\<lambda>_. 9) (encode_record (\<lambda>_. 9) 64 (log_txn 1 0 (Insert 3 2 [7, 8])) @ [1]) =
   Inr (64, log_txn 1 0 (Insert 3 2 [7, 8]), 52)"
proof -
  have "record_fits (log_txn 1 0 (Insert 3 2 [7, 8]))"
    by (simp add: record_fits_def log_txn_def put_bytes_u32_def)
  moreover from this have "length (encode_record (\<lambda>_. 9) 64 (log_txn 1 0 (Insert 3 2 [7, 8]))) = 52"
    by (simp add: frame_len_def log_txn_def put_bytes_u32_def)
  ultimately show ?thesis
    using log_record_roundtrip [of "log_txn 1 0 (Insert 3 2 [7, 8])" "\<lambda>_. 9" 64 "[1]" 0] by simp
qed

text \<open>
  C6: Durability. In every interleaving of appends and flushes over a fresh log, after a
  crash that keeps only what was synced, replay yields every record whose LSN the log had
  reported durable, in order and in front of anything else it yields.
\<close>

theorem wal_durable_after_crash:
  assumes "config_ok cfg" and "wal_reach crc32 cfg w fl h" and "crash_image w D"
  shows "prefix (map Inr (takeWhile (\<lambda>(l, _). l \<le> wal_durable_lsn w) h)) (wal_replay crc32 D 0)"
  using run_inv_reach [OF assms(2,1)] crash_replay [OF _ assms(3)] by blast

definition cfg_small :: Config where
  "cfg_small = \<lparr>cfg_segment_size = 140, cfg_sync_mode = Fsync\<rparr>"

lemma wal_one_record:
  assumes small: "frame_len r \<le> 76"
  shows "\<exists>w l. wal_reach crc32 cfg_small w None [(l, r)] \<and> wal_durable_lsn w = l"
proof -
  let ?r = r
  have cfg: "config_ok cfg_small" by (simp add: config_ok_def cfg_small_def)
  obtain w where w: "wal_open crc32 0 cfg_small [] = Inr w"
    by (simp add: wal_open_def create_segment_def Let_def)
  have f: "wal_active_id w = 0" "wal_segment_size w = 140" "wal_durable_lsn w = 0"
    using w by (auto simp: wal_open_def create_segment_def Let_def cfg_small_def)
  have r0: "wal_reach crc32 cfg_small w None []" by (rule wal_reach.Open [OF w])
  have inv: "wal_inv crc32 w [[]]" "wal_sync_mode w = Fsync"
    using run_inv_open [OF cfg w] by (simp_all add: run_inv_def)
  obtain w1 w' l where w': "wal_append crc32 0 w ?r = Some (w', Inr l)" "wal_write crc32 w1 ?r = (w', l)"
    "w1 = w \<or> wal_rotate crc32 0 w = (w1, Inr ())"
    using wal_append_spec [OF inv(1) _ inv(2), of ?r 0] f small by (auto split: if_splits)
  let ?w = "flush_publish (fst (flush_capture w')) (flush_sync (flush_capture w') w')"
  have "wal_reach crc32 cfg_small w' None [(l, ?r)]"
    using wal_reach.Append [OF r0 _ w'(1)] f by simp
  then have "wal_reach crc32 cfg_small ?w None [(l, ?r)]"
    by (rule wal_reach.Publish [OF wal_reach.Sync [OF wal_reach.Capture]])
  moreover have "wal_last_lsn w' = l" "wal_durable_lsn w' = wal_durable_lsn w1"
    using w'(2) by (auto simp: wal_write_def Let_def split_beta)
  moreover have "wal_durable_lsn w1 = 0"
    using w'(3) f(3) by (auto simp: wal_rotate_def create_segment_def Let_def split: sum.splits if_splits)
  ultimately have "wal_reach crc32 cfg_small ?w None [(l, ?r)]" "wal_durable_lsn ?w = l"
    by (simp_all add: flush_publish_def flush_capture_def flush_sync_def)
  then show ?thesis by blast
qed

lemma wal_one_durable_record:
  "\<exists>w l. wal_reach crc32 cfg_small w None [(l, log_txn 1 0 Abort)] \<and> wal_durable_lsn w = l"
  by (rule wal_one_record) (simp add: frame_len_def log_txn_def)

theorem wal_durable_after_crash_witness:
  "\<exists>w l. wal_reach (\<lambda>_. 3) cfg_small w None [(l, log_txn 1 0 Abort)] \<and> wal_durable_lsn w = l \<and>
     prefix [Inr (l, log_txn 1 0 Abort)] (wal_replay (\<lambda>_. 3) (wal_synced w) 0)"
proof -
  obtain w l where w: "wal_reach (\<lambda>_. 3) cfg_small w None [(l, log_txn 1 0 Abort)]" "wal_durable_lsn w = l"
    using wal_one_durable_record [of "\<lambda>_. 3"] by blast
  have "config_ok cfg_small" "crash_image w (wal_synced w)"
    by (auto simp: config_ok_def cfg_small_def crash_image_def split: option.splits)
  then show ?thesis using wal_durable_after_crash [OF _ w(1)] w by auto
qed

text \<open>
  C7: Without a crash, replay from the start returns exactly the appended records, in append
  order and under strictly increasing LSNs; and opening the directory again restores the
  write position and the last LSN.
\<close>

theorem wal_replay_and_reopen:
  assumes "config_ok cfg" and "wal_reach crc32 cfg w fl h"
  shows "wal_replay crc32 (wal_files w) 0 = map Inr h \<and> sorted_wrt (<) (map fst h) \<and>
    (\<exists>w2. wal_open crc32 now cfg (wal_files w) = Inr w2 \<and> wal_files w2 = wal_files w \<and>
      wal_active_id w2 = wal_active_id w \<and> wal_active_offset w2 = wal_active_offset w \<and>
      (h \<noteq> [] \<longrightarrow> wal_last_lsn w2 = fst (last h)))"
proof -
  obtain L where L: "run_inv crc32 w fl h L" "h = [] \<or> last L \<noteq> []"
    using run_inv_reach [OF assms(2,1)] by blast
  then have i: "wal_inv crc32 w L" "h = all_items L" by (simp_all add: run_inv_def)
  have "last (0 # map fst (log_items (wal_active_id w) 64 (last L))) = fst (last h)" if "h \<noteq> []"
  proof -
    have ne: "log_items (wal_active_id w) 64 (last L) \<noteq> []" using L(2) that by (cases "last L") auto
    moreover have "h = all_items (butlast L) @ log_items (wal_active_id w) 64 (last L)"
      using i wal_inv_last [OF i(1)] all_items_last [of L] by (simp add: wal_inv_def)
    ultimately show ?thesis by (simp add: last_map)
  qed
  then show ?thesis
    using wal_inv_replay [OF i(1)] i(2) wal_reach_sorted [OF assms(2,1)] wal_open_clean [OF i(1), of now cfg]
    by auto
qed

theorem wal_replay_and_reopen_witness:
  "\<exists>(w :: Wal) l. wal_replay (\<lambda>_. 3) (wal_files w) 0 = [Inr (l, log_txn 1 0 Abort)]"
proof -
  have cfg: "config_ok cfg_small" by (simp add: config_ok_def cfg_small_def)
  obtain w l where "wal_reach (\<lambda>_. 3) cfg_small w None [(l, log_txn 1 0 Abort)]"
    using wal_one_durable_record [of "\<lambda>_. 3"] by blast
  then have "wal_replay (\<lambda>_. 3) (wal_files w) 0 = [Inr (l, log_txn 1 0 Abort)]"
    using wal_replay_and_reopen [OF cfg, of "\<lambda>_. 3" w None "[(l, log_txn 1 0 Abort)]" 0] by simp
  then show ?thesis by blast
qed

text \<open>
  C8: A torn frame behind the last valid record of the only segment makes later durable
  records unreachable.  If the next record does not fit the rest of the segment, the log
  opens, rotates, appends the record and reports it durable after a flush; but replay ends
  at the torn frame and never reads the new segment.
\<close>

theorem wal_torn_tail_hides_durable_record:
  assumes "segment_header_decode crc32 b = Inr h" and "unat (sh_segment_size h) = length b"
    and "holds crc32 0 b rs" and "torn_at crc32 b (64 + frames_len rs)"
    and "length b < 64 + frames_len rs + frame_len r" and "64 + frame_len r \<le> length b"
  shows "\<exists>w w' l. wal_open crc32 now cfg [(0, b)] = Inr w \<and>
    wal_append crc32 now w r = Some (w', Inr l) \<and> l \<le> wal_durable_lsn (flush_through l w') \<and>
    (l, r) \<notin> set (log_items 0 64 rs) \<and>
    wal_replay crc32 (wal_files (flush_through l w')) 0 = map Inr (log_items 0 64 rs)"
proof -
  obtain w where w: "wal_open crc32 now cfg [(0, b)] = Inr w" "wal_files w = [(0, b)]"
    "wal_segment_size w = length b" "wal_active_id w = 0" "wal_active_offset w = 64 + frames_len rs"
    using torn_open [OF assms(1-4)] by blast
  obtain w' where w': "wal_append crc32 now w r = Some (w', Inr (lsn_at 1 64))"
    "map_of (wal_files w') 0 = Some b" "wal_last_lsn w' = lsn_at 1 64"
    using append_rotates [of w b r crc32 now] w assms(5,6) by auto
  have fl: "wal_files (flush_through l w') = wal_files w'" for l
    by (simp add: flush_through_def flush_publish_def flush_sync_def flush_capture_def Let_def)
  have "lsn_at 1 64 \<le> wal_durable_lsn (flush_through (lsn_at 1 64) w')"
    using w'(3) by (simp add: flush_through_def flush_publish_def flush_capture_def Let_def)
  moreover have "(lsn_at 1 64, r) \<notin> set (log_items 0 64 rs)"
    using log_items_segment [of "lsn_at 1 64" r 0 64 rs] by (auto simp: lsn_at_def)
  moreover have "wal_replay crc32 (wal_files w') 0 = map Inr (log_items 0 64 rs)"
    using replay_list_frames [OF w'(2), of 64 rs crc32] replay_list_torn [OF w'(2) assms(4)]
      assms(2,3) unat_u32_less [of "sh_segment_size h"]
    by (simp add: wal_replay_def holds_def lsn_segment_id_def lsn_offset_def)
  ultimately show ?thesis using w(1) w'(1) fl by metis
qed

text \<open>A segment with one valid record, a torn frame behind it and room for nothing longer.\<close>

definition torn_segment :: bytes where
  "torn_segment = segment_header_encode (\<lambda>_. 0)
     \<lparr>sh_format_version = WAL_FORMAT_VERSION, sh_segment_size = 140, sh_segment_id = 0,
      sh_first_lsn = 64, sh_created_at_micros = 0, sh_prev_segment_id = 0\<rparr> @
     encode_record (\<lambda>_. 0) (lsn_at 0 64) (log_txn 1 0 Abort) @
     to_le_bytes (100 :: u64) @ replicate 24 0 @ [1, 1, 1, 1, 0, 0, 0, 0]"

theorem wal_torn_tail_hides_durable_record_witness:
  "\<exists>w w' l. wal_open (\<lambda>_. 0) 0 cfg_small [(0, torn_segment)] = Inr w \<and>
    wal_append (\<lambda>_. 0) 0 w (log_system (HeapPage 1 2)) = Some (w', Inr l) \<and>
    l \<le> wal_durable_lsn (flush_through l w') \<and>
    wal_replay (\<lambda>_. 0) (wal_files (flush_through l w')) 0 = [Inr (lsn_at 0 64, log_txn 1 0 Abort)]"
proof -
  let ?old = "log_txn 1 0 Abort" and ?new = "log_system (HeapPage 1 2)"
  let ?h = "\<lparr>sh_format_version = WAL_FORMAT_VERSION, sh_segment_size = 140, sh_segment_id = 0,
      sh_first_lsn = 64, sh_created_at_micros = 0, sh_prev_segment_id = 0\<rparr>"
  let ?t = "to_le_bytes (100 :: u64) @ replicate 24 0 @ [1, 1, 1, 1, 0, 0, 0, 0 :: u8]"
  let ?p = "segment_header_encode (\<lambda>_. 0) ?h @ encode_record (\<lambda>_. 0) (lsn_at 0 64) ?old"
  have fl: "frame_len ?old = 36" "frame_len ?new = 52"
    by (simp_all add: frame_len_def log_txn_def log_system_def)
  have fit: "record_fits ?old" by (rule record_fits_of_frame) (simp add: fl)
  have len: "length torn_segment = 140" "length ?p = 100" using fit fl by (simp_all add: torn_segment_def)
  have ts: "torn_segment = ?p @ ?t" by (simp add: torn_segment_def)
  have h: "segment_header_decode (\<lambda>_. 0) torn_segment = Inr ?h"
    unfolding torn_segment_def by (rule segment_header_roundtrip) simp
  have holds: "holds (\<lambda>_. 0) 0 torn_segment [?old]"
    using fit fl len(1) slice_append_exact [of _ 64 "encode_record (\<lambda>_. 0) (lsn_at 0 64) ?old" 36]
    by (simp add: holds_def torn_segment_def)
  have at: "slice (100 + k) n torn_segment = slice k n ?t" for k n
    unfolding ts using slice_append_right [of ?p k n ?t] len(2) by simp
  have g: "get_u64 torn_segment 100 = 100" "get_u32 torn_segment 108 = 0"
    using at [of 0 8] at [of 8 4]
    by (simp_all add: get_u64_def get_u32_def slice_def from_to_le_bytes) (simp add: from_le_bytes_def)
  define f where "f = slice 100 36 torn_segment"
  have f: "f = (to_le_bytes (100 :: u64) @ replicate 24 0) @ [1, 1, 1, 1] @ []"
    using at [of 0 36] by (simp add: f_def slice_def)
  have "slice 32 4 f = [1, 1, 1, 1]" unfolding f by (rule slice_append_exact) simp_all
  moreover have "slice 8 4 f = replicate 4 0" unfolding f by (simp add: slice_def)
  moreover have "length f = 36" unfolding f by simp
  ultimately have "decode_record (\<lambda>_. 0) (slice 100 36 torn_segment) = Inl CrcMismatch"
    unfolding f_def [symmetric] by (simp add: decode_record_def get_u32_def from_le_bytes_def)
  then have torn: "torn_at (\<lambda>_. 0) torn_segment (64 + frames_len [?old])"
    using g len(1) fl by (simp add: torn_at_def)
  show ?thesis
    using wal_torn_tail_hides_durable_record [OF h _ holds torn, of ?new 0 cfg_small] len(1) fl by simp blast
qed

end
