(* ===== verification/Mvcc.thy ===== *)
theory Mvcc
  imports WalRecord
begin

text \<open>
  Tuple headers and snapshot visibility (\<open>prism-core/src/record.rs\<close>, \<open>visibility.rs\<close> and the
  snapshot and commit-log types of \<open>txn.rs\<close>).
\<close>


section \<open>Record ids and headers\<close>

type_synonym txn_id = u64

definition NO_TXN :: txn_id where [simp]: "NO_TXN = 0"
definition BOOTSTRAP_TXN :: txn_id where [simp]: "BOOTSTRAP_TXN = 1"
definition FIRST_USER_TXN :: txn_id where [simp]: "FIRST_USER_TXN = 2"

definition MVCC_HEADER_SIZE :: nat where [simp]: "MVCC_HEADER_SIZE = 24"
definition FLAG_HAS_PREV :: u16 where "FLAG_HAS_PREV = 1"

record RecordId =
  rid_page :: u64
  rid_slot :: u16

definition rid_new :: "u64 \<Rightarrow> u16 \<Rightarrow> RecordId" where
  "rid_new page slot = \<lparr>rid_page = page, rid_slot = slot\<rparr>"

definition NIL6 :: bytes where
  "NIL6 = [0xFF, 0xFF, 0xFF, 0xFF, 0xFF, 0xFF]"

definition encode6 :: "RecordId option \<Rightarrow> bytes" where
  "encode6 this = (case this of
     None \<Rightarrow> NIL6
   | Some rid \<Rightarrow> to_le_bytes (ucast (rid_page rid) :: u32) @ to_le_bytes (rid_slot rid))"

definition decode6 :: "bytes \<Rightarrow> RecordId option" where
  "decode6 b = (if b = NIL6 then None
     else Some \<lparr>rid_page = ucast (from_le_bytes (slice 0 4 b) :: u32),
                rid_slot = from_le_bytes (slice 4 2 b)\<rparr>)"

record RecordHeader =
  xmin :: txn_id
  xmax :: txn_id
  prev_version :: "RecordId option"
  hdr_flags :: u16

definition new_insert :: "txn_id \<Rightarrow> RecordHeader" where
  "new_insert t = \<lparr>xmin = t, xmax = NO_TXN, prev_version = None, hdr_flags = 0\<rparr>"

definition is_deleted :: "RecordHeader \<Rightarrow> bool" where
  "is_deleted h \<longleftrightarrow> xmax h \<noteq> NO_TXN"

definition header_encode :: "RecordHeader \<Rightarrow> bytes" where
  "header_encode h =
     (let flags = hdr_flags h AND NOT FLAG_HAS_PREV;
          flags = (if prev_version h \<noteq> None then flags OR FLAG_HAS_PREV else flags)
      in to_le_bytes (xmin h) @ to_le_bytes (xmax h) @ encode6 (prev_version h) @ to_le_bytes flags)"

definition header_decode :: "bytes \<Rightarrow> RecordHeader option" where
  "header_decode b =
     (if length b < MVCC_HEADER_SIZE then None
      else Some \<lparr>xmin = get_u64 b 0, xmax = get_u64 b 8, prev_version = decode6 (slice 16 6 b),
                 hdr_flags = from_le_bytes (slice 22 2 b)\<rparr>)"


section \<open>Commit status, snapshots and visibility\<close>

datatype CommitStatus = InProgress | Committed lsn | Aborted

type_synonym commit_log = "txn_id \<Rightarrow> CommitStatus option"

record Snapshot =
  snap_txn_id :: txn_id
  snap_xmin :: txn_id
  snap_xmax :: txn_id
  snap_active :: "txn_id set"

definition commit_log_new :: commit_log where
  "commit_log_new = [BOOTSTRAP_TXN \<mapsto> Committed 0]"

definition status :: "commit_log \<Rightarrow> txn_id \<Rightarrow> CommitStatus" where
  "status cl t = (case cl t of Some s \<Rightarrow> s | None \<Rightarrow> InProgress)"

definition record_commit :: "txn_id \<Rightarrow> lsn \<Rightarrow> commit_log \<Rightarrow> commit_log" where
  "record_commit t l cl = cl(t \<mapsto> Committed l)"

definition record_abort :: "txn_id \<Rightarrow> commit_log \<Rightarrow> commit_log" where
  "record_abort t cl = cl(t \<mapsto> Aborted)"

definition is_committed :: "CommitStatus \<Rightarrow> bool" where
  "is_committed s \<longleftrightarrow> (case s of Committed _ \<Rightarrow> True | _ \<Rightarrow> False)"

definition effect_visible :: "txn_id \<Rightarrow> Snapshot \<Rightarrow> commit_log \<Rightarrow> bool" where
  "effect_visible t s cl =
     (if t = NO_TXN then False
      else if t = snap_txn_id s then True
      else if t \<ge> snap_xmax s then False
      else if t \<in> snap_active s then False
      else is_committed (status cl t))"

definition visible :: "RecordHeader \<Rightarrow> Snapshot \<Rightarrow> commit_log \<Rightarrow> bool" where
  "visible h s cl =
     (if \<not> effect_visible (xmin h) s cl then False
      else if xmax h = NO_TXN then True
      else if effect_visible (xmax h) s cl then False
      else True)"


section \<open>Headers on the page\<close>

text \<open>
  The record ids that survive the six-byte form: pages below \<open>2^32\<close>, except the very last
  slot of the very last page, whose encoding is the NIL pattern.
\<close>

definition rid6_ok :: "RecordId \<Rightarrow> bool" where
  "rid6_ok r \<longleftrightarrow> unat (rid_page r) < 2 ^ 32 \<and> \<not> (unat (rid_page r) = 2 ^ 32 - 1 \<and> rid_slot r = 0xFFFF)"

lemma length_encode6 [simp]: "length (encode6 p) = 6"
  by (simp add: encode6_def NIL6_def split: option.splits)

lemma length_header_encode [simp]: "length (header_encode h) = 24"
  by (simp add: header_encode_def Let_def)

lemma nil6_parts: "NIL6 = to_le_bytes (0xFFFFFFFF :: u32) @ to_le_bytes (0xFFFF :: u16)"
proof -
  have n: "(4 :: nat) = Suc (Suc (Suc (Suc 0)))" "(2 :: nat) = Suc (Suc 0)" by simp_all
  have "nat_le 4 4294967295 = [255, 255, 255, 255 :: u8]" "nat_le 2 65535 = [255, 255 :: u8]"
    unfolding n by simp_all
  then show ?thesis by (simp add: NIL6_def to_le_bytes_def)
qed

lemma decode6_encode6:
  assumes "case p of None \<Rightarrow> True | Some r \<Rightarrow> rid6_ok r"
  shows "decode6 (encode6 p) = p"
proof (cases p)
  case (Some r)
  let ?w = "ucast (rid_page r) :: u32"
  have page: "unat ?w = unat (rid_page r)"
    using assms Some by (simp add: rid6_ok_def unsigned_ucast_eq take_bit_eq_mod)
  have "encode6 p \<noteq> NIL6"
  proof
    assume "encode6 p = NIL6"
    then have "?w = 0xFFFFFFFF" "rid_slot r = 0xFFFF"
      using c_u32.enc_unique [where x = ?w and y = "0xFFFFFFFF" and r = "to_le_bytes (rid_slot r)"
          and s = "to_le_bytes (0xFFFF :: u16)"] c_u16.enc_inj [where x = "rid_slot r" and y = "0xFFFF"]
      by (simp_all add: encode6_def Some nil6_parts)
    then have "unat (rid_page r) = 4294967295" using page by simp
    then show False using assms Some \<open>rid_slot r = 0xFFFF\<close> by (simp add: rid6_ok_def)
  qed
  moreover have "(ucast ?w :: u64) = rid_page r"
    using page by (intro word_unat_eq_iff [THEN iffD2]) (simp add: unsigned_ucast_eq take_bit_eq_mod unat_mod)
  ultimately show ?thesis
    by (simp add: decode6_def encode6_def Some slice_def from_to_le_bytes)
qed (simp add: decode6_def encode6_def)

lemma decode6_encode6_Some_iff: "decode6 (encode6 (Some r)) = Some r \<longleftrightarrow> rid6_ok r"
proof
  assume d: "decode6 (encode6 (Some r)) = Some r"
  then have "rid_page r = ucast (from_le_bytes (slice 0 4 (encode6 (Some r))) :: u32)" and nil: "encode6 (Some r) \<noteq> NIL6"
    by (auto simp: decode6_def split: if_splits dest: arg_cong [where f = rid_page])
  then have lt: "unat (rid_page r) < 2 ^ 32"
    using unsigned_less [of "from_le_bytes (slice 0 4 (encode6 (Some r))) :: u32", where ?'a = nat]
    by (simp add: unsigned_ucast_eq take_bit_eq_mod)
  moreover have "\<not> (unat (rid_page r) = 2 ^ 32 - 1 \<and> rid_slot r = 0xFFFF)"
  proof
    assume last: "unat (rid_page r) = 2 ^ 32 - 1 \<and> rid_slot r = 0xFFFF"
    then have "(ucast (rid_page r) :: u32) = 0xFFFFFFFF"
      by (intro word_unat_eq_iff [THEN iffD2]) (simp add: unsigned_ucast_eq take_bit_eq_mod)
    then show False using nil last by (simp add: encode6_def nil6_parts)
  qed
  ultimately show "rid6_ok r" by (simp add: rid6_ok_def)
qed (simp add: decode6_encode6)

definition norm_flags :: "RecordHeader \<Rightarrow> RecordHeader" where
  "norm_flags h = h\<lparr>hdr_flags := (if prev_version h \<noteq> None
     then (hdr_flags h AND NOT FLAG_HAS_PREV) OR FLAG_HAS_PREV else hdr_flags h AND NOT FLAG_HAS_PREV)\<rparr>"

definition header_ok6 :: "RecordHeader \<Rightarrow> bool" where
  "header_ok6 h \<longleftrightarrow> (case prev_version h of None \<Rightarrow> True | Some r \<Rightarrow> rid6_ok r)"

lemma header_decode_encode:
  assumes "header_ok6 h"
  shows "header_decode (header_encode h @ payload) = Some (norm_flags h)"
proof -
  define fl where "fl = (if prev_version h \<noteq> None then (hdr_flags h AND NOT FLAG_HAS_PREV) OR FLAG_HAS_PREV
     else hdr_flags h AND NOT FLAG_HAS_PREV)"
  have e: "header_encode h = to_le_bytes (xmin h) @ to_le_bytes (xmax h) @ encode6 (prev_version h) @ to_le_bytes fl"
    by (simp add: header_encode_def Let_def fl_def)
  have "slice 0 8 (header_encode h @ payload) = to_le_bytes (xmin h)"
    "slice 8 8 (header_encode h @ payload) = to_le_bytes (xmax h)"
    "slice 16 6 (header_encode h @ payload) = encode6 (prev_version h)"
    "slice 22 2 (header_encode h @ payload) = to_le_bytes fl"
    by (simp_all add: e slice_def)
  then show ?thesis
    using decode6_encode6 [of "prev_version h"] assms
    by (simp add: header_decode_def get_u64_def from_to_le_bytes header_ok6_def norm_flags_def fl_def)
qed

lemma norm_flags_simps [simp]:
  "xmin (norm_flags h) = xmin h" "xmax (norm_flags h) = xmax h" "prev_version (norm_flags h) = prev_version h"
  by (simp_all add: norm_flags_def)

lemma header_decode_None_iff [simp]: "header_decode b = None \<longleftrightarrow> length b < 24"
  by (simp add: header_decode_def)

text \<open>Stamping \<open>xmax\<close> in the bytes of a record changes that field of its header and nothing else.\<close>

definition stamp_bytes :: "txn_id \<Rightarrow> bytes \<Rightarrow> bytes" where
  "stamp_bytes t b = wr 8 (to_le_bytes t) b"

lemma stamp_bytes_decode:
  assumes "24 \<le> length b"
  shows "length (stamp_bytes t b) = length b"
    and "header_decode (stamp_bytes t b) = map_option (\<lambda>h. h\<lparr>xmax := t\<rparr>) (header_decode b)"
    and "drop 24 (stamp_bytes t b) = drop 24 b"
proof -
  show len: "length (stamp_bytes t b) = length b" using assms by (simp add: stamp_bytes_def)
  show "header_decode (stamp_bytes t b) = map_option (\<lambda>h. h\<lparr>xmax := t\<rparr>) (header_decode b)"
    using assms len by (simp add: header_decode_def stamp_bytes_def get_u64_def byte_simps from_to_le_bytes)
  show "drop 24 (stamp_bytes t b) = drop 24 b" using assms by (simp add: stamp_bytes_def wr_def)
qed


section \<open>Visibility\<close>

lemma visible_iff:
  "visible h s cl \<longleftrightarrow> effect_visible (xmin h) s cl \<and> \<not> effect_visible (xmax h) s cl"
  by (auto simp: visible_def effect_visible_def)

lemma effect_visible_iff:
  "effect_visible t s cl \<longleftrightarrow> t \<noteq> 0 \<and>
     (t = snap_txn_id s \<or> t < snap_xmax s \<and> t \<notin> snap_active s \<and> is_committed (status cl t))"
  by (auto simp: effect_visible_def not_le)

text \<open>Two commit logs that agree on what a snapshot may look at show it the same versions.\<close>

lemma visible_cong:
  assumes "\<And>t. t < snap_xmax s \<Longrightarrow> t \<notin> snap_active s \<Longrightarrow> is_committed (status cl t) = is_committed (status cl' t)"
  shows "visible h s cl = visible h s cl'"
proof -
  have "effect_visible t s cl = effect_visible t s cl'" for t
  proof (cases "t < snap_xmax s \<and> t \<notin> snap_active s")
    case True
    then have "is_committed (status cl t) = is_committed (status cl' t)" using assms by blast
    then show ?thesis by (simp only: effect_visible_iff)
  next
    case False
    then show ?thesis by (simp only: effect_visible_iff) blast
  qed
  then show ?thesis by (simp add: visible_iff)
qed

lemma status_simps [simp]:
  "status (record_commit t l cl) u = (if u = t then Committed l else status cl u)"
  "status (record_abort t cl) u = (if u = t then Aborted else status cl u)"
  "is_committed (Committed l)" "\<not> is_committed Aborted" "\<not> is_committed InProgress"
  by (simp_all add: status_def record_commit_def record_abort_def is_committed_def)

text \<open>
  C9: The 24-byte header in front of a payload decodes to the header that was encoded (with the
  flag bit that marks a previous version set from \<open>prev_version\<close>) exactly when its previous
  version is absent or has a page below \<open>2^32\<close> and is not the one record id whose six bytes are
  the NIL pattern: those are the only headers the format loses.
\<close>

theorem record_header_roundtrip:
  "header_decode (header_encode h @ payload) = Some (norm_flags h) \<longleftrightarrow> header_ok6 h"
proof
  assume l: "header_decode (header_encode h @ payload) = Some (norm_flags h)"
  have "slice 16 6 (header_encode h @ payload) = encode6 (prev_version h)"
    by (simp add: header_encode_def Let_def slice_def)
  then have d: "decode6 (encode6 (prev_version h)) = prev_version h"
    using l by (auto simp: header_decode_def dest: arg_cong [where f = prev_version])
  show "header_ok6 h"
  proof (cases "prev_version h")
    case (Some r)
    have "decode6 (encode6 (Some r)) = Some r" using d Some by simp
    then show ?thesis using decode6_encode6_Some_iff [of r] Some by (simp add: header_ok6_def)
  qed (simp add: header_ok6_def)
qed (rule header_decode_encode)

end
