(* ===== verification/Locks.thy ===== *)
theory Locks
  imports Mvcc "HOL-Library.AList"
begin

text \<open>
  The lock manager (\<open>prism-core/src/lock.rs\<close>): exclusive per-record locks in sharded tables,
  the per-transaction lists of held locks, and the wait-for graph whose cycles are detected
  when a transaction is about to wait.
\<close>


section \<open>State\<close>

text \<open>
  The lock tables map a record to its \<open>LockState\<close>, whose only field is the holder.  The
  wait-for graph maps a transaction to the transactions it waits on.
\<close>

type_synonym wait_graph = "(txn_id \<times> txn_id list) list"

record LockManager =
  lk_shards :: "(RecordId \<Rightarrow> txn_id option option) list"
  lk_held :: "txn_id \<Rightarrow> RecordId list option"
  lk_edges :: wait_graph

datatype LockError = Deadlock | LockTimeout

definition lock_manager_new :: "nat \<Rightarrow> LockManager" where
  "lock_manager_new shards =
     \<lparr>lk_shards = replicate (max shards 1) Map.empty, lk_held = Map.empty, lk_edges = []\<rparr>"

definition shard_index :: "LockManager \<Rightarrow> RecordId \<Rightarrow> nat" where
  "shard_index lm rid =
     (let h = (rid_page rid * 0x9E3779B97F4A7C15) XOR ucast (rid_slot rid)
      in unat h mod length (lk_shards lm))"


section \<open>The wait-for graph\<close>

text \<open>Depth-first reachability with an explicit stack; the top of the stack is the list's head.\<close>

function reach_loop :: "wait_graph \<Rightarrow> txn_id \<Rightarrow> txn_id list \<Rightarrow> txn_id list \<Rightarrow> bool" where
  "reach_loop edges target [] seen = False"
| "reach_loop edges target (node # stack) seen =
     (if node = target then True
      else if node \<in> set seen then reach_loop edges target stack seen
      else case map_of edges node of
        Some next_nodes \<Rightarrow> reach_loop edges target (rev next_nodes @ stack) (node # seen)
      | None \<Rightarrow> reach_loop edges target stack (node # seen))"
  by pat_completeness auto
termination
proof (relation "measures [\<lambda>(edges, _, _, seen). card (fst ` set edges - set seen), \<lambda>(_, _, stack, _). length stack]",
    goal_cases)
  case (3 edges target node stack seen)
  then have "fst ` set edges - set (node # seen) = fst ` set edges - set seen"
    by (force simp: map_of_eq_None_iff)
  then show ?case by simp
next
  case (4 edges target node stack seen next_nodes)
  have "(node, next_nodes) \<in> set edges" by (rule map_of_SomeD [OF 4(3)])
  then have "node \<in> fst ` set edges" using image_eqI [of node fst "(node, next_nodes)"] by simp
  then have "node \<in> fst ` set edges - set seen" using 4(2) by simp
  then have "fst ` set edges - set (node # seen) \<subset> fst ` set edges - set seen" by auto
  then show ?case by (simp add: psubset_card_mono)
qed auto

declare reach_loop.simps(2) [simp del]

definition reachable :: "wait_graph \<Rightarrow> txn_id \<Rightarrow> txn_id \<Rightarrow> bool" where
  "reachable edges start target = reach_loop edges target [start] []"

definition set_wait_detect :: "txn_id \<Rightarrow> txn_id \<Rightarrow> wait_graph \<Rightarrow> wait_graph \<times> bool" where
  "set_wait_detect txn holder edges =
     (let edges = AList.update txn [holder] edges in (edges, reachable edges holder txn))"

definition graph_clear :: "txn_id \<Rightarrow> wait_graph \<Rightarrow> wait_graph" where
  "graph_clear txn edges = AList.delete txn edges"


section \<open>Acquiring and releasing\<close>

definition holder_of :: "LockManager \<Rightarrow> RecordId \<Rightarrow> txn_id option" where
  "holder_of lm rid = (case (lk_shards lm ! shard_index lm rid) rid of Some h \<Rightarrow> h | None \<Rightarrow> None)"

definition set_holder :: "RecordId \<Rightarrow> txn_id option \<Rightarrow> LockManager \<Rightarrow> LockManager" where
  "set_holder rid h lm =
     (let i = shard_index lm rid
      in lm\<lparr>lk_shards := (lk_shards lm)[i := ((lk_shards lm) ! i)(rid \<mapsto> h)]\<rparr>)"

definition push_held :: "txn_id \<Rightarrow> RecordId \<Rightarrow> LockManager \<Rightarrow> LockManager" where
  "push_held txn rid lm =
     lm\<lparr>lk_held := (lk_held lm)(txn \<mapsto> (case lk_held lm txn of Some rs \<Rightarrow> rs | None \<Rightarrow> []) @ [rid])\<rparr>"

datatype AcquireStep = Acquired | Failed LockError | MustWait

text \<open>
  One round of the loop of \<open>acquire\<close>: it grants the lock, reports a deadlock or (with the
  deadline passed, \<open>expired\<close>) a timeout, or goes to sleep on the shard's condition variable.
\<close>

definition acquire_round :: "txn_id \<Rightarrow> RecordId \<Rightarrow> bool \<Rightarrow> LockManager \<Rightarrow> LockManager \<times> AcquireStep" where
  "acquire_round txn rid expired lm =
     (case holder_of lm rid of
        None \<Rightarrow>
          (let lm1 = set_holder rid (Some txn) lm;
               lm2 = lm1\<lparr>lk_edges := graph_clear txn (lk_edges lm1)\<rparr>
           in (push_held txn rid lm2, Acquired))
      | Some h \<Rightarrow>
          if h = txn then (lm, Acquired)
          else
            let (edges, cycle) = set_wait_detect txn h (lk_edges lm) in
            if cycle then (lm\<lparr>lk_edges := graph_clear txn edges\<rparr>, Failed Deadlock)
            else if expired then (lm\<lparr>lk_edges := graph_clear txn edges\<rparr>, Failed LockTimeout)
            else (lm\<lparr>lk_edges := edges\<rparr>, MustWait))"

text \<open>The sleep timed out.\<close>

definition acquire_timed_out :: "txn_id \<Rightarrow> LockManager \<Rightarrow> LockManager \<times> AcquireStep" where
  "acquire_timed_out txn lm = (lm\<lparr>lk_edges := graph_clear txn (lk_edges lm)\<rparr>, Failed LockTimeout)"

definition release_one :: "txn_id \<Rightarrow> RecordId \<Rightarrow> LockManager \<Rightarrow> LockManager" where
  "release_one txn rid lm = (if holder_of lm rid = Some txn then set_holder rid None lm else lm)"

definition release_all :: "txn_id \<Rightarrow> LockManager \<Rightarrow> LockManager" where
  "release_all txn lm =
     (let rids = (case lk_held lm txn of Some rs \<Rightarrow> rs | None \<Rightarrow> []);
          lm1 = lm\<lparr>lk_held := (lk_held lm)(txn := None)\<rparr>;
          lm2 = fold (release_one txn) rids lm1
      in lm2\<lparr>lk_edges := graph_clear txn (lk_edges lm2)\<rparr>)"


section \<open>Reachability\<close>

definition waits :: "wait_graph \<Rightarrow> (txn_id \<times> txn_id) set" where
  "waits edges = {(a, b). \<exists>ns. map_of edges a = Some ns \<and> b \<in> set ns}"

lemma waits_update:
  "waits (AList.update t [h] edges) = {(a, b). (a, b) \<in> waits edges \<and> a \<noteq> t} \<union> {(t, h)}"
  by (auto simp: waits_def update_conv' split: if_splits)

lemma waits_clear: "waits (graph_clear t edges) = {(a, b). (a, b) \<in> waits edges \<and> a \<noteq> t}"
  by (auto simp: waits_def graph_clear_def delete_conv' split: if_splits)

text \<open>From a visited node one reaches the target only through the stack.\<close>

lemma escape_seen:
  assumes "(a, target) \<in> R\<^sup>*" and "a \<in> S" and "target \<notin> S"
    and "\<And>x y. x \<in> S \<Longrightarrow> (x, y) \<in> R \<Longrightarrow> y \<in> S \<union> T"
  shows "\<exists>s \<in> T. (s, target) \<in> R\<^sup>*"
  using assms(1,2)
proof (induction rule: converse_rtrancl_induct)
  case base
  then show ?case using assms(3) by blast
next
  case (step x y)
  then show ?case using assms(4) [OF step.prems step.hyps(1)] step by blast
qed

lemma reach_loop_correct:
  assumes "target \<notin> set seen"
    and "\<And>x y. x \<in> set seen \<Longrightarrow> (x, y) \<in> waits edges \<Longrightarrow> y \<in> set seen \<union> set stack"
  shows "reach_loop edges target stack seen \<longleftrightarrow> (\<exists>s \<in> set stack. (s, target) \<in> (waits edges)\<^sup>*)"
  using assms
proof (induction edges target stack seen rule: reach_loop.induct)
  case (1 edges target seen)
  then show ?case by simp
next
  case (2 edges target node stack seen)
  show ?case
  proof (cases "node = target")
    case True
    then show ?thesis by (auto simp: reach_loop.simps(2))
  next
    case ne: False
    show ?thesis
    proof (cases "node \<in> set seen")
      case True
      have closed: "y \<in> set seen \<union> set stack" if "x \<in> set seen" "(x, y) \<in> waits edges" for x y
        using 2(5) [OF that] True by auto
      have "\<exists>s \<in> set stack. (s, target) \<in> (waits edges)\<^sup>*" if "(node, target) \<in> (waits edges)\<^sup>*"
        using escape_seen [OF that True 2(4) closed] .
      moreover have "reach_loop edges target stack seen \<longleftrightarrow> (\<exists>s \<in> set stack. (s, target) \<in> (waits edges)\<^sup>*)"
        using 2(1) [OF ne True 2(4)] closed by blast
      moreover have "reach_loop edges target (node # stack) seen = reach_loop edges target stack seen"
        using ne True by (simp add: reach_loop.simps(2))
      ultimately show ?thesis by auto
    next
      case new: False
      define succ where "succ = (case map_of edges node of Some ns \<Rightarrow> ns | None \<Rightarrow> [])"
      have succ: "(node, y) \<in> waits edges \<longleftrightarrow> y \<in> set succ" for y
        by (cases "map_of edges node") (auto simp: waits_def succ_def)
      have step: "reach_loop edges target (node # stack) seen =
          reach_loop edges target (rev succ @ stack) (node # seen)"
        using ne new by (simp add: reach_loop.simps(2) succ_def split: option.splits)
      have "y \<in> set (node # seen) \<union> set (rev succ @ stack)"
        if "x \<in> set (node # seen)" "(x, y) \<in> waits edges" for x y
        using that 2(5) succ by (cases "x = node") auto
      then have "reach_loop edges target (rev succ @ stack) (node # seen) \<longleftrightarrow>
          (\<exists>s \<in> set (rev succ @ stack). (s, target) \<in> (waits edges)\<^sup>*)"
        using 2(2,3) ne new 2(4) by (cases "map_of edges node") (simp_all add: succ_def)
      also have "\<dots> \<longleftrightarrow> (\<exists>s \<in> set (node # stack). (s, target) \<in> (waits edges)\<^sup>*)"
        using succ ne converse_rtranclE [of node target "waits edges"]
        by (auto intro: converse_rtrancl_into_rtrancl)
      finally show ?thesis using step by simp
    qed
  qed
qed

lemma reachable_correct: "reachable edges a b \<longleftrightarrow> (a, b) \<in> (waits edges)\<^sup>*"
  using reach_loop_correct [of b "[]" edges "[a]"] by (simp add: reachable_def)


section \<open>Sequences of lock operations\<close>

datatype lock_op = OpAcquire txn_id RecordId bool | OpTimeout txn_id | OpRelease txn_id

fun lock_apply :: "lock_op \<Rightarrow> LockManager \<Rightarrow> LockManager" where
  "lock_apply (OpAcquire txn rid expired) lm = fst (acquire_round txn rid expired lm)"
| "lock_apply (OpTimeout txn) lm = fst (acquire_timed_out txn lm)"
| "lock_apply (OpRelease txn) lm = release_all txn lm"

definition lock_run :: "lock_op list \<Rightarrow> LockManager \<Rightarrow> LockManager" where
  "lock_run ops lm = fold lock_apply ops lm"

definition held_list :: "LockManager \<Rightarrow> txn_id \<Rightarrow> RecordId list" where
  "held_list lm t = (case lk_held lm t of Some rs \<Rightarrow> rs | None \<Rightarrow> [])"

definition lk_inv :: "LockManager \<Rightarrow> bool" where
  "lk_inv lm \<longleftrightarrow> lk_shards lm \<noteq> [] \<and> (\<forall>r t. holder_of lm r = Some t \<longleftrightarrow> r \<in> set (held_list lm t)) \<and>
     acyclic (waits (lk_edges lm))"

lemma shard_index_less: "lk_shards lm \<noteq> [] \<Longrightarrow> shard_index lm r < length (lk_shards lm)"
  by (simp add: shard_index_def)

lemma shard_index_cong: "length (lk_shards lm) = length (lk_shards lm') \<Longrightarrow> shard_index lm r = shard_index lm' r"
  by (simp add: shard_index_def)

lemma set_holder_frame [simp]:
  "lk_held (set_holder r h lm) = lk_held lm" "lk_edges (set_holder r h lm) = lk_edges lm"
  "length (lk_shards (set_holder r h lm)) = length (lk_shards lm)"
  by (simp_all add: set_holder_def Let_def)

lemma holder_of_cong:
  "lk_shards lm = lk_shards lm' \<Longrightarrow> holder_of lm r = holder_of lm' r"
  by (simp add: holder_of_def shard_index_def)

lemma holder_of_updates [simp]:
  "holder_of (lm\<lparr>lk_edges := e\<rparr>) r = holder_of lm r" "holder_of (lm\<lparr>lk_held := x\<rparr>) r = holder_of lm r"
  "holder_of (push_held t q lm) r = holder_of lm r"
  by (rule holder_of_cong, simp add: push_held_def)+

lemma holder_of_set_holder:
  assumes "lk_shards lm \<noteq> []"
  shows "holder_of (set_holder r h lm) q = (if q = r then h else holder_of lm q)"
proof -
  let ?lm = "set_holder r h lm"
  have idx: "shard_index ?lm q = shard_index lm q" by (rule shard_index_cong) simp
  have "lk_shards ?lm = (lk_shards lm)[shard_index lm r := ((lk_shards lm) ! shard_index lm r)(r \<mapsto> h)]"
    by (simp add: set_holder_def Let_def)
  then show ?thesis
    using shard_index_less [OF assms, of r] shard_index_less [OF assms, of q]
    by (auto simp: holder_of_def idx nth_list_update)
qed

lemma release_one_holder:
  assumes "lk_shards lm \<noteq> []"
  shows "holder_of (release_one t r lm) q = (if q = r \<and> holder_of lm r = Some t then None else holder_of lm q)"
    and "lk_shards (release_one t r lm) \<noteq> []" and "lk_held (release_one t r lm) = lk_held lm"
    and "lk_edges (release_one t r lm) = lk_edges lm"
  using assms set_holder_frame(3) [of r None lm]
  by (auto simp: release_one_def holder_of_set_holder simp del: set_holder_frame(3))

lemma release_fold_holder:
  "lk_shards lm \<noteq> [] \<Longrightarrow>
   holder_of (fold (release_one t) rids lm) q =
     (if q \<in> set rids \<and> holder_of lm q = Some t then None else holder_of lm q) \<and>
   lk_shards (fold (release_one t) rids lm) \<noteq> [] \<and>
   lk_held (fold (release_one t) rids lm) = lk_held lm \<and>
   lk_edges (fold (release_one t) rids lm) = lk_edges lm"
  by (induction rids arbitrary: lm) (auto simp: release_one_holder)

lemma release_all_spec:
  assumes "lk_inv lm"
  shows "holder_of (release_all t lm) q = (if holder_of lm q = Some t then None else holder_of lm q)"
    and "lk_shards (release_all t lm) \<noteq> []"
    and "held_list (release_all t lm) u = (if u = t then [] else held_list lm u)"
    and "lk_edges (release_all t lm) = graph_clear t (lk_edges lm)"
proof -
  let ?lm1 = "lm\<lparr>lk_held := (lk_held lm)(t := None)\<rparr>"
  have ne: "lk_shards ?lm1 \<noteq> []" using assms by (simp add: lk_inv_def)
  note f = release_fold_holder [OF ne, of t "held_list lm t"]
  have e: "release_all t lm = (fold (release_one t) (held_list lm t) ?lm1)
      \<lparr>lk_edges := graph_clear t (lk_edges lm)\<rparr>"
    using f by (simp add: release_all_def held_list_def Let_def)
  show "holder_of (release_all t lm) q = (if holder_of lm q = Some t then None else holder_of lm q)"
    using f [of q] assms by (auto simp: e lk_inv_def)
  show "lk_shards (release_all t lm) \<noteq> []"
    "held_list (release_all t lm) u = (if u = t then [] else held_list lm u)"
    "lk_edges (release_all t lm) = graph_clear t (lk_edges lm)"
    using f by (simp_all add: e held_list_def)
qed

lemma acyclic_clear: "acyclic (waits e) \<Longrightarrow> acyclic (waits (graph_clear t e))"
  by (rule acyclic_subset) (auto simp: waits_clear)

lemma acyclic_wait:
  assumes "acyclic (waits e)" and "\<not> reachable (AList.update t [h] e) h t"
  shows "acyclic (waits (AList.update t [h] e))"
proof -
  let ?old = "{(a, b). (a, b) \<in> waits e \<and> a \<noteq> t}"
  have "acyclic ?old" by (rule acyclic_subset [OF assms(1)]) auto
  moreover have "(h, t) \<notin> ?old\<^sup>*"
    using assms(2) rtrancl_mono [of ?old "insert (t, h) ?old"]
    by (auto simp: reachable_correct waits_update)
  ultimately show ?thesis by (simp add: waits_update acyclic_insert)
qed

lemma lk_inv_new: "lk_inv (lock_manager_new n)"
proof -
  have "lk_shards (lock_manager_new n) \<noteq> []" by (simp add: lock_manager_new_def max_def)
  moreover from this have "holder_of (lock_manager_new n) r = None" for r
    using shard_index_less [of "lock_manager_new n" r] by (simp add: holder_of_def lock_manager_new_def)
  ultimately show ?thesis
    by (simp add: lk_inv_def held_list_def) (simp add: lock_manager_new_def waits_def acyclic_def)
qed

text \<open>One round of \<open>acquire\<close>, by what it finds.\<close>

lemma acquire_round_free:
  assumes "lk_inv lm" and "holder_of lm r = None"
  shows "snd (acquire_round t r x lm) = Acquired"
    and "holder_of (fst (acquire_round t r x lm)) q = (if q = r then Some t else holder_of lm q)"
    and "held_list (fst (acquire_round t r x lm)) u = held_list lm u @ (if u = t then [r] else [])"
    and "lk_edges (fst (acquire_round t r x lm)) = graph_clear t (lk_edges lm)"
    and "lk_shards (fst (acquire_round t r x lm)) \<noteq> []"
proof -
  let ?lm1 = "set_holder r (Some t) lm"
  let ?lm2 = "?lm1\<lparr>lk_edges := graph_clear t (lk_edges ?lm1)\<rparr>"
  have e: "acquire_round t r x lm = (push_held t r ?lm2, Acquired)"
    using assms(2) by (simp add: acquire_round_def Let_def)
  have ne: "lk_shards lm \<noteq> []" using assms(1) by (simp add: lk_inv_def)
  show "snd (acquire_round t r x lm) = Acquired" by (simp add: e)
  show "holder_of (fst (acquire_round t r x lm)) q = (if q = r then Some t else holder_of lm q)"
    using holder_of_set_holder [OF ne] by (simp add: e)
  show "held_list (fst (acquire_round t r x lm)) u = held_list lm u @ (if u = t then [r] else [])"
    by (simp add: e held_list_def push_held_def split: option.splits)
  show "lk_edges (fst (acquire_round t r x lm)) = graph_clear t (lk_edges lm)"
    by (simp add: e push_held_def)
  have "length (lk_shards (push_held t r ?lm2)) = length (lk_shards lm)" by (simp add: push_held_def)
  then show "lk_shards (fst (acquire_round t r x lm)) \<noteq> []" using ne by (auto simp: e)
qed

lemma acquire_round_busy:
  assumes "holder_of lm r = Some h" and "h \<noteq> t"
  defines "e' \<equiv> AList.update t [h] (lk_edges lm)"
  shows "acquire_round t r x lm =
    (if reachable e' h t then (lm\<lparr>lk_edges := graph_clear t e'\<rparr>, Failed Deadlock)
     else if x then (lm\<lparr>lk_edges := graph_clear t e'\<rparr>, Failed LockTimeout)
     else (lm\<lparr>lk_edges := e'\<rparr>, MustWait))"
  using assms by (simp add: acquire_round_def set_wait_detect_def Let_def)

lemma waits_clear_update: "waits (graph_clear t (AList.update t ns e)) = waits (graph_clear t e)"
  by (auto simp: waits_def graph_clear_def delete_conv' update_conv' split: if_splits)

lemma held_list_edges [simp]: "held_list (lm\<lparr>lk_edges := e\<rparr>) u = held_list lm u"
  by (simp add: held_list_def)

lemma lk_inv_apply:
  assumes inv: "lk_inv lm"
  shows "lk_inv (lock_apply op lm)"
proof (cases op)
  case (OpAcquire t r x)
  note i = inv [unfolded lk_inv_def]
  show ?thesis
  proof (cases "holder_of lm r")
    case None
    note f = acquire_round_free [OF inv None]
    have "r \<notin> set (held_list lm u)" for u using i None by (metis option.distinct(1))
    then show ?thesis
      unfolding OpAcquire lock_apply.simps lk_inv_def f
      using i None acyclic_clear by (auto simp: f)
  next
    case (Some h)
    show ?thesis
    proof (cases "h = t")
      case True
      then show ?thesis using inv Some OpAcquire by (simp add: acquire_round_def)
    next
      case False
      show ?thesis
        using i acyclic_clear [of "lk_edges lm"] acyclic_wait [of "lk_edges lm" t h]
        by (auto simp: OpAcquire acquire_round_busy [OF Some False] lk_inv_def waits_clear_update)
    qed
  qed
next
  case (OpTimeout t)
  then show ?thesis using inv acyclic_clear by (auto simp: lk_inv_def acquire_timed_out_def)
next
  case (OpRelease t)
  have "t = u" if "r \<in> set (held_list lm t)" "r \<in> set (held_list lm u)" for r u
    using inv that unfolding lk_inv_def by (metis option.inject)
  then show ?thesis
    using OpRelease release_all_spec [OF inv] inv acyclic_clear [of "lk_edges lm" t]
    by (auto simp: lk_inv_def)
qed

lemma lk_inv_run: "lk_inv lm \<Longrightarrow> lk_inv (lock_run ops lm)"
  unfolding lock_run_def by (induction ops arbitrary: lm) (simp_all add: lk_inv_apply)

lemma lock_apply_keeps:
  assumes inv: "lk_inv lm" and "holder_of lm r = Some t" and "op \<noteq> OpRelease t"
  shows "holder_of (lock_apply op lm) r = Some t"
proof (cases op)
  case (OpAcquire u q x)
  then show ?thesis
    using assms acquire_round_free(2) [OF inv, of q u x r]
    by (cases "holder_of lm q"; cases "holder_of lm q = Some u")
      (auto simp: acquire_round_def set_wait_detect_def Let_def)
next
  case (OpTimeout u)
  then show ?thesis using assms by (simp add: acquire_timed_out_def)
next
  case (OpRelease u)
  then show ?thesis using assms release_all_spec(1) [OF inv, of u r] by simp
qed

lemma lock_run_keeps:
  "lk_inv lm \<Longrightarrow> holder_of lm r = Some t \<Longrightarrow> OpRelease t \<notin> set ops \<Longrightarrow>
   holder_of (lock_run ops lm) r = Some t"
  unfolding lock_run_def by (induction ops arbitrary: lm) (auto simp: lk_inv_apply lock_apply_keeps)


section \<open>Properties of the lock manager\<close>

text \<open>
  C10: Record locks are exclusive and held to the end of the transaction. In any state the lock
  manager can reach, a granted lock belongs to the transaction that asked for it and was free
  or its own before; whatever the other operations do afterwards, it stays with its holder
  until that transaction releases, and \<open>release_all\<close> then leaves none of its locks behind and
  touches no other transaction's.
\<close>

theorem lock_exclusive_until_release:
  assumes "lm = lock_run ops (lock_manager_new n)" and "acquire_round t r x lm = (lm', Acquired)"
    and "OpRelease t \<notin> set ops'"
  shows "holder_of lm r \<in> {None, Some t} \<and> holder_of (lock_run ops' lm') r = Some t \<and>
    (\<forall>q. holder_of (release_all t (lock_run ops' lm')) q =
      (if holder_of (lock_run ops' lm') q = Some t then None else holder_of (lock_run ops' lm') q))"
proof -
  have inv: "lk_inv lm" using lk_inv_run [OF lk_inv_new] assms(1) by simp
  have inv': "lk_inv lm'" using lk_inv_apply [OF inv, of "OpAcquire t r x"] assms(2) by simp
  have own: "holder_of lm r \<in> {None, Some t} \<and> holder_of lm' r = Some t"
  proof (cases "holder_of lm r")
    case None
    then show ?thesis using acquire_round_free(2) [OF inv None, of t x r] assms(2) by simp
  next
    case (Some h)
    then show ?thesis
      using assms(2) acquire_round_busy [OF Some, of t x]
      by (cases "h = t") (auto simp: acquire_round_def split: if_splits)
  qed
  then show ?thesis
    using lock_run_keeps [OF inv' _ assms(3)] release_all_spec(1) [OF lk_inv_run [OF inv']] by auto
qed

theorem lock_exclusive_until_release_witness:
  "holder_of (lock_run [OpAcquire 3 (rid_new 1 0) True]
     (fst (acquire_round 2 (rid_new 1 0) False (lock_manager_new 4)))) (rid_new 1 0) = Some 2"
proof -
  let ?lm = "lock_manager_new 4" and ?r = "rid_new 1 0"
  have "holder_of ?lm ?r = None"
    using shard_index_less [of ?lm ?r] by (simp add: holder_of_def lock_manager_new_def)
  then have "acquire_round 2 ?r False ?lm = (fst (acquire_round 2 ?r False ?lm), Acquired)"
    using acquire_round_free(1) [OF lk_inv_new] by (metis prod.collapse)
  then show ?thesis
    using lock_exclusive_until_release [of ?lm "[]" 4 2 ?r False _ "[OpAcquire 3 ?r True]"]
    by (simp add: lock_run_def)
qed

text \<open>
  C11: Deadlock detection is exact. In any reachable state the wait-for graph has no cycle; a
  transaction that finds the lock taken by another is refused as a deadlock victim if and only
  if waiting for the holder would close a cycle.
\<close>

theorem deadlock_detection_exact:
  assumes "lm = lock_run ops (lock_manager_new n)" and "holder_of lm r = Some h" and "h \<noteq> t"
  shows "acyclic (waits (lk_edges lm)) \<and>
    (snd (acquire_round t r x lm) = Failed Deadlock \<longleftrightarrow>
      \<not> acyclic (waits (AList.update t [h] (lk_edges lm))))"
proof -
  have inv: "lk_inv lm" using lk_inv_run [OF lk_inv_new] assms(1) by simp
  let ?e = "AList.update t [h] (lk_edges lm)"
  have ac: "acyclic (waits (lk_edges lm))" using inv by (simp add: lk_inv_def)
  have "\<not> acyclic (waits ?e)" if "reachable ?e h t"
    using that by (auto simp: reachable_correct acyclic_def waits_update intro: rtrancl_into_trancl2)
  then show ?thesis
    using ac acyclic_wait [OF ac, of t h] acquire_round_busy [OF assms(2,3), of x] by auto
qed

theorem deadlock_detection_exact_witness:
  "snd (acquire_round 3 (rid_new 1 0) True (lock_run [OpAcquire 2 (rid_new 1 0) False] (lock_manager_new 4)))
     = Failed Deadlock \<longleftrightarrow> \<not> acyclic (waits (AList.update 3 [2] []))"
proof -
  let ?lm = "lock_run [OpAcquire 2 (rid_new 1 0) False] (lock_manager_new 4)" and ?r = "rid_new 1 0"
  have "holder_of (lock_manager_new 4) ?r = None"
    using shard_index_less [of "lock_manager_new 4" ?r] by (simp add: holder_of_def lock_manager_new_def)
  note f = acquire_round_free [OF lk_inv_new this, of 2 False]
  have "holder_of ?lm ?r = Some 2" "lk_edges ?lm = []"
    using f(2) [of ?r] f(4) by (simp_all add: lock_run_def lock_manager_new_def graph_clear_def)
  then show ?thesis using deadlock_detection_exact [OF refl, of "[OpAcquire 2 ?r False]" 4 ?r 2 3 True] by simp
qed

end
