(* ===== verification/Page.thy ===== *)
theory Page
  imports Prelude
begin

text \<open>
  The slotted page (\<^verbatim>\<open>prism-storage/src/page.rs\<close>) and its checksum
  (\<^verbatim>\<open>prism-storage/src/checksum.rs\<close>), at the level of bytes: a page is a buffer of
  \<open>PAGE_SIZE\<close> bytes, a 32-byte header, a slot array that grows upwards and record data
  that grows downwards. The specification is the map from slot numbers to records;
  \<open>page_abs\<close> reads it off the bytes and every operation is shown to refine its map
  counterpart, to preserve \<open>page_inv\<close> and, under \<open>page_inv\<close>, not to panic.
\<close>


section \<open>Layout\<close>

definition PAGE_SIZE :: nat where [simp]: "PAGE_SIZE = 8192"
definition PAGE_HEADER_SIZE :: nat where [simp]: "PAGE_HEADER_SIZE = 32"
definition SLOT_SIZE :: nat where [simp]: "SLOT_SIZE = 4"
definition SLOT_ARRAY_START :: nat where [simp]: "SLOT_ARRAY_START = PAGE_HEADER_SIZE"
definition OFF_PAGE_LSN :: nat where [simp]: "OFF_PAGE_LSN = 0"
definition OFF_CHECKSUM :: nat where [simp]: "OFF_CHECKSUM = 8"
definition OFF_PAGE_TYPE :: nat where [simp]: "OFF_PAGE_TYPE = 10"
definition OFF_FREE_START :: nat where [simp]: "OFF_FREE_START = 14"
definition OFF_FREE_END :: nat where [simp]: "OFF_FREE_END = 16"
definition OFF_SLOT_COUNT :: nat where [simp]: "OFF_SLOT_COUNT = 18"
definition SLOT_FORWARD_FLAG :: u16 where "SLOT_FORWARD_FLAG = 0x8000"
definition SLOT_LENGTH_MASK :: u16 where "SLOT_LENGTH_MASK = 0x7FFF"

definition MAX_RECORD_LEN :: nat where
  "MAX_RECORD_LEN =
     (let by_field = unat SLOT_LENGTH_MASK; by_page = PAGE_SIZE - PAGE_HEADER_SIZE - SLOT_SIZE
      in if by_field < by_page then by_field else by_page)"

datatype PageType = Heap | BTreeInternal | BTreeLeaf | HashBucket | HashOverflow | Free

definition page_type_u8 :: "PageType \<Rightarrow> u8" where
  "page_type_u8 t = (case t of Heap \<Rightarrow> 1 | BTreeInternal \<Rightarrow> 2 | BTreeLeaf \<Rightarrow> 3
     | HashBucket \<Rightarrow> 4 | HashOverflow \<Rightarrow> 5 | Free \<Rightarrow> 6)"

definition page_type_from_u8 :: "u8 \<Rightarrow> PageType option" where
  "page_type_from_u8 v =
     (if v = 1 then Some Heap
      else if v = 2 then Some BTreeInternal
      else if v = 3 then Some BTreeLeaf
      else if v = 4 then Some HashBucket
      else if v = 5 then Some HashOverflow
      else if v = 6 then Some Free
      else None)"


section \<open>Field access\<close>

definition rd_u16 :: "bytes \<Rightarrow> nat \<Rightarrow> u16" where
  "rd_u16 b off = from_le_bytes (slice off 2 b)"

definition wr_u16 :: "bytes \<Rightarrow> nat \<Rightarrow> u16 \<Rightarrow> bytes" where
  "wr_u16 b off v = wr off (to_le_bytes v) b"

definition rd_u64 :: "bytes \<Rightarrow> nat \<Rightarrow> u64" where
  "rd_u64 b off = from_le_bytes (slice off 8 b)"

definition hdr_page_lsn :: "bytes \<Rightarrow> u64" where
  "hdr_page_lsn b = rd_u64 b OFF_PAGE_LSN"

definition hdr_page_type :: "bytes \<Rightarrow> PageType option" where
  "hdr_page_type b = page_type_from_u8 (b ! OFF_PAGE_TYPE)"

definition hdr_slot_count :: "bytes \<Rightarrow> u16" where
  "hdr_slot_count b = rd_u16 b OFF_SLOT_COUNT"

definition hdr_free_start :: "bytes \<Rightarrow> u16" where
  "hdr_free_start b = rd_u16 b OFF_FREE_START"

definition hdr_free_end :: "bytes \<Rightarrow> u16" where
  "hdr_free_end b = rd_u16 b OFF_FREE_END"

definition slot_base :: "nat \<Rightarrow> nat" where
  "slot_base i = SLOT_ARRAY_START + i * SLOT_SIZE"

text \<open>A slot number beyond the page makes the slice index panic.\<close>

definition slot_offset :: "bytes \<Rightarrow> nat \<Rightarrow> u16 exec" where
  "slot_offset b i = (if slot_base i + 2 \<le> length b then Some (rd_u16 b (slot_base i)) else None)"

definition slot_length_field :: "bytes \<Rightarrow> nat \<Rightarrow> u16 exec" where
  "slot_length_field b i =
     (if slot_base i + 4 \<le> length b then Some (rd_u16 b (slot_base i + 2)) else None)"

definition set_free_start :: "bytes \<Rightarrow> u16 \<Rightarrow> bytes" where
  "set_free_start b v = wr_u16 b OFF_FREE_START v"

definition set_free_end :: "bytes \<Rightarrow> u16 \<Rightarrow> bytes" where
  "set_free_end b v = wr_u16 b OFF_FREE_END v"

definition set_slot_count :: "bytes \<Rightarrow> u16 \<Rightarrow> bytes" where
  "set_slot_count b v = wr_u16 b OFF_SLOT_COUNT v"

definition set_slot :: "bytes \<Rightarrow> nat \<Rightarrow> u16 \<Rightarrow> u16 \<Rightarrow> bytes exec" where
  "set_slot b i off len_field =
     (if slot_base i + 4 \<le> length b
      then Some (wr_u16 (wr_u16 b (slot_base i) off) (slot_base i + 2) len_field)
      else None)"

definition set_page_lsn :: "bytes \<Rightarrow> u64 \<Rightarrow> bytes" where
  "set_page_lsn b lsn = wr OFF_PAGE_LSN (to_le_bytes lsn) b"

definition free_space :: "bytes \<Rightarrow> nat exec" where
  "free_space b = checked_sub (unat (hdr_free_end b)) (unat (hdr_free_start b))"


section \<open>Record operations\<close>

definition record_at :: "bytes \<Rightarrow> u16 \<Rightarrow> bytes option exec" where
  "record_at b sid =
     (let i = unat sid in
      if i \<ge> unat (hdr_slot_count b) then Some None
      else do {
        off \<leftarrow> slot_offset b i;
        if off = 0 then Some None
        else do {
          lf \<leftarrow> slot_length_field b i;
          Some (get_range (unat off) (unat off + unat (lf AND SLOT_LENGTH_MASK)) b)
        }
      })"

definition is_forwarding :: "bytes \<Rightarrow> u16 \<Rightarrow> bool exec" where
  "is_forwarding b sid =
     (let i = unat sid in
      if i < unat (hdr_slot_count b) then do {
        off \<leftarrow> slot_offset b i;
        if off \<noteq> 0 then do {
          lf \<leftarrow> slot_length_field b i;
          Some (lf AND SLOT_FORWARD_FLAG \<noteq> 0)
        } else Some False
      } else Some False)"

definition page_init :: "PageType \<Rightarrow> bytes" where
  "page_init t =
     (let b = (replicate PAGE_SIZE 0)[OFF_PAGE_TYPE := page_type_u8 t];
          b = set_free_start b (word_of_nat SLOT_ARRAY_START);
          b = set_free_end b (word_of_nat PAGE_SIZE)
      in set_slot_count b 0)"

text \<open>\<open>get_mut\<close> hands out the byte range of the record for an in-place edit.\<close>

definition get_mut :: "bytes \<Rightarrow> u16 \<Rightarrow> (nat \<times> nat) option exec" where
  "get_mut b sid =
     (let i = unat sid in
      if i \<ge> unat (hdr_slot_count b) then Some None
      else do {
        off \<leftarrow> slot_offset b i;
        if off = 0 then Some None
        else do {
          lf \<leftarrow> slot_length_field b i;
          let len = unat (lf AND SLOT_LENGTH_MASK);
          Some (if unat off + len \<le> length b then Some (unat off, len) else None)
        }
      })"

text \<open>\<open>(0..count).find(|i| slot_offset(i) == 0)\<close>\<close>

fun find_empty :: "bytes \<Rightarrow> nat list \<Rightarrow> nat option exec" where
  "find_empty b [] = Some None"
| "find_empty b (i # is) = do {
     off \<leftarrow> slot_offset b i;
     if off = 0 then Some (Some i) else find_empty b is
   }"

definition page_insert :: "bytes \<Rightarrow> bytes \<Rightarrow> (bytes \<times> u16 option) exec" where
  "page_insert b rec =
     (let len = length rec in
      if len > MAX_RECORD_LEN then Some (b, None)
      else do {
        let count = unat (hdr_slot_count b);
        reuse \<leftarrow> find_empty b [0..<count];
        let required = len + (if reuse \<noteq> None then 0 else SLOT_SIZE);
        space \<leftarrow> free_space b;
        if space < required then Some (b, None)
        else do {
          new_off \<leftarrow> checked_sub (unat (hdr_free_end b)) len;
          b1 \<leftarrow> copy_at new_off rec b;
          let (slot_id, b2) =
            (case reuse of
               Some i \<Rightarrow> (i, b1)
             | None \<Rightarrow>
                 (count,
                  set_free_start (set_slot_count b1 (word_of_nat (count + 1)))
                    (word_of_nat (SLOT_ARRAY_START + (count + 1) * SLOT_SIZE))));
          b3 \<leftarrow> set_slot b2 slot_id (word_of_nat new_off) (word_of_nat len);
          Some (set_free_end b3 (word_of_nat new_off), Some (word_of_nat slot_id))
        }
      })"

definition page_delete :: "bytes \<Rightarrow> u16 \<Rightarrow> (bytes \<times> bool) exec" where
  "page_delete b sid =
     (let i = unat sid in
      if i \<ge> unat (hdr_slot_count b) then Some (b, False)
      else do {
        off \<leftarrow> slot_offset b i;
        if off = 0 then Some (b, False)
        else do {
          b' \<leftarrow> set_slot b i 0 0;
          Some (b', True)
        }
      })"

fun compact_collect :: "bytes \<Rightarrow> nat list \<Rightarrow> (nat \<times> u16 \<times> bytes) list exec" where
  "compact_collect b [] = Some []"
| "compact_collect b (i # is) = do {
     off \<leftarrow> slot_offset b i;
     if off = 0 then compact_collect b is
     else do {
       lf \<leftarrow> slot_length_field b i;
       rec \<leftarrow> get_range (unat off) (unat off + unat (lf AND SLOT_LENGTH_MASK)) b;
       rest \<leftarrow> compact_collect b is;
       Some ((i, lf, rec) # rest)
     }
   }"

fun compact_place :: "bytes \<Rightarrow> nat \<Rightarrow> (nat \<times> u16 \<times> bytes) list \<Rightarrow> (bytes \<times> nat) exec" where
  "compact_place b fin [] = Some (b, fin)"
| "compact_place b fin ((i, lf, rec) # live) = do {
     new_off \<leftarrow> checked_sub fin (length rec);
     b1 \<leftarrow> copy_at new_off rec b;
     b2 \<leftarrow> set_slot b1 i (word_of_nat new_off) lf;
     compact_place b2 new_off live
   }"

definition compact :: "bytes \<Rightarrow> bytes exec" where
  "compact b = do {
     let count = unat (hdr_slot_count b);
     live \<leftarrow> compact_collect b [0..<count];
     (b', fin) \<leftarrow> compact_place b PAGE_SIZE live;
     Some (set_free_end b' (word_of_nat fin))
   }"


section \<open>Checksum\<close>

text \<open>
  \<open>crc32fast\<close> is a third-party crate: the CRC is the parameter \<open>crc32\<close> of the model.
\<close>

definition CHECKSUM_BODY_START :: nat where [simp]: "CHECKSUM_BODY_START = 16"

definition page_checksum :: "(bytes \<Rightarrow> u32) \<Rightarrow> bytes \<Rightarrow> u16" where
  "page_checksum crc32 page = ucast (crc32 (drop CHECKSUM_BODY_START page) AND 0xFFFF)"

definition update_checksum :: "(bytes \<Rightarrow> u32) \<Rightarrow> bytes \<Rightarrow> bytes" where
  "update_checksum crc32 b = wr_u16 b OFF_CHECKSUM (page_checksum crc32 b)"

definition verify_checksum :: "(bytes \<Rightarrow> u32) \<Rightarrow> bytes \<Rightarrow> bool" where
  "verify_checksum crc32 b \<longleftrightarrow> rd_u16 b OFF_CHECKSUM = page_checksum crc32 b"



section \<open>The specification: a map from slots to records\<close>

text \<open>Total views of the fields, meaningful inside the slot array.\<close>

abbreviation cnt :: "bytes \<Rightarrow> nat" where "cnt b \<equiv> unat (hdr_slot_count b)"
abbreviation fstart :: "bytes \<Rightarrow> nat" where "fstart b \<equiv> unat (hdr_free_start b)"
abbreviation fend :: "bytes \<Rightarrow> nat" where "fend b \<equiv> unat (hdr_free_end b)"

definition soff :: "bytes \<Rightarrow> nat \<Rightarrow> nat" where
  "soff b i = unat (rd_u16 b (slot_base i))"

definition sfield :: "bytes \<Rightarrow> nat \<Rightarrow> u16" where
  "sfield b i = rd_u16 b (slot_base i + 2)"

definition slen :: "bytes \<Rightarrow> nat \<Rightarrow> nat" where
  "slen b i = unat (sfield b i AND SLOT_LENGTH_MASK)"

definition live :: "bytes \<Rightarrow> nat \<Rightarrow> bool" where
  "live b i \<longleftrightarrow> i < cnt b \<and> soff b i \<noteq> 0"

definition page_abs :: "bytes \<Rightarrow> nat \<Rightarrow> bytes option" where
  "page_abs b i = (if live b i then Some (slice (soff b i) (slen b i) b) else None)"

definition extents_disjoint :: "bytes \<Rightarrow> nat \<Rightarrow> nat \<Rightarrow> bool" where
  "extents_disjoint b i j \<longleftrightarrow> soff b i + slen b i \<le> soff b j \<or> soff b j + slen b j \<le> soff b i"

definition page_inv :: "bytes \<Rightarrow> bool" where
  "page_inv b \<longleftrightarrow>
     length b = PAGE_SIZE \<and>
     fstart b = SLOT_ARRAY_START + cnt b * SLOT_SIZE \<and>
     fstart b \<le> fend b \<and> fend b \<le> PAGE_SIZE \<and>
     (\<forall>i. live b i \<longrightarrow> fend b \<le> soff b i \<and> soff b i + slen b i \<le> PAGE_SIZE) \<and>
     (\<forall>i j. live b i \<longrightarrow> live b j \<longrightarrow> i \<noteq> j \<longrightarrow> extents_disjoint b i j)"


section \<open>Field lemmas\<close>

lemma MAX_RECORD_LEN_eq: "MAX_RECORD_LEN = 8156"
  by (simp add: MAX_RECORD_LEN_def SLOT_LENGTH_MASK_def)

lemma unat_mask: "unat (w AND SLOT_LENGTH_MASK) = unat w mod 2 ^ 15"
proof -
  have "SLOT_LENGTH_MASK = mask 15"
    by (simp add: SLOT_LENGTH_MASK_def mask_eq_exp_minus_1)
  then have "w AND SLOT_LENGTH_MASK = take_bit 15 w"
    by (simp add: take_bit_eq_mask)
  then show ?thesis
    by (simp add: take_bit_eq_mod unat_mod)
qed

lemma unat_mask_of_nat: "n \<le> MAX_RECORD_LEN \<Longrightarrow>
  unat ((word_of_nat n :: u16) AND SLOT_LENGTH_MASK) = n"
  by (simp add: unat_mask unat_of_nat MAX_RECORD_LEN_eq)

lemma rd_wr_u16_same [byte_simps]: "off + 2 \<le> length b \<Longrightarrow> rd_u16 (wr_u16 b off v) off = v"
  by (simp add: rd_u16_def wr_u16_def slice_wr_same)

lemma rd_wr_u16_other [byte_simps]:
  "off' + 2 \<le> off \<or> off + 2 \<le> off' \<Longrightarrow> off + 2 \<le> length b \<Longrightarrow>
   rd_u16 (wr_u16 b off v) off' = rd_u16 b off'"
  by (simp add: rd_u16_def wr_u16_def slice_wr_disjoint)

lemma rd_u16_wr_disjoint [byte_simps]:
  "off' + 2 \<le> off \<or> off + length v \<le> off' \<Longrightarrow> off + length v \<le> length b \<Longrightarrow>
   rd_u16 (wr off v b) off' = rd_u16 b off'"
  by (simp add: rd_u16_def slice_wr_disjoint)

lemma length_wr_u16 [simp]: "off + 2 \<le> length b \<Longrightarrow> length (wr_u16 b off v) = length b"
  by (simp add: wr_u16_def)

lemma slice_wr_u16 [byte_simps]:
  "off' + n \<le> off \<or> off + 2 \<le> off' \<Longrightarrow> off + 2 \<le> length b \<Longrightarrow>
   slice off' n (wr_u16 b off v) = slice off' n b"
  by (simp add: wr_u16_def slice_wr_disjoint)

lemmas field_defs = hdr_slot_count_def hdr_free_start_def hdr_free_end_def
  set_free_start_def set_free_end_def set_slot_count_def soff_def sfield_def slot_base_def

lemma page_inv_length: "page_inv b \<Longrightarrow> length b = 8192"
  by (simp add: page_inv_def)

lemma page_inv_base: "page_inv b \<Longrightarrow> i < cnt b \<Longrightarrow> slot_base i + 4 \<le> 8192"
  by (auto simp: page_inv_def slot_base_def)

lemma slot_offset_inv [simp]:
  "page_inv b \<Longrightarrow> i < cnt b \<Longrightarrow> slot_offset b i = Some (rd_u16 b (slot_base i))"
  using page_inv_base [of b i] by (simp add: slot_offset_def page_inv_length)

lemma slot_length_field_inv [simp]:
  "page_inv b \<Longrightarrow> i < cnt b \<Longrightarrow> slot_length_field b i = Some (sfield b i)"
  using page_inv_base [of b i] by (simp add: slot_length_field_def sfield_def page_inv_length)

lemma soff_0_iff: "rd_u16 b (slot_base i) = 0 \<longleftrightarrow> soff b i = 0"
  by (simp add: soff_def unat_eq_0)

lemma free_space_inv: "page_inv b \<Longrightarrow> free_space b = Some (fend b - fstart b)"
  by (simp add: free_space_def page_inv_def)

lemma page_inv_live:
  "page_inv b \<Longrightarrow> live b i \<Longrightarrow> fend b \<le> soff b i \<and> soff b i + slen b i \<le> 8192"
  by (simp add: page_inv_def)

text \<open>Reads: \<open>get\<close> is the lookup of the specification, and never panics.\<close>

lemma record_at_abs:
  assumes "page_inv b"
  shows "record_at b sid = Some (page_abs b (unat sid))"
proof (cases "live b (unat sid)")
  case True
  then have "rd_u16 b (slot_base (unat sid)) \<noteq> 0"
    using soff_0_iff live_def by metis
  moreover have "soff b (unat sid) + slen b (unat sid) \<le> 8192"
    using page_inv_live [OF assms True] by simp
  ultimately show ?thesis
    using assms True
    by (auto simp: record_at_def page_abs_def get_range_def live_def soff_def slen_def
        page_inv_length Let_def)
next
  case False
  then show ?thesis
    using assms by (auto simp: record_at_def page_abs_def live_def soff_0_iff Let_def)
qed

lemma get_mut_abs:
  assumes "page_inv b"
  shows "get_mut b sid =
    Some (if live b (unat sid) then Some (soff b (unat sid), slen b (unat sid)) else None)"
proof (cases "live b (unat sid)")
  case True
  then have "rd_u16 b (slot_base (unat sid)) \<noteq> 0"
    using soff_0_iff live_def by metis
  moreover have "soff b (unat sid) + slen b (unat sid) \<le> 8192"
    using page_inv_live [OF assms True] by simp
  ultimately show ?thesis
    using assms True
    by (auto simp: get_mut_def live_def soff_def slen_def page_inv_length Let_def)
next
  case False
  then show ?thesis
    using assms by (auto simp: get_mut_def live_def soff_0_iff Let_def)
qed

lemma find_empty_spec:
  assumes "page_inv b" and "set is \<subseteq> {..<cnt b}"
  shows "find_empty b is = Some (find (\<lambda>i. soff b i = 0) is)"
  using assms(2)
proof (induction "is")
  case (Cons i "is")
  then show ?case using assms(1) by (simp add: soff_0_iff)
qed simp


section \<open>What each write changes\<close>

lemma base_neq: "k \<noteq> i \<Longrightarrow> slot_base k + 4 \<le> slot_base i \<or> slot_base i + 4 \<le> slot_base k"
  by (simp add: slot_base_def) arith

lemma base_ge: "32 \<le> slot_base i"
  by (simp add: slot_base_def)

lemma set_slot_Some [simp]:
  "slot_base i + 4 \<le> length b \<Longrightarrow>
   set_slot b i off lf = Some (wr_u16 (wr_u16 b (slot_base i) off) (slot_base i + 2) lf)"
  by (simp add: set_slot_def)

lemma set_slot_effect:
  assumes "set_slot b i off lf = Some b'"
  shows "length b' = length b" and "hdr_slot_count b' = hdr_slot_count b"
    and "hdr_free_start b' = hdr_free_start b" and "hdr_free_end b' = hdr_free_end b"
    and "soff b' k = (if k = i then unat off else soff b k)"
    and "sfield b' k = (if k = i then lf else sfield b k)"
    and "slot_base i + 4 \<le> start \<Longrightarrow> slice start n b' = slice start n b"
proof -
  have base: "slot_base i + 4 \<le> length b" using assms by (simp add: set_slot_def split: if_splits)
  have b': "b' = wr_u16 (wr_u16 b (slot_base i) off) (slot_base i + 2) lf"
    using assms by (simp add: set_slot_def split: if_splits)
  have ge: "32 \<le> slot_base i" by (rule base_ge)
  show "length b' = length b" using base b' by simp
  show "hdr_slot_count b' = hdr_slot_count b" "hdr_free_start b' = hdr_free_start b"
    "hdr_free_end b' = hdr_free_end b"
    using base b' ge by (simp_all add: hdr_slot_count_def hdr_free_start_def hdr_free_end_def byte_simps)
  show "soff b' k = (if k = i then unat off else soff b k)"
    using base b' base_neq [of k i] by (auto simp: soff_def byte_simps)
  show "sfield b' k = (if k = i then lf else sfield b k)"
    using base b' base_neq [of k i] by (auto simp: sfield_def byte_simps)
  show "slice start n b' = slice start n b" if "slot_base i + 4 \<le> start"
    using that base b' by (simp add: byte_simps)
qed

lemma set_free_end_effect:
  assumes "20 \<le> length b"
  shows "length (set_free_end b v) = length b"
    and "hdr_slot_count (set_free_end b v) = hdr_slot_count b"
    and "hdr_free_start (set_free_end b v) = hdr_free_start b"
    and "hdr_free_end (set_free_end b v) = v"
    and "soff (set_free_end b v) k = soff b k" and "sfield (set_free_end b v) k = sfield b k"
    and "32 \<le> start \<Longrightarrow> slice start n (set_free_end b v) = slice start n b"
  using assms by (simp_all add: field_defs byte_simps)

lemma grow_slots_effect:
  assumes "20 \<le> length b" and "b' = set_free_start (set_slot_count b c) f"
  shows "length b' = length b" and "hdr_slot_count b' = c" and "hdr_free_start b' = f"
    and "hdr_free_end b' = hdr_free_end b" and "soff b' k = soff b k" and "sfield b' k = sfield b k"
    and "32 \<le> start \<Longrightarrow> slice start n b' = slice start n b"
  unfolding assms(2) using assms(1) by (simp_all add: field_defs byte_simps)

lemma write_data_effect:
  assumes "off + length v \<le> length b" and "slot_base (cnt b) \<le> off"
  shows "length (wr off v b) = length b" and "hdr_slot_count (wr off v b) = hdr_slot_count b"
    and "hdr_free_start (wr off v b) = hdr_free_start b"
    and "hdr_free_end (wr off v b) = hdr_free_end b"
    and "slot_base (Suc k) \<le> off \<Longrightarrow> soff (wr off v b) k = soff b k"
    and "slot_base (Suc k) \<le> off \<Longrightarrow> sfield (wr off v b) k = sfield b k"
proof -
  have "32 \<le> off" using assms(2) base_ge order_trans by blast
  then show "length (wr off v b) = length b" "hdr_slot_count (wr off v b) = hdr_slot_count b"
    "hdr_free_start (wr off v b) = hdr_free_start b" "hdr_free_end (wr off v b) = hdr_free_end b"
    "slot_base (Suc k) \<le> off \<Longrightarrow> soff (wr off v b) k = soff b k"
    "slot_base (Suc k) \<le> off \<Longrightarrow> sfield (wr off v b) k = sfield b k"
    using assms(1) by (simp_all add: field_defs byte_simps)
qed


section \<open>Insert\<close>

text \<open>
  Placing a record at \<open>sid\<close>: what the four writes of \<open>insert\<close> do to the fields, and that a
  page related to \<open>b\<close> in this way satisfies the invariant and the map update.
\<close>

definition placed :: "bytes \<Rightarrow> nat \<Rightarrow> bytes \<Rightarrow> bytes \<Rightarrow> bool" where
  "placed b sid rec b' \<longleftrightarrow>
     length b' = PAGE_SIZE \<and>
     (sid < cnt b \<and> soff b sid = 0 \<and> cnt b' = cnt b \<or> sid = cnt b \<and> cnt b' = Suc (cnt b)) \<and>
     fstart b' = SLOT_ARRAY_START + cnt b' * SLOT_SIZE \<and>
     length rec \<le> fend b \<and> fend b' = fend b - length rec \<and> fstart b' \<le> fend b' \<and>
     soff b' sid = fend b' \<and> slen b' sid = length rec \<and>
     (\<forall>k < cnt b. k \<noteq> sid \<longrightarrow> soff b' k = soff b k \<and> slen b' k = slen b k) \<and>
     (\<forall>off n. fend b \<le> off \<longrightarrow> slice off n b' = slice off n b) \<and>
     slice (fend b') (length rec) b' = rec"

lemma placedD:
  assumes "placed b sid rec b'"
  shows "length b' = 8192"
    and "sid < cnt b \<and> soff b sid = 0 \<and> cnt b' = cnt b \<or> sid = cnt b \<and> cnt b' = Suc (cnt b)"
    and "fstart b' = 32 + cnt b' * 4" and "length rec \<le> fend b" and "fend b' = fend b - length rec"
    and "fstart b' \<le> fend b'" and "soff b' sid = fend b'" and "slen b' sid = length rec"
    and "k < cnt b \<Longrightarrow> k \<noteq> sid \<Longrightarrow> soff b' k = soff b k \<and> slen b' k = slen b k"
    and "fend b \<le> off \<Longrightarrow> slice off n b' = slice off n b"
    and "slice (fend b') (length rec) b' = rec"
  using assms unfolding placed_def PAGE_SIZE_def SLOT_ARRAY_START_def PAGE_HEADER_SIZE_def SLOT_SIZE_def
  by blast+

lemma placed_live:
  assumes "placed b sid rec b'"
  shows "live b' k \<longleftrightarrow> k = sid \<or> live b k"
proof -
  have "soff b' sid \<noteq> 0" using placedD(3,6,7) [OF assms] by linarith
  then show ?thesis
    using placedD(2) [OF assms] placedD(9) [OF assms, of k]
    by (cases "k = sid") (auto simp: live_def less_Suc_eq)
qed

lemma placed_not_live: "placed b sid rec b' \<Longrightarrow> \<not> live b sid"
  using placedD(2) [of b sid rec b'] by (auto simp: live_def)

lemma placed_inv:
  assumes inv: "page_inv b" and pl: "placed b sid rec b'"
  shows "page_inv b'"
proof -
  have other: "soff b' k = soff b k \<and> slen b' k = slen b k" "fend b \<le> soff b' k"
    "soff b' k + slen b' k \<le> 8192" if "live b k" for k
  proof -
    have "k \<noteq> sid" "k < cnt b" using that placed_not_live [OF pl] by (auto simp: live_def)
    then show "soff b' k = soff b k \<and> slen b' k = slen b k" by (rule placedD(9) [OF pl, rotated])
    then show "fend b \<le> soff b' k" "soff b' k + slen b' k \<le> 8192"
      using page_inv_live [OF inv that] by simp_all
  qed
  have new: "soff b' sid + slen b' sid = fend b" "fend b' \<le> soff b' sid"
    using placedD(4,5,7,8) [OF pl] by simp_all
  have le: "fend b' \<le> fend b" "fend b \<le> 8192"
    using placedD(5) [OF pl] inv by (simp_all add: page_inv_def)
  have ext: "fend b' \<le> soff b' i \<and> soff b' i + slen b' i \<le> 8192" if "live b' i" for i
    using that new le other(2,3) [of i] placed_live [OF pl, of i] by fastforce
  have dis: "extents_disjoint b' i j" if ij: "live b' i" "live b' j" "i \<noteq> j" for i j
  proof -
    consider "i = sid" "live b j" | "j = sid" "live b i" | "live b i" "live b j"
      using ij placed_live [OF pl, of i] placed_live [OF pl, of j] by blast
    then show ?thesis
    proof cases
      case 3
      then have "extents_disjoint b i j" using inv ij(3) by (simp add: page_inv_def)
      with other(1) [OF 3(1)] other(1) [OF 3(2)] show ?thesis
        by (simp add: extents_disjoint_def)
    qed (use new other in \<open>simp_all add: extents_disjoint_def\<close>)
  qed
  show ?thesis
    unfolding page_inv_def using ext dis le placedD(1,3,6) [OF pl] by simp
qed

lemma placed_abs:
  assumes inv: "page_inv b" and pl: "placed b sid rec b'"
  shows "page_abs b' = (page_abs b)(sid \<mapsto> rec)"
proof
  fix k
  show "page_abs b' k = ((page_abs b)(sid \<mapsto> rec)) k"
  proof (cases "k = sid")
    case True
    have "slice (soff b' sid) (slen b' sid) b' = rec"
      using placedD(7,8,11) [OF pl] by metis
    then show ?thesis
      using True placed_live [OF pl, of sid] by (simp add: page_abs_def)
  next
    case False
    have "soff b' k = soff b k \<and> slen b' k = slen b k" if "live b k"
      using that False by (intro placedD(9) [OF pl]) (simp_all add: live_def)
    moreover have "slice (soff b k) n b' = slice (soff b k) n b" if "live b k" for n
      using page_inv_live [OF inv that] by (intro placedD(10) [OF pl]) simp
    ultimately show ?thesis
      using False placed_live [OF pl, of k] by (simp add: page_abs_def)
  qed
qed

lemma find_soff:
  "(case find (\<lambda>i. soff b i = 0) [0..<cnt b] of
      Some i \<Rightarrow> i < cnt b \<and> soff b i = 0
    | None \<Rightarrow> \<forall>i < cnt b. soff b i \<noteq> 0)"
proof (cases "find (\<lambda>i. soff b i = 0) [0..<cnt b]")
  case None
  then have "soff b i \<noteq> 0" if "i < cnt b" for i
    using find_NoneD that by fastforce
  with None show ?thesis by simp
next
  case (Some i)
  from find_SomeD [OF Some] Some show ?thesis by simp
qed

lemma place_record:
  assumes b2: "length b2 = 8192" "fstart b2 = 32 + cnt b2 * 4" "fend b2 = fend b"
    and same: "\<And>k. k < cnt b2 \<Longrightarrow> soff b2 k = soff b k \<and> sfield b2 k = sfield b k"
    and data: "\<And>off n. fend b \<le> off \<Longrightarrow> slice off n b2 = slice off n b"
    and rec: "slice new_off (length rec) b2 = rec" "length rec \<le> MAX_RECORD_LEN"
    and sid: "sid < cnt b \<and> soff b sid = 0 \<and> cnt b2 = cnt b \<or> sid = cnt b \<and> cnt b2 = Suc (cnt b)"
    and off: "32 + cnt b2 * 4 \<le> new_off" "new_off + length rec = fend b" "fend b \<le> 8192"
  shows "\<exists>b3. set_slot b2 sid (word_of_nat new_off) (word_of_nat (length rec)) = Some b3 \<and>
    placed b sid rec (set_free_end b3 (word_of_nat new_off))"
proof -
  have sidc: "sid < cnt b2" using sid by auto
  then have base: "slot_base sid + 4 \<le> new_off" "slot_base sid + 4 \<le> length b2"
    using off b2(1) by (auto simp: slot_base_def)
  then obtain b3 where b3: "set_slot b2 sid (word_of_nat new_off) (word_of_nat (length rec)) = Some b3"
    by simp
  note e3 = set_slot_effect [OF b3]
  have len3: "20 \<le> length b3" using e3(1) b2(1) by simp
  note e4 = set_free_end_effect [OF len3, where v = "word_of_nat new_off"]
  let ?b = "set_free_end b3 (word_of_nat new_off)"
  have noff: "unat (word_of_nat new_off :: u16) = new_off"
    using off by (intro unat_small_u16) linarith
  have sl: "slen ?b sid = length rec"
    using rec(2) by (simp add: slen_def e4 e3 unat_mask_of_nat)
  have others: "soff ?b k = soff b k \<and> slen ?b k = slen b k" if "k < cnt b" "k \<noteq> sid" for k
    using same [of k] that sid by (auto simp: slen_def e4 e3)
  have datas: "slice start n ?b = slice start n b" if "fend b \<le> start" for start n
    using that base off data by (simp add: e4 e3)
  have "slice new_off (length rec) ?b = rec"
    using rec(1) base off by (simp add: e4 e3)
  then have "placed b sid rec ?b"
    unfolding placed_def e4 e3 using b2 sid off noff sl others datas e3 e4 by auto
  then show ?thesis using b3 by blast
qed


text \<open>The page accepts a record exactly when it fits, and then places it.\<close>

definition insert_slot :: "bytes \<Rightarrow> nat option" where
  "insert_slot b = find (\<lambda>i. soff b i = 0) [0..<cnt b]"

lemma find_empty_slot: "page_inv b \<Longrightarrow> find_empty b [0..<cnt b] = Some (insert_slot b)"
  unfolding insert_slot_def by (intro find_empty_spec) auto

definition page_fits :: "bytes \<Rightarrow> nat \<Rightarrow> bool" where
  "page_fits b len \<longleftrightarrow> len \<le> MAX_RECORD_LEN \<and>
     len + (if insert_slot b \<noteq> None then 0 else SLOT_SIZE) \<le> fend b - fstart b"

lemma page_insert_rejects:
  "page_inv b \<Longrightarrow> \<not> page_fits b (length rec) \<Longrightarrow> page_insert b rec = Some (b, None)"
  by (auto simp: page_insert_def page_fits_def find_empty_slot free_space_inv Let_def)

lemma page_insert_places:
  assumes inv: "page_inv b" and fit: "page_fits b (length rec)"
  defines "sid \<equiv> (case insert_slot b of Some i \<Rightarrow> i | None \<Rightarrow> cnt b)"
  shows "\<exists>b'. page_insert b rec = Some (b', Some (word_of_nat sid)) \<and> placed b sid rec b'"
proof -
  define new_off where "new_off = fend b - length rec"
  define b1 where "b1 = wr new_off rec b"
  have lenb: "length b = 8192" using inv by (rule page_inv_length)
  have fs: "fstart b = 32 + cnt b * 4" "fstart b \<le> fend b" "fend b \<le> 8192"
    using inv by (simp_all add: page_inv_def)
  have len: "length rec \<le> MAX_RECORD_LEN" "length rec \<le> fend b - fstart b"
    using fit by (simp_all add: page_fits_def)
  have off: "new_off + length rec = fend b" "32 + cnt b * 4 \<le> new_off"
    using len fs by (simp_all add: new_off_def)
  have d: "new_off + length rec \<le> length b" "slot_base (cnt b) \<le> new_off"
    using off fs lenb by (simp_all add: slot_base_def)
  note wd = write_data_effect [OF d, folded b1_def]
  have below: "slot_base (Suc k) \<le> new_off" if "k < cnt b" for k
    using that off by (simp add: slot_base_def)
  have same: "soff b1 k = soff b k \<and> sfield b1 k = sfield b k" if "k < cnt b" for k
    using wd(5,6) [OF below [OF that]] by blast
  have data: "slice start n b1 = slice start n b" if "fend b \<le> start" for start n
    using that off d(1) unfolding b1_def by (intro slice_wr_after) simp_all
  have rec: "slice new_off (length rec) b1 = rec"
    using d(1) unfolding b1_def by (intro slice_wr_same) simp_all
  show ?thesis
  proof (cases "insert_slot b")
    case (Some i)
    then have i: "i < cnt b" "soff b i = 0"
      using find_soff [of b] by (simp_all add: insert_slot_def)
    have "\<exists>b3. set_slot b1 i (word_of_nat new_off) (word_of_nat (length rec)) = Some b3 \<and>
        placed b i rec (set_free_end b3 (word_of_nat new_off))"
    proof (rule place_record)
      show "soff b1 k = soff b k \<and> sfield b1 k = sfield b k" if "k < cnt b1" for k
        using that same wd(2) by simp
    qed (use i wd lenb fs data rec len off in simp_all)
    then obtain b3 where "set_slot b1 i (word_of_nat new_off) (word_of_nat (length rec)) = Some b3"
      and pl: "placed b i rec (set_free_end b3 (word_of_nat new_off))"
      by blast
    with Some inv fit d fs len off show ?thesis
      by (auto simp: page_insert_def page_fits_def find_empty_slot free_space_inv
          sid_def b1_def new_off_def)
  next
    case None
    let ?c = "word_of_nat (Suc (cnt b)) :: u16" and ?f = "word_of_nat (32 + Suc (cnt b) * 4) :: u16"
    define b2 where "b2 = set_free_start (set_slot_count b1 ?c) ?f"
    have room: "32 + Suc (cnt b) * 4 \<le> new_off"
      using fit None off fs unfolding page_fits_def SLOT_SIZE_def by (simp, linarith)
    then have c: "unat ?c = Suc (cnt b)" "unat ?f = 32 + Suc (cnt b) * 4"
      using off fs by (intro unat_small_u16; linarith)+
    have len1: "20 \<le> length b1" using wd(1) lenb by simp
    note g = grow_slots_effect [OF len1 b2_def]
    have cntb2: "cnt b2 = Suc (cnt b)" using g(2) c by simp
    have base: "slot_base (Suc (cnt b)) \<le> new_off" using room by (simp add: slot_base_def)
    have "\<exists>b3. set_slot b2 (cnt b) (word_of_nat new_off) (word_of_nat (length rec)) = Some b3 \<and>
        placed b (cnt b) rec (set_free_end b3 (word_of_nat new_off))"
    proof (rule place_record)
      show "soff b2 k = soff b k \<and> sfield b2 k = sfield b k" if "k < cnt b2" for k
        using that wd(5,6) [of k] off room g(5,6) cntb2 by (simp add: slot_base_def)
      show "slice start n b2 = slice start n b" if "fend b \<le> start" for start n
        using that fs g(7) [of start n] data by simp
      show "slice new_off (length rec) b2 = rec"
        using room g(7) [of new_off] rec by simp
      show "fstart b2 = 32 + cnt b2 * 4" using g(3) c cntb2 by simp
    qed (use g(1,4) cntb2 wd lenb fs rec len off room in simp_all)
    then obtain b3 where "set_slot b2 (cnt b) (word_of_nat new_off) (word_of_nat (length rec)) = Some b3"
      and pl: "placed b (cnt b) rec (set_free_end b3 (word_of_nat new_off))"
      by blast
    with None inv fit d fs len off show ?thesis
      by (auto simp: page_insert_def page_fits_def find_empty_slot free_space_inv
          sid_def b1_def b2_def new_off_def)
  qed
qed



section \<open>Delete, in-place edits and initialisation\<close>

lemma page_inv_same_frame:
  assumes inv: "page_inv b" and "length b' = 8192"
    and hdr: "cnt b' = cnt b" "fstart b' = fstart b" "fend b' = fend b"
    and slots: "\<And>k. live b' k \<Longrightarrow> live b k \<and> soff b' k = soff b k \<and> slen b' k = slen b k"
  shows "page_inv b'"
proof -
  have "extents_disjoint b' i j" if "live b' i" "live b' j" "i \<noteq> j" for i j
    using inv slots [OF that(1)] slots [OF that(2)] that(3)
    by (simp add: page_inv_def extents_disjoint_def)
  moreover have "fend b' \<le> soff b' i \<and> soff b' i + slen b' i \<le> 8192" if "live b' i" for i
    using page_inv_live [OF inv, of i] slots [OF that] hdr by simp
  ultimately show ?thesis
    using inv assms(2) hdr by (simp add: page_inv_def)
qed

lemma page_delete_spec:
  assumes inv: "page_inv b"
  shows "\<exists>b'. page_delete b sid = Some (b', live b (unat sid)) \<and> page_inv b' \<and>
    page_abs b' = (page_abs b)(unat sid := None)"
proof (cases "live b (unat sid)")
  case False
  then have "page_delete b sid = Some (b, False)"
    using inv by (auto simp: page_delete_def live_def soff_0_iff Let_def)
  moreover have "page_abs b = (page_abs b)(unat sid := None)"
    using False by (auto simp: page_abs_def)
  ultimately show ?thesis using inv False by auto
next
  case True
  let ?i = "unat sid"
  have i: "?i < cnt b" "soff b ?i \<noteq> 0" using True by (simp_all add: live_def)
  have base: "slot_base ?i + 4 \<le> length b"
    using page_inv_base [OF inv i(1)] page_inv_length [OF inv] by simp
  then obtain b' where b': "set_slot b ?i 0 0 = Some b'" by simp
  note e = set_slot_effect [OF b']
  have lv: "live b' k \<longleftrightarrow> live b k \<and> k \<noteq> ?i" for k
    by (auto simp: live_def e)
  have eqs: "soff b' k = soff b k \<and> slen b' k = slen b k" if "live b' k" for k
    using that lv [of k] by (simp add: slen_def e)
  have "page_inv b'"
    using e(1-4) eqs lv page_inv_length [OF inv] by (intro page_inv_same_frame [OF inv]) simp_all
  moreover have "page_abs b' = (page_abs b)(?i := None)"
  proof
    fix k
    have "slice (soff b k) n b' = slice (soff b k) n b" if "live b k" for n
    proof (rule e(7))
      have "slot_base ?i + 4 \<le> fstart b"
        using i(1) inv by (simp add: slot_base_def page_inv_def)
      also have "\<dots> \<le> soff b k"
        using inv page_inv_live [OF inv that] by (simp add: page_inv_def)
      finally show "slot_base ?i + 4 \<le> soff b k" .
    qed
    then show "page_abs b' k = ((page_abs b)(?i := None)) k"
      using lv [of k] eqs [of k] by (auto simp: page_abs_def)
  qed
  ultimately show ?thesis
    using True inv i b' soff_0_iff [of b ?i] by (auto simp: page_delete_def Let_def)
qed

text \<open>An in-place edit through \<open>get_mut\<close>: same length, other records untouched.\<close>

definition page_overwrite :: "bytes \<Rightarrow> u16 \<Rightarrow> bytes \<Rightarrow> bytes option exec" where
  "page_overwrite b sid v = do {
     range \<leftarrow> get_mut b sid;
     (case range of
        None \<Rightarrow> Some None
      | Some (off, len) \<Rightarrow> if len = length v then map_option Some (copy_at off v b) else None)
   }"

lemma page_overwrite_spec:
  assumes inv: "page_inv b" and old: "page_abs b (unat sid) = Some r" and len: "length v = length r"
  shows "\<exists>b'. page_overwrite b sid v = Some (Some b') \<and> page_inv b' \<and>
    page_abs b' = (page_abs b)(unat sid \<mapsto> v)"
proof -
  let ?i = "unat sid"
  have lv: "live b ?i" and r: "r = slice (soff b ?i) (slen b ?i) b"
    using old by (simp_all add: page_abs_def split: if_splits)
  have ext: "fend b \<le> soff b ?i" "soff b ?i + slen b ?i \<le> 8192"
    using page_inv_live [OF inv lv] by simp_all
  have lenb: "length b = 8192" by (rule page_inv_length [OF inv])
  have lv': "length v = slen b ?i" using len r ext lenb by simp
  define b' where "b' = wr (soff b ?i) v b"
  have fs: "fstart b = 32 + cnt b * 4" "fstart b \<le> fend b" using inv by (simp_all add: page_inv_def)
  have d: "soff b ?i + length v \<le> length b" "slot_base (cnt b) \<le> soff b ?i"
    using ext lv' lenb fs by (simp_all add: slot_base_def)
  note e = write_data_effect [OF d, folded b'_def]
  have slots: "soff b' k = soff b k \<and> slen b' k = slen b k" if "k < cnt b" for k
  proof -
    have "slot_base (Suc k) \<le> soff b ?i" using that d(2) by (simp add: slot_base_def)
    then show ?thesis using e(5,6) by (simp add: slen_def)
  qed
  have live: "live b' k \<longleftrightarrow> live b k" for k
    using slots [of k] e(2) by (auto simp: live_def)
  have "page_inv b'"
    using e lenb slots live by (intro page_inv_same_frame [OF inv]) (auto simp: live_def)
  moreover have "page_abs b' = (page_abs b)(?i \<mapsto> v)"
  proof
    fix k
    have same: "slice (soff b ?i) (slen b ?i) b' = v"
      unfolding b'_def using d(1) lv' by (simp add: slice_wr_same)
    have other: "slice (soff b k) (slen b k) b' = slice (soff b k) (slen b k) b"
      if "live b k" "k \<noteq> ?i"
    proof -
      have "extents_disjoint b k ?i" using inv that lv by (simp add: page_inv_def)
      then show ?thesis
        unfolding b'_def using d(1) lv' by (intro slice_wr_disjoint) (auto simp: extents_disjoint_def)
    qed
    show "page_abs b' k = ((page_abs b)(?i \<mapsto> v)) k"
      using live [of k] slots [of k] same other lv
      by (cases "k = ?i") (auto simp: page_abs_def live_def)
  qed
  moreover have "page_overwrite b sid v = Some (Some b')"
    using lv lv' d(1) by (simp add: page_overwrite_def get_mut_abs [OF inv] b'_def)
  ultimately show ?thesis by blast
qed

lemma page_overwrite_missing:
  "page_inv b \<Longrightarrow> page_abs b (unat sid) = None \<Longrightarrow> page_overwrite b sid v = Some None"
  by (simp add: page_overwrite_def get_mut_abs page_abs_def split: if_splits)

lemma page_init_fields:
  "length (page_init t) = 8192" "cnt (page_init t) = 0" "fstart (page_init t) = 32"
  "fend (page_init t) = 8192"
  by (simp_all add: page_init_def field_defs byte_simps Let_def)

lemma page_init_spec: "page_inv (page_init t) \<and> page_abs (page_init t) = Map.empty"
  using page_init_fields [of t] by (auto simp: page_inv_def page_abs_def live_def fun_eq_iff)



section \<open>Compaction\<close>

definition live_slots :: "bytes \<Rightarrow> nat list" where
  "live_slots b = filter (\<lambda>i. soff b i \<noteq> 0) [0..<cnt b]"

lemma live_slots_set: "set (live_slots b) = {i. live b i}" "distinct (live_slots b)"
  by (auto simp: live_slots_def live_def)

text \<open>Disjoint extents inside the data region occupy at most the data region.\<close>

lemma live_bytes_bound:
  assumes inv: "page_inv b"
  shows "sum_list (map (slen b) (live_slots b)) + fend b \<le> 8192"
proof -
  let ?L = "{i. live b i}" and ?E = "\<lambda>i. {soff b i..<soff b i + slen b i}"
  have fin: "finite ?L" by (rule finite_subset [of _ "{..<cnt b}"]) (auto simp: live_def)
  have "sum_list (map (slen b) (live_slots b)) = (\<Sum>i\<in>?L. card (?E i))"
    by (simp add: sum_list_distinct_conv_sum_set live_slots_set)
  also have "\<dots> = card (\<Union>i\<in>?L. ?E i)"
  proof (rule card_UN_disjoint [symmetric])
    show "\<forall>i\<in>?L. \<forall>j\<in>?L. i \<noteq> j \<longrightarrow> ?E i \<inter> ?E j = {}"
      using inv by (fastforce simp: page_inv_def extents_disjoint_def)
  qed (simp_all add: fin)
  also have "\<dots> \<le> card {fend b..<8192}"
    using page_inv_live [OF inv] by (intro card_mono) fastforce+
  finally have "sum_list (map (slen b) (live_slots b)) \<le> 8192 - fend b" by simp
  moreover have "fend b \<le> 8192" using inv by (simp add: page_inv_def)
  ultimately show ?thesis by linarith
qed

lemma compact_collect_spec:
  assumes inv: "page_inv b" and "set is \<subseteq> {..<cnt b}"
  shows "compact_collect b is =
    Some (map (\<lambda>i. (i, sfield b i, slice (soff b i) (slen b i) b)) (filter (\<lambda>i. soff b i \<noteq> 0) is))"
  using assms(2)
proof (induction "is")
  case (Cons i "is")
  then have i: "i < cnt b" by simp
  have "get_range (soff b i) (soff b i + slen b i) b = Some (slice (soff b i) (slen b i) b)"
    if "soff b i \<noteq> 0"
    using page_inv_live [OF inv, of i] that i page_inv_length [OF inv]
    by (simp add: get_range_def live_def)
  then show ?case
    using Cons i inv soff_0_iff [of b i] by (auto simp: soff_def slen_def)
qed simp

definition compacting :: "bytes \<Rightarrow> nat set \<Rightarrow> bytes \<Rightarrow> nat \<Rightarrow> bool" where
  "compacting b D bc fin \<longleftrightarrow>
     length bc = 8192 \<and> cnt bc = cnt b \<and> fstart bc = fstart b \<and> fin \<le> 8192 \<and>
     (\<forall>k < cnt b. sfield bc k = sfield b k) \<and> (\<forall>k < cnt b. k \<notin> D \<longrightarrow> soff bc k = soff b k) \<and>
     (\<forall>k \<in> D. fin \<le> soff bc k \<and> soff bc k + slen b k \<le> 8192 \<and>
        slice (soff bc k) (slen b k) bc = slice (soff b k) (slen b k) b) \<and>
     (\<forall>i \<in> D. \<forall>j \<in> D. i \<noteq> j \<longrightarrow>
        soff bc i + slen b i \<le> soff bc j \<or> soff bc j + slen b j \<le> soff bc i)"

lemma compacting_step:
  assumes C: "compacting b D bc fin" and D: "D \<subseteq> {..<cnt b}" and i: "i < cnt b" "i \<notin> D"
    and rec: "rec = slice (soff b i) (slen b i) b" "length rec = slen b i"
    and room: "32 + cnt b * 4 + length rec \<le> fin"
  defines "new_off \<equiv> fin - length rec"
  shows "\<exists>bc'. set_slot (wr new_off rec bc) i (word_of_nat new_off) (sfield b i) = Some bc' \<and>
    compacting b (Set.insert i D) bc' new_off"
proof -
  have c: "length bc = 8192" "cnt bc = cnt b" "fin \<le> 8192" using C by (simp_all add: compacting_def)
  have off: "new_off + length rec = fin" "32 + cnt b * 4 \<le> new_off"
    using room by (simp_all add: new_off_def)
  have d: "new_off + length rec \<le> length bc" "slot_base (cnt bc) \<le> new_off"
    using off c by (simp_all add: slot_base_def)
  note w = write_data_effect [OF d]
  have below: "slot_base (Suc k) \<le> new_off" if "k < cnt b" for k
    using that off by (simp add: slot_base_def)
  have base: "slot_base i + 4 \<le> length (wr new_off rec bc)"
    using below [OF i(1)] w(1) off c by (simp add: slot_base_def)
  then obtain bc' where bc': "set_slot (wr new_off rec bc) i (word_of_nat new_off) (sfield b i) = Some bc'"
    by simp
  note e = set_slot_effect [OF bc']
  have noff: "unat (word_of_nat new_off :: u16) = new_off"
    using off c by (intro unat_small_u16) linarith
  have so: "soff bc' k = (if k = i then new_off else soff bc k)" if "k < cnt b" for k
    using e(5) w(5) [OF below [OF that]] noff by simp
  have sf: "sfield bc' k = sfield b k" if "k < cnt b" for k
    using e(6) w(6) [OF below [OF that]] C that by (simp add: compacting_def)
  have sl: "slice start n bc' = slice start n (wr new_off rec bc)" if "new_off \<le> start" for start n
    using that below [OF i(1)] by (intro e(7)) (simp add: slot_base_def)
  have di: "slice new_off (slen b i) bc' = rec"
    using sl [of new_off] d(1) rec(2) by (simp add: slice_wr_same)
  have dk: "fin \<le> soff bc k" "k \<noteq> i" "k < cnt b" "soff bc k + slen b k \<le> 8192"
      "slice (soff bc k) (slen b k) bc' = slice (soff b k) (slen b k) b" if "k \<in> D" for k
  proof -
    show fk: "fin \<le> soff bc k" "soff bc k + slen b k \<le> 8192"
      using C that by (simp_all add: compacting_def)
    show "k \<noteq> i" "k < cnt b" using that i D by auto
    have "slice (soff bc k) (slen b k) bc' = slice (soff bc k) (slen b k) bc"
      using sl [of "soff bc k"] fk off d(1) by (simp add: slice_wr_after)
    then show "slice (soff bc k) (slen b k) bc' = slice (soff b k) (slen b k) b"
      using C that by (simp add: compacting_def)
  qed
  have "compacting b (Set.insert i D) bc' new_off"
    unfolding compacting_def
  proof (intro conjI ballI allI impI)
    show "length bc' = 8192" "cnt bc' = cnt b" "fstart bc' = fstart b"
      using e w C by (simp_all add: compacting_def)
    show "new_off \<le> 8192" using off c by simp
    show "sfield bc' k = sfield b k" if "k < cnt b" for k using sf that by simp
    show "soff bc' k = soff b k" if "k < cnt b" "k \<notin> Set.insert i D" for k
      using so [OF that(1)] C that by (simp add: compacting_def)
    fix k assume k: "k \<in> Set.insert i D"
    show "new_off \<le> soff bc' k" using k so i dk off by (cases "k = i") fastforce+
    show "soff bc' k + slen b k \<le> 8192"
      using k so i dk off rec(2) c by (cases "k = i") auto
    show "slice (soff bc' k) (slen b k) bc' = slice (soff b k) (slen b k) b"
      using k so i dk di rec by (cases "k = i") auto
    fix j assume j: "j \<in> Set.insert i D" and kj: "k \<noteq> j"
    show "soff bc' k + slen b k \<le> soff bc' j \<or> soff bc' j + slen b j \<le> soff bc' k"
    proof (cases "k \<in> D \<and> j \<in> D")
      case True
      then show ?thesis using C kj dk so by (simp add: compacting_def)
    next
      case False
      then consider "k = i" "j \<in> D" | "j = i" "k \<in> D" using k j kj by blast
      then show ?thesis
        using so i dk off rec(2) by cases auto
    qed
  qed
  with bc' show ?thesis by blast
qed

lemma compact_place_spec:
  assumes "compacting b D bc fin" and "D \<subseteq> {..<cnt b}" and "set is \<subseteq> {..<cnt b} - D" and "distinct is"
    and "\<And>i. i \<in> set is \<Longrightarrow> soff b i + slen b i \<le> length b"
    and "32 + cnt b * 4 + sum_list (map (slen b) is) \<le> fin"
  shows "\<exists>bc'. compact_place bc fin (map (\<lambda>i. (i, sfield b i, slice (soff b i) (slen b i) b)) is) =
      Some (bc', fin - sum_list (map (slen b) is)) \<and>
    compacting b (D \<union> set is) bc' (fin - sum_list (map (slen b) is))"
  using assms
proof (induction "is" arbitrary: D bc fin)
  case (Cons i "is")
  let ?rec = "slice (soff b i) (slen b i) b"
  have len: "length ?rec = slen b i" using Cons.prems(5) [of i] by simp
  have "\<exists>bc'. set_slot (wr (fin - length ?rec) ?rec bc) i (word_of_nat (fin - length ?rec)) (sfield b i) = Some bc' \<and>
    compacting b (Set.insert i D) bc' (fin - length ?rec)"
    by (rule compacting_step [OF Cons.prems(1,2)]) (use Cons.prems len in auto)
  then obtain bc' where st: "set_slot (wr (fin - slen b i) ?rec bc) i (word_of_nat (fin - slen b i)) (sfield b i) = Some bc'"
    and C': "compacting b (Set.insert i D) bc' (fin - slen b i)"
    unfolding len by blast
  have "\<exists>bc''. compact_place bc' (fin - slen b i) (map (\<lambda>i. (i, sfield b i, slice (soff b i) (slen b i) b)) is) =
      Some (bc'', fin - slen b i - sum_list (map (slen b) is)) \<and>
    compacting b (Set.insert i D \<union> set is) bc'' (fin - slen b i - sum_list (map (slen b) is))"
    by (rule Cons.IH [OF C']) (use Cons.prems in auto)
  moreover have "length bc = 8192" "fin \<le> 8192" using Cons.prems(1) by (simp_all add: compacting_def)
  ultimately show ?case using st len Cons.prems(6) by simp
qed simp

lemma compacting_done:
  assumes inv: "page_inv b" and C: "compacting b {i. live b i} bc fin" and T: "32 + cnt b * 4 \<le> fin"
  defines "b' \<equiv> set_free_end bc (word_of_nat fin)"
  shows "page_inv b' \<and> page_abs b' = page_abs b \<and> cnt b' = cnt b \<and> fend b' = fin"
proof -
  have c: "20 \<le> length bc" "fin \<le> 8192" using C by (simp_all add: compacting_def)
  note e = set_free_end_effect [OF c(1), where v = "word_of_nat fin", folded b'_def]
  have fe: "fend b' = fin" using e(4) c(2) unat_small_u16 [of fin] by simp
  have cn: "cnt b' = cnt b" using e(2) C by (simp add: compacting_def)
  have sl: "slen b' k = slen b k" if "k < cnt b" for k
    using e(6) C that by (simp add: compacting_def slen_def)
  have so: "soff b' k = soff bc k" for k by (rule e(5))
  have lv: "live b' k \<longleftrightarrow> live b k" for k
  proof (cases "live b k")
    case True
    then have "fin \<le> soff bc k" using C by (simp add: compacting_def)
    then show ?thesis using True so cn T by (simp add: live_def)
  next
    case False
    then show ?thesis using C so cn by (auto simp: live_def compacting_def)
  qed
  have k: "fend b' \<le> soff b' k" "soff b' k + slen b' k \<le> 8192"
      "slice (soff b' k) (slen b' k) b' = slice (soff b k) (slen b k) b" if "live b k" for k
  proof -
    have q: "fin \<le> soff bc k" "soff bc k + slen b k \<le> 8192" "k < cnt b"
      "slice (soff bc k) (slen b k) bc = slice (soff b k) (slen b k) b"
      using C that by (simp_all add: compacting_def live_def)
    then show "fend b' \<le> soff b' k" "soff b' k + slen b' k \<le> 8192"
      "slice (soff b' k) (slen b' k) b' = slice (soff b k) (slen b k) b"
      using e(7) so sl [OF q(3)] fe T by simp_all
  qed
  have "extents_disjoint b' i j" if "live b i" "live b j" "i \<noteq> j" for i j
    using C that so sl by (simp add: compacting_def extents_disjoint_def live_def)
  moreover have "fstart b' = 32 + cnt b' * 4" "length b' = 8192"
    using e(1,3) C inv cn by (simp_all add: compacting_def page_inv_def)
  ultimately have "page_inv b'"
    using k lv fe T cn c(2) by (simp add: page_inv_def)
  moreover have "page_abs b' = page_abs b"
    using k lv by (auto simp: page_abs_def)
  ultimately show ?thesis using cn fe by blast
qed

lemma compact_spec:
  assumes inv: "page_inv b"
  shows "\<exists>b'. compact b = Some b' \<and> page_inv b' \<and> page_abs b' = page_abs b \<and> cnt b' = cnt b \<and>
    fend b' = 8192 - sum_list (map (slen b) (live_slots b))"
proof -
  let ?L = "live_slots b" and ?T = "sum_list (map (slen b) (live_slots b))"
  let ?recs = "map (\<lambda>i. (i, sfield b i, slice (soff b i) (slen b i) b)) ?L"
  have lenb: "length b = 8192" by (rule page_inv_length [OF inv])
  have T: "32 + cnt b * 4 + ?T \<le> 8192"
    using live_bytes_bound [OF inv] inv by (simp add: page_inv_def)
  have "compacting b {} b 8192" using lenb by (simp add: compacting_def)
  then have "\<exists>bc'. compact_place b 8192 ?recs = Some (bc', 8192 - ?T) \<and>
      compacting b ({} \<union> set ?L) bc' (8192 - ?T)"
    by (rule compact_place_spec)
      (use T lenb page_inv_live [OF inv] live_slots_set in \<open>auto simp: live_def\<close>)
  then obtain bc where pl: "compact_place b 8192 ?recs = Some (bc, 8192 - ?T)"
    and C: "compacting b {i. live b i} bc (8192 - ?T)"
    by (auto simp: live_slots_set)
  have "compact_collect b [0..<cnt b] = Some ?recs"
    unfolding live_slots_def by (rule compact_collect_spec [OF inv]) auto
  then have "compact b = Some (set_free_end bc (word_of_nat (8192 - ?T)))"
    using pl by (simp add: compact_def)
  then show ?thesis using compacting_done [OF inv C] T by simp
qed


section \<open>The slot-map interface\<close>

text \<open>
  What the layers above rely on: a page is a partial map from slot ids to records with
  lookup, insertion into a free slot, removal and same-length edits, none of which panics.
\<close>

locale slot_map =
  fixes inv :: "'p \<Rightarrow> bool" and abs :: "'p \<Rightarrow> nat \<Rightarrow> bytes option"
    and lookup :: "'p \<Rightarrow> u16 \<Rightarrow> bytes option exec"
    and place :: "'p \<Rightarrow> bytes \<Rightarrow> ('p \<times> u16 option) exec"
    and erase :: "'p \<Rightarrow> u16 \<Rightarrow> ('p \<times> bool) exec"
    and edit :: "'p \<Rightarrow> u16 \<Rightarrow> bytes \<Rightarrow> 'p option exec"
  assumes lookup_abs: "inv p \<Longrightarrow> lookup p s = Some (abs p (unat s))"
    and place_total: "inv p \<Longrightarrow> place p r \<noteq> None"
    and place_ok: "inv p \<Longrightarrow> place p r = Some (p', Some s) \<Longrightarrow>
      inv p' \<and> abs p (unat s) = None \<and> abs p' = (abs p)(unat s \<mapsto> r)"
    and place_full: "inv p \<Longrightarrow> place p r = Some (p', None) \<Longrightarrow> p' = p"
    and erase_ok: "inv p \<Longrightarrow> \<exists>p'. erase p s = Some (p', abs p (unat s) \<noteq> None) \<and>
      inv p' \<and> abs p' = (abs p)(unat s := None)"
    and edit_ok: "inv p \<Longrightarrow> abs p (unat s) = Some r \<Longrightarrow> length v = length r \<Longrightarrow>
      \<exists>p'. edit p s v = Some (Some p') \<and> inv p' \<and> abs p' = (abs p)(unat s \<mapsto> v)"
    and edit_missing: "inv p \<Longrightarrow> abs p (unat s) = None \<Longrightarrow> edit p s v = Some None"
begin

lemma lookup_placed:
  assumes "inv p" and "place p r = Some (p', Some s)"
  shows "lookup p' t = (if t = s then Some (Some r) else lookup p t)"
  using place_ok [OF assms] lookup_abs [of p'] lookup_abs [OF assms(1)] by (auto simp: word_unat_eq_iff [symmetric])

lemma lookup_erased:
  assumes "inv p" and "erase p s = Some (p', ok)"
  shows "lookup p' t = (if t = s then Some None else lookup p t)"
  using erase_ok [OF assms(1), of s] assms(2) lookup_abs [of p'] lookup_abs [OF assms(1)]
  by (auto simp: word_unat_eq_iff [symmetric])

lemma lookup_edited:
  assumes "inv p" and "lookup p s = Some (Some r)" and "length v = length r"
  shows "\<exists>p'. edit p s v = Some (Some p') \<and> inv p' \<and>
    (\<forall>t. lookup p' t = (if t = s then Some (Some v) else lookup p t))"
proof -
  have "abs p (unat s) = Some r" using lookup_abs assms by auto
  then obtain p' where "edit p s v = Some (Some p')" "inv p'" "abs p' = (abs p)(unat s \<mapsto> v)"
    using edit_ok assms by blast
  then show ?thesis using lookup_abs assms(1) by (auto simp: word_unat_eq_iff [symmetric])
qed

lemma place_cases:
  assumes "inv p"
  obtains (Full) "place p r = Some (p, None)"
    | (Placed) p' s where "place p r = Some (p', Some s)" "inv p'" "abs p (unat s) = None"
        "abs p' = (abs p)(unat s \<mapsto> r)"
proof (cases "place p r")
  case None
  then show ?thesis using place_total [OF assms] by blast
next
  case (Some x)
  obtain p' o' where x: "x = (p', o')" by (cases x)
  show ?thesis
  proof (cases o')
    case None
    then show ?thesis using Some x place_full [OF assms] that(1) by auto
  next
    case (Some s)
    then show ?thesis using \<open>place p r = Some x\<close> x place_ok [OF assms] that(2) by auto
  qed
qed

end

lemma page_abs_live: "page_abs b i \<noteq> None \<longleftrightarrow> live b i"
  by (simp add: page_abs_def)

lemma placed_slot_small: "page_inv b \<Longrightarrow> placed b sid rec b' \<Longrightarrow> unat (word_of_nat sid :: u16) = sid"
  using placedD(2,3,5,6) [of b sid rec b'] by (intro unat_small_u16) (auto simp: page_inv_def)

lemma page_insert_spec:
  assumes "page_inv b"
  shows "if page_fits b (length rec)
    then \<exists>b' sid. page_insert b rec = Some (b', Some sid) \<and> page_inv b' \<and>
      page_abs b (unat sid) = None \<and> page_abs b' = (page_abs b)(unat sid \<mapsto> rec)
    else page_insert b rec = Some (b, None)"
proof (cases "page_fits b (length rec)")
  case True
  then obtain b' sid where ins: "page_insert b rec = Some (b', Some (word_of_nat sid))"
    and pl: "placed b sid rec b'"
    using page_insert_places [OF assms True] by blast
  have "page_abs b sid = None" using placed_not_live [OF pl] by (simp add: page_abs_def)
  with ins show ?thesis
    using True placed_inv [OF assms pl] placed_abs [OF assms pl] placed_slot_small [OF assms pl] by auto
qed (simp add: page_insert_rejects [OF assms])

interpretation sp: slot_map page_inv page_abs record_at page_insert page_delete page_overwrite
proof unfold_locales
  fix p r p' s
  assume inv: "page_inv p"
  show "page_insert p r \<noteq> None"
    using page_insert_spec [OF inv, of r] by (auto split: if_splits)
  show "page_inv p' \<and> page_abs p (unat s) = None \<and> page_abs p' = (page_abs p)(unat s \<mapsto> r)"
    if "page_insert p r = Some (p', Some s)"
    using page_insert_spec [OF inv, of r] that by (auto split: if_splits)
  show "p' = p" if "page_insert p r = Some (p', None)"
    using page_insert_spec [OF inv, of r] that by (auto split: if_splits)
  show "\<exists>p'. page_delete p s = Some (p', page_abs p (unat s) \<noteq> None) \<and>
      page_inv p' \<and> page_abs p' = (page_abs p)(unat s := None)"
    using page_delete_spec [OF inv, of s] unfolding page_abs_live .
qed (use record_at_abs page_overwrite_spec page_overwrite_missing in blast)+



section \<open>Sequences of page operations\<close>

datatype page_op = PInsert bytes | PDelete u16 | PEdit u16 bytes | PCompact

fun page_step :: "bytes \<Rightarrow> page_op \<Rightarrow> bytes exec" where
  "page_step b (PInsert r) = map_option fst (page_insert b r)"
| "page_step b (PDelete s) = map_option fst (page_delete b s)"
| "page_step b (PEdit s v) = do {
     r \<leftarrow> record_at b s;
     case r of
       Some old \<Rightarrow> if length old = length v
         then map_option (\<lambda>o'. case o' of Some b' \<Rightarrow> b' | None \<Rightarrow> b) (page_overwrite b s v)
         else Some b
     | None \<Rightarrow> Some b }"
| "page_step b PCompact = compact b"

fun page_run :: "bytes \<Rightarrow> page_op list \<Rightarrow> bytes exec" where
  "page_run b [] = Some b"
| "page_run b (a # as) = do { b' \<leftarrow> page_step b a; page_run b' as }"

text \<open>What the same operations do to a partial map from slots to records.\<close>

inductive slot_step :: "(nat \<Rightarrow> bytes option) \<Rightarrow> page_op \<Rightarrow> (nat \<Rightarrow> bytes option) \<Rightarrow> bool" where
  Full: "slot_step m (PInsert r) m"
| Ins: "m s = None \<Longrightarrow> slot_step m (PInsert r) (m(s \<mapsto> r))"
| Del: "slot_step m (PDelete s) (m(unat s := None))"
| Edit: "m (unat s) = Some old \<Longrightarrow> length old = length v \<Longrightarrow> slot_step m (PEdit s v) (m(unat s \<mapsto> v))"
| NoEdit: "\<nexists>old. m (unat s) = Some old \<and> length old = length v \<Longrightarrow> slot_step m (PEdit s v) m"
| Compact: "slot_step m PCompact m"

inductive slot_steps :: "(nat \<Rightarrow> bytes option) \<Rightarrow> page_op list \<Rightarrow> (nat \<Rightarrow> bytes option) \<Rightarrow> bool" where
  Nil: "slot_steps m [] m"
| Cons: "slot_step m a m' \<Longrightarrow> slot_steps m' as m'' \<Longrightarrow> slot_steps m (a # as) m''"

lemma page_step_refines:
  assumes inv: "page_inv b"
  shows "\<exists>b'. page_step b a = Some b' \<and> page_inv b' \<and> slot_step (page_abs b) a (page_abs b')"
proof (cases a)
  case (PInsert r)
  then show ?thesis
    using inv by (cases rule: sp.place_cases [OF inv, of r]) (auto intro: slot_step.intros)
next
  case (PDelete s)
  then show ?thesis using sp.erase_ok [OF inv, of s] by (auto intro: slot_step.intros)
next
  case (PEdit s v)
  show ?thesis
  proof (cases "\<exists>old. page_abs b (unat s) = Some old \<and> length old = length v")
    case True
    then show ?thesis
      using PEdit sp.lookup_abs [OF inv, of s] sp.edit_ok [OF inv, of s _ v] slot_step.Edit [of "page_abs b" s _ v]
      by fastforce
  next
    case False
    then show ?thesis
      using PEdit sp.lookup_abs [OF inv, of s] slot_step.NoEdit [of "page_abs b" s v, OF False] inv
      by (auto split: option.splits)
  qed
next
  case PCompact
  then show ?thesis using compact_spec [OF inv] by (auto intro: slot_step.intros)
qed

lemma page_run_refines:
  "page_inv b \<Longrightarrow> \<exists>b'. page_run b as = Some b' \<and> page_inv b' \<and> slot_steps (page_abs b) as (page_abs b')"
proof (induction as arbitrary: b)
  case (Cons a as)
  obtain b1 where b1: "page_step b a = Some b1" "page_inv b1" "slot_step (page_abs b) a (page_abs b1)"
    using page_step_refines [OF Cons.prems] by blast
  then show ?case using Cons.IH [OF b1(2)] by (auto intro: slot_steps.Cons)
qed (auto intro: slot_steps.Nil)


section \<open>Checksums\<close>

text \<open>
  The page LSN and the checksum occupy bytes 0..10; everything the slotted-page
  operations read lies behind them.
\<close>

definition page_body :: "bytes \<Rightarrow> bytes" where
  "page_body b = drop 10 b"

lemma slice_body: "10 \<le> off \<Longrightarrow> slice off n b = slice (off - 10) n (page_body b)"
  by (simp add: slice_def page_body_def)

lemma page_body_cong:
  assumes "page_body b' = page_body b"
  shows "hdr_slot_count b' = hdr_slot_count b" "hdr_free_start b' = hdr_free_start b"
    "hdr_free_end b' = hdr_free_end b" "soff b' k = soff b k" "sfield b' k = sfield b k"
    "10 \<le> off \<Longrightarrow> slice off n b' = slice off n b"
  using assms by (simp_all add: field_defs rd_u16_def slice_body [of _ _ b] slice_body [of _ _ b'])

lemma page_body_inv_abs:
  assumes "page_body b' = page_body b" and "length b' = length b"
  shows "page_inv b' \<longleftrightarrow> page_inv b" and "page_inv b \<Longrightarrow> page_abs b' = page_abs b"
proof -
  note c = page_body_cong [OF assms(1)]
  have sl: "slen b' k = slen b k" "live b' k = live b k" "extents_disjoint b' k j = extents_disjoint b k j" for k j
    by (simp_all add: slen_def live_def extents_disjoint_def c)
  show "page_inv b' \<longleftrightarrow> page_inv b" by (simp add: page_inv_def sl c assms(2))
  assume inv: "page_inv b"
  have "10 \<le> soff b k" if "live b k" for k
    using page_inv_live [OF inv that] inv by (simp add: page_inv_def)
  then show "page_abs b' = page_abs b" by (auto simp: page_abs_def sl c fun_eq_iff)
qed

lemma update_checksum_frame:
  assumes "length b = 8192"
  shows "length (update_checksum crc32 b) = 8192" and "page_body (update_checksum crc32 b) = page_body b"
    and "verify_checksum crc32 (update_checksum crc32 b)"
proof -
  have d: "drop 16 (wr 8 v b) = drop 16 b" "drop 10 (wr 8 v b) = drop 10 b" if "length v = 2" for v
    using assms that by (simp_all add: wr_def)
  show "length (update_checksum crc32 b) = 8192" "page_body (update_checksum crc32 b) = page_body b"
    "verify_checksum crc32 (update_checksum crc32 b)"
    using assms by (simp_all add: update_checksum_def verify_checksum_def page_checksum_def wr_u16_def
        rd_u16_def page_body_def d byte_simps)
qed

lemma set_page_lsn_frame:
  assumes "length b = 8192"
  shows "length (set_page_lsn b l) = 8192" and "page_body (set_page_lsn b l) = page_body b"
    and "hdr_page_lsn (set_page_lsn b l) = l"
    and "verify_checksum crc32 (set_page_lsn b l) = verify_checksum crc32 b"
proof -
  have d: "drop 16 (wr 0 v b) = drop 16 b" "drop 10 (wr 0 v b) = drop 10 b" if "length v = 8" for v
    using assms that by (simp_all add: wr_def)
  show "length (set_page_lsn b l) = 8192" "page_body (set_page_lsn b l) = page_body b"
    "hdr_page_lsn (set_page_lsn b l) = l"
    "verify_checksum crc32 (set_page_lsn b l) = verify_checksum crc32 b"
    using assms by (simp_all add: set_page_lsn_def verify_checksum_def page_checksum_def hdr_page_lsn_def
        rd_u64_def rd_u16_def page_body_def d byte_simps)
qed


section \<open>Properties of pages\<close>

text \<open>
  C2: Inserting a record into a well-formed page never panics.  If the record fits, it is
  stored in a previously empty slot, every other slot keeps its record and the page stays
  well formed; if it does not fit, the page is returned unchanged with no slot.
\<close>

theorem page_insert_correct:
  assumes "page_inv b"
  shows "if page_fits b (length rec)
    then \<exists>b' sid. page_insert b rec = Some (b', Some sid) \<and> page_inv b' \<and>
      record_at b sid = Some None \<and> record_at b' sid = Some (Some rec) \<and>
      (\<forall>t. t \<noteq> sid \<longrightarrow> record_at b' t = record_at b t)
    else page_insert b rec = Some (b, None)"
  using page_insert_spec [OF assms, of rec] sp.lookup_placed [OF assms] sp.lookup_abs [OF assms]
  by (auto split: if_splits)

theorem page_insert_correct_witness:
  "page_fits (page_init Heap) (length [1, 2, 3 :: u8]) \<and>
   (\<exists>b' sid. page_insert (page_init Heap) [1, 2, 3] = Some (b', Some sid) \<and>
     record_at b' sid = Some (Some [1, 2, 3]))"
proof -
  have inv: "page_inv (page_init Heap)" using page_init_spec by blast
  have fit: "page_fits (page_init Heap) (length [1, 2, 3 :: u8])"
    by (simp add: page_fits_def page_init_fields MAX_RECORD_LEN_def SLOT_LENGTH_MASK_def)
  show ?thesis using page_insert_correct [OF inv, of "[1, 2, 3]"] fit by auto
qed

text \<open>
  C3: Compaction never panics on a well-formed page, keeps the record of every slot id, and
  reclaims all dead space: afterwards the free region is the page minus the header, the slot
  array and the live records.
\<close>

theorem page_compact_correct:
  assumes "page_inv b"
  shows "\<exists>b'. compact b = Some b' \<and> page_inv b' \<and> (\<forall>t. record_at b' t = record_at b t) \<and>
    free_space b' = Some (PAGE_SIZE - slot_base (cnt b) - sum_list (map (slen b) (live_slots b)))"
proof -
  obtain b' where b': "compact b = Some b'" "page_inv b'" "page_abs b' = page_abs b" "cnt b' = cnt b"
    "fend b' = 8192 - sum_list (map (slen b) (live_slots b))"
    using compact_spec [OF assms] by blast
  have "record_at b' t = record_at b t" for t
    using sp.lookup_abs [OF b'(2)] sp.lookup_abs [OF assms] b'(3) by simp
  moreover have "fstart b' = slot_base (cnt b)"
    using b' by (simp add: page_inv_def slot_base_def)
  ultimately show ?thesis using b' free_space_inv [OF b'(2)] by auto
qed

theorem page_compact_correct_witness:
  "\<exists>b'. compact (page_init Heap) = Some b' \<and> free_space b' = Some 8160"
  using page_compact_correct [of "page_init Heap"] page_init_spec
  by (auto simp: page_init_fields slot_base_def live_slots_def)

text \<open>
  C4: Any sequence of inserts, deletes, same-length edits and compactions on a fresh page runs
  without a panic and does to the slots exactly what it does to a partial map from slot ids to
  records.
\<close>

theorem page_run_matches_map:
  "\<exists>b. page_run (page_init t) as = Some b \<and> page_inv b \<and> slot_steps Map.empty as (page_abs b) \<and>
     (\<forall>s. record_at b s = Some (page_abs b (unat s)))"
  using page_run_refines [of "page_init t" as] page_init_spec [of t] sp.lookup_abs by force

text \<open>
  After \<open>update_checksum\<close> the page verifies, and it still verifies, with the same slots,
  after the page LSN is overwritten: the LSN lies outside the checksummed region.
\<close>

theorem page_checksum_survives_lsn:
  assumes "page_inv b"
  shows "let b' = set_page_lsn (update_checksum crc32 b) l in
    verify_checksum crc32 b' \<and> hdr_page_lsn b' = l \<and> page_inv b' \<and>
    (\<forall>t. record_at b' t = record_at b t)"
proof -
  define b' where "b' = set_page_lsn (update_checksum crc32 b) l"
  have len: "length b = 8192" by (rule page_inv_length [OF assms(1)])
  note u = update_checksum_frame [OF len, of crc32]
  note s = set_page_lsn_frame [OF u(1), where l = l, folded b'_def]
  have body: "page_body b' = page_body b" "length b' = length b" using u s len by simp_all
  note eq = page_body_inv_abs [OF body]
  then show ?thesis
    using u s assms(1) sp.lookup_abs [of b'] sp.lookup_abs [of b] unfolding b'_def [symmetric] Let_def by simp
qed

theorem page_checksum_survives_lsn_witness:
  "verify_checksum (\<lambda>_. 7) (set_page_lsn (update_checksum (\<lambda>_. 7) (page_init Heap)) 5)"
  using page_checksum_survives_lsn [of "page_init Heap" "\<lambda>_. 7" 5] page_init_spec by (simp add: Let_def)

end
