(* ===== verification/Disk.thy ===== *)
theory Disk
  imports Page WalRecord
begin

text \<open>
  The database header on page 0 (\<open>prism-storage/src/db_header.rs\<close>) and the disk manager
  (\<open>prism-storage/src/disk.rs\<close>).  The heap file is a byte list; positioned reads and writes of
  the backend are slices of it, and a read that meets the end of the file is short.
\<close>


section \<open>Storage errors\<close>

datatype StorageError =
    StorageIo
  | ShortRead u64 nat nat
  | ShortWrite u64 nat nat
  | IncompatibleDatabase string
  | LockedByOtherProcess
  | ChecksumMismatch u64
  | StorageRecordTooLarge nat nat


section \<open>The database header\<close>

definition MAGIC :: bytes where
  "MAGIC = [0x50, 0x52, 0x49, 0x53, 0x4D, 0x44, 0x42, 0x00]"

definition FORMAT_VERSION :: u32 where "FORMAT_VERSION = 1"
definition HEADER_CRC_BODY_LEN :: nat where [simp]: "HEADER_CRC_BODY_LEN = 124"

record DbHeader =
  db_format_version :: u32
  db_page_size :: u32
  db_created_at_micros :: u64
  db_last_checkpoint_lsn :: u64
  db_clean_shutdown :: bool
  db_tables_root_rid :: u64
  db_columns_root_rid :: u64
  db_indexes_root_rid :: u64
  db_collections_root_rid :: u64
  db_namespaces_root_rid :: u64
  db_users_root_rid :: u64
  db_grants_root_rid :: u64
  db_sequences_root_rid :: u64
  db_next_oid :: u64
  db_next_page_id :: u64

definition db_header_new :: "u64 \<Rightarrow> DbHeader" where
  "db_header_new created =
     \<lparr>db_format_version = FORMAT_VERSION, db_page_size = word_of_nat PAGE_SIZE,
      db_created_at_micros = created, db_last_checkpoint_lsn = 0, db_clean_shutdown = True,
      db_tables_root_rid = 0, db_columns_root_rid = 0, db_indexes_root_rid = 0,
      db_collections_root_rid = 0, db_namespaces_root_rid = 0, db_users_root_rid = 0,
      db_grants_root_rid = 0, db_sequences_root_rid = 0, db_next_oid = 0, db_next_page_id = 0\<rparr>"

text \<open>The writes into the zeroed page, in the source's order (offset, bytes).\<close>

definition db_header_fields :: "DbHeader \<Rightarrow> (nat \<times> bytes) list" where
  "db_header_fields h =
     [(0, MAGIC), (8, to_le_bytes (db_format_version h)), (12, to_le_bytes (db_page_size h)),
      (16, to_le_bytes (db_created_at_micros h)), (24, to_le_bytes (db_last_checkpoint_lsn h)),
      (32, [of_bool (db_clean_shutdown h)]), (40, to_le_bytes (db_tables_root_rid h)),
      (48, to_le_bytes (db_columns_root_rid h)), (56, to_le_bytes (db_indexes_root_rid h)),
      (64, to_le_bytes (db_collections_root_rid h)), (72, to_le_bytes (db_namespaces_root_rid h)),
      (80, to_le_bytes (db_users_root_rid h)), (88, to_le_bytes (db_grants_root_rid h)),
      (96, to_le_bytes (db_sequences_root_rid h)), (104, to_le_bytes (db_next_oid h)),
      (112, to_le_bytes (db_next_page_id h))]"

definition db_header_encode :: "(bytes \<Rightarrow> u32) \<Rightarrow> DbHeader \<Rightarrow> bytes" where
  "db_header_encode crc32 h =
     (let buf = wr_all (db_header_fields h) (replicate PAGE_SIZE 0)
      in wr 124 (to_le_bytes (crc32 (take HEADER_CRC_BODY_LEN buf))) buf)"

definition db_header_decode :: "(bytes \<Rightarrow> u32) \<Rightarrow> bytes \<Rightarrow> StorageError + DbHeader" where
  "db_header_decode crc32 buf =
     (if slice 0 8 buf \<noteq> MAGIC
        then Inl (IncompatibleDatabase ''bad magic bytes (not a Prism database file)'')
      else if get_u32 buf 124 \<noteq> crc32 (take HEADER_CRC_BODY_LEN buf) then Inl (ChecksumMismatch 0)
      else if get_u32 buf 8 \<noteq> FORMAT_VERSION then Inl (IncompatibleDatabase ''format version'')
      else if unat (get_u32 buf 12) \<noteq> PAGE_SIZE then Inl (IncompatibleDatabase ''page size'')
      else Inr
        \<lparr>db_format_version = get_u32 buf 8, db_page_size = get_u32 buf 12,
         db_created_at_micros = get_u64 buf 16, db_last_checkpoint_lsn = get_u64 buf 24,
         db_clean_shutdown = (buf ! 32 \<noteq> 0), db_tables_root_rid = get_u64 buf 40,
         db_columns_root_rid = get_u64 buf 48, db_indexes_root_rid = get_u64 buf 56,
         db_collections_root_rid = get_u64 buf 64, db_namespaces_root_rid = get_u64 buf 72,
         db_users_root_rid = get_u64 buf 80, db_grants_root_rid = get_u64 buf 88,
         db_sequences_root_rid = get_u64 buf 96, db_next_oid = get_u64 buf 104,
         db_next_page_id = get_u64 buf 112\<rparr>)"


section \<open>The disk manager\<close>

definition PREALLOC_CHUNK_PAGES :: nat where [simp]: "PREALLOC_CHUNK_PAGES = 64"

record DiskManager =
  dk_file :: bytes
  dk_synced :: bytes
  dk_next_page_id :: nat

definition byte_offset :: "u64 \<Rightarrow> nat" where
  "byte_offset p = unat p * PAGE_SIZE"

definition disk_open :: "bytes \<Rightarrow> DiskManager" where
  "disk_open file = \<lparr>dk_file = file, dk_synced = file, dk_next_page_id = length file div PAGE_SIZE\<rparr>"

text \<open>
  \<open>read_page\<close> reads until the page is complete or the file ends; \<open>write_page\<close> hands all bytes
  to the backend, which extends the file when it has to.
\<close>

definition read_page :: "DiskManager \<Rightarrow> u64 \<Rightarrow> StorageError + bytes" where
  "read_page d p =
     (let got = slice (byte_offset p) PAGE_SIZE (dk_file d)
      in if length got < PAGE_SIZE then Inl (ShortRead p (length got) PAGE_SIZE) else Inr got)"

definition file_put :: "nat \<Rightarrow> bytes \<Rightarrow> bytes \<Rightarrow> bytes" where
  "file_put off v b = take off (b @ replicate (off - length b) 0) @ v @ drop (off + length v) b"

definition write_page :: "u64 \<Rightarrow> bytes \<Rightarrow> DiskManager \<Rightarrow> DiskManager" where
  "write_page p buf d = d\<lparr>dk_file := file_put (byte_offset p) buf (dk_file d)\<rparr>"

definition set_len :: "nat \<Rightarrow> bytes \<Rightarrow> bytes" where
  "set_len n b = take n b @ replicate (n - length b) 0"

definition allocate_page :: "DiskManager \<Rightarrow> u64 \<times> DiskManager" where
  "allocate_page d =
     (let pid = dk_next_page_id d;
          d1 = d\<lparr>dk_next_page_id := pid + 1\<rparr>;
          needed_pages = pid + 1;
          have_pages = length (dk_file d) div PAGE_SIZE
      in (word_of_nat pid,
          if needed_pages > have_pages
          then let target_pages = ((needed_pages + PREALLOC_CHUNK_PAGES - 1) div PREALLOC_CHUNK_PAGES)
                 * PREALLOC_CHUNK_PAGES
               in d1\<lparr>dk_file := set_len (target_pages * PAGE_SIZE) (dk_file d)\<rparr>
          else d1))"

definition page_count :: "DiskManager \<Rightarrow> nat" where
  "page_count d = dk_next_page_id d"

definition disk_sync :: "DiskManager \<Rightarrow> DiskManager" where
  "disk_sync d = d\<lparr>dk_synced := dk_file d\<rparr>"


section \<open>The header survives the page\<close>

lemma db_header_fields_ok: "fields_ok 0 (db_header_fields h) 8192"
  by (simp add: db_header_fields_def MAGIC_def)

lemma db_header_roundtrip:
  assumes "db_format_version h = FORMAT_VERSION" and "db_page_size h = word_of_nat PAGE_SIZE"
  shows "db_header_decode crc32 (db_header_encode crc32 h) = Inr h"
proof -
  define buf where "buf = wr_all (db_header_fields h) (replicate 8192 0)"
  define b where "b = wr 124 (to_le_bytes (crc32 (take 124 buf))) buf"
  have e: "db_header_encode crc32 h = b" by (simp add: db_header_encode_def buf_def b_def Let_def)
  note ok = db_header_fields_ok [of h]
  have len: "length buf = 8192" using wr_all_frame [of 0 "db_header_fields h" "replicate 8192 0"] ok
    by (simp add: buf_def)
  have fld: "slice off n b = v" if "(off, v) \<in> set (db_header_fields h)" "n = length v" "off + n \<le> 124" for off n v
    using slice_wr_all [of 0 "db_header_fields h" "replicate 8192 0" off v n] ok that len
    by (simp add: b_def buf_def slice_wr_before)
  have crc: "slice 124 4 b = to_le_bytes (crc32 (take 124 buf))" using len by (simp add: b_def slice_wr_same)
  have body: "take 124 b = take 124 buf" using len by (simp add: b_def wr_def)
  have magic: "slice 0 8 b = MAGIC" by (rule fld) (simp_all add: db_header_fields_def MAGIC_def)
  have "slice 32 1 b = [of_bool (db_clean_shutdown h)]" by (rule fld) (simp_all add: db_header_fields_def)
  then have "b ! 32 = of_bool (db_clean_shutdown h)"
    using len by (simp add: slice_def take_Suc_conv_app_nth b_def)
  then show ?thesis
    unfolding e db_header_decode_def get_u32_def get_u64_def
    using assms crc body magic
    by (simp add: fld db_header_fields_def from_to_le_bytes)
qed


section \<open>The page device interface\<close>

text \<open>What the buffer pool and recovery rely on: pages are read back as they were last written.\<close>

locale page_device =
  fixes rd :: "'d \<Rightarrow> u64 \<Rightarrow> 'e + bytes" and wt :: "u64 \<Rightarrow> bytes \<Rightarrow> 'd \<Rightarrow> 'd"
  assumes rd_wt_same: "length buf = 8192 \<Longrightarrow> rd (wt p buf d) p = Inr buf"
    and rd_wt_other: "length buf = 8192 \<Longrightarrow> p \<noteq> q \<Longrightarrow> rd d q = Inr b \<Longrightarrow> rd (wt p buf d) q = Inr b"
    and rd_length: "rd d p = Inr b \<Longrightarrow> length b = 8192"
begin

lemma rd_wt:
  assumes "length buf = 8192" and "rd d q = Inr b"
  shows "rd (wt p buf d) q = Inr (if q = p then buf else b)"
  using assms rd_wt_same rd_wt_other by (cases "q = p") auto

text \<open>Writing back a set of pages, in any order, changes those pages and no others.\<close>

lemma rd_wt_fold:
  assumes "\<And>p. p \<in> set ps \<Longrightarrow> length (f p) = 8192" and "rd d q = Inr b"
  shows "rd (fold (\<lambda>p. wt p (f p)) ps d) q = Inr (if q \<in> set ps then f q else b)"
  using assms
proof (induction ps arbitrary: d b)
  case (Cons p ps)
  then show ?case using rd_wt [of "f p" d q b p] Cons.IH [of "wt p (f p) d"] by auto
qed simp

end

lemma slice_file_put_same: "slice off (length v) (file_put off v b) = v"
  by (simp add: slice_def file_put_def)

lemma slice_file_put_other:
  assumes "off' + n \<le> length b" and "off' + n \<le> off \<or> off + length v \<le> off'"
  shows "slice off' n (file_put off v b) = slice off' n b"
proof (cases "off + length v \<le> length b")
  case True
  then have "file_put off v b = wr off v b" by (simp add: file_put_def wr_def)
  then show ?thesis using slice_wr_disjoint [OF assms(2) True] by simp
next
  case False
  then have n: "off' + n \<le> off" using assms by linarith
  let ?t = "take off (b @ replicate (off - length b) 0)"
  have "slice off' n (?t @ v @ drop (off + length v) b) = slice off' n ?t"
    using n by (intro slice_append_left) simp
  also have "\<dots> = slice off' n (b @ replicate (off - length b) 0)"
    using n by (simp add: slice_def drop_take min_def)
  also have "\<dots> = slice off' n b" by (rule slice_append_left [OF assms(1)])
  finally show ?thesis by (simp add: file_put_def)
qed

lemma length_file_put: "length (file_put off v b) = max (length b) (off + length v)"
  by (simp add: file_put_def max_def min_def)

lemma page_extents: "p \<noteq> q \<Longrightarrow> byte_offset q + 8192 \<le> byte_offset p \<or> byte_offset p + 8192 \<le> byte_offset q"
proof -
  assume "p \<noteq> q"
  then consider "unat q + 1 \<le> unat p" | "unat p + 1 \<le> unat q"
    by (metis Suc_eq_plus1 Suc_leI linorder_neqE_nat word_unat_eq_iff)
  then show ?thesis by cases (auto simp: byte_offset_def)
qed

lemma read_page_Inr:
  "read_page d p = Inr b \<longleftrightarrow> byte_offset p + 8192 \<le> length (dk_file d) \<and> b = slice (byte_offset p) 8192 (dk_file d)"
  by (auto simp: read_page_def Let_def)

interpretation dk: page_device read_page write_page
proof
  fix buf b :: bytes and p q :: u64 and d :: DiskManager
  show "length b = 8192" if "read_page d p = Inr b" using that by (auto simp: read_page_Inr)
  assume len: "length buf = 8192"
  show "read_page (write_page p buf d) p = Inr buf"
    using len slice_file_put_same [of "byte_offset p" buf "dk_file d"]
    by (simp add: read_page_Inr write_page_def length_file_put)
  assume ne: "p \<noteq> q" and rd: "read_page d q = Inr b"
  have "byte_offset q + 8192 \<le> length (file_put (byte_offset p) buf (dk_file d))"
    using rd by (simp add: read_page_Inr length_file_put le_max_iff_disj)
  then show "read_page (write_page p buf d) q = Inr b"
    using rd page_extents [OF ne] len
      slice_file_put_other [of "byte_offset q" 8192 "dk_file d" "byte_offset p" buf]
    by (simp add: read_page_Inr write_page_def)
qed

text \<open>A freshly allocated page can be read, and no page that could be read before is lost.\<close>

lemma set_len_prefix: "length b \<le> n \<Longrightarrow> set_len n b = b @ replicate (n - length b) 0"
  by (simp add: set_len_def)

lemma allocate_page_reads:
  assumes "read_page d q = Inr b" and "allocate_page d = (p, d')"
  shows "read_page d' q = Inr b"
proof -
  define n where "n = (dk_next_page_id d + 1 + 64 - 1) div 64 * 64 * 8192"
  have "dk_file d' = dk_file d \<or> dk_file d' = set_len n (dk_file d) \<and> length (dk_file d) \<le> n"
    using assms(2) by (auto simp: allocate_page_def Let_def n_def split: if_splits)
  then show ?thesis
    using assms(1) by (auto simp: read_page_Inr set_len_prefix slice_append_left)
qed

lemma allocate_page_extends:
  assumes "8192 dvd length (dk_file d)" and "allocate_page d = (p, d')"
  shows "\<exists>k. dk_file d' = dk_file d @ replicate k 0 \<and> 8192 dvd k"
proof -
  let ?f = "dk_file d"
  define n where "n = (dk_next_page_id d + 1 + 64 - 1) div 64 * 64 * 8192"
  have n: "8192 dvd n - length ?f" using assms(1) by (intro dvd_diff_nat) (simp_all add: n_def)
  have "dk_file d' = ?f \<or> dk_file d' = ?f @ replicate (n - length ?f) 0"
    using assms(2) by (auto simp: allocate_page_def Let_def n_def set_len_def split: if_splits)
  then show ?thesis
  proof
    assume "dk_file d' = ?f"
    then show ?thesis by (intro exI [of _ 0]) simp
  qed (use n in blast)
qed

text \<open>Overwriting a page that exists does not change the length of the file.\<close>

lemma write_existing_page:
  assumes "read_page d p = Inr b" and "length buf = 8192"
  shows "read_page (write_page p buf d) q = (if q = p then Inr buf else read_page d q)"
proof (cases "q = p")
  case True
  then show ?thesis using dk.rd_wt_same [OF assms(2)] by simp
next
  case False
  have len: "length (dk_file (write_page p buf d)) = length (dk_file d)"
    using assms by (simp add: read_page_Inr write_page_def length_file_put)
  show ?thesis
  proof (cases "byte_offset q + 8192 \<le> length (dk_file d)")
    case True
    then have "read_page d q = Inr (slice (byte_offset q) 8192 (dk_file d))" by (simp add: read_page_Inr)
    then show ?thesis using dk.rd_wt_other [OF assms(2)] False by metis
  next
    case short: False
    let ?off = "byte_offset q" and ?f = "dk_file d" and ?g = "dk_file (write_page p buf d)"
    have pq: "byte_offset p + 8192 \<le> ?off"
      using page_extents [of q p] False short assms(1) by (auto simp: read_page_Inr)
    then have "drop ?off ?g = drop ?off ?f"
      using assms by (simp add: write_page_def file_put_def read_page_Inr)
    then show ?thesis using False by (simp add: read_page_def slice_def)
  qed
qed

text \<open>
  A current header written to page 0 is read back and decodes to the same header, whatever
  the heap file held before, and no other page that could be read is affected.
\<close>

theorem header_page_roundtrip:
  assumes "db_format_version h = FORMAT_VERSION" and "db_page_size h = word_of_nat PAGE_SIZE"
    and "d' = write_page 0 (db_header_encode crc32 h) d"
  shows "(\<exists>b. read_page d' 0 = Inr b \<and> db_header_decode crc32 b = Inr h) \<and>
    (\<forall>q c. q \<noteq> 0 \<longrightarrow> read_page d q = Inr c \<longrightarrow> read_page d' q = Inr c)"
proof (intro conjI allI impI)
  have len: "length (db_header_encode crc32 h) = 8192"
    using db_header_fields_ok [of h] wr_all_frame [of 0 "db_header_fields h" "replicate 8192 0"]
    by (simp add: db_header_encode_def Let_def)
  show "\<exists>b. read_page d' 0 = Inr b \<and> db_header_decode crc32 b = Inr h"
    unfolding assms(3) using dk.rd_wt_same [OF len] db_header_roundtrip [OF assms(1,2)] by blast
  show "read_page d' q = Inr c" if "q \<noteq> 0" "read_page d q = Inr c" for q c
    unfolding assms(3) by (rule dk.rd_wt_other [OF len]) (use that in auto)
qed

theorem header_page_roundtrip_witness:
  "\<exists>b. read_page (write_page 0 (db_header_encode (\<lambda>_. 7) (db_header_new 42)) (disk_open [])) 0 = Inr b \<and>
     db_header_decode (\<lambda>_. 7) b = Inr (db_header_new 42)"
  by (rule header_page_roundtrip [THEN conjunct1]) (simp_all add: db_header_new_def)

end
