(* ===== verification/Buffer.thy ===== *)
theory Buffer
  imports Disk Wal
begin

text \<open>
  The buffer pool (\<open>prism-buffer/src/pool.rs\<close>): frames with pins, usage counts and dirty bits,
  clock-sweep eviction, page guards, and flushing under the rule that the log is durable
  through a page's LSN before the page is written.  A guard is the index of its frame; the
  content latch is the flag \<open>fr_latched\<close>, set while a write guard is alive.
\<close>


section \<open>State\<close>

record Frame =
  fr_content :: bytes
  fr_page :: "u64 option"
  fr_pins :: nat
  fr_usage :: nat
  fr_dirty :: bool
  fr_lsn :: lsn
  fr_latched :: bool

record BufferPool =
  bp_frames :: "Frame list"
  bp_table :: "u64 \<Rightarrow> nat option"
  bp_dirty :: "u64 list"
  bp_hand :: nat
  bp_disk :: DiskManager
  bp_wal :: Wal

datatype BufferError = BufStorage StorageError | BufWal WalError | Exhausted nat

definition MAX_USAGE :: nat where [simp]: "MAX_USAGE = 3"

definition frame_empty :: Frame where
  "frame_empty = \<lparr>fr_content = replicate PAGE_SIZE 0, fr_page = None, fr_pins = 0, fr_usage = 0,
     fr_dirty = False, fr_lsn = 0, fr_latched = False\<rparr>"

definition pool_new :: "DiskManager \<Rightarrow> Wal \<Rightarrow> nat \<Rightarrow> BufferPool" where
  "pool_new d w frame_count =
     \<lparr>bp_frames = replicate (max frame_count 1) frame_empty, bp_table = Map.empty, bp_dirty = [],
      bp_hand = 0, bp_disk = d, bp_wal = w\<rparr>"

definition upd_frame :: "nat \<Rightarrow> (Frame \<Rightarrow> Frame) \<Rightarrow> BufferPool \<Rightarrow> BufferPool" where
  "upd_frame i f p = p\<lparr>bp_frames := (bp_frames p)[i := f (bp_frames p ! i)]\<rparr>"


section \<open>Eviction\<close>

text \<open>The write of a page: the log first, then the page.\<close>

definition write_back :: "u64 \<Rightarrow> lsn \<Rightarrow> bytes \<Rightarrow> BufferPool \<Rightarrow> BufferPool" where
  "write_back page page_lsn content p =
     p\<lparr>bp_wal := flush_through page_lsn (bp_wal p), bp_disk := write_page page content (bp_disk p)\<rparr>"

text \<open>Clearing the victim: it leaves the page table and the dirty set and forgets its page.\<close>

definition clear_victim :: "nat \<Rightarrow> BufferPool \<Rightarrow> BufferPool" where
  "clear_victim idx p =
     (let p1 = (case fr_page (bp_frames p ! idx) of
          Some old \<Rightarrow> p\<lparr>bp_table := (bp_table p)(old := None), bp_dirty := removeAll old (bp_dirty p)\<rparr>
        | None \<Rightarrow> p)
      in upd_frame idx (\<lambda>f. f\<lparr>fr_page := None, fr_dirty := False, fr_usage := 0, fr_lsn := 0\<rparr>) p1)"

text \<open>
  \<open>find_victim\<close>: \<open>sweep k\<close> is the loop with \<open>k\<close> visits left; it starts with \<open>4 * n\<close>.
\<close>

fun sweep :: "nat \<Rightarrow> BufferPool \<Rightarrow> BufferPool \<times> (BufferError + nat)" where
  "sweep 0 p = (p, Inl (Exhausted (length (bp_frames p))))"
| "sweep (Suc k) p =
     (let n = length (bp_frames p);
          idx = bp_hand p;
          p1 = p\<lparr>bp_hand := (idx + 1) mod n\<rparr>;
          f = bp_frames p ! idx
      in if fr_pins f > 0 then sweep k p1
         else if fr_usage f > 0 then sweep k (upd_frame idx (\<lambda>f. f\<lparr>fr_usage := fr_usage f - 1\<rparr>) p1)
         else case (fr_dirty f, fr_page f) of
           (True, Some old) \<Rightarrow>
             if fr_latched f then sweep k p1
             else (clear_victim idx (write_back old (fr_lsn f) (fr_content f) p1), Inr idx)
         | _ \<Rightarrow> (clear_victim idx p1, Inr idx))"

declare sweep.simps(2) [simp del]

definition find_victim :: "BufferPool \<Rightarrow> BufferPool \<times> (BufferError + nat)" where
  "find_victim p = sweep (4 * length (bp_frames p)) p"


section \<open>Fetching\<close>

definition seat :: "u64 \<Rightarrow> bytes \<Rightarrow> lsn \<Rightarrow> nat \<Rightarrow> BufferPool \<Rightarrow> BufferPool" where
  "seat page content page_lsn idx p =
     (upd_frame idx (\<lambda>f. f\<lparr>fr_content := content, fr_page := Some page, fr_pins := 1, fr_usage := 1,
        fr_dirty := False, fr_lsn := page_lsn\<rparr>) p)\<lparr>bp_table := (bp_table p)(page \<mapsto> idx)\<rparr>"

definition install_page :: "u64 \<Rightarrow> bool \<Rightarrow> BufferPool \<Rightarrow> BufferPool \<times> (BufferError + nat)" where
  "install_page page fresh p =
     (let (p1, res) = find_victim p
      in case res of
           Inl e \<Rightarrow> (p1, Inl e)
         | Inr idx \<Rightarrow>
             if fresh then (seat page (replicate PAGE_SIZE 0) 0 idx p1, Inr idx)
             else case read_page (bp_disk p1) page of
               Inl e \<Rightarrow> (p1, Inl (BufStorage e))
             | Inr content \<Rightarrow> (seat page content (hdr_page_lsn content) idx p1, Inr idx))"

definition pin_for_access :: "u64 \<Rightarrow> BufferPool \<Rightarrow> BufferPool \<times> (BufferError + nat)" where
  "pin_for_access page p =
     (case bp_table p page of
        Some idx \<Rightarrow>
          if fr_page (bp_frames p ! idx) = Some page
          then (upd_frame idx (\<lambda>f. f\<lparr>fr_pins := fr_pins f + 1, fr_usage := min (fr_usage f + 1) MAX_USAGE\<rparr>) p,
                Inr idx)
          else install_page page False p
      | None \<Rightarrow> install_page page False p)"

definition fetch_read :: "u64 \<Rightarrow> BufferPool \<Rightarrow> BufferPool \<times> (BufferError + nat)" where
  "fetch_read page p = pin_for_access page p"

definition latch :: "BufferPool \<times> (BufferError + nat) \<Rightarrow> BufferPool \<times> (BufferError + nat)" where
  "latch r = (case r of (p, Inr idx) \<Rightarrow> (upd_frame idx (\<lambda>f. f\<lparr>fr_latched := True\<rparr>) p, Inr idx)
                      | (p, Inl e) \<Rightarrow> (p, Inl e))"

definition fetch_write :: "u64 \<Rightarrow> BufferPool \<Rightarrow> BufferPool \<times> (BufferError + nat)" where
  "fetch_write page p = latch (pin_for_access page p)"

definition new_page :: "BufferPool \<Rightarrow> BufferPool \<times> (BufferError + u64 \<times> nat)" where
  "new_page p =
     (let (page, d) = allocate_page (bp_disk p);
          (p1, res) = latch (install_page page True (p\<lparr>bp_disk := d\<rparr>))
      in (p1, case res of Inl e \<Rightarrow> Inl e | Inr idx \<Rightarrow> Inr (page, idx)))"


section \<open>Guards\<close>

definition unpin :: "nat \<Rightarrow> BufferPool \<Rightarrow> BufferPool" where
  "unpin idx p = upd_frame idx (\<lambda>f. f\<lparr>fr_pins := fr_pins f - 1\<rparr>) p"

definition read_guard_drop :: "nat \<Rightarrow> BufferPool \<Rightarrow> BufferPool" where
  "read_guard_drop idx p = unpin idx p"

text \<open>Writing through the guard (\<open>DerefMut\<close>), and stamping the page LSN.\<close>

definition guard_modify :: "nat \<Rightarrow> (bytes \<Rightarrow> bytes) \<Rightarrow> BufferPool \<Rightarrow> BufferPool" where
  "guard_modify idx g p = upd_frame idx (\<lambda>f. f\<lparr>fr_content := g (fr_content f)\<rparr>) p"

definition guard_set_page_lsn :: "nat \<Rightarrow> lsn \<Rightarrow> BufferPool \<Rightarrow> BufferPool" where
  "guard_set_page_lsn idx l p =
     upd_frame idx (\<lambda>f. f\<lparr>fr_content := set_page_lsn (fr_content f) l, fr_lsn := max (fr_lsn f) l\<rparr>) p"

definition write_guard_drop :: "nat \<Rightarrow> u64 \<Rightarrow> BufferPool \<Rightarrow> BufferPool" where
  "write_guard_drop idx page p =
     (let p1 = upd_frame idx (\<lambda>f. f\<lparr>fr_dirty := True\<rparr>) p;
          p2 = p1\<lparr>bp_dirty := (if page \<in> set (bp_dirty p1) then bp_dirty p1 else page # bp_dirty p1)\<rparr>;
          p3 = upd_frame idx (\<lambda>f. f\<lparr>fr_latched := False\<rparr>) p2
      in unpin idx p3)"


section \<open>Flushing\<close>

text \<open>
  \<open>flush_matching\<close> for one candidate frame, in its two moments: it reads the frame's state and
  then, holding no pin and no lock in between, its content.
\<close>

definition flush_peek :: "nat \<Rightarrow> BufferPool \<Rightarrow> u64 option \<times> lsn \<times> bool" where
  "flush_peek idx p = (let f = bp_frames p ! idx in (fr_page f, fr_lsn f, fr_dirty f))"

definition flush_frame :: "(lsn \<Rightarrow> bool) \<Rightarrow> nat \<Rightarrow> u64 option \<times> lsn \<times> bool \<Rightarrow> BufferPool \<Rightarrow> BufferPool" where
  "flush_frame pred idx peeked p =
     (case peeked of
        (None, _, _) \<Rightarrow> p
      | (Some page, page_lsn, dirty) \<Rightarrow>
          if \<not> dirty \<or> \<not> pred page_lsn then p
          else if fr_latched (bp_frames p ! idx) then p
          else
            let p1 = write_back page page_lsn (fr_content (bp_frames p ! idx)) p;
                f = bp_frames p1 ! idx
            in if fr_page f = Some page \<and> fr_lsn f = page_lsn \<and> fr_dirty f
               then (upd_frame idx (\<lambda>f. f\<lparr>fr_dirty := False\<rparr>) p1)
                 \<lparr>bp_dirty := removeAll page (bp_dirty p1)\<rparr>
               else p1)"

definition flush_matching :: "(lsn \<Rightarrow> bool) \<Rightarrow> BufferPool \<Rightarrow> BufferPool" where
  "flush_matching pred p =
     (let candidates = List.map_filter (bp_table p) (bp_dirty p)
      in fold (\<lambda>idx q. flush_frame pred idx (flush_peek idx q) q) candidates p)"

definition pool_flush_through :: "lsn \<Rightarrow> BufferPool \<Rightarrow> BufferPool" where
  "pool_flush_through up_to p = flush_matching (\<lambda>l. l \<le> up_to) p"

definition flush_all :: "BufferPool \<Rightarrow> BufferPool" where
  "flush_all p = (let p1 = flush_matching (\<lambda>_. True) p in p1\<lparr>bp_disk := disk_sync (bp_disk p1)\<rparr>)"


section \<open>Coherence\<close>

text \<open>What the pool shows of a page: its frame if it is cached, the disk otherwise.\<close>

definition pool_view :: "BufferPool \<Rightarrow> u64 \<Rightarrow> bytes option" where
  "pool_view p page = (case bp_table p page of
     Some i \<Rightarrow> Some (fr_content (bp_frames p ! i))
   | None \<Rightarrow> (case read_page (bp_disk p) page of Inr b \<Rightarrow> Some b | Inl _ \<Rightarrow> None))"

definition frame_ok :: "DiskManager \<Rightarrow> u64 list \<Rightarrow> Frame \<Rightarrow> bool" where
  "frame_ok d ds f \<longleftrightarrow> length (fr_content f) = 8192 \<and> fr_usage f \<le> MAX_USAGE \<and>
     (fr_latched f \<longrightarrow> fr_pins f > 0) \<and>
     (\<forall>page. fr_page f = Some page \<longrightarrow> (\<exists>b. read_page d page = Inr b) \<and>
        (\<not> fr_dirty f \<and> \<not> fr_latched f \<longrightarrow> read_page d page = Inr (fr_content f)) \<and>
        (fr_dirty f \<longrightarrow> page \<in> set ds))"

definition pool_inv :: "BufferPool \<Rightarrow> bool" where
  "pool_inv p \<longleftrightarrow> bp_hand p < length (bp_frames p) \<and>
     (\<forall>page i. bp_table p page = Some i \<longleftrightarrow> i < length (bp_frames p) \<and> fr_page (bp_frames p ! i) = Some page) \<and>
     (\<forall>i < length (bp_frames p). frame_ok (bp_disk p) (bp_dirty p) (bp_frames p ! i))"

lemma upd_frame_simps [simp]:
  "length (bp_frames (upd_frame i f p)) = length (bp_frames p)" "bp_table (upd_frame i f p) = bp_table p"
  "bp_dirty (upd_frame i f p) = bp_dirty p" "bp_hand (upd_frame i f p) = bp_hand p"
  "bp_disk (upd_frame i f p) = bp_disk p" "bp_wal (upd_frame i f p) = bp_wal p"
  by (simp_all add: upd_frame_def)

lemma upd_frame_nth [simp]:
  "i < length (bp_frames p) \<Longrightarrow>
   bp_frames (upd_frame i f p) ! j = (if j = i then f (bp_frames p ! i) else bp_frames p ! j)"
  by (simp add: upd_frame_def)

lemma write_back_simps [simp]:
  "bp_frames (write_back a l c p) = bp_frames p" "bp_table (write_back a l c p) = bp_table p"
  "bp_dirty (write_back a l c p) = bp_dirty p" "bp_hand (write_back a l c p) = bp_hand p"
  "bp_disk (write_back a l c p) = write_page a c (bp_disk p)"
  "bp_wal (write_back a l c p) = flush_through l (bp_wal p)"
  by (simp_all add: write_back_def)

lemma pool_inv_unique:
  "pool_inv p \<Longrightarrow> i < length (bp_frames p) \<Longrightarrow> j < length (bp_frames p) \<Longrightarrow>
   fr_page (bp_frames p ! i) = Some page \<Longrightarrow> fr_page (bp_frames p ! j) = Some page \<Longrightarrow> i = j"
  unfolding pool_inv_def by (metis option.inject)

lemma pool_inv_frame: "pool_inv p \<Longrightarrow> i < length (bp_frames p) \<Longrightarrow> frame_ok (bp_disk p) (bp_dirty p) (bp_frames p ! i)"
  by (simp add: pool_inv_def)

lemma pool_inv_table:
  "pool_inv p \<Longrightarrow> bp_table p page = Some i \<longleftrightarrow> i < length (bp_frames p) \<and> fr_page (bp_frames p ! i) = Some page"
  by (simp add: pool_inv_def)

text \<open>Changes of one frame that keep its page.\<close>

lemma pool_inv_upd:
  assumes "pool_inv p" and "i < length (bp_frames p)" and "fr_page (g (bp_frames p ! i)) = fr_page (bp_frames p ! i)"
    and "frame_ok (bp_disk p) (bp_dirty p) (g (bp_frames p ! i))"
  shows "pool_inv (upd_frame i g p)"
  using assms by (auto simp: pool_inv_def)

lemma pool_view_upd:
  assumes "pool_inv p" and "i < length (bp_frames p)" and "fr_content (g (bp_frames p ! i)) = fr_content (bp_frames p ! i)"
  shows "pool_view (upd_frame i g p) = pool_view p"
  using assms by (auto simp: pool_view_def fun_eq_iff split: option.splits)

lemma pool_inv_hand: "pool_inv p \<Longrightarrow> h < length (bp_frames p) \<Longrightarrow> pool_inv (p\<lparr>bp_hand := h\<rparr>)"
  by (simp add: pool_inv_def)

lemma pool_view_hand [simp]:
  "pool_view (p\<lparr>bp_hand := h\<rparr>) = pool_view p" "pool_view (p\<lparr>bp_dirty := ds\<rparr>) = pool_view p"
  by (simp_all add: pool_view_def fun_eq_iff split: option.splits)

text \<open>Writing back the content of the frame that caches a page.\<close>

lemma write_back_inv:
  assumes inv: "pool_inv p" and i: "i < length (bp_frames p)" "fr_page (bp_frames p ! i) = Some page"
    and p'_def: "p' = write_back page l (fr_content (bp_frames p ! i)) p"
  shows "pool_inv p'" and "pool_view p' = pool_view p" and "read_page (bp_disk p') page = Inr (fr_content (bp_frames p ! i))"
proof -
  let ?c = "fr_content (bp_frames p ! i)"
  obtain b where b: "read_page (bp_disk p) page = Inr b" "length ?c = 8192"
    using pool_inv_frame [OF inv i(1)] i(2) by (auto simp: frame_ok_def)
  have rd: "read_page (bp_disk p') q = (if q = page then Inr ?c else read_page (bp_disk p) q)" for q
    using write_existing_page [OF b] by (simp add: p'_def)
  have "frame_ok (bp_disk p') (bp_dirty p) (bp_frames p ! j)" if j: "j < length (bp_frames p)" for j
  proof (cases "fr_page (bp_frames p ! j) = Some page")
    case True
    then have "j = i" using pool_inv_unique [OF inv j i(1)] i(2) by blast
    then show ?thesis using pool_inv_frame [OF inv j] True by (auto simp: frame_ok_def rd)
  next
    case False
    then show ?thesis using pool_inv_frame [OF inv j] by (auto simp: frame_ok_def rd)
  qed
  then show "pool_inv p'" using inv by (simp add: pool_inv_def p'_def)
  have "bp_table p page = Some i" using pool_inv_table [OF inv] i by blast
  then show "pool_view p' = pool_view p"
    using rd by (auto simp: pool_view_def fun_eq_iff p'_def split: option.splits)
  show "read_page (bp_disk p') page = Inr ?c" using rd by simp
qed

text \<open>Clearing a frame whose content is on disk.\<close>

lemma clear_victim_inv:
  assumes inv: "pool_inv p" and i: "i < length (bp_frames p)" and free: "fr_pins (bp_frames p ! i) = 0"
    and clean: "\<And>page. fr_page (bp_frames p ! i) = Some page \<Longrightarrow> read_page (bp_disk p) page = Inr (fr_content (bp_frames p ! i))"
  shows "pool_inv (clear_victim i p)" and "pool_view (clear_victim i p) = pool_view p"
    and "bp_frames (clear_victim i p) = (bp_frames p)[i := (bp_frames p ! i)\<lparr>fr_page := None, fr_dirty := False, fr_usage := 0, fr_lsn := 0\<rparr>]"
    and "bp_disk (clear_victim i p) = bp_disk p" and "bp_wal (clear_victim i p) = bp_wal p"
proof -
  let ?g = "\<lambda>f. f\<lparr>fr_page := None, fr_dirty := False, fr_usage := 0, fr_lsn := 0\<rparr>"
  let ?p = "clear_victim i p"
  show fr: "bp_frames ?p = (bp_frames p)[i := ?g (bp_frames p ! i)]"
    and disk: "bp_disk ?p = bp_disk p" and "bp_wal ?p = bp_wal p"
    by (simp_all add: clear_victim_def Let_def upd_frame_def split: option.splits)
  have hand: "bp_hand ?p = bp_hand p"
    by (simp add: clear_victim_def Let_def split: option.splits)
  have tab: "bp_table ?p q = (if fr_page (bp_frames p ! i) = Some q then None else bp_table p q)" for q
    by (auto simp: clear_victim_def Let_def split: option.splits)
  have dirty: "q \<in> set (bp_dirty ?p) \<longleftrightarrow> q \<in> set (bp_dirty p) \<and> fr_page (bp_frames p ! i) \<noteq> Some q" for q
    by (auto simp: clear_victim_def Let_def split: option.splits)
  have other: "fr_page (bp_frames p ! i) \<noteq> Some q" if "j \<noteq> i" "j < length (bp_frames p)" "fr_page (bp_frames p ! j) = Some q" for j q
    using pool_inv_unique [OF inv i that(2)] that by blast
  have "frame_ok (bp_disk p) (bp_dirty ?p) (bp_frames ?p ! j)" if j: "j < length (bp_frames p)" for j
    using pool_inv_frame [OF inv j] pool_inv_frame [OF inv i] i j dirty other [OF _ j] free
    by (cases "j = i") (auto simp: frame_ok_def fr)
  moreover have "bp_table ?p q = Some j \<longleftrightarrow> j < length (bp_frames ?p) \<and> fr_page (bp_frames ?p ! j) = Some q" for q j
    using pool_inv_table [OF inv, of q j] i other [of j q] by (cases "j = i") (auto simp: tab fr)
  ultimately show "pool_inv ?p" using inv by (simp add: pool_inv_def hand disk fr)
  show "pool_view ?p = pool_view p"
  proof
    fix q
    show "pool_view ?p q = pool_view p q"
    proof (cases "fr_page (bp_frames p ! i) = Some q")
      case True
      then have "bp_table p q = Some i" using pool_inv_table [OF inv] i by blast
      then show ?thesis using True clean [OF True] by (simp add: pool_view_def tab disk)
    next
      case False
      then have "bp_table p q \<noteq> Some i" using pool_inv_table [OF inv] by blast
      then show ?thesis using False by (auto simp: pool_view_def tab disk fr split: option.splits)
    qed
  qed
qed

definition victim_ok :: "BufferPool \<Rightarrow> BufferPool \<Rightarrow> nat \<Rightarrow> bool" where
  "victim_ok p p' i \<longleftrightarrow> i < length (bp_frames p) \<and> fr_page (bp_frames p' ! i) = None \<and>
     fr_pins (bp_frames p' ! i) = 0 \<and> \<not> fr_latched (bp_frames p' ! i)"

text \<open>One visit of the clock hand.\<close>

lemma sweep_Suc:
  assumes "idx = bp_hand p" and "p1 = p\<lparr>bp_hand := (idx + 1) mod length (bp_frames p)\<rparr>"
    and "f = bp_frames p ! idx"
  shows "sweep (Suc k) p =
     (if fr_pins f > 0 then sweep k p1
      else if fr_usage f > 0 then sweep k (upd_frame idx (\<lambda>f. f\<lparr>fr_usage := fr_usage f - 1\<rparr>) p1)
      else case (fr_dirty f, fr_page f) of
        (True, Some old) \<Rightarrow> if fr_latched f then sweep k p1
          else (clear_victim idx (write_back old (fr_lsn f) (fr_content f) p1), Inr idx)
      | _ \<Rightarrow> (clear_victim idx p1, Inr idx))"
  by (simp only: assms sweep.simps Let_def)

lemma frame_cases:
  obtains (Pinned) "fr_pins f > 0" | (Used) "fr_pins f = 0" "fr_usage f > 0"
    | (Dirty) old where "fr_pins f = 0" "fr_usage f = 0" "fr_dirty f" "fr_page f = Some old"
    | (Clean) "fr_pins f = 0" "fr_usage f = 0" "\<not> fr_dirty f \<or> fr_page f = None"
  by (cases "fr_page f") auto

text \<open>The sweep keeps what the pool shows and every pinned frame.\<close>

lemma sweep_spec:
  assumes "pool_inv p" and "sweep k p = (p', res)"
  shows "pool_inv p' \<and> pool_view p' = pool_view p \<and> length (bp_frames p') = length (bp_frames p) \<and>
    (\<forall>j < length (bp_frames p). (fr_pins (bp_frames p ! j) > 0 \<longrightarrow> bp_frames p' ! j = bp_frames p ! j) \<and>
      (\<forall>q. fr_page (bp_frames p' ! j) = Some q \<longrightarrow> fr_page (bp_frames p ! j) = Some q)) \<and>
    (case res of Inl e \<Rightarrow> e = Exhausted (length (bp_frames p)) | Inr i \<Rightarrow> victim_ok p p' i)"
  using assms
proof (induction k arbitrary: p)
  case (Suc k)
  note inv = Suc.prems(1)
  define idx where "idx = bp_hand p"
  define p1 where "p1 = p\<lparr>bp_hand := (idx + 1) mod length (bp_frames p)\<rparr>"
  let ?f = "bp_frames p ! idx"
  have i: "idx < length (bp_frames p)" using inv by (simp add: pool_inv_def idx_def)
  have inv1: "pool_inv p1" unfolding p1_def by (rule pool_inv_hand [OF inv], rule mod_less_divisor) (use i in linarith)
  have f1: "bp_frames p1 = bp_frames p" "pool_view p1 = pool_view p" "bp_disk p1 = bp_disk p" by (simp_all add: p1_def)
  have ok: "frame_ok (bp_disk p) (bp_dirty p) ?f" by (rule pool_inv_frame [OF inv i])
  note step = sweep_Suc [OF idx_def p1_def refl, of k]
  show ?case
  proof (cases rule: frame_cases [of ?f])
    case Pinned
    then show ?thesis
      using Suc.IH [OF inv1] Suc.prems(2) step f1 by (simp add: victim_ok_def split: sum.splits)
  next
    case Used
    let ?p = "upd_frame idx (\<lambda>f. f\<lparr>fr_usage := fr_usage f - 1\<rparr>) p1"
    have "pool_inv ?p" using ok i f1 Used by (intro pool_inv_upd [OF inv1]) (auto simp: frame_ok_def p1_def)
    moreover have "pool_view ?p = pool_view p" using pool_view_upd [OF inv1] i f1 by simp
    moreover have "fr_pins (bp_frames p ! j) > 0 \<Longrightarrow> bp_frames ?p ! j = bp_frames p ! j"
        "fr_page (bp_frames ?p ! j) = fr_page (bp_frames p ! j)" for j
      using Used i f1(1) by auto
    moreover have "length (bp_frames ?p) = length (bp_frames p)" using f1(1) by simp
    moreover have "sweep k ?p = (p', res)" using Suc.prems(2) step Used by simp
    ultimately show ?thesis
      using Suc.IH [of ?p] by (simp add: victim_ok_def split: sum.splits)
  next
    case (Dirty old)
    have nl: "\<not> fr_latched ?f" using ok Dirty by (auto simp: frame_ok_def)
    let ?w = "write_back old (fr_lsn ?f) (fr_content ?f) p1"
    have wb: "pool_inv ?w" "pool_view ?w = pool_view p1" "read_page (bp_disk ?w) old = Inr (fr_content ?f)"
      using write_back_inv [OF inv1, of idx old ?w "fr_lsn ?f"] i Dirty f1 by simp_all
    have cv: "pool_inv (clear_victim idx ?w)" "pool_view (clear_victim idx ?w) = pool_view ?w"
      "bp_frames (clear_victim idx ?w) = (bp_frames ?w)[idx := (bp_frames ?w ! idx)\<lparr>fr_page := None, fr_dirty := False, fr_usage := 0, fr_lsn := 0\<rparr>]"
      using clear_victim_inv [OF wb(1), of idx] i Dirty f1 wb(3) by simp_all
    show ?thesis using Suc.prems(2) step Dirty nl cv wb f1 i by (auto simp: victim_ok_def nth_list_update)
  next
    case Clean
    have nl: "\<not> fr_latched ?f" using ok Clean by (auto simp: frame_ok_def)
    have cv: "pool_inv (clear_victim idx p1)" "pool_view (clear_victim idx p1) = pool_view p1"
      "bp_frames (clear_victim idx p1) = (bp_frames p1)[idx := (bp_frames p1 ! idx)\<lparr>fr_page := None, fr_dirty := False, fr_usage := 0, fr_lsn := 0\<rparr>]"
      using clear_victim_inv [OF inv1, of idx] i Clean f1 ok nl by (auto simp: frame_ok_def)
    have "sweep (Suc k) p = (clear_victim idx p1, Inr idx)"
      using step Clean by (auto split: option.splits bool.splits)
    then show ?thesis using Suc.prems(2) nl cv Clean f1 i by (auto simp: victim_ok_def nth_list_update)
  qed
qed auto

lemma find_victim_spec:
  assumes "pool_inv p" and "find_victim p = (p', res)"
  shows "pool_inv p'" and "pool_view p' = pool_view p" and "length (bp_frames p') = length (bp_frames p)"
    and "j < length (bp_frames p) \<Longrightarrow> fr_pins (bp_frames p ! j) > 0 \<Longrightarrow> bp_frames p' ! j = bp_frames p ! j"
    and "bp_table p page = None \<Longrightarrow> bp_table p' page = None"
    and "res = Inr i \<Longrightarrow> victim_ok p p' i" and "res = Inl e \<Longrightarrow> e = Exhausted (length (bp_frames p))"
proof -
  note sp = sweep_spec [OF assms(1) assms(2) [unfolded find_victim_def]]
  show inv': "pool_inv p'" and "pool_view p' = pool_view p"
    and len: "length (bp_frames p') = length (bp_frames p)" using sp by blast+
  show "j < length (bp_frames p) \<Longrightarrow> fr_pins (bp_frames p ! j) > 0 \<Longrightarrow> bp_frames p' ! j = bp_frames p ! j"
    using sp by blast
  show "res = Inr i \<Longrightarrow> victim_ok p p' i" "res = Inl e \<Longrightarrow> e = Exhausted (length (bp_frames p))"
    using sp by simp_all
  show "bp_table p' page = None" if "bp_table p page = None"
  proof (rule ccontr)
    assume "bp_table p' page \<noteq> None"
    then obtain j where "bp_table p' page = Some j" by blast
    then have "bp_table p page = Some j"
      using sp pool_inv_table [OF inv'] pool_inv_table [OF assms(1)] len by metis
    then show False using that by simp
  qed
qed

text \<open>Seating a page in a cleared frame.\<close>

lemma seat_inv:
  assumes inv: "pool_inv p" and i: "i < length (bp_frames p)" "fr_page (bp_frames p ! i) = None"
    and new: "bp_table p page = None"
    and f: "frame_ok (bp_disk p) (bp_dirty p) (g (bp_frames p ! i))" "fr_page (g (bp_frames p ! i)) = Some page"
    and p': "p' = (upd_frame i g p)\<lparr>bp_table := (bp_table p)(page \<mapsto> i)\<rparr>"
  shows "pool_inv p'" and "pool_view p' = (pool_view p)(page \<mapsto> fr_content (g (bp_frames p ! i)))"
proof -
  have fr: "bp_frames p' ! j = (if j = i then g (bp_frames p ! i) else bp_frames p ! j)" for j
    using i(1) by (simp add: p')
  have free: "fr_page (bp_frames p ! j) \<noteq> Some page" if "j < length (bp_frames p)" for j
    using that pool_inv_table [OF inv, of page j] new by auto
  have "bp_table p' q = Some j \<longleftrightarrow> j < length (bp_frames p') \<and> fr_page (bp_frames p' ! j) = Some q" for q j
    using pool_inv_table [OF inv, of q j] pool_inv_table [OF inv, of q i] free i f(2)
    by (cases "j = i") (auto simp: fr p')
  moreover have "frame_ok (bp_disk p') (bp_dirty p') (bp_frames p' ! j)" if "j < length (bp_frames p)" for j
    using pool_inv_frame [OF inv that] f(1) by (simp add: fr) (simp add: p')
  ultimately show "pool_inv p'" using inv by (simp add: pool_inv_def) (simp add: p')
  have "bp_table p q \<noteq> Some i" for q using pool_inv_table [OF inv, of q i] i by simp
  then show "pool_view p' = (pool_view p)(page \<mapsto> fr_content (g (bp_frames p ! i)))"
    by (auto simp: pool_view_def fun_eq_iff fr split: option.splits) (simp_all add: p')
qed

lemma install_page_spec:
  assumes inv: "pool_inv p" and new: "bp_table p page = None" and "install_page page False p = (p', res)"
  shows "pool_inv p'" and "pool_view p' = pool_view p" and "length (bp_frames p') = length (bp_frames p)"
    and "res = Inr i \<Longrightarrow> i < length (bp_frames p) \<and> fr_page (bp_frames p' ! i) = Some page \<and>
      fr_pins (bp_frames p' ! i) > 0 \<and> \<not> fr_latched (bp_frames p' ! i)"
    and "res = Inl e \<Longrightarrow> e = Exhausted (length (bp_frames p)) \<or> pool_view p page = None"
proof -
  obtain p1 r1 where v: "find_victim p = (p1, r1)" by fastforce
  note sp = find_victim_spec [OF inv v]
  have "pool_inv p' \<and> pool_view p' = pool_view p \<and> length (bp_frames p') = length (bp_frames p) \<and>
    (\<forall>i. res = Inr i \<longrightarrow> i < length (bp_frames p) \<and> fr_page (bp_frames p' ! i) = Some page \<and>
      fr_pins (bp_frames p' ! i) > 0 \<and> \<not> fr_latched (bp_frames p' ! i)) \<and>
    (\<forall>e. res = Inl e \<longrightarrow> e = Exhausted (length (bp_frames p)) \<or> pool_view p page = None)"
  proof (cases r1)
    case (Inl e)
    then show ?thesis using assms(3) sp v by (auto simp: install_page_def)
  next
    case (Inr i)
    have vi: "i < length (bp_frames p)" "fr_page (bp_frames p1 ! i) = None" "\<not> fr_latched (bp_frames p1 ! i)"
      using sp(6) [OF Inr] by (simp_all add: victim_ok_def)
    have view: "pool_view p page = (case read_page (bp_disk p1) page of Inr b \<Rightarrow> Some b | Inl _ \<Rightarrow> None)"
      using sp(2) sp(5) [OF new] by (metis (no_types, lifting) option.case(1) pool_view_def)
    show ?thesis
    proof (cases "read_page (bp_disk p1) page")
      case (Inl e)
      then show ?thesis using assms(3) sp v Inr view by (auto simp: install_page_def)
    next
      case rd: (Inr c)
      let ?g = "\<lambda>f. f\<lparr>fr_content := c, fr_page := Some page, fr_pins := 1, fr_usage := 1,
        fr_dirty := False, fr_lsn := hdr_page_lsn c\<rparr>"
      have p': "p' = (upd_frame i ?g p1)\<lparr>bp_table := (bp_table p1)(page \<mapsto> i)\<rparr>" and res: "res = Inr i"
        using assms(3) v Inr rd by (simp_all add: install_page_def seat_def)
      have ok: "frame_ok (bp_disk p1) (bp_dirty p1) (?g (bp_frames p1 ! i))"
        using rd dk.rd_length [OF rd] by (simp add: frame_ok_def)
      note st = seat_inv [OF sp(1) _ vi(2) sp(5) [OF new] ok _ p']
      have "pool_inv p'" "pool_view p' = (pool_view p1)(page \<mapsto> c)" using st vi(1) sp(3) by simp_all
      moreover have "(pool_view p1)(page \<mapsto> c) = pool_view p" using view rd sp(2) by (simp add: fun_upd_idem)
      ultimately show ?thesis using vi sp(3) res by (auto simp: p')
    qed
  qed
  note all = this
  show "pool_inv p'" "pool_view p' = pool_view p" "length (bp_frames p') = length (bp_frames p)"
    using all by simp_all
  show "i < length (bp_frames p) \<and> fr_page (bp_frames p' ! i) = Some page \<and>
      fr_pins (bp_frames p' ! i) > 0 \<and> \<not> fr_latched (bp_frames p' ! i)" if "res = Inr i"
    using all that by simp
  show "e = Exhausted (length (bp_frames p)) \<or> pool_view p page = None" if "res = Inl e"
    using all that by simp
qed

section \<open>Fetching, writing and flushing keep what the pool shows\<close>

definition handle :: "BufferPool \<Rightarrow> nat \<Rightarrow> u64 \<Rightarrow> bool" where
  "handle p i page \<longleftrightarrow> i < length (bp_frames p) \<and> fr_page (bp_frames p ! i) = Some page \<and> fr_pins (bp_frames p ! i) > 0"

lemma handle_view: "pool_inv p \<Longrightarrow> handle p i page \<Longrightarrow> pool_view p page = Some (fr_content (bp_frames p ! i))"
  using pool_inv_table [of p page i] by (simp add: handle_def pool_view_def)

lemma pin_spec:
  assumes inv: "pool_inv p" and "pin_for_access page p = (p', res)"
  shows "pool_inv p'" and "pool_view p' = pool_view p" and "length (bp_frames p') = length (bp_frames p)"
    and "res = Inr i \<Longrightarrow> handle p' i page \<and> (fr_latched (bp_frames p' ! i) \<longrightarrow> fr_pins (bp_frames p' ! i) > 1)"
    and "res = Inl e \<Longrightarrow> e = Exhausted (length (bp_frames p)) \<or> pool_view p page = None"
proof -
  have "pool_inv p' \<and> pool_view p' = pool_view p \<and> length (bp_frames p') = length (bp_frames p) \<and>
    (\<forall>i. res = Inr i \<longrightarrow> handle p' i page \<and> (fr_latched (bp_frames p' ! i) \<longrightarrow> fr_pins (bp_frames p' ! i) > 1)) \<and>
    (\<forall>e. res = Inl e \<longrightarrow> e = Exhausted (length (bp_frames p)) \<or> pool_view p page = None)"
  proof (cases "bp_table p page")
    case None
    then have ip: "install_page page False p = (p', res)" using assms(2) by (simp add: pin_for_access_def)
    show ?thesis using install_page_spec [OF inv None ip] by (auto simp: handle_def)
  next
    case (Some k)
    let ?g = "\<lambda>f. f\<lparr>fr_pins := fr_pins f + 1, fr_usage := min (fr_usage f + 1) MAX_USAGE\<rparr>"
    have k: "k < length (bp_frames p)" "fr_page (bp_frames p ! k) = Some page"
      using pool_inv_table [OF inv] Some by blast+
    then have p': "p' = upd_frame k ?g p" and res: "res = Inr k"
      using assms(2) Some by (simp_all add: pin_for_access_def)
    have "frame_ok (bp_disk p) (bp_dirty p) (?g (bp_frames p ! k))"
      using pool_inv_frame [OF inv k(1)] by (simp add: frame_ok_def)
    then have "pool_inv p'" unfolding p' by (intro pool_inv_upd [OF inv k(1)]) simp_all
    moreover have "pool_view p' = pool_view p" unfolding p' by (rule pool_view_upd [OF inv k(1)]) simp
    moreover have "fr_latched (bp_frames p ! k) \<longrightarrow> fr_pins (bp_frames p ! k) > 0"
      using pool_inv_frame [OF inv k(1)] by (simp add: frame_ok_def)
    ultimately show ?thesis using k res by (simp add: p' handle_def)
  qed
  note all = this
  show "pool_inv p'" "pool_view p' = pool_view p" "length (bp_frames p') = length (bp_frames p)"
    using all by simp_all
  show "handle p' i page \<and> (fr_latched (bp_frames p' ! i) \<longrightarrow> fr_pins (bp_frames p' ! i) > 1)" if "res = Inr i"
    using all that by simp
  show "e = Exhausted (length (bp_frames p)) \<or> pool_view p page = None" if "res = Inl e"
    using all that by simp
qed

lemma latch_spec:
  assumes inv: "pool_inv p" and h: "handle p i page"
  shows "pool_inv (upd_frame i (\<lambda>f. f\<lparr>fr_latched := True\<rparr>) p)"
    and "pool_view (upd_frame i (\<lambda>f. f\<lparr>fr_latched := True\<rparr>) p) = pool_view p"
  using assms pool_inv_frame [OF inv, of i]
  by (auto simp: handle_def frame_ok_def intro!: pool_inv_upd pool_view_upd)

lemma fetch_write_spec:
  assumes inv: "pool_inv p" and "fetch_write page p = (p', res)"
  shows "pool_inv p'" and "pool_view p' = pool_view p"
    and "res = Inr i \<Longrightarrow> handle p' i page \<and> fr_latched (bp_frames p' ! i)"
    and "res = Inl e \<Longrightarrow> e = Exhausted (length (bp_frames p)) \<or> pool_view p page = None"
proof -
  obtain p1 r1 where pin: "pin_for_access page p = (p1, r1)" by fastforce
  note ps = pin_spec [OF inv pin]
  have "pool_inv p' \<and> pool_view p' = pool_view p \<and>
    (\<forall>i. res = Inr i \<longrightarrow> handle p' i page \<and> fr_latched (bp_frames p' ! i)) \<and>
    (\<forall>e. res = Inl e \<longrightarrow> e = Exhausted (length (bp_frames p)) \<or> pool_view p page = None)"
  proof (cases r1)
    case (Inl e)
    then show ?thesis using assms(2) pin ps by (auto simp: fetch_write_def latch_def)
  next
    case (Inr k)
    have h: "handle p1 k page" using ps(4) Inr by simp
    then show ?thesis using assms(2) pin ps(2) Inr latch_spec [OF ps(1) h] by (auto simp: fetch_write_def latch_def handle_def)
  qed
  note all = this
  show "pool_inv p'" "pool_view p' = pool_view p" using all by simp_all
  show "handle p' i page \<and> fr_latched (bp_frames p' ! i)" if "res = Inr i" using all that by simp
  show "e = Exhausted (length (bp_frames p)) \<or> pool_view p page = None" if "res = Inl e" using all that by simp
qed

text \<open>Through a write guard, the page changes and no other.\<close>

lemma latched_upd_spec:
  assumes inv: "pool_inv p" and h: "handle p i page" and l: "fr_latched (bp_frames p ! i)"
    and len: "\<And>b. length b = 8192 \<Longrightarrow> length (g b) = 8192"
    and p': "p' = upd_frame i (\<lambda>f. f\<lparr>fr_content := g (fr_content f), fr_lsn := m (fr_lsn f)\<rparr>) p"
  shows "pool_inv p'" and "pool_view p' = (pool_view p)(page \<mapsto> g (fr_content (bp_frames p ! i)))"
    and "handle p' i page" and "fr_latched (bp_frames p' ! i)"
proof -
  have i: "i < length (bp_frames p)" "fr_page (bp_frames p ! i) = Some page" using h by (simp_all add: handle_def)
  have ok: "frame_ok (bp_disk p) (bp_dirty p) (bp_frames p ! i)" by (rule pool_inv_frame [OF inv i(1)])
  show "pool_inv p'" unfolding p'
    by (rule pool_inv_upd [OF inv i(1)]) (use ok l len in \<open>auto simp: frame_ok_def\<close>)
  have t: "bp_table p page = Some i" using pool_inv_table [OF inv] i by blast
  have "pool_view p' q = ((pool_view p)(page \<mapsto> g (fr_content (bp_frames p ! i)))) q" for q
  proof (cases "q = page")
    case False
    then have "bp_table p q \<noteq> Some i" using pool_inv_table [OF inv, of q i] i by auto
    then show ?thesis using False i by (cases "bp_table p q") (simp_all add: pool_view_def p')
  qed (use t i in \<open>simp add: pool_view_def p'\<close>)
  then show "pool_view p' = (pool_view p)(page \<mapsto> g (fr_content (bp_frames p ! i)))" by blast
  show "handle p' i page" "fr_latched (bp_frames p' ! i)" using h l by (simp_all add: p' handle_def)
qed

lemmas guard_modify_spec = latched_upd_spec [where m = "\<lambda>x. x"]

lemma write_guard_drop_spec:
  assumes inv: "pool_inv p" and h: "handle p i page" and l: "fr_latched (bp_frames p ! i)"
  shows "pool_inv (write_guard_drop i page p)" and "pool_view (write_guard_drop i page p) = pool_view p"
proof -
  let ?ds = "if page \<in> set (bp_dirty p) then bp_dirty p else page # bp_dirty p"
  let ?g = "\<lambda>f. f\<lparr>fr_dirty := True, fr_latched := False, fr_pins := fr_pins f - 1\<rparr>"
  have i: "i < length (bp_frames p)" "fr_page (bp_frames p ! i) = Some page" using h by (simp_all add: handle_def)
  have eq: "write_guard_drop i page p = (upd_frame i ?g p)\<lparr>bp_dirty := ?ds\<rparr>"
    using i(1) by (simp add: write_guard_drop_def unpin_def upd_frame_def Let_def)
  have "frame_ok (bp_disk p) ?ds (bp_frames (upd_frame i ?g p) ! j)" if "j < length (bp_frames p)" for j
    using pool_inv_frame [OF inv that] i by (cases "j = i") (auto simp: frame_ok_def)
  then show "pool_inv (write_guard_drop i page p)"
    using inv i unfolding eq by (auto simp: pool_inv_def)
  show "pool_view (write_guard_drop i page p) = pool_view p"
    using i pool_view_upd [OF inv i(1), of ?g] unfolding eq by simp
qed

text \<open>Flushing one frame without interference.\<close>

lemma flush_frame_eq:
  "i < length (bp_frames p) \<Longrightarrow> flush_frame pred i (flush_peek i p) p =
     (let f = bp_frames p ! i in case fr_page f of None \<Rightarrow> p
      | Some page \<Rightarrow> if fr_dirty f \<and> pred (fr_lsn f) \<and> \<not> fr_latched f
          then (upd_frame i (\<lambda>f. f\<lparr>fr_dirty := False\<rparr>) (write_back page (fr_lsn f) (fr_content f) p))
            \<lparr>bp_dirty := removeAll page (bp_dirty p)\<rparr>
          else p)"
  by (simp add: flush_frame_def flush_peek_def Let_def split: option.splits)

definition flushed :: "(lsn \<Rightarrow> bool) \<Rightarrow> nat set \<Rightarrow> BufferPool \<Rightarrow> BufferPool \<Rightarrow> bool" where
  "flushed pred cs p p' \<longleftrightarrow> pool_inv p' \<and> pool_view p' = pool_view p \<and> bp_table p' = bp_table p \<and>
     length (bp_frames p') = length (bp_frames p) \<and>
     (\<forall>j < length (bp_frames p). let f = bp_frames p ! j; f' = bp_frames p' ! j in
        f' = f\<lparr>fr_dirty := fr_dirty f'\<rparr> \<and> (fr_dirty f' \<longrightarrow> fr_dirty f) \<and>
        (j \<in> cs \<and> fr_page f \<noteq> None \<and> pred (fr_lsn f) \<and> \<not> fr_latched f \<longrightarrow> \<not> fr_dirty f'))"

lemma flushed_refl: "pool_inv p \<Longrightarrow> flushed pred {} p p"
  by (simp add: flushed_def)

lemma flushed_trans:
  assumes "flushed pred cs p p1" and "flushed pred ds p1 p2"
  shows "flushed pred (cs \<union> ds) p p2"
proof -
  note a = assms [unfolded flushed_def Let_def]
  have "bp_frames p2 ! j = (bp_frames p ! j)\<lparr>fr_dirty := fr_dirty (bp_frames p2 ! j)\<rparr>"
    and "fr_dirty (bp_frames p2 ! j) \<Longrightarrow> fr_dirty (bp_frames p ! j)"
    and "j \<in> cs \<union> ds \<Longrightarrow> fr_page (bp_frames p ! j) \<noteq> None \<Longrightarrow> pred (fr_lsn (bp_frames p ! j)) \<Longrightarrow>
      \<not> fr_latched (bp_frames p ! j) \<Longrightarrow> \<not> fr_dirty (bp_frames p2 ! j)"
    if j: "j < length (bp_frames p)" for j
  proof -
    define f f1 f2 where "f = bp_frames p ! j" and "f1 = bp_frames p1 ! j" and "f2 = bp_frames p2 ! j"
    have e1: "f1 = f\<lparr>fr_dirty := fr_dirty f1\<rparr>" "fr_dirty f1 \<longrightarrow> fr_dirty f"
      "j \<in> cs \<and> fr_page f \<noteq> None \<and> pred (fr_lsn f) \<and> \<not> fr_latched f \<longrightarrow> \<not> fr_dirty f1"
      and e2: "f2 = f1\<lparr>fr_dirty := fr_dirty f2\<rparr>" "fr_dirty f2 \<longrightarrow> fr_dirty f1"
      "j \<in> ds \<and> fr_page f1 \<noteq> None \<and> pred (fr_lsn f1) \<and> \<not> fr_latched f1 \<longrightarrow> \<not> fr_dirty f2"
      using a j by (auto simp: f_def f1_def f2_def)
    obtain d1 where f1: "f1 = f\<lparr>fr_dirty := d1\<rparr>" using e1(1) by blast
    obtain d2 where f2: "f2 = f\<lparr>fr_dirty := d2\<rparr>" using e2(1) f1 by (metis Frame.update_convs(5) Frame.surjective)
    show "f2 = f\<lparr>fr_dirty := fr_dirty f2\<rparr>" "fr_dirty f2 \<Longrightarrow> fr_dirty f"
      "j \<in> cs \<union> ds \<Longrightarrow> fr_page f \<noteq> None \<Longrightarrow> pred (fr_lsn f) \<Longrightarrow> \<not> fr_latched f \<Longrightarrow> \<not> fr_dirty f2"
      using e1 e2 by (auto simp: f1 f2)
  qed
  then show ?thesis using a unfolding flushed_def Let_def by auto
qed

lemma flush_frame_spec:
  assumes inv: "pool_inv p" and i: "i < length (bp_frames p)"
  shows "flushed pred {i} p (flush_frame pred i (flush_peek i p) p)"
proof -
  define f where "f = bp_frames p ! i"
  show ?thesis
  proof (cases "\<exists>page. fr_page f = Some page \<and> fr_dirty f \<and> pred (fr_lsn f) \<and> \<not> fr_latched f")
    case True
    then obtain page where f: "fr_page f = Some page" "fr_dirty f" "pred (fr_lsn f)" "\<not> fr_latched f" by blast
    let ?w = "write_back page (fr_lsn f) (fr_content f) p"
    let ?p = "(upd_frame i (\<lambda>f. f\<lparr>fr_dirty := False\<rparr>) ?w)\<lparr>bp_dirty := removeAll page (bp_dirty p)\<rparr>"
    note wb = write_back_inv [OF inv i f(1) [unfolded f_def] refl, of "fr_lsn f", folded f_def]
    have eq: "flush_frame pred i (flush_peek i p) p = ?p"
      using f by (simp add: flush_frame_eq [OF i] Let_def f_def)
    have fr: "bp_frames ?p ! j = (if j = i then f\<lparr>fr_dirty := False\<rparr> else bp_frames p ! j)" for j
      using i by (simp add: f_def)
    have "frame_ok (bp_disk ?p) (bp_dirty ?p) (bp_frames ?p ! j)" if j: "j < length (bp_frames p)" for j
    proof (cases "j = i")
      case True
      then show ?thesis using pool_inv_frame [OF wb(1), of i] i f wb(3) by (simp add: f_def frame_ok_def)
    next
      case False
      then have "fr_page (bp_frames p ! j) \<noteq> Some page" using pool_inv_unique [OF inv j i] f(1) by (auto simp: f_def)
      then show ?thesis using pool_inv_frame [OF wb(1), of j] j i False by (auto simp: frame_ok_def)
    qed
    moreover have "bp_table ?p q = Some j \<longleftrightarrow> j < length (bp_frames ?p) \<and> fr_page (bp_frames ?p ! j) = Some q" for q j
      using pool_inv_table [OF inv, of q j] i by (cases "j = i") auto
    ultimately have "pool_inv ?p" using inv by (simp add: pool_inv_def)
    moreover have "pool_view ?p = pool_view p"
      using pool_view_upd [OF wb(1), of i] i wb(2) by simp
    ultimately show ?thesis unfolding eq flushed_def Let_def fr using f by (auto simp: f_def)
  next
    case False
    then have "flush_frame pred i (flush_peek i p) p = p"
      by (auto simp: flush_frame_eq [OF i] Let_def f_def split: option.splits)
    then show ?thesis using False inv by (auto simp: flushed_def Let_def f_def)
  qed
qed

lemma flush_fold:
  assumes "pool_inv p" and "\<forall>i \<in> set cs. i < length (bp_frames p)"
  shows "flushed pred (set cs) p (fold (\<lambda>i q. flush_frame pred i (flush_peek i q) q) cs p)"
  using assms
proof (induction cs arbitrary: p)
  case (Cons i cs)
  let ?p = "flush_frame pred i (flush_peek i p) p"
  have s: "flushed pred {i} p ?p" using flush_frame_spec [OF Cons.prems(1)] Cons.prems(2) by simp
  then have "pool_inv ?p" "length (bp_frames ?p) = length (bp_frames p)" by (simp_all add: flushed_def)
  then show ?case using flushed_trans [OF s Cons.IH [of ?p]] Cons.prems(2) by simp
qed (simp add: flushed_refl)

lemma flush_candidates: "set (List.map_filter t ds) = {i. \<exists>page \<in> set ds. t page = Some i}"
  by (auto simp: map_filter_def intro: rev_image_eqI)

lemma flush_candidates_bound:
  "pool_inv p \<Longrightarrow> \<forall>i \<in> set (List.map_filter (bp_table p) (bp_dirty p)). i < length (bp_frames p)"
  using pool_inv_table [of p] by (auto simp: flush_candidates)

lemma flush_matching_spec:
  assumes inv: "pool_inv p"
  shows "flushed pred UNIV p (flush_matching pred p)"
proof -
  let ?cs = "List.map_filter (bp_table p) (bp_dirty p)"
  note cs = flush_candidates [of "bp_table p" "bp_dirty p"]
  have "\<forall>i \<in> set ?cs. i < length (bp_frames p)" by (rule flush_candidates_bound [OF inv])
  then have fl: "flushed pred (set ?cs) p (flush_matching pred p)"
    unfolding flush_matching_def Let_def by (rule flush_fold [OF inv])
  have "j \<in> set ?cs" if "j < length (bp_frames p)" "fr_page (bp_frames p ! j) \<noteq> None" "fr_dirty (bp_frames p ! j)" for j
    using that pool_inv_frame [OF inv that(1)] pool_inv_table [OF inv] cs by (auto simp: frame_ok_def)
  then show ?thesis using fl by (fastforce simp: flushed_def Let_def)
qed

lemma flush_all_keeps:
  assumes inv: "pool_inv p"
  shows "pool_inv (flush_all p)" and "pool_view (flush_all p) = pool_view p"
    and "flushed (\<lambda>_. True) UNIV p (flush_all p)"
proof -
  define p1 where "p1 = flush_matching (\<lambda>_. True) p"
  have fl: "flushed (\<lambda>_. True) UNIV p p1" unfolding p1_def by (rule flush_matching_spec [OF inv])
  let ?p = "p1\<lparr>bp_disk := disk_sync (bp_disk p1)\<rparr>"
  have p': "flush_all p = ?p" by (simp add: flush_all_def p1_def Let_def)
  have rd: "read_page (disk_sync (bp_disk p1)) q = read_page (bp_disk p1) q" for q
    by (simp add: disk_sync_def read_page_def)
  have "frame_ok (disk_sync (bp_disk p1)) ds f \<longleftrightarrow> frame_ok (bp_disk p1) ds f" for ds f
    by (simp add: frame_ok_def rd)
  moreover have "pool_inv p1" using fl by (simp add: flushed_def)
  ultimately have "pool_inv ?p" by (simp add: pool_inv_def)
  moreover have "pool_view ?p = pool_view p1" by (simp add: pool_view_def fun_eq_iff rd split: option.splits)
  ultimately have "flushed (\<lambda>_. True) UNIV p ?p" using fl by (simp add: flushed_def)
  then show "flushed (\<lambda>_. True) UNIV p (flush_all p)" unfolding p' .
  then show "pool_inv (flush_all p)" and "pool_view (flush_all p) = pool_view p" by (simp_all add: flushed_def)
qed

lemma flush_all_on_disk:
  assumes inv: "pool_inv p" and free: "\<forall>f \<in> set (bp_frames p). \<not> fr_latched f" and p': "p' = flush_all p"
  shows "pool_view p page = Some c \<longleftrightarrow> read_page (bp_disk p') page = Inr c"
proof -
  have fl: "flushed (\<lambda>_. True) UNIV p p'" unfolding p' by (rule flush_all_keeps(3) [OF inv])
  then have inv': "pool_inv p'" and view: "pool_view p' = pool_view p" by (simp_all add: flushed_def)
  show ?thesis
  proof (cases "bp_table p' page")
    case None
    then have "pool_view p page = (case read_page (bp_disk p') page of Inr b \<Rightarrow> Some b | Inl _ \<Rightarrow> None)"
      unfolding view [symmetric] by (simp add: pool_view_def)
    then show ?thesis by (simp split: sum.splits)
  next
    case (Some i)
    then have i: "i < length (bp_frames p')" "fr_page (bp_frames p' ! i) = Some page" using pool_inv_table [OF inv'] by blast+
    define f f' where "f = bp_frames p ! i" and "f' = bp_frames p' ! i"
    have len: "i < length (bp_frames p)" using fl i(1) by (simp add: flushed_def)
    have "f' = f\<lparr>fr_dirty := fr_dirty f'\<rparr>" "fr_page f \<noteq> None \<and> \<not> fr_latched f \<longrightarrow> \<not> fr_dirty f'"
      using fl len by (auto simp: flushed_def Let_def f_def f'_def)
    moreover have "\<not> fr_latched f" using free len by (simp add: f_def)
    moreover obtain d where "f' = f\<lparr>fr_dirty := d\<rparr>" using calculation(1) by blast
    ultimately have "\<not> fr_dirty f'" "\<not> fr_latched f'" using i(2) by (auto simp: f'_def [symmetric])
    then have "read_page (bp_disk p') page = Inr (fr_content f')"
      using pool_inv_frame [OF inv' i(1)] i(2) by (simp add: frame_ok_def f'_def)
    moreover have "pool_view p page = Some (fr_content f')"
      unfolding view [symmetric] using Some by (simp add: pool_view_def f'_def)
    ultimately show ?thesis by auto
  qed
qed


section \<open>The pool simulates a map of pages\<close>

text \<open>
  How the layers above use the pool: they fetch a page, use the guard and drop it.
  \<open>PWrite page g l\<close> changes the content by \<open>g\<close> and stamps the LSN \<open>l\<close>.
\<close>

datatype pool_op = PRead u64 | PWrite u64 "bytes \<Rightarrow> bytes" lsn | PNew "bytes \<Rightarrow> bytes" lsn | PFlush lsn | PFlushAll

datatype pool_res = PFailed BufferError | PData bytes | PPage u64 | PDone

definition guard_write :: "nat \<Rightarrow> u64 \<Rightarrow> (bytes \<Rightarrow> bytes) \<Rightarrow> lsn \<Rightarrow> BufferPool \<Rightarrow> BufferPool" where
  "guard_write i page g l p = write_guard_drop i page (guard_set_page_lsn i l (guard_modify i g p))"

fun pool_exec :: "pool_op \<Rightarrow> BufferPool \<Rightarrow> BufferPool \<times> pool_res" where
  "pool_exec (PRead page) p = (case fetch_read page p of
     (p1, Inl e) \<Rightarrow> (p1, PFailed e)
   | (p1, Inr i) \<Rightarrow> (read_guard_drop i p1, PData (fr_content (bp_frames p1 ! i))))"
| "pool_exec (PWrite page g l) p = (case fetch_write page p of
     (p1, Inl e) \<Rightarrow> (p1, PFailed e)
   | (p1, Inr i) \<Rightarrow> (guard_write i page g l p1, PDone))"
| "pool_exec (PNew g l) p = (case new_page p of
     (p1, Inl e) \<Rightarrow> (p1, PFailed e)
   | (p1, Inr (page, i)) \<Rightarrow> (guard_write i page g l p1, PPage page))"
| "pool_exec (PFlush l) p = (pool_flush_through l p, PDone)"
| "pool_exec PFlushAll p = (flush_all p, PDone)"

type_synonym pages = "u64 \<Rightarrow> bytes option"

text \<open>The abstract page store.  Extending the heap file may make further pages readable.\<close>

definition pages_kept :: "pages \<Rightarrow> pages \<Rightarrow> bool" where
  "pages_kept m m' \<longleftrightarrow> (\<forall>q c. m q = Some c \<longrightarrow> m' q = Some c)"

fun page_spec :: "pool_op \<Rightarrow> pool_res \<Rightarrow> pages \<Rightarrow> pages \<Rightarrow> bool" where
  "page_spec (PRead q) (PData c) m m' \<longleftrightarrow> m q = Some c \<and> m' = m"
| "page_spec (PWrite q g l) PDone m m' \<longleftrightarrow> (\<exists>c. m q = Some c \<and> m' = m(q \<mapsto> set_page_lsn (g c) l))"
| "page_spec (PNew g l) (PPage q) m m' \<longleftrightarrow>
     (\<exists>m1. pages_kept m m1 \<and> m' = m1(q \<mapsto> set_page_lsn (g (replicate PAGE_SIZE 0)) l))"
| "page_spec (PFlush l) PDone m m' \<longleftrightarrow> m' = m"
| "page_spec PFlushAll PDone m m' \<longleftrightarrow> m' = m"
| "page_spec (PRead q) (PFailed e) m m' \<longleftrightarrow> m' = m \<and> (m q = None \<or> (\<exists>n. e = Exhausted n))"
| "page_spec (PWrite q g l) (PFailed e) m m' \<longleftrightarrow> m' = m \<and> (m q = None \<or> (\<exists>n. e = Exhausted n))"
| "page_spec (PNew g l) (PFailed e) m m' \<longleftrightarrow> pages_kept m m' \<and> (\<exists>n. e = Exhausted n)"
| "page_spec _ _ _ _ \<longleftrightarrow> False"

definition keeps_size :: "(bytes \<Rightarrow> bytes) \<Rightarrow> bool" where
  "keeps_size g \<longleftrightarrow> (\<forall>b. length b = PAGE_SIZE \<longrightarrow> length (g b) = PAGE_SIZE)"

text \<open>The pages a client may name are the allocated ones.\<close>

fun pool_op_ok :: "pool_op \<Rightarrow> BufferPool \<Rightarrow> bool" where
  "pool_op_ok (PRead q) p \<longleftrightarrow> unat q < page_count (bp_disk p)"
| "pool_op_ok (PWrite q g l) p \<longleftrightarrow> unat q < page_count (bp_disk p) \<and> keeps_size g"
| "pool_op_ok (PNew g l) p \<longleftrightarrow> page_count (bp_disk p) < 2 ^ 64 \<and> keeps_size g"
| "pool_op_ok _ p \<longleftrightarrow> True"

definition alloc_ok :: "BufferPool \<Rightarrow> bool" where
  "alloc_ok p \<longleftrightarrow> (\<forall>page. bp_table p page \<noteq> None \<longrightarrow> unat page < page_count (bp_disk p))"

definition no_latch :: "BufferPool \<Rightarrow> bool" where
  "no_latch p \<longleftrightarrow> (\<forall>f \<in> set (bp_frames p). \<not> fr_latched f)"

text \<open>Frame properties that the sweep, and so every operation, keeps.\<close>

lemma clear_victim_disk [simp]: "bp_disk (clear_victim i p) = bp_disk p" "bp_wal (clear_victim i p) = bp_wal p"
  by (simp_all add: clear_victim_def Let_def split: option.splits)

lemma write_page_next [simp]: "dk_next_page_id (write_page q b d) = dk_next_page_id d"
  by (simp add: write_page_def)

text \<open>What every step of the sweep keeps, the sweep keeps.\<close>

lemma sweep_keeps:
  assumes hand: "\<And>p h. P p \<Longrightarrow> P (p\<lparr>bp_hand := h\<rparr>)"
    and used: "\<And>p i. P p \<Longrightarrow> i < length (bp_frames p) \<Longrightarrow> P (upd_frame i (\<lambda>f. f\<lparr>fr_usage := fr_usage f - 1\<rparr>) p)"
    and wb: "\<And>p i page. pool_inv p \<Longrightarrow> P p \<Longrightarrow> i < length (bp_frames p) \<Longrightarrow> fr_page (bp_frames p ! i) = Some page \<Longrightarrow>
      P (write_back page (fr_lsn (bp_frames p ! i)) (fr_content (bp_frames p ! i)) p)"
    and clear: "\<And>p i. P p \<Longrightarrow> i < length (bp_frames p) \<Longrightarrow> P (clear_victim i p)"
  shows "pool_inv p \<Longrightarrow> P p \<Longrightarrow> sweep k p = (p', res) \<Longrightarrow> P p'"
proof (induction k arbitrary: p)
  case (Suc k)
  define idx where "idx = bp_hand p"
  define p1 where "p1 = p\<lparr>bp_hand := (idx + 1) mod length (bp_frames p)\<rparr>"
  let ?f = "bp_frames p ! idx" and ?u = "\<lambda>f. f\<lparr>fr_usage := fr_usage f - 1\<rparr>"
  note step = sweep_Suc [OF idx_def p1_def refl, of k]
  have i: "idx < length (bp_frames p)" using Suc.prems(1) by (simp add: pool_inv_def idx_def)
  have inv1: "pool_inv p1" unfolding p1_def by (rule pool_inv_hand [OF Suc.prems(1)], rule mod_less_divisor) (use i in linarith)
  have P1: "P p1" unfolding p1_def by (rule hand [OF Suc.prems(2)])
  have f1: "bp_frames p1 = bp_frames p" by (simp add: p1_def)
  show ?case
  proof (cases rule: frame_cases [of ?f])
    case Pinned
    then show ?thesis using Suc.IH [OF inv1 P1] Suc.prems(3) step by simp
  next
    case Used
    have "pool_inv (upd_frame idx ?u p1)"
      using pool_inv_frame [OF inv1, of idx] i f1 by (intro pool_inv_upd [OF inv1]) (auto simp: frame_ok_def)
    then show ?thesis using Suc.IH [OF _ used [OF P1]] i f1 Suc.prems(3) step Used by simp
  next
    case (Dirty old)
    then show ?thesis
      using Suc.IH [OF inv1 P1] clear [OF wb [OF inv1 P1, of idx old], of idx] i f1 Suc.prems(3) step by (auto split: if_splits)
  next
    case Clean
    then have "sweep (Suc k) p = (clear_victim idx p1, Inr idx)"
      using step by (cases "fr_dirty ?f"; cases "fr_page ?f") simp_all
    then show ?thesis using Suc.prems(3) clear [OF P1, of idx] i f1 by auto
  qed
qed auto

lemma find_victim_keeps_count:
  assumes "pool_inv p" and "find_victim p = (p', res)"
  shows "page_count (bp_disk p') = page_count (bp_disk p)"
proof (rule sweep_keeps [where P = "\<lambda>q. page_count (bp_disk q) = page_count (bp_disk p)", OF _ _ _ _ assms(1) refl])
qed (use assms(2) in \<open>auto simp: find_victim_def page_count_def\<close>)

lemma upd_frame_table: "upd_frame i g (p\<lparr>bp_table := t\<rparr>) = (upd_frame i g p)\<lparr>bp_table := t\<rparr>"
  by (simp add: upd_frame_def)

lemma upd_frame_twice: "i < length (bp_frames p) \<Longrightarrow> upd_frame i g (upd_frame i h p) = upd_frame i (\<lambda>f. g (h f)) p"
  by (simp add: upd_frame_def)

lemma new_page_readable:
  assumes "allocate_page d = (page, d')" and "page_count d < 2 ^ 64"
  shows "\<exists>b. read_page d' page = Inr b" and "unat page = page_count d" and "page_count d' = page_count d + 1"
proof -
  let ?n = "dk_next_page_id d"
  have "page = word_of_nat ?n" using assms(1) by (auto simp: allocate_page_def Let_def split: if_splits)
  then show u: "unat page = page_count d" using assms(2) by (simp add: page_count_def unat_of_nat take_bit_eq_mod)
  show "page_count d' = page_count d + 1"
    using assms(1) by (auto simp: allocate_page_def Let_def page_count_def split: if_splits)
  have "(?n + 1) * 8192 \<le> length (dk_file d')"
  proof (cases "?n + 1 > length (dk_file d) div 8192")
    case True
    define t where "t = (?n + 64) div 64 * 64"
    have t: "?n + 1 \<le> t" using div_mult_mod_eq [of "?n + 64" 64] mod_less_divisor [of 64 "?n + 64"] unfolding t_def by linarith
    have "dk_file d' = set_len (t * 8192) (dk_file d)"
      using assms(1) True by (auto simp: allocate_page_def Let_def t_def add.commute)
    then show ?thesis using t by (simp add: set_len_def)
  next
    case False
    then have "dk_file d' = dk_file d" "(?n + 1) * 8192 \<le> length (dk_file d)"
      using assms(1) by (auto simp: allocate_page_def Let_def less_eq_div_iff_mult_less_eq)
    then show ?thesis by simp
  qed
  then show "\<exists>b. read_page d' page = Inr b" using u by (simp add: read_page_Inr byte_offset_def page_count_def)
qed

lemma pool_inv_allocate:
  assumes inv: "pool_inv p" and al: "allocate_page (bp_disk p) = (page, d)"
  shows "pool_inv (p\<lparr>bp_disk := d\<rparr>)" and "pages_kept (pool_view p) (pool_view (p\<lparr>bp_disk := d\<rparr>))"
proof -
  have "frame_ok d (bp_dirty p) f" if "frame_ok (bp_disk p) (bp_dirty p) f" for f
    using that allocate_page_reads [OF _ al] by (auto simp: frame_ok_def)
  then show "pool_inv (p\<lparr>bp_disk := d\<rparr>)" using inv by (auto simp: pool_inv_def)
  show "pages_kept (pool_view p) (pool_view (p\<lparr>bp_disk := d\<rparr>))"
    using allocate_page_reads [OF _ al] by (auto simp: pages_kept_def pool_view_def split: option.splits sum.splits)
qed

lemma new_page_spec:
  assumes inv: "pool_inv p" and al: "alloc_ok p" and cnt: "page_count (bp_disk p) < 2 ^ 64" and "new_page p = (p', res)"
  shows "case res of Inl e \<Rightarrow> pool_inv p' \<and> pages_kept (pool_view p) (pool_view p') \<and> (\<exists>n. e = Exhausted n)
    | Inr (page, i) \<Rightarrow> pool_inv p' \<and> handle p' i page \<and> fr_latched (bp_frames p' ! i) \<and>
        fr_content (bp_frames p' ! i) = replicate PAGE_SIZE 0 \<and>
        (\<exists>m. pages_kept (pool_view p) m \<and> pool_view p' = m(page \<mapsto> replicate PAGE_SIZE 0))"
proof -
  obtain page d where a: "allocate_page (bp_disk p) = (page, d)" by fastforce
  obtain p1 r1 where v: "find_victim (p\<lparr>bp_disk := d\<rparr>) = (p1, r1)" by fastforce
  note pd = pool_inv_allocate [OF inv a] and np = new_page_readable [OF a cnt]
  note sp = find_victim_spec [OF pd(1) v]
  show ?thesis
  proof (cases r1)
    case (Inl e)
    then have "p' = p1" "res = Inl e" using assms(4) a v by (simp_all add: new_page_def install_page_def latch_def)
    then show ?thesis using Inl sp pd by simp
  next
    case (Inr i)
    have vi: "i < length (bp_frames p1)" "fr_page (bp_frames p1 ! i) = None" "\<not> fr_latched (bp_frames p1 ! i)"
      using sp(3) sp(6) [OF Inr] by (simp_all add: victim_ok_def)
    have "bp_table p page = None" using al np(2) by (force simp: alloc_ok_def)
    then have tab: "bp_table p1 page = None" using sp(5) by simp
    obtain b where "read_page d page = Inr b" using np(1) by blast
    then have "pool_view (p\<lparr>bp_disk := d\<rparr>) page = Some b" using \<open>bp_table p page = None\<close> by (simp add: pool_view_def)
    then have "pool_view p1 page = Some b" by (simp only: sp(2))
    then have rd: "\<exists>b. read_page (bp_disk p1) page = Inr b"
      
      using tab by (simp add: pool_view_def split: sum.splits)
    let ?g = "\<lambda>f. f\<lparr>fr_content := replicate PAGE_SIZE 0, fr_page := Some page, fr_pins := 1, fr_usage := 1,
        fr_dirty := False, fr_lsn := 0, fr_latched := True\<rparr>"
    have p': "p' = (upd_frame i ?g p1)\<lparr>bp_table := (bp_table p1)(page \<mapsto> i)\<rparr>" and res: "res = Inr (page, i)"
      using assms(4) a v Inr vi(1) by (simp_all add: new_page_def install_page_def latch_def seat_def upd_frame_table upd_frame_twice)
    have ok: "frame_ok (bp_disk p1) (bp_dirty p1) (?g (bp_frames p1 ! i))" using rd by (simp add: frame_ok_def)
    note st = seat_inv [OF sp(1) vi(1,2) tab ok _ p']
    have fr: "bp_frames p' ! i = ?g (bp_frames p1 ! i)" "length (bp_frames p') = length (bp_frames p1)"
      using vi(1) by (simp_all add: p')
    have "handle p' i page" "fr_latched (bp_frames p' ! i)" "fr_content (bp_frames p' ! i) = replicate PAGE_SIZE 0"
      using vi(1) by (simp_all add: fr handle_def)
    moreover have "pool_inv p'" "pool_view p' = (pool_view p1)(page \<mapsto> replicate PAGE_SIZE 0)" using st by simp_all
    moreover have "pages_kept (pool_view p) (pool_view p1)" using pd(2) by (simp only: sp(2))
    ultimately show ?thesis unfolding res by auto
  qed
qed

text \<open>The page table only gains the page that is fetched.\<close>

lemma pin_table:
  assumes inv: "pool_inv p" and "pin_for_access page p = (p', res)"
  shows "bp_table p' q \<noteq> None \<Longrightarrow> q \<noteq> page \<Longrightarrow> bp_table p q \<noteq> None"
    and "page_count (bp_disk p') = page_count (bp_disk p)"
proof -
  obtain p1 r1 where v: "find_victim p = (p1, r1)" by fastforce
  note sp = find_victim_spec(5) [OF inv v] find_victim_keeps_count [OF inv v]
  show "page_count (bp_disk p') = page_count (bp_disk p)" using assms(2) sp(2) v
    by (auto simp: pin_for_access_def install_page_def seat_def split: option.splits if_splits sum.splits)
  show "bp_table p' q \<noteq> None \<Longrightarrow> q \<noteq> page \<Longrightarrow> bp_table p q \<noteq> None"
    using assms(2) sp(1) [of q] v
    by (cases "bp_table p q"; auto simp: pin_for_access_def install_page_def seat_def split: option.splits if_splits sum.splits)
qed

lemma upd_frame_more [simp]:
  "guard_modify i g p = upd_frame i (\<lambda>f. f\<lparr>fr_content := g (fr_content f)\<rparr>) p"
  "bp_table (guard_write i page g l p) = bp_table p" "bp_disk (guard_write i page g l p) = bp_disk p"
  "bp_wal (guard_write i page g l p) = bp_wal p"
  by (simp_all add: guard_modify_def guard_write_def write_guard_drop_def guard_set_page_lsn_def unpin_def Let_def)

lemma guard_write_spec:
  assumes inv: "pool_inv p" and h: "handle p i page" and l: "fr_latched (bp_frames p ! i)" and g: "keeps_size g"
  shows "pool_inv (guard_write i page g k p)"
    and "pool_view (guard_write i page g k p) = (pool_view p)(page \<mapsto> set_page_lsn (g (fr_content (bp_frames p ! i))) k)"
proof -
  let ?g = "\<lambda>b. set_page_lsn (g b) k"
  define p2 where "p2 = upd_frame i (\<lambda>f. f\<lparr>fr_content := ?g (fr_content f), fr_lsn := max (fr_lsn f) k\<rparr>) p"
  have i: "i < length (bp_frames p)" using h by (simp add: handle_def)
  have "length (?g b) = 8192" if "length b = 8192" for b using g that by (simp add: keeps_size_def set_page_lsn_frame)
  note sp = latched_upd_spec [OF inv h l this p2_def]
  have eq: "guard_write i page g k p = write_guard_drop i page p2"
    using i by (simp add: guard_write_def guard_set_page_lsn_def p2_def upd_frame_twice)
  show "pool_inv (guard_write i page g k p)"
    and "pool_view (guard_write i page g k p) = (pool_view p)(page \<mapsto> set_page_lsn (g (fr_content (bp_frames p ! i))) k)"
    unfolding eq using write_guard_drop_spec [OF sp(1,3,4)] sp(2) by simp_all
qed

lemma read_guard_drop_spec:
  assumes inv: "pool_inv p" and i: "i < length (bp_frames p)"
    and l: "fr_latched (bp_frames p ! i) \<longrightarrow> fr_pins (bp_frames p ! i) > 1"
  shows "pool_inv (read_guard_drop i p)" and "pool_view (read_guard_drop i p) = pool_view p"
  using pool_inv_frame [OF inv i] l i
  by (auto simp: read_guard_drop_def unpin_def frame_ok_def intro!: pool_inv_upd [OF inv i] pool_view_upd [OF inv i])

lemma pool_exec_spec:
  assumes inv: "pool_inv p" and al: "alloc_ok p" and ok: "pool_op_ok op p" and ex: "pool_exec op p = (p', res)"
  shows "pool_inv p' \<and> page_spec op res (pool_view p) (pool_view p')"
proof (cases op)
  case (PRead q)
  obtain p1 r1 where f: "pin_for_access q p = (p1, r1)" by fastforce
  note ps = pin_spec [OF inv f]
  show ?thesis
  proof (cases r1)
    case (Inr i)
    have h: "handle p1 i q" "fr_latched (bp_frames p1 ! i) \<longrightarrow> fr_pins (bp_frames p1 ! i) > 1" using ps(4) [OF Inr] by simp_all
    then show ?thesis
      using ex PRead f Inr ps(2) read_guard_drop_spec [OF ps(1) _ h(2)] handle_view [OF ps(1) h(1)]
      by (auto simp: fetch_read_def handle_def)
  qed (use ex PRead f ps in \<open>auto simp: fetch_read_def\<close>)
next
  case (PWrite q g l)
  obtain p1 r1 where f: "fetch_write q p = (p1, r1)" by fastforce
  note fs = fetch_write_spec [OF inv f]
  show ?thesis
  proof (cases r1)
    case (Inr i)
    have h: "handle p1 i q" "fr_latched (bp_frames p1 ! i)" using fs(3) [OF Inr] by simp_all
    have g: "keeps_size g" using ok PWrite by simp
    show ?thesis
      using ex PWrite f Inr fs(2) guard_write_spec [OF fs(1) h g] handle_view [OF fs(1) h(1)] by auto
  qed (use ex PWrite f fs in auto)
next
  case (PNew g l)
  obtain p1 r1 where f: "new_page p = (p1, r1)" by fastforce
  have cnt: "page_count (bp_disk p) < 2 ^ 64" and g: "keeps_size g" using ok PNew by simp_all
  note ns = new_page_spec [OF inv al cnt f]
  show ?thesis
  proof (cases r1)
    case (Inr pi)
    obtain q i where pi: "pi = (q, i)" by fastforce
    obtain m where n: "pool_inv p1" "handle p1 i q" "fr_latched (bp_frames p1 ! i)"
        "fr_content (bp_frames p1 ! i) = replicate PAGE_SIZE 0"
        "pages_kept (pool_view p) m" "pool_view p1 = m(q \<mapsto> replicate PAGE_SIZE 0)"
      using ns Inr pi by auto
    have p': "p' = guard_write i q g l p1" "res = PPage q" using ex PNew f Inr pi by simp_all
    show ?thesis
      using guard_write_spec [OF n(1-3) g] n(5) unfolding p' PNew page_spec.simps n(4,6) by auto
  qed (use ex PNew f ns in auto)
next
  case (PFlush l)
  then show ?thesis
    using ex flush_matching_spec [OF inv, of "\<lambda>x. x \<le> l"] by (auto simp: pool_flush_through_def flushed_def)
next
  case PFlushAll
  then show ?thesis using ex flush_all_keeps [OF inv] by auto
qed

section \<open>The log is flushed before the data\<close>

text \<open>
  Cached pages carry LSNs of the log, and no page on disk carries an LSN above the durable one.
  The heap file is a whole number of pages.
\<close>

definition frame_logged :: "Wal \<Rightarrow> Frame \<Rightarrow> bool" where
  "frame_logged w f \<longleftrightarrow> fr_page f = None \<or> hdr_page_lsn (fr_content f) \<le> fr_lsn f \<and> fr_lsn f \<le> wal_last_lsn w"

definition wal_rule :: "BufferPool \<Rightarrow> bool" where
  "wal_rule p \<longleftrightarrow> 8192 dvd length (dk_file (bp_disk p)) \<and> wal_durable_lsn (bp_wal p) \<le> wal_last_lsn (bp_wal p) \<and>
     (\<forall>i < length (bp_frames p). frame_logged (bp_wal p) (bp_frames p ! i)) \<and>
     (\<forall>q b. read_page (bp_disk p) q = Inr b \<longrightarrow> hdr_page_lsn b \<le> wal_durable_lsn (bp_wal p))"

lemma wal_rule_upd:
  assumes "wal_rule p" and "i < length (bp_frames p)" and "frame_logged (bp_wal p) (g (bp_frames p ! i))"
  shows "wal_rule (upd_frame i g p)"
  using assms by (simp add: wal_rule_def)

lemma wal_rule_fields:
  "wal_rule p \<Longrightarrow> wal_rule (p\<lparr>bp_hand := h\<rparr>)" "wal_rule p \<Longrightarrow> wal_rule (p\<lparr>bp_dirty := ds\<rparr>)"
  "wal_rule p \<Longrightarrow> wal_rule (p\<lparr>bp_table := t\<rparr>)"
  by (simp_all add: wal_rule_def)

lemma wal_rule_clear:
  assumes "wal_rule p" and "i < length (bp_frames p)"
  shows "wal_rule (clear_victim i p)"
  using assms by (auto simp: clear_victim_def Let_def frame_logged_def split: option.splits
      intro!: wal_rule_upd wal_rule_fields)

lemma wal_rule_write_back:
  assumes inv: "pool_inv p" and wr: "wal_rule p" and i: "i < length (bp_frames p)" "fr_page (bp_frames p ! i) = Some page"
    and p': "p' = write_back page (fr_lsn (bp_frames p ! i)) (fr_content (bp_frames p ! i)) p"
  shows "wal_rule p'"
proof -
  let ?f = "bp_frames p ! i"
  obtain b where b: "read_page (bp_disk p) page = Inr b" "length (fr_content ?f) = 8192"
    using pool_inv_frame [OF inv i(1)] i(2) by (auto simp: frame_ok_def)
  have f: "hdr_page_lsn (fr_content ?f) \<le> fr_lsn ?f" "fr_lsn ?f \<le> wal_last_lsn (bp_wal p)"
    using wr i by (auto simp: wal_rule_def frame_logged_def)
  have "hdr_page_lsn (fr_content ?f) \<le> wal_durable_lsn (bp_wal p')"
    using flush_through_upto [OF f(2)] f(1) by (simp add: p')
  moreover have "hdr_page_lsn c \<le> wal_durable_lsn (bp_wal p')" if "read_page (bp_disk p) q = Inr c" for q c
  proof -
    have "hdr_page_lsn c \<le> wal_durable_lsn (bp_wal p)" using wr that by (auto simp: wal_rule_def)
    also have "\<dots> \<le> wal_durable_lsn (bp_wal p')" by (simp add: p')
    finally show ?thesis .
  qed
  ultimately have "hdr_page_lsn c \<le> wal_durable_lsn (bp_wal p')" if "read_page (bp_disk p') q = Inr c" for q c
    using that write_existing_page [OF b, of q] by (auto simp: p' split: if_splits)
  moreover have "length (dk_file (bp_disk p')) = length (dk_file (bp_disk p))"
    using b by (simp add: p' write_page_def length_file_put read_page_Inr)
  ultimately show ?thesis
    using wr by (simp add: wal_rule_def) (simp add: p' frame_logged_def flush_through_le_last)
qed

lemma find_victim_rule:
  assumes "pool_inv p" and "wal_rule p" and "find_victim p = (p', res)"
  shows "wal_rule p'"
proof (rule sweep_keeps [where P = wal_rule, OF _ _ _ _ assms(1,2) assms(3) [unfolded find_victim_def]])
  fix p i assume "wal_rule p" "i < length (bp_frames p)"
  then show "wal_rule (upd_frame i (\<lambda>f. f\<lparr>fr_usage := fr_usage f - 1\<rparr>) p)"
    by (intro wal_rule_upd) (auto simp: wal_rule_def frame_logged_def)
qed (auto intro: wal_rule_fields wal_rule_clear wal_rule_write_back)

lemma seat_rule:
  assumes "wal_rule p" and "i < length (bp_frames p)" and "hdr_page_lsn c \<le> l" and "l \<le> wal_durable_lsn (bp_wal p)"
  shows "wal_rule (seat page c l i p)"
  unfolding seat_def using assms
  by (intro wal_rule_fields wal_rule_upd) (auto simp: frame_logged_def wal_rule_def)

lemma hdr_page_lsn_zeros: "hdr_page_lsn (replicate PAGE_SIZE 0) = 0"
  by (simp add: hdr_page_lsn_def rd_u64_def slice_def from_le_bytes_def le_nat_replicate_0 drop_replicate take_replicate)

lemma install_rule:
  assumes inv: "pool_inv p" and wr: "wal_rule p" and "install_page page fresh p = (p', res)"
  shows "wal_rule p'"
proof -
  obtain p1 r1 where v: "find_victim p = (p1, r1)" by fastforce
  note w1 = find_victim_rule [OF inv wr v] and sp = find_victim_spec [OF inv v]
  show ?thesis
  proof (cases r1)
    case (Inr i)
    have i: "i < length (bp_frames p1)" using sp(3) sp(6) [OF Inr] by (simp add: victim_ok_def)
    have z: "wal_rule (seat page (replicate PAGE_SIZE 0) 0 i p1)"
      by (rule seat_rule [OF w1 i]) (simp_all add: hdr_page_lsn_zeros [simplified])
    have "wal_rule (seat page c (hdr_page_lsn c) i p1)" if "read_page (bp_disk p1) page = Inr c" for c
      using w1 that by (intro seat_rule [OF w1 i]) (auto simp: wal_rule_def)
    then show ?thesis using assms(3) v Inr w1 z
      by (auto simp: install_page_def split: if_splits sum.splits)
  qed (use assms(3) v w1 in \<open>auto simp: install_page_def\<close>)
qed

lemma pin_rule:
  assumes inv: "pool_inv p" and wr: "wal_rule p" and "pin_for_access page p = (p', res)"
  shows "wal_rule p'"
proof -
  have "wal_rule (upd_frame i (\<lambda>f. f\<lparr>fr_pins := fr_pins f + 1, fr_usage := min (fr_usage f + 1) MAX_USAGE\<rparr>) p)"
    if "i < length (bp_frames p)" for i
    using wr that by (intro wal_rule_upd) (auto simp: wal_rule_def frame_logged_def)
  then show ?thesis
    using assms(3) install_rule [OF inv wr] pool_inv_table [OF inv]
    by (auto simp: pin_for_access_def split: option.splits if_splits)
qed

lemma latch_rule:
  assumes "wal_rule p" and "\<And>i. res = Inr i \<Longrightarrow> i < length (bp_frames p)" and "latch (p, res) = (p', res')"
  shows "wal_rule p'"
proof (cases res)
  case (Inr i)
  then have "p' = upd_frame i (\<lambda>f. f\<lparr>fr_latched := True\<rparr>) p" "i < length (bp_frames p)"
    using assms(2,3) by (simp_all add: latch_def)
  moreover from this have "frame_logged (bp_wal p) (bp_frames p ! i)" using assms(1) by (simp add: wal_rule_def)
  ultimately show ?thesis using wal_rule_upd [OF assms(1), of i] by (simp add: frame_logged_def)
qed (use assms in \<open>simp add: latch_def\<close>)

lemma guard_write_rule:
  assumes wr: "wal_rule p" and inv: "pool_inv p" and i: "i < length (bp_frames p)" and g: "keeps_size g"
    and l: "l \<le> wal_last_lsn (bp_wal p)"
  shows "wal_rule (guard_write i page g l p)"
proof -
  let ?h = "\<lambda>f. f\<lparr>fr_content := set_page_lsn (g (fr_content f)) l, fr_lsn := max (fr_lsn f) l, fr_dirty := True,
    fr_latched := False, fr_pins := fr_pins f - 1\<rparr>"
  let ?ds = "if page \<in> set (bp_dirty p) then bp_dirty p else page # bp_dirty p"
  have eq: "guard_write i page g l p = (upd_frame i ?h p)\<lparr>bp_dirty := ?ds\<rparr>"
    using i by (simp add: guard_write_def write_guard_drop_def guard_set_page_lsn_def unpin_def Let_def upd_frame_def)
  have "length (g (fr_content (bp_frames p ! i))) = 8192"
    using pool_inv_frame [OF inv i] g by (simp add: keeps_size_def frame_ok_def)
  then have "frame_logged (bp_wal p) (?h (bp_frames p ! i))"
    using wr i l by (auto simp: wal_rule_def frame_logged_def set_page_lsn_frame)
  then show ?thesis unfolding eq by (intro wal_rule_fields wal_rule_upd [OF wr i])
qed

text \<open>The pool touches the log by flushing it only.\<close>

definition log_flushes :: "Wal \<Rightarrow> Wal \<Rightarrow> bool" where
  "log_flushes w w' \<longleftrightarrow> (\<exists>ls. w' = fold flush_through ls w)"

lemma log_flushes_refl [simp]: "log_flushes w w"
  unfolding log_flushes_def by (rule exI [of _ "[]"]) simp

lemma log_flushes_step: "log_flushes w w' \<Longrightarrow> log_flushes w (flush_through l w')"
proof -
  assume "log_flushes w w'"
  then obtain ls where "w' = fold flush_through ls w" by (auto simp: log_flushes_def)
  then show ?thesis unfolding log_flushes_def by (intro exI [of _ "ls @ [l]"]) simp
qed

lemma log_flushes_reach: "log_flushes w w' \<Longrightarrow> wal_reach crc32 cfg w None h \<Longrightarrow> wal_reach crc32 cfg w' None h"
proof -
  have "wal_reach crc32 cfg w None h \<Longrightarrow> wal_reach crc32 cfg (fold flush_through ls w) None h" for ls
    by (induction ls arbitrary: w) (auto intro: flush_through_reach)
  then show "log_flushes w w' \<Longrightarrow> wal_reach crc32 cfg w None h \<Longrightarrow> ?thesis" by (auto simp: log_flushes_def)
qed

lemma log_flushes_last: "log_flushes w w' \<Longrightarrow> wal_last_lsn w' = wal_last_lsn w"
proof -
  have "wal_last_lsn (fold flush_through ls w) = wal_last_lsn w" for ls
    by (induction ls arbitrary: w) simp_all
  then show "log_flushes w w' \<Longrightarrow> ?thesis" by (auto simp: log_flushes_def)
qed

lemma find_victim_log:
  assumes "pool_inv p" and "find_victim p = (p', res)"
  shows "log_flushes (bp_wal p) (bp_wal p')"
proof (rule sweep_keeps [where P = "\<lambda>q. log_flushes (bp_wal p) (bp_wal q)", OF _ _ _ _ assms(1) _ assms(2) [unfolded find_victim_def]])
qed (simp_all add: log_flushes_step)

lemma install_log:
  assumes "pool_inv p" and "install_page page fresh p = (p', res)"
  shows "log_flushes (bp_wal p) (bp_wal p')"
proof -
  obtain p1 r1 where v: "find_victim p = (p1, r1)" by fastforce
  have "bp_wal p' = bp_wal p1"
    using assms(2) v by (auto simp: install_page_def seat_def split: sum.splits if_splits)
  then show ?thesis using find_victim_log [OF assms(1) v] by simp
qed

lemma pin_log:
  assumes "pool_inv p" and "pin_for_access page p = (p', res)"
  shows "log_flushes (bp_wal p) (bp_wal p')"
proof (cases "bp_table p page")
  case (Some i)
  then show ?thesis using assms(2) install_log [OF assms(1)]
    by (auto simp: pin_for_access_def split: if_splits)
qed (use assms install_log [OF assms(1)] in \<open>simp add: pin_for_access_def\<close>)

lemma latch_wal: "latch (p, res) = (p', res') \<Longrightarrow> bp_wal p' = bp_wal p \<and> bp_table p' = bp_table p \<and> bp_disk p' = bp_disk p"
  by (auto simp: latch_def split: sum.splits)

lemma flush_frame_rule:
  assumes "pool_inv p" and "wal_rule p" and i: "i < length (bp_frames p)" and p': "p' = flush_frame pred i (flush_peek i p) p"
  shows "wal_rule p'" and "log_flushes (bp_wal p) (bp_wal p')" and "page_count (bp_disk p') = page_count (bp_disk p)"
proof -
  define f where "f = bp_frames p ! i"
  show "log_flushes (bp_wal p) (bp_wal p')" "page_count (bp_disk p') = page_count (bp_disk p)"
    unfolding p' flush_frame_eq [OF i] Let_def
    by (auto simp: log_flushes_step page_count_def split: option.splits)
  show "wal_rule p'"
  proof (cases "fr_page f")
    case (Some page)
    let ?w = "write_back page (fr_lsn f) (fr_content f) p"
    have w: "wal_rule ?w" using wal_rule_write_back [OF assms(1,2) i] Some by (simp add: f_def)
    then have "frame_logged (bp_wal ?w) (bp_frames p ! i)" using i by (simp add: wal_rule_def)
    then have "wal_rule (upd_frame i (\<lambda>f. f\<lparr>fr_dirty := False\<rparr>) ?w)"
      using wal_rule_upd [OF w, of i] i by (simp add: frame_logged_def)
    then show ?thesis using Some assms(2) wal_rule_fields(2)
      unfolding p' flush_frame_eq [OF i] Let_def f_def [symmetric] by auto
  qed (use assms(2) in \<open>simp add: p' flush_frame_eq [OF i] Let_def f_def\<close>)
qed

lemma flush_fold_rule:
  assumes "pool_inv p" and "wal_rule p" and "\<forall>i \<in> set cs. i < length (bp_frames p)"
    and "p' = fold (\<lambda>i q. flush_frame pred i (flush_peek i q) q) cs p"
  shows "wal_rule p' \<and> log_flushes (bp_wal p) (bp_wal p') \<and> page_count (bp_disk p') = page_count (bp_disk p)"
  using assms
proof (induction cs arbitrary: p' rule: rev_induct)
  case (snoc i cs)
  define q where "q = fold (\<lambda>i q. flush_frame pred i (flush_peek i q) q) cs p"
  have q: "wal_rule q" "log_flushes (bp_wal p) (bp_wal q)" "page_count (bp_disk q) = page_count (bp_disk p)"
    using snoc.IH [OF snoc.prems(1,2) _ q_def] snoc.prems(3) by simp_all
  have inv: "pool_inv q" "length (bp_frames q) = length (bp_frames p)"
    using flush_fold [OF snoc.prems(1), of cs pred] snoc.prems(3) by (simp_all add: q_def flushed_def)
  have p': "p' = flush_frame pred i (flush_peek i q) q" using snoc.prems(4) by (simp add: q_def)
  have i: "i < length (bp_frames q)" using snoc.prems(3) inv(2) by simp
  note fr = flush_frame_rule [OF inv(1) q(1) i p']
  have "log_flushes (bp_wal p) (bp_wal p')"
    using q(2) log_flushes_step unfolding p' flush_frame_eq [OF i] Let_def by (auto split: option.splits)
  then show ?case using fr q(3) by simp
qed simp

lemma flush_matching_rule:
  assumes inv: "pool_inv p" and wr: "wal_rule p" and p': "p' = flush_matching pred p"
  shows "wal_rule p'" and "log_flushes (bp_wal p) (bp_wal p')" and "page_count (bp_disk p') = page_count (bp_disk p)"
  using flush_fold_rule [OF inv wr flush_candidates_bound [OF inv] p' [unfolded flush_matching_def Let_def]] by simp_all

lemma flush_all_rule:
  assumes inv: "pool_inv p" and wr: "wal_rule p" and p': "p' = flush_all p"
  shows "wal_rule p'" and "log_flushes (bp_wal p) (bp_wal p')" and "page_count (bp_disk p') = page_count (bp_disk p)"
  using flush_matching_rule [OF inv wr refl, of "\<lambda>_. True"]
  by (simp_all add: p' flush_all_def Let_def wal_rule_def disk_sync_def read_page_def page_count_def)

lemma allocate_rule:
  assumes wr: "wal_rule p" and al: "allocate_page (bp_disk p) = (page, d)"
  shows "wal_rule (p\<lparr>bp_disk := d\<rparr>)"
proof -
  let ?f = "dk_file (bp_disk p)"
  obtain k where k: "dk_file d = ?f @ replicate k 0" "8192 dvd k"
    using allocate_page_extends [OF _ al] wr by (auto simp: wal_rule_def)
  have "hdr_page_lsn b \<le> wal_durable_lsn (bp_wal p)" if rd: "read_page d q = Inr b" for q b
  proof (cases "byte_offset q + 8192 \<le> length ?f")
    case True
    then show ?thesis using wr rd by (auto simp: wal_rule_def read_page_Inr k(1) slice_append_left)
  next
    case False
    obtain m where m: "length ?f = 8192 * m" using wr by (auto simp: wal_rule_def)
    have "length ?f \<le> byte_offset q" using False unfolding m byte_offset_def by simp
    then have "b = replicate PAGE_SIZE 0" using rd by (auto simp: read_page_Inr k(1) slice_def)
    then show ?thesis by (simp add: hdr_page_lsn_zeros [simplified])
  qed
  then show ?thesis using wr k by (simp add: wal_rule_def dvd_add)
qed

text \<open>The LSNs a client stamps are those of records it has appended.\<close>

fun op_lsn :: "pool_op \<Rightarrow> lsn" where
  "op_lsn (PWrite q g l) = l" | "op_lsn (PNew g l) = l" | "op_lsn _ = 0"

lemma alloc_okI:
  assumes "alloc_ok p" and "\<And>q. bp_table p' q \<noteq> None \<Longrightarrow> q \<noteq> page \<Longrightarrow> bp_table p q \<noteq> None"
    and "page_count (bp_disk p) \<le> page_count (bp_disk p')" and "unat page < page_count (bp_disk p')"
  shows "alloc_ok p'"
  unfolding alloc_ok_def
proof (intro allI impI)
  fix q assume "bp_table p' q \<noteq> None"
  then have "q = page \<or> unat q < page_count (bp_disk p)" using assms(1) assms(2) [of q] unfolding alloc_ok_def by blast
  then show "unat q < page_count (bp_disk p')" using assms(3,4) by auto
qed

lemma pin_keeps:
  assumes "pool_inv p" "wal_rule p" "alloc_ok p" "unat q < page_count (bp_disk p)" "pin_for_access q p = (p', res)"
  shows "wal_rule p'" and "log_flushes (bp_wal p) (bp_wal p')" and "alloc_ok p'"
proof -
  show "wal_rule p'" by (rule pin_rule [OF assms(1,2,5)])
  show "log_flushes (bp_wal p) (bp_wal p')" by (rule pin_log [OF assms(1,5)])
  show "alloc_ok p'"
    using alloc_okI [OF assms(3) pin_table(1) [OF assms(1,5)]] pin_table(2) [OF assms(1,5)] assms(4) by simp
qed

lemma new_page_keeps:
  assumes inv: "pool_inv p" and wr: "wal_rule p" and al: "alloc_ok p" and cnt: "page_count (bp_disk p) < 2 ^ 64"
    and np: "new_page p = (p', res)"
  shows "wal_rule p'" and "log_flushes (bp_wal p) (bp_wal p')" and "alloc_ok p'"
proof -
  obtain page d where a: "allocate_page (bp_disk p) = (page, d)" by fastforce
  let ?p = "p\<lparr>bp_disk := d\<rparr>"
  obtain p1 r1 where ip: "install_page page True ?p = (p1, r1)" by fastforce
  obtain p2 r2 where v: "find_victim ?p = (p2, r2)" by fastforce
  note inv1 = pool_inv_allocate(1) [OF inv a] and nr = new_page_readable [OF a cnt]
  note sp = find_victim_spec [OF inv1 v]
  have lt: "latch (p1, r1) = (p', case res of Inl e \<Rightarrow> Inl e | Inr x \<Rightarrow> Inr (snd x))"
    using np a ip by (cases r1) (auto simp: new_page_def latch_def)
  have bound: "i < length (bp_frames p1)" if "r1 = Inr i" for i
    using ip v that sp(3) sp(6) [of i] by (auto simp: install_page_def seat_def victim_ok_def split: sum.splits)
  show "wal_rule p'" by (rule latch_rule [OF install_rule [OF inv1 allocate_rule [OF wr a] ip] bound lt])
  show "log_flushes (bp_wal p) (bp_wal p')" using install_log [OF inv1 ip] latch_wal [OF lt] by simp
  have tab: "bp_table p1 q \<noteq> None \<Longrightarrow> q \<noteq> page \<Longrightarrow> bp_table p q \<noteq> None"
    and cnt': "page_count (bp_disk p1) = page_count d" for q
    using ip v sp(5) [of q] find_victim_keeps_count [OF inv1 v]
    by (cases "bp_table p q"; auto simp: install_page_def seat_def split: sum.splits)+
  show "alloc_ok p'"
    using alloc_okI [OF al, of p' page] tab cnt' latch_wal [OF lt] nr by simp
qed

lemma pool_exec_keeps:
  assumes inv: "pool_inv p" and wr: "wal_rule p" and al: "alloc_ok p" and ok: "pool_op_ok op p"
    and l: "op_lsn op \<le> wal_last_lsn (bp_wal p)" and ex: "pool_exec op p = (p', res)"
  shows "wal_rule p' \<and> log_flushes (bp_wal p) (bp_wal p') \<and> alloc_ok p'"
proof (cases op)
  case (PRead q)
  obtain p1 r1 where f: "pin_for_access q p = (p1, r1)" by fastforce
  note pk = pin_keeps [OF inv wr al _ f] and ps = pin_spec [OF inv f]
  have "wal_rule (read_guard_drop i p1)" if "r1 = Inr i" for i
    using ps(4) [OF that] pk(1) ok PRead
    by (auto simp: read_guard_drop_def unpin_def handle_def wal_rule_def frame_logged_def intro!: wal_rule_upd)
  then show ?thesis using ex PRead f pk ok
    by (auto simp: fetch_read_def alloc_ok_def read_guard_drop_def unpin_def split: sum.splits)
next
  case (PWrite q g k)
  obtain p1 r1 where f: "pin_for_access q p = (p1, r1)" by fastforce
  obtain p2 r2 where l2: "latch (p1, r1) = (p2, r2)" by fastforce
  have q: "unat q < page_count (bp_disk p)" "keeps_size g" using ok PWrite by simp_all
  note pk = pin_keeps [OF inv wr al q(1) f] and ps = pin_spec [OF inv f] and lw = latch_wal [OF l2]
  have fw: "fetch_write q p = (p2, r2)" using f l2 by (simp add: fetch_write_def)
  note fs = fetch_write_spec [OF inv fw]
  have w2: "wal_rule p2" using latch_rule [OF pk(1) _ l2] ps(4) by (auto simp: handle_def)
  have last: "wal_last_lsn (bp_wal p2) = wal_last_lsn (bp_wal p)"
    using log_flushes_last [OF pk(2)] lw by simp
  have "wal_rule (guard_write i q g k p2)" if "r2 = Inr i" for i
    using guard_write_rule [OF w2 fs(1) _ q(2)] fs(3) [OF that] l PWrite last by (simp add: handle_def)
  then show ?thesis using ex PWrite fw w2 pk(2,3) lw by (auto simp: alloc_ok_def split: sum.splits)
next
  case (PNew g k)
  obtain p1 r1 where n: "new_page p = (p1, r1)" by fastforce
  have c: "page_count (bp_disk p) < 2 ^ 64" "keeps_size g" using ok PNew by simp_all
  note nk = new_page_keeps [OF inv wr al c(1) n] and ns = new_page_spec [OF inv al c(1) n]
  have "wal_rule (guard_write i q g k p1)" if "r1 = Inr (q, i)" for q i
    using guard_write_rule [OF nk(1) _ _ c(2), of i k q] ns that l PNew log_flushes_last [OF nk(2)]
    by (auto simp: handle_def)
  then show ?thesis using ex PNew n nk by (auto simp: alloc_ok_def split: sum.splits)
next
  case (PFlush k)
  then show ?thesis
    using ex flush_matching_rule [OF inv wr refl, of "\<lambda>x. x \<le> k"] flush_matching_spec [OF inv, of "\<lambda>x. x \<le> k"] al
    by (auto simp: pool_flush_through_def alloc_ok_def flushed_def)
next
  case PFlushAll
  then show ?thesis
    using ex flush_all_rule [OF inv wr refl] flush_all_keeps(3) [OF inv] al by (auto simp: alloc_ok_def flushed_def)
qed

section \<open>Reachable pools\<close>

text \<open>
  A pool over a heap file whose pages the log covers; its clients run operations on it and
  append to the log it shares.
\<close>

inductive pool_reach :: "(bytes \<Rightarrow> u32) \<Rightarrow> Config \<Rightarrow> BufferPool \<Rightarrow> (lsn \<times> LogRecord) list \<Rightarrow> bool"
  for crc32 :: "bytes \<Rightarrow> u32" and cfg :: Config
where
  Start: "wal_reach crc32 cfg w None h \<Longrightarrow> 0 < n \<Longrightarrow> 8192 dvd length (dk_file d) \<Longrightarrow>
    wal_durable_lsn w \<le> wal_last_lsn w \<Longrightarrow>
    \<forall>q b. read_page d q = Inr b \<longrightarrow> hdr_page_lsn b \<le> wal_durable_lsn w \<Longrightarrow>
    pool_reach crc32 cfg (pool_new d w n) h"
| Exec: "pool_reach crc32 cfg p h \<Longrightarrow> pool_op_ok op p \<Longrightarrow> op_lsn op \<in> insert 0 (fst ` set h) \<Longrightarrow>
    pool_exec op p = (p', res) \<Longrightarrow> pool_reach crc32 cfg p' h"
| Log: "pool_reach crc32 cfg p h \<Longrightarrow> wal_active_id (bp_wal p) + 1 < 4294967296 \<Longrightarrow>
    wal_append crc32 now (bp_wal p) r = Some (w', Inr l) \<Longrightarrow>
    pool_reach crc32 cfg (p\<lparr>bp_wal := w'\<rparr>) (h @ [(l, r)])"

definition pool_ok :: "BufferPool \<Rightarrow> bool" where
  "pool_ok p \<longleftrightarrow> pool_inv p \<and> wal_rule p \<and> alloc_ok p"

lemma pool_new_ok:
  assumes "0 < n" and "8192 dvd length (dk_file d)" and "wal_durable_lsn w \<le> wal_last_lsn w"
    and "\<forall>q b. read_page d q = Inr b \<longrightarrow> hdr_page_lsn b \<le> wal_durable_lsn w"
  shows "pool_ok (pool_new d w n)"
proof -
  have len: "length (bp_frames (pool_new d w n)) = n" and fr: "i < n \<Longrightarrow> bp_frames (pool_new d w n) ! i = frame_empty"
    and rest: "bp_table (pool_new d w n) = Map.empty" "bp_disk (pool_new d w n) = d" "bp_wal (pool_new d w n) = w"
      "bp_hand (pool_new d w n) = 0" for i
    using assms(1) by (simp_all add: pool_new_def Let_def)
  show ?thesis unfolding pool_ok_def pool_inv_def wal_rule_def alloc_ok_def len rest
    using assms by (auto simp: fr frame_empty_def frame_ok_def frame_logged_def)
qed

lemma wal_append_durable:
  "wal_append crc32 now w r = Some (w', res) \<Longrightarrow> wal_durable_lsn w' = wal_durable_lsn w"
  by (auto simp: wal_append_def wal_write_def wal_rotate_def create_segment_def Let_def split_beta
      split: if_splits sum.splits Option.bind_splits)

lemma pool_reach_ok:
  assumes "pool_reach crc32 cfg p h" and cfg: "config_ok cfg"
  shows "pool_ok p \<and> wal_reach crc32 cfg (bp_wal p) None h"
  using assms(1)
proof induction
  case (Start w h n d)
  moreover have "bp_wal (pool_new d w n) = w" by (simp add: pool_new_def Let_def)
  ultimately show ?case using pool_new_ok by metis
next
  case (Exec p h op p' res)
  then have ok: "pool_inv p" "wal_rule p" "alloc_ok p" and reach: "wal_reach crc32 cfg (bp_wal p) None h"
    by (simp_all add: pool_ok_def)
  have "op_lsn op \<le> wal_last_lsn (bp_wal p)"
    using wal_reach_last [OF reach cfg] Exec.hyps(3) by auto
  note k = pool_exec_keeps [OF ok Exec.hyps(2) this Exec.hyps(4)]
  show ?case
    using k pool_exec_spec [OF ok(1,3) Exec.hyps(2,4)] log_flushes_reach [OF _ reach] by (simp add: pool_ok_def)
next
  case (Log p h now r w' l)
  then have ok: "pool_inv p" "wal_rule p" "alloc_ok p" and reach: "wal_reach crc32 cfg (bp_wal p) None h"
    by (simp_all add: pool_ok_def)
  have "wal_last_lsn (bp_wal p) \<le> wal_last_lsn w'" "wal_durable_lsn w' = wal_durable_lsn (bp_wal p)"
    using wal_append_last_mono [OF reach cfg Log.hyps(2,3)] wal_append_durable [OF Log.hyps(3)] by simp_all
  then have "wal_rule (p\<lparr>bp_wal := w'\<rparr>)" using ok(2) by (fastforce simp: wal_rule_def frame_logged_def)
  then show ?case
    using ok(1,3) wal_reach.Append [OF reach Log.hyps(2,3)] by (simp add: pool_ok_def pool_inv_def alloc_ok_def)
qed


section \<open>The clock finds a victim\<close>

definition clock_dist :: "BufferPool \<Rightarrow> nat \<Rightarrow> nat" where
  "clock_dist p j = (if bp_hand p \<le> j then j - bp_hand p else j + length (bp_frames p) - bp_hand p)"

lemma clock_dist_next:
  assumes "bp_hand p < length (bp_frames p)" and "j < length (bp_frames p)" and "j \<noteq> bp_hand p"
  shows "clock_dist (p\<lparr>bp_hand := (bp_hand p + 1) mod length (bp_frames p)\<rparr>) j + 1 = clock_dist p j"
proof (cases "bp_hand p + 1 = length (bp_frames p)")
  case True
  then have "(bp_hand p + 1) mod length (bp_frames p) = 0" by simp
  then show ?thesis using True assms by (simp add: clock_dist_def)
next
  case False
  then have "(bp_hand p + 1) mod length (bp_frames p) = bp_hand p + 1" using assms(1) by simp
  then show ?thesis using False assms by (auto simp: clock_dist_def)
qed

lemma clock_dist_wrap:
  assumes "bp_hand p < length (bp_frames p)"
  shows "clock_dist p (bp_hand p) = 0"
    and "clock_dist (p\<lparr>bp_hand := (bp_hand p + 1) mod length (bp_frames p)\<rparr>) (bp_hand p) + 1 = length (bp_frames p)"
proof -
  show "clock_dist p (bp_hand p) = 0" by (simp add: clock_dist_def)
  show "clock_dist (p\<lparr>bp_hand := (bp_hand p + 1) mod length (bp_frames p)\<rparr>) (bp_hand p) + 1 = length (bp_frames p)"
  proof (cases "bp_hand p + 1 = length (bp_frames p)")
    case True
    then have "(bp_hand p + 1) mod length (bp_frames p) = 0" by simp
    then show ?thesis using True by (simp add: clock_dist_def)
  next
    case False
    then have "(bp_hand p + 1) mod length (bp_frames p) = bp_hand p + 1" using assms by simp
    then show ?thesis using assms by (simp add: clock_dist_def)
  qed
qed

lemma clock_dist_upd [simp]: "clock_dist (upd_frame i g p) j = clock_dist p j"
  by (simp add: clock_dist_def)

lemma sweep_finds:
  assumes "pool_inv p" and "j < length (bp_frames p)" and "fr_pins (bp_frames p ! j) = 0"
    and "clock_dist p j + length (bp_frames p) * fr_usage (bp_frames p ! j) < k"
  shows "\<exists>p' i. sweep k p = (p', Inr i)"
  using assms
proof (induction k arbitrary: p)
  case (Suc k)
  define idx where "idx = bp_hand p"
  define p1 where "p1 = p\<lparr>bp_hand := (idx + 1) mod length (bp_frames p)\<rparr>"
  let ?f = "bp_frames p ! idx" and ?u = "\<lambda>f. f\<lparr>fr_usage := fr_usage f - 1\<rparr>" and ?n = "length (bp_frames p)"
  note step = sweep_Suc [OF idx_def p1_def refl, of k]
  have i: "idx < ?n" using Suc.prems(1) by (simp add: pool_inv_def idx_def)
  have inv1: "pool_inv p1" unfolding p1_def by (rule pool_inv_hand [OF Suc.prems(1)], rule mod_less_divisor) (use i in linarith)
  have f1: "bp_frames p1 = bp_frames p" by (simp add: p1_def)
  have d1: "j \<noteq> idx \<Longrightarrow> clock_dist p1 j + 1 = clock_dist p j"
    using clock_dist_next [of p j] i Suc.prems(2) by (simp add: p1_def idx_def)
  have d0: "clock_dist p idx = 0" "clock_dist p1 idx + 1 = ?n"
    using clock_dist_wrap [of p] i by (simp_all add: p1_def idx_def)
  show ?case
  proof (cases rule: frame_cases [of ?f])
    case Pinned
    then have "j \<noteq> idx" using Suc.prems(3) by auto
    then show ?thesis using Suc.IH [OF inv1] Suc.prems d1 f1 step Pinned by simp
  next
    case Used
    let ?p = "upd_frame idx ?u p1"
    have inv2: "pool_inv ?p"
      using pool_inv_frame [OF inv1, of idx] i f1 by (intro pool_inv_upd [OF inv1]) (auto simp: frame_ok_def)
    have "clock_dist ?p j + ?n * fr_usage (bp_frames ?p ! j) < k"
    proof (cases "j = idx")
      case True
      obtain u where u: "fr_usage ?f = Suc u" using Used by (cases "fr_usage ?f") auto
      show ?thesis using True Suc.prems(4) d0 i f1 u by simp
    next
      case False
      then show ?thesis using Suc.prems(4) d1 i f1 by simp
    qed
    then show ?thesis using Suc.IH [OF inv2] Suc.prems(2,3) f1 i step Used by simp
  next
    case (Dirty old)
    have "\<not> fr_latched ?f" using pool_inv_frame [OF Suc.prems(1) i] Dirty by (auto simp: frame_ok_def)
    then show ?thesis using step Dirty by auto
  next
    case Clean
    then show ?thesis using step by (cases "fr_dirty ?f"; cases "fr_page ?f") simp_all
  qed
qed simp

lemma find_victim_finds:
  assumes inv: "pool_inv p" and j: "j < length (bp_frames p)" "fr_pins (bp_frames p ! j) = 0"
  shows "\<exists>p' i. find_victim p = (p', Inr i)"
  unfolding find_victim_def
proof (rule sweep_finds [OF inv j])
  have "clock_dist p j < length (bp_frames p)" using inv j(1) by (auto simp: clock_dist_def pool_inv_def)
  moreover have "length (bp_frames p) * fr_usage (bp_frames p ! j) \<le> length (bp_frames p) * 3"
    using pool_inv_frame [OF inv j(1)] by (intro mult_le_mono2) (simp add: frame_ok_def)
  ultimately show "clock_dist p j + length (bp_frames p) * fr_usage (bp_frames p ! j) < 4 * length (bp_frames p)"
    by linarith
qed

lemma pin_succeeds:
  assumes inv: "pool_inv p" and view: "pool_view p q = Some c"
    and free: "j < length (bp_frames p)" "fr_pins (bp_frames p ! j) = 0"
  shows "\<exists>p' i. pin_for_access q p = (p', Inr i)"
proof (cases "bp_table p q")
  case None
  obtain p1 i where v: "find_victim p = (p1, Inr i)" using find_victim_finds [OF inv free] by blast
  have "bp_table p1 q = None" "pool_view p1 q = Some c" using find_victim_spec(2,5) [OF inv v] None view by simp_all
  then obtain b where "read_page (bp_disk p1) q = Inr b" by (auto simp: pool_view_def split: sum.splits)
  then show ?thesis using None v by (simp add: pin_for_access_def install_page_def)
next
  case (Some i)
  then show ?thesis using pool_inv_table [OF inv, of q i] by (simp add: pin_for_access_def)
qed


section \<open>Properties\<close>


definition sample_disk :: DiskManager where
  "sample_disk = disk_open (replicate 8192 0 @ replicate 8192 1)"

lemma sample_disk_reads:
  "read_page sample_disk 0 = Inr (replicate 8192 0)" "read_page sample_disk 1 = Inr (replicate 8192 1)"
  by (simp_all add: read_page_Inr sample_disk_def disk_open_def slice_def byte_offset_def)

definition zero_disk :: DiskManager where
  "zero_disk = disk_open (replicate 8192 0)"

lemma zero_disk_reads: "read_page zero_disk q = Inr b \<Longrightarrow> q = 0 \<and> b = replicate 8192 0"
  by (auto simp: read_page_Inr zero_disk_def disk_open_def slice_def byte_offset_def unat_eq_0)

lemma cfg_small_ok: "config_ok cfg_small"
  by (simp add: config_ok_def cfg_small_def)

lemma zero_pool_reach:
  "\<exists>(w :: Wal) l. pool_reach (\<lambda>_. 3) cfg_small (pool_new zero_disk w 1) [(l, log_txn 1 0 Abort)]"
proof -
  obtain w :: Wal and l where w: "wal_reach (\<lambda>_. 3) cfg_small w None [(l, log_txn 1 0 Abort)]" "wal_durable_lsn w = l"
    using wal_one_durable_record by blast
  have dur: "wal_durable_lsn w \<le> wal_last_lsn w"
    using wal_reach_last [OF w(1) cfg_small_ok] w(2) by simp
  have "hdr_page_lsn b \<le> wal_durable_lsn w" if "read_page zero_disk q = Inr b" for q b
    using zero_disk_reads [OF that] hdr_page_lsn_zeros by simp
  then have "pool_reach (\<lambda>_. 3) cfg_small (pool_new zero_disk w 1) [(l, log_txn 1 0 Abort)]"
    using dur by (intro pool_reach.Start [OF w(1)]) (simp_all add: zero_disk_def disk_open_def)
  then show ?thesis by blast
qed

lemma zero_pool_op_ok: "pool_op_ok (PRead 0) (pool_new zero_disk w n)"
  by (simp add: pool_new_def Let_def zero_disk_def disk_open_def page_count_def)


text \<open>
  C16: The log before the data. In every reachable pool, no page in the heap file carries an LSN
  above the durable LSN of the log: every eviction and flush has flushed the log first.
\<close>

theorem pool_wal_before_data:
  assumes "config_ok cfg" and "pool_reach crc32 cfg p h" and "read_page (bp_disk p) q = Inr b"
  shows "hdr_page_lsn b \<le> wal_durable_lsn (bp_wal p)"
  using pool_reach_ok [OF assms(2,1)] assms(3) by (auto simp: pool_ok_def wal_rule_def)

theorem pool_wal_before_data_witness:
  "\<exists>p q b. read_page (bp_disk p) q = Inr b \<and> hdr_page_lsn b \<le> wal_durable_lsn (bp_wal (p :: BufferPool))"
proof -
  obtain w :: Wal and l where r: "pool_reach (\<lambda>_. 3) cfg_small (pool_new zero_disk w 1) [(l, log_txn 1 0 Abort)]"
    using zero_pool_reach by blast
  have "read_page (bp_disk (pool_new zero_disk w 1)) 0 = Inr (replicate 8192 0)"
    by (simp add: pool_new_def Let_def read_page_Inr zero_disk_def disk_open_def slice_def byte_offset_def)
  then show ?thesis using pool_wal_before_data [OF cfg_small_ok r] by blast
qed

text \<open>
  C17: A full flush. When no page is being written, \<open>flush_all\<close> leaves exactly what the pool
  shows in the heap file, synced.
\<close>

theorem pool_flush_all_durable:
  assumes "config_ok cfg" and "pool_reach crc32 cfg p h" and "\<forall>f \<in> set (bp_frames p). \<not> fr_latched f"
  shows "dk_synced (bp_disk (flush_all p)) = dk_file (bp_disk (flush_all p)) \<and>
    (\<forall>q c. pool_view p q = Some c \<longleftrightarrow> read_page (bp_disk (flush_all p)) q = Inr c)"
  using pool_reach_ok [OF assms(2,1)] flush_all_on_disk [OF _ assms(3) refl]
  by (simp add: pool_ok_def flush_all_def Let_def disk_sync_def)

theorem pool_flush_all_durable_witness:
  "\<exists>p. \<forall>q c. pool_view p q = Some c \<longleftrightarrow> read_page (bp_disk (flush_all (p :: BufferPool))) q = Inr c"
proof -
  obtain w :: Wal and l where r: "pool_reach (\<lambda>_. 3) cfg_small (pool_new zero_disk w 1) [(l, log_txn 1 0 Abort)]"
    using zero_pool_reach by blast
  have "\<forall>f \<in> set (bp_frames (pool_new zero_disk w 1)). \<not> fr_latched f"
    by (simp add: pool_new_def Let_def frame_empty_def)
  then show ?thesis using pool_flush_all_durable [OF cfg_small_ok r] by blast
qed



text \<open>
  C19: Flushing races with eviction. \<open>flush_matching\<close> reads the state of a frame and later its
  content, without pinning the frame in between. If another thread meanwhile evicts the page and
  loads page \<open>b\<close> into the frame, the content of \<open>b\<close> is written over page \<open>a\<close>.
\<close>

theorem flush_overwrites_page_after_eviction:
  assumes inv: "pool_inv p" and one: "bp_frames p = [f]" and f: "fr_page f = Some a" "fr_dirty f"
    and ab: "a \<noteq> b" and fetch: "fetch_read b p = (p1, Inr i)"
  shows "pool_view (flush_frame (\<lambda>_. True) 0 (flush_peek 0 p) (read_guard_drop i p1)) a = pool_view p b"
proof -
  have pin: "pin_for_access b p = (p1, Inr i)" using fetch by (simp add: fetch_read_def)
  have "bp_table p b \<noteq> Some j" for j using pool_inv_table [OF inv, of b j] one f(1) ab by auto
  then have tab: "bp_table p b = None" by (metis option.exhaust)
  have ip: "install_page b False p = (p1, Inr i)" using pin tab by (simp add: pin_for_access_def)
  note isp = install_page_spec [OF inv tab ip]
  have i: "i = 0" "fr_page (bp_frames p1 ! 0) = Some b" "\<not> fr_latched (bp_frames p1 ! 0)" and len: "length (bp_frames p1) = 1"
    using isp(3,4) one by auto
  define p2 where "p2 = read_guard_drop 0 p1"
  have inv2: "pool_inv p2" and view2: "pool_view p2 = pool_view p"
    using read_guard_drop_spec [OF isp(1)] isp(2) i(3) len by (simp_all add: p2_def)
  have f2: "fr_page (bp_frames p2 ! 0) = Some b" "\<not> fr_latched (bp_frames p2 ! 0)" "length (bp_frames p2) = 1"
    using i len by (simp_all add: p2_def read_guard_drop_def unpin_def)
  let ?Y = "fr_content (bp_frames p2 ! 0)"
  have "pool_view p b = Some ?Y"
    unfolding view2 [symmetric] using pool_inv_table [OF inv2, of b 0] f2 by (simp add: pool_view_def)
  have "bp_table p2 a \<noteq> Some j" for j using pool_inv_table [OF inv2, of a j] f2 ab by auto
  then have "bp_table p2 a = None" by (metis option.exhaust)
  moreover note \<open>pool_view p b = Some ?Y\<close>
  moreover have "length ?Y = 8192" using pool_inv_frame [OF inv2, of 0] f2(3) by (simp add: frame_ok_def)
  moreover have "flush_frame (\<lambda>_. True) 0 (flush_peek 0 p) p2 = write_back a (fr_lsn f) ?Y p2"
    using f2 f one ab by (simp add: flush_frame_def flush_peek_def Let_def)
  ultimately show ?thesis
    using dk.rd_wt_same [of ?Y a] by (simp add: i(1) p2_def [symmetric] pool_view_def)
qed

theorem flush_overwrites_page_after_eviction_witness:
  "\<exists>(p :: BufferPool) p1 i. pool_view p 0 = Some (replicate 8192 0) \<and> fetch_read 1 p = (p1, Inr i) \<and>
     pool_view (flush_frame (\<lambda>_. True) 0 (flush_peek 0 p) (read_guard_drop i p1)) 0 = Some (replicate 8192 1)"
proof -
  let ?f = "frame_empty\<lparr>fr_page := Some 0, fr_dirty := True\<rparr>"
  define p where "p = (pool_new sample_disk (undefined :: Wal) 1)\<lparr>bp_frames := [?f], bp_table := [0 \<mapsto> 0], bp_dirty := [0]\<rparr>"
  have p: "bp_frames p = [?f]" "bp_table p = [0 \<mapsto> 0]" "bp_dirty p = [0]" "bp_hand p = 0" "bp_disk p = sample_disk"
    by (simp_all add: p_def pool_new_def Let_def)
  have inv: "pool_inv p"
    unfolding pool_inv_def p by (auto simp: frame_ok_def frame_empty_def sample_disk_reads)
  have v: "pool_view p 0 = Some (replicate 8192 0)" "pool_view p 1 = Some (replicate 8192 1)"
    by (simp_all add: pool_view_def p sample_disk_reads frame_empty_def)
  obtain p1 i where "pin_for_access 1 p = (p1, Inr i)"
    using pin_succeeds [OF inv v(2), of 0] by (auto simp: p frame_empty_def)
  then have fetch: "fetch_read 1 p = (p1, Inr i)" by (simp add: fetch_read_def)
  have "pool_view (flush_frame (\<lambda>_. True) 0 (flush_peek 0 p) (read_guard_drop i p1)) 0 = pool_view p 1"
    by (rule flush_overwrites_page_after_eviction [OF inv p(1) _ _ _ fetch]) simp_all
  then show ?thesis using v fetch by auto
qed

end
