(* ===== verification/Txn.thy ===== *)
theory Txn
  imports Wal Locks Buffer
begin

text \<open>
  The transaction manager (\<open>prism-core/src/txn.rs\<close>): id allocation, snapshots, durable commit
  and abort.  \<open>begin\<close> has two moments, the allocation of the id and the snapshot under the lock
  of the active set, which other threads may interleave.
\<close>


section \<open>State\<close>

datatype TxnMode = ReadWrite | ReadOnly

datatype CoreError =
    CoreWal WalError
  | CoreBuffer BufferError
  | CoreStorage StorageError
  | SerializationFailure
  | CoreLock LockError
  | TxnNotActive txn_id
  | RecoveryError string

record TxnManager =
  tm_wal :: Wal
  tm_next_txn :: txn_id
  tm_active :: "txn_id set"
  tm_commit_log :: commit_log
  tm_locks :: LockManager

record TxnHandle =
  th_id :: txn_id
  th_mode :: TxnMode
  th_snapshot :: Snapshot
  th_last_lsn :: lsn
  th_finished :: bool

definition txn_manager_new :: "Wal \<Rightarrow> TxnManager" where
  "txn_manager_new w =
     \<lparr>tm_wal = w, tm_next_txn = FIRST_USER_TXN, tm_active = {}, tm_commit_log = commit_log_new,
      tm_locks = lock_manager_new 64\<rparr>"

definition with_next_txn :: "Wal \<Rightarrow> txn_id \<Rightarrow> TxnManager" where
  "with_next_txn w next_txn = (txn_manager_new w)\<lparr>tm_next_txn := max next_txn FIRST_USER_TXN\<rparr>"

definition new_recovered :: "Wal \<Rightarrow> txn_id \<Rightarrow> (txn_id \<times> lsn) list \<Rightarrow> txn_id list \<Rightarrow> TxnManager" where
  "new_recovered w next_txn committed aborted =
     (let m = with_next_txn w next_txn;
          cl = fold (\<lambda>(t, l). record_commit t l) committed (tm_commit_log m);
          cl = fold record_abort aborted cl
      in m\<lparr>tm_commit_log := cl\<rparr>)"


section \<open>Begin\<close>

definition begin_alloc :: "TxnManager \<Rightarrow> txn_id \<times> TxnManager" where
  "begin_alloc m = (tm_next_txn m, m\<lparr>tm_next_txn := tm_next_txn m + 1\<rparr>)"

definition begin_snapshot :: "txn_id \<Rightarrow> TxnManager \<Rightarrow> Snapshot \<times> TxnManager" where
  "begin_snapshot t m =
     (let active_set = tm_active m;
          snap_max = tm_next_txn m;
          snap_min = min (if active_set = {} then t else Min active_set) t
      in (\<lparr>snap_txn_id = t, snap_xmin = snap_min, snap_xmax = snap_max, snap_active = active_set\<rparr>,
          m\<lparr>tm_active := insert t active_set\<rparr>))"

definition begin_txn :: "TxnMode \<Rightarrow> TxnManager \<Rightarrow> TxnHandle \<times> TxnManager" where
  "begin_txn mode m =
     (let (t, m1) = begin_alloc m; (s, m2) = begin_snapshot t m1
      in (\<lparr>th_id = t, th_mode = mode, th_snapshot = s, th_last_lsn = 0, th_finished = False\<rparr>, m2))"

definition begin_detached :: "TxnMode \<Rightarrow> TxnManager \<Rightarrow> (txn_id \<times> Snapshot) \<times> TxnManager" where
  "begin_detached mode m = (let (h, m1) = begin_txn mode m in ((th_id h, th_snapshot h), m1))"

definition resume :: "txn_id \<Rightarrow> TxnMode \<Rightarrow> Snapshot \<Rightarrow> lsn \<Rightarrow> TxnHandle" where
  "resume t mode s l =
     \<lparr>th_id = t, th_mode = mode, th_snapshot = s, th_last_lsn = l, th_finished = True\<rparr>"


section \<open>Commit and abort\<close>

text \<open>The end of both: the locks are released, then the transaction leaves the active set.\<close>

definition txn_finish :: "txn_id \<Rightarrow> TxnManager \<Rightarrow> TxnManager" where
  "txn_finish t m = m\<lparr>tm_locks := release_all t (tm_locks m), tm_active := tm_active m - {t}\<rparr>"

text \<open>
  An error of the log returns before the outcome is recorded and before anything is released.
  \<open>now\<close> is the commit time and \<open>seg_now\<close> the clock at a possible rotation.
\<close>

definition commit_internal ::
  "(bytes \<Rightarrow> u32) \<Rightarrow> u64 \<Rightarrow> u64 \<Rightarrow> txn_id \<Rightarrow> TxnMode \<Rightarrow> lsn \<Rightarrow> TxnManager \<Rightarrow>
   (TxnManager \<times> (CoreError + unit)) exec" where
  "commit_internal crc32 now seg_now t mode last_lsn m =
     (case mode of
        ReadWrite \<Rightarrow> do {
          (w, res) \<leftarrow> wal_append crc32 seg_now (tm_wal m) (log_txn t last_lsn (Commit now 0));
          case res of
            Inl e \<Rightarrow> Some (m\<lparr>tm_wal := w\<rparr>, Inl (CoreWal e))
          | Inr commit_lsn \<Rightarrow>
              Some (txn_finish t (m\<lparr>tm_wal := flush_through commit_lsn w,
                tm_commit_log := record_commit t commit_lsn (tm_commit_log m)\<rparr>), Inr ()) }
      | ReadOnly \<Rightarrow>
          Some (txn_finish t (m\<lparr>tm_commit_log := record_commit t 0 (tm_commit_log m)\<rparr>), Inr ()))"

definition abort_internal ::
  "(bytes \<Rightarrow> u32) \<Rightarrow> u64 \<Rightarrow> txn_id \<Rightarrow> TxnMode \<Rightarrow> lsn \<Rightarrow> TxnManager \<Rightarrow>
   (TxnManager \<times> (CoreError + unit)) exec" where
  "abort_internal crc32 seg_now t mode last_lsn m =
     (case mode of
        ReadWrite \<Rightarrow> do {
          (w, res) \<leftarrow> wal_append crc32 seg_now (tm_wal m) (log_txn t last_lsn Abort);
          case res of
            Inl e \<Rightarrow> Some (m\<lparr>tm_wal := w\<rparr>, Inl (CoreWal e))
          | Inr abort_lsn \<Rightarrow>
              Some (txn_finish t (m\<lparr>tm_wal := flush_through abort_lsn w,
                tm_commit_log := record_abort t (tm_commit_log m)\<rparr>), Inr ()) }
      | ReadOnly \<Rightarrow> Some (txn_finish t (m\<lparr>tm_commit_log := record_abort t (tm_commit_log m)\<rparr>), Inr ()))"

text \<open>\<open>Drop\<close> of a handle aborts it unless it was committed, aborted or detached; errors are dropped.\<close>

definition handle_drop :: "(bytes \<Rightarrow> u32) \<Rightarrow> u64 \<Rightarrow> TxnHandle \<Rightarrow> TxnManager \<Rightarrow> TxnManager exec" where
  "handle_drop crc32 seg_now h m =
     (if th_finished h then Some m
      else map_option fst (abort_internal crc32 seg_now (th_id h) (th_mode h) (th_last_lsn h) m))"


section \<open>Steps of the transaction table\<close>

text \<open>
  The moments of concurrent transactions as the visibility function sees them, with \<open>begin\<close>
  in one step: a transaction begins, its outcome is recorded, it leaves the active set; the
  log and the locks may change at any time.
\<close>

inductive txn_step :: "TxnManager \<Rightarrow> TxnManager \<Rightarrow> bool" where
  Begin: "tm_next_txn m < tm_next_txn m + 1 \<Longrightarrow> txn_step m (snd (begin_txn mode m))"
| Commit: "t \<in> tm_active m \<Longrightarrow> tm_commit_log m t = None \<Longrightarrow>
    txn_step m (m\<lparr>tm_commit_log := record_commit t l (tm_commit_log m)\<rparr>)"
| Abort: "t \<in> tm_active m \<Longrightarrow> tm_commit_log m t = None \<Longrightarrow>
    txn_step m (m\<lparr>tm_commit_log := record_abort t (tm_commit_log m)\<rparr>)"
| Finish: "t \<in> tm_active m \<Longrightarrow> tm_commit_log m t \<noteq> None \<Longrightarrow> txn_step m (txn_finish t m)"
| Frame: "tm_next_txn m' = tm_next_txn m \<Longrightarrow> tm_active m' = tm_active m \<Longrightarrow>
    tm_commit_log m' = tm_commit_log m \<Longrightarrow> txn_step m m'"

abbreviation txn_steps :: "TxnManager \<Rightarrow> TxnManager \<Rightarrow> bool" where
  "txn_steps \<equiv> txn_step\<^sup>*\<^sup>*"

definition tm_inv :: "TxnManager \<Rightarrow> bool" where
  "tm_inv m \<longleftrightarrow> (\<forall>t \<in> tm_active m. t < tm_next_txn m) \<and>
     (\<forall>t. tm_commit_log m t \<noteq> None \<longrightarrow> t < tm_next_txn m)"

lemma tm_inv_new: "tm_inv (txn_manager_new w)"
  by (simp add: tm_inv_def txn_manager_new_def commit_log_new_def)

lemma begin_txn_simps [simp]:
  "tm_next_txn (snd (begin_txn mode m)) = tm_next_txn m + 1"
  "tm_active (snd (begin_txn mode m)) = insert (tm_next_txn m) (tm_active m)"
  "tm_commit_log (snd (begin_txn mode m)) = tm_commit_log m"
  "th_id (fst (begin_txn mode m)) = tm_next_txn m"
  "snap_txn_id (th_snapshot (fst (begin_txn mode m))) = tm_next_txn m"
  "snap_xmax (th_snapshot (fst (begin_txn mode m))) = tm_next_txn m + 1"
  "snap_active (th_snapshot (fst (begin_txn mode m))) = tm_active m"
  by (simp_all add: begin_txn_def begin_alloc_def begin_snapshot_def Let_def)

lemma txn_finish_simps [simp]:
  "tm_next_txn (txn_finish t m) = tm_next_txn m" "tm_active (txn_finish t m) = tm_active m - {t}"
  "tm_commit_log (txn_finish t m) = tm_commit_log m" "tm_wal (txn_finish t m) = tm_wal m"
  by (simp_all add: txn_finish_def)

lemma tm_inv_step: "txn_step m m' \<Longrightarrow> tm_inv m \<Longrightarrow> tm_inv m'"
  by (induction rule: txn_step.induct)
    (force simp: tm_inv_def record_commit_def record_abort_def intro: less_trans)+


text \<open>What a snapshot may look at does not change any more.\<close>

definition snap_ok :: "Snapshot \<Rightarrow> TxnManager \<Rightarrow> bool" where
  "snap_ok s m \<longleftrightarrow> snap_xmax s \<le> tm_next_txn m \<and>
     (\<forall>t \<in> tm_active m. t < snap_xmax s \<longrightarrow> t \<in> snap_active s \<or> t = snap_txn_id s)"

lemma snap_ok_step:
  assumes "txn_step m m'" and "snap_ok s m"
  shows "snap_ok s m' \<and> (\<forall>t. effect_visible t s (tm_commit_log m') = effect_visible t s (tm_commit_log m))"
  using assms
proof (induction rule: txn_step.induct)
  case (Begin m mode)
  then show ?case by (auto simp: snap_ok_def)
next
  case (Commit t m l)
  then show ?case by (auto simp: snap_ok_def effect_visible_def)
next
  case (Abort t m)
  then show ?case by (auto simp: snap_ok_def effect_visible_def)
qed (auto simp: snap_ok_def)

lemma snap_ok_steps:
  assumes "txn_steps m m'" and "snap_ok s m"
  shows "snap_ok s m' \<and> (\<forall>t. effect_visible t s (tm_commit_log m') = effect_visible t s (tm_commit_log m))"
  using assms by (induction rule: rtranclp_induct) (auto dest: snap_ok_step)

lemma begin_snap_ok:
  "tm_next_txn m < tm_next_txn m + 1 \<Longrightarrow>
   snap_ok (th_snapshot (fst (begin_txn mode m))) (snd (begin_txn mode m))"
  by (auto simp: snap_ok_def)

text \<open>Commit and abort are sequences of these steps.\<close>

lemma commit_internal_steps:
  assumes "commit_internal crc32 now seg_now t mode last_lsn m = Some (m', Inr ())"
    and "t \<in> tm_active m" and "tm_commit_log m t = None"
  shows "txn_steps m m'"
proof -
  obtain l w where m': "m' = txn_finish t (m\<lparr>tm_wal := w, tm_commit_log := record_commit t l (tm_commit_log m)\<rparr>)"
  proof (cases mode)
    case ReadWrite
    then show ?thesis
      using assms(1) that by (auto simp: commit_internal_def split: sum.splits Option.bind_splits)
  next
    case ReadOnly
    then show ?thesis using assms(1) that [of 0 "tm_wal m"] by (simp add: commit_internal_def)
  qed
  let ?m1 = "m\<lparr>tm_wal := w\<rparr>"
  let ?m2 = "?m1\<lparr>tm_commit_log := record_commit t l (tm_commit_log ?m1)\<rparr>"
  have "txn_steps m ?m1" by (rule r_into_rtranclp, rule txn_step.Frame) simp_all
  also have "txn_step ?m1 ?m2" using assms(2,3) by (intro txn_step.Commit) simp_all
  also have "txn_step ?m2 (txn_finish t ?m2)"
    using assms(2) by (intro txn_step.Finish) (simp_all add: record_commit_def)
  finally show ?thesis unfolding m' by simp
qed

text \<open>An append followed by a flush through its LSN survives every crash.\<close>

lemma append_flush_survives:
  assumes cfg: "config_ok cfg" and reach: "wal_reach crc32 cfg w None h"
    and bound: "wal_active_id w + 1 < 4294967296"
    and app: "wal_append crc32 now w r = Some (w', Inr l)"
    and D: "crash_image (flush_through l w') D"
  shows "Inr (l, r) \<in> set (wal_replay crc32 D 0)"
proof -
  let ?w = "flush_through l w'" and ?h = "h @ [(l, r)]"
  have reach': "wal_reach crc32 cfg ?w None ?h"
    by (rule flush_through_reach [OF wal_reach.Append [OF reach bound app]])
  have dur: "l \<le> wal_durable_lsn ?w"
    by (rule flush_through_durable [OF wal_append_last_lsn [OF app]])
  have "x < l" if "x \<in> fst ` set h" for x
    using wal_reach_sorted [OF reach' cfg] that by (auto simp: sorted_wrt_append)
  then have "takeWhile (\<lambda>(l', _). l' \<le> wal_durable_lsn ?w) ?h = ?h"
    using dur by (intro takeWhile_eq_all_conv [THEN iffD2]) force
  moreover obtain L where "run_inv crc32 ?w None ?h L" using run_inv_reach [OF reach' cfg] by blast
  then have "prefix (map Inr (takeWhile (\<lambda>(l', _). l' \<le> wal_durable_lsn ?w) ?h)) (wal_replay crc32 D 0)"
    by (rule crash_replay [OF _ D])
  ultimately show ?thesis by (auto simp: prefix_def)
qed


section \<open>Properties of transactions\<close>


definition empty_wal :: Wal where
  "empty_wal = \<lparr>wal_files = [], wal_synced = [], wal_segment_size = 140, wal_sync_mode = Fsync,
     wal_active_id = 0, wal_active_offset = 64, wal_last_lsn = 0, wal_durable_lsn = 0\<rparr>"


text \<open>
  C13: Durable commit. When \<open>commit_internal\<close> of a read-write transaction returns success, its
  status is committed at an LSN whose commit record is found by the replay of every crash
  image of the log from then on.
\<close>

theorem commit_survives_crash:
  assumes "config_ok cfg" and "wal_reach crc32 cfg (tm_wal m) None h"
    and "wal_active_id (tm_wal m) + 1 < 4294967296"
    and "commit_internal crc32 now seg_now t ReadWrite last_lsn m = Some (m', Inr ())"
  shows "\<exists>l. status (tm_commit_log m') t = Committed l \<and> t \<notin> tm_active m' \<and>
    (\<forall>D. crash_image (tm_wal m') D \<longrightarrow>
      Inr (l, log_txn t last_lsn (Commit now 0)) \<in> set (wal_replay crc32 D 0))"
proof -
  obtain w l where app: "wal_append crc32 seg_now (tm_wal m) (log_txn t last_lsn (Commit now 0)) = Some (w, Inr l)"
    and m': "m' = txn_finish t (m\<lparr>tm_wal := flush_through l w,
      tm_commit_log := record_commit t l (tm_commit_log m)\<rparr>)"
    using assms(4) by (auto simp: commit_internal_def split: sum.splits Option.bind_splits)
  show ?thesis using append_flush_survives [OF assms(1-3) app] by (auto simp: m')
qed

lemma demo_commit:
  "\<exists>w m'. wal_reach (\<lambda>_. 0) cfg_small w None [] \<and> wal_active_id w = 0 \<and>
     commit_internal (\<lambda>_. 0) 5 0 2 ReadWrite 0 (txn_manager_new w) = Some (m', Inr ())"
proof -
  have cfg: "config_ok cfg_small" by (simp add: config_ok_def cfg_small_def)
  obtain w where w: "wal_open (\<lambda>_. 0) 0 cfg_small [] = Inr w"
    by (simp add: wal_open_def create_segment_def Let_def)
  have f: "wal_active_id w = 0" "wal_segment_size w = 140"
    using w by (auto simp: wal_open_def create_segment_def Let_def cfg_small_def)
  have inv: "wal_inv (\<lambda>_. 0) w [[]]" "wal_sync_mode w = Fsync"
    using run_inv_open [OF cfg w] by (simp_all add: run_inv_def)
  have "frame_len (log_txn 2 0 (Commit 5 0)) = 48" by (simp add: frame_len_def log_txn_def)
  then obtain w' l where "wal_append (\<lambda>_. 0) 0 w (log_txn 2 0 (Commit 5 0)) = Some (w', Inr l)"
    using wal_append_spec [OF inv(1) _ inv(2), of "log_txn 2 0 (Commit 5 0)" 0] f by (auto split: if_splits)
  then have "\<exists>m'. commit_internal (\<lambda>_. 0) 5 0 2 ReadWrite 0 (txn_manager_new w) = Some (m', Inr ())"
    by (simp add: commit_internal_def txn_manager_new_def)
  then show ?thesis using wal_reach.Open [OF w] f(1) by blast
qed

theorem commit_survives_crash_witness:
  "\<exists>w m' l. commit_internal (\<lambda>_. 0) 5 0 2 ReadWrite 0 (txn_manager_new w) = Some (m', Inr ()) \<and>
     status (tm_commit_log m') 2 = Committed l \<and>
     Inr (l, log_txn 2 0 (Commit 5 0)) \<in> set (wal_replay (\<lambda>_. 0) (wal_synced (tm_wal m')) 0)"
proof -
  have cfg: "config_ok cfg_small" by (simp add: config_ok_def cfg_small_def)
  obtain w m' where w: "wal_reach (\<lambda>_. 0) cfg_small w None []" "wal_active_id w = 0"
    and c: "commit_internal (\<lambda>_. 0) 5 0 2 ReadWrite 0 (txn_manager_new w) = Some (m', Inr ())"
    using demo_commit by blast
  have tw: "tm_wal (txn_manager_new w) = w" by (simp add: txn_manager_new_def)
  have "crash_image (tm_wal m') (wal_synced (tm_wal m'))"
    by (auto simp: crash_image_def split: option.splits)
  then show ?thesis
    using commit_survives_crash [OF cfg _ _ c] w tw c by fastforce
qed


end
