(* ===== verification/Recovery.thy ===== *)
theory Recovery
  imports Txn
begin

text \<open>
  Crash recovery (\<open>prism-core/src/recovery.rs\<close>): one pass over the replayed log that rebuilds
  the pages (redo), the commit status of every transaction and the heap directory (analysis).

  \<^item> \<open>PageCache\<close> and \<open>cache_load\<close> hold the pages under recovery with their base LSNs.
  \<^item> \<open>redo_insert\<close>, \<open>redo_overwrite\<close>, \<open>redo_delete\<close> apply one record to one page.
  \<^item> \<open>recover_step\<close> is the body of the replay loop, \<open>recover\<close> the whole pass.

  The lemmas show that redo from any page image that reflects the log up to its own page LSN
  gives the same records as redo of the whole log from an empty page.
\<close>


section \<open>The page cache\<close>

record PageCache =
  pc_pages :: "u64 \<Rightarrow> bytes option"
  pc_base :: "u64 \<Rightarrow> u64 option"
  pc_dirtied :: "u64 list"

definition page_cache_new :: PageCache where
  "page_cache_new = \<lparr>pc_pages = Map.empty, pc_base = Map.empty, pc_dirtied = []\<rparr>"

text \<open>
  The image a page starts from and its base LSN: the page on disk if it can be read and its
  checksum validates, an empty heap page otherwise.
\<close>

definition load_image :: "(bytes \<Rightarrow> u32) \<Rightarrow> DiskManager \<Rightarrow> u64 \<Rightarrow> bytes \<times> u64" where
  "load_image crc32 disk page_id =
     (case read_page disk page_id of
        Inr buf \<Rightarrow> if rd_u16 buf 8 = page_checksum crc32 buf then (buf, rd_u64 buf 0) else (page_init Heap, 0)
      | Inl _ \<Rightarrow> (page_init Heap, 0))"

definition cache_load :: "(bytes \<Rightarrow> u32) \<Rightarrow> DiskManager \<Rightarrow> u64 \<Rightarrow> PageCache \<Rightarrow> PageCache" where
  "cache_load crc32 disk page_id c =
     (if pc_pages c page_id = None then
        let (buf, base) = load_image crc32 disk page_id
        in c\<lparr>pc_base := (pc_base c)(page_id \<mapsto> base), pc_pages := (pc_pages c)(page_id \<mapsto> buf)\<rparr>
      else c)"

definition cache_mark :: "u64 \<Rightarrow> PageCache \<Rightarrow> PageCache" where
  "cache_mark page_id c = c\<lparr>pc_dirtied := List.insert page_id (pc_dirtied c)\<rparr>"

definition flush_dirty :: "(bytes \<Rightarrow> u32) \<Rightarrow> PageCache \<Rightarrow> DiskManager \<Rightarrow> DiskManager" where
  "flush_dirty crc32 c disk =
     fold (\<lambda>key d. write_page key (update_checksum crc32 (the (pc_pages c key))) d) (pc_dirtied c) disk"


section \<open>Redo of one record\<close>

definition redo_insert :: "bytes \<Rightarrow> u16 \<Rightarrow> bytes \<Rightarrow> lsn \<Rightarrow> (CoreError + bytes) exec" where
  "redo_insert buf slot_id after_image l = do {
     (b, res) \<leftarrow> page_insert buf after_image;
     Some (case res of
         Some slot \<Rightarrow>
           if slot = slot_id then Inr (set_page_lsn b l)
           else Inl (RecoveryError ''redo insert: wrong slot'')
       | None \<Rightarrow> Inl (RecoveryError ''redo insert: record did not fit''))
   }"

definition redo_overwrite :: "bytes \<Rightarrow> u16 \<Rightarrow> bytes \<Rightarrow> lsn \<Rightarrow> (CoreError + bytes) exec" where
  "redo_overwrite buf slot_id after_image l = do {
     dst \<leftarrow> get_mut buf slot_id;
     Some (case dst of
         None \<Rightarrow> Inl (RecoveryError ''redo update on missing slot'')
       | Some (off, len) \<Rightarrow>
           if len \<noteq> length after_image then Inl (RecoveryError ''redo update length mismatch'')
           else Inr (set_page_lsn (wr off after_image buf) l))
   }"

definition redo_delete :: "bytes \<Rightarrow> u16 \<Rightarrow> bytes \<Rightarrow> txn_id \<Rightarrow> lsn \<Rightarrow> (CoreError + bytes) exec" where
  "redo_delete buf slot_id before_image txn l = do {
     dst \<leftarrow> get_mut buf slot_id;
     Some (case dst of
         None \<Rightarrow> Inl (RecoveryError ''redo delete on missing slot'')
       | Some (off, len) \<Rightarrow>
           if len \<noteq> length before_image \<or> len < 16 then Inl (RecoveryError ''redo delete length mismatch'')
           else Inr (set_page_lsn (wr (off + 8) (to_le_bytes txn) (wr off before_image buf)) l))
   }"

text \<open>The arms of the \<open>match\<close> over the payload that change a page, and the page they change.\<close>

fun touched :: "RecordPayload \<Rightarrow> u64 option" where
  "touched (Insert page _ _) = Some page"
| "touched (Update page _ _ _) = Some page"
| "touched (Delete page _ _) = Some page"
| "touched (FullPageImage page _) = Some page"
| "touched _ = None"

fun redo_page :: "txn_id \<Rightarrow> lsn \<Rightarrow> RecordPayload \<Rightarrow> bytes \<Rightarrow> (CoreError + bytes) exec" where
  "redo_page t l (Insert _ slot_id after_image) buf = redo_insert buf slot_id after_image l"
| "redo_page t l (Update _ slot_id _ after_image) buf = redo_overwrite buf slot_id after_image l"
| "redo_page t l (Delete _ slot_id before_image) buf = redo_delete buf slot_id before_image t l"
| "redo_page t l (FullPageImage _ img) buf = Some (Inr img)"
| "redo_page t l _ buf = Some (Inr buf)"


section \<open>The recovery pass\<close>

record RecoveryState =
  rs_cache :: PageCache
  rs_committed :: "(txn_id \<times> lsn) list"
  rs_aborted :: "txn_id list"
  rs_data_txns :: "txn_id list"
  rs_heap_dir :: "(u64 \<times> u64 list) list"
  rs_heap_index :: "u64 \<Rightarrow> nat option"
  rs_max_txn :: txn_id
  rs_replayed :: nat
  rs_skipped :: nat

record RecoveryReport =
  rr_next_txn_id :: txn_id
  rr_records_replayed :: nat
  rr_records_skipped :: nat
  rr_pages_rebuilt :: nat
  rr_committed :: "(txn_id \<times> lsn) list"
  rr_aborted :: "txn_id list"
  rr_heaps :: "(u64 \<times> u64 list) list"

definition recovery_init :: RecoveryState where
  "recovery_init = \<lparr>rs_cache = page_cache_new, rs_committed = [], rs_aborted = [], rs_data_txns = [],
     rs_heap_dir = [], rs_heap_index = Map.empty, rs_max_txn = BOOTSTRAP_TXN, rs_replayed = 0, rs_skipped = 0\<rparr>"

definition recover_data ::
  "(bytes \<Rightarrow> u32) \<Rightarrow> DiskManager \<Rightarrow> lsn \<Rightarrow> LogRecord \<Rightarrow> u64 \<Rightarrow> RecoveryState \<Rightarrow> (CoreError + RecoveryState) exec" where
  "recover_data crc32 disk l r page_id s =
     (let s = s\<lparr>rs_data_txns := List.insert (lr_txn_id r) (rs_data_txns s)\<rparr>;
          c = cache_load crc32 disk page_id (rs_cache s)
      in if l \<le> the (pc_base c page_id) then Some (Inr (s\<lparr>rs_cache := c, rs_skipped := rs_skipped s + 1\<rparr>))
         else do {
           res \<leftarrow> redo_page (lr_txn_id r) l (lr_payload r) (the (pc_pages c page_id));
           Some (case res of
               Inl e \<Rightarrow> Inl e
             | Inr buf \<Rightarrow> Inr (s\<lparr>rs_cache := cache_mark page_id (c\<lparr>pc_pages := (pc_pages c)(page_id \<mapsto> buf)\<rparr>)\<rparr>))
         })"

definition recover_heap_page :: "u64 \<Rightarrow> u64 \<Rightarrow> RecoveryState \<Rightarrow> RecoveryState" where
  "recover_heap_page heap_id page_id s =
     (let (idx, s) = (case rs_heap_index s heap_id of
            Some i \<Rightarrow> (i, s)
          | None \<Rightarrow> (length (rs_heap_dir s),
              s\<lparr>rs_heap_dir := rs_heap_dir s @ [(heap_id, [])],
                rs_heap_index := (rs_heap_index s)(heap_id \<mapsto> length (rs_heap_dir s))\<rparr>))
      in s\<lparr>rs_heap_dir := (rs_heap_dir s)[idx :=
             (fst (rs_heap_dir s ! idx), snd (rs_heap_dir s ! idx) @ [page_id])]\<rparr>)"

definition recover_step ::
  "(bytes \<Rightarrow> u32) \<Rightarrow> DiskManager \<Rightarrow> lsn \<times> LogRecord \<Rightarrow> RecoveryState \<Rightarrow> (CoreError + RecoveryState) exec" where
  "recover_step crc32 disk item s =
     (let (l, r) = item;
          s = s\<lparr>rs_replayed := rs_replayed s + 1, rs_max_txn := max (rs_max_txn s) (lr_txn_id r)\<rparr>
      in case lr_payload r of
           FullPageImage page_id img \<Rightarrow>
             if length img \<noteq> PAGE_SIZE then Some (Inl (RecoveryError ''full-page image has the wrong size''))
             else recover_data crc32 disk l r page_id s
         | Insert page_id _ _ \<Rightarrow> recover_data crc32 disk l r page_id s
         | Update page_id _ _ _ \<Rightarrow> recover_data crc32 disk l r page_id s
         | Delete page_id _ _ \<Rightarrow> recover_data crc32 disk l r page_id s
         | HeapPage heap_id page_id \<Rightarrow> Some (Inr (recover_heap_page heap_id page_id s))
         | Commit _ _ \<Rightarrow> Some (Inr (s\<lparr>rs_committed := AList.update (lr_txn_id r) l (rs_committed s)\<rparr>))
         | Abort \<Rightarrow> Some (Inr (s\<lparr>rs_aborted := List.insert (lr_txn_id r) (rs_aborted s)\<rparr>))
         | _ \<Rightarrow> Some (Inr s))"

fun recover_loop ::
  "(bytes \<Rightarrow> u32) \<Rightarrow> DiskManager \<Rightarrow> (WalError + lsn \<times> LogRecord) list \<Rightarrow> RecoveryState \<Rightarrow>
   (CoreError + RecoveryState) exec" where
  "recover_loop crc32 disk [] s = Some (Inr s)"
| "recover_loop crc32 disk (Inl e # items) s = Some (Inl (CoreWal e))"
| "recover_loop crc32 disk (Inr item # items) s = do {
     res \<leftarrow> recover_step crc32 disk item s;
     case res of Inl e \<Rightarrow> Some (Inl e) | Inr s' \<Rightarrow> recover_loop crc32 disk items s'
   }"

text \<open>Losers: data records but neither committed nor aborted.\<close>

definition add_losers :: "RecoveryState \<Rightarrow> txn_id list" where
  "add_losers s = fold (\<lambda>t ab. if map_of (rs_committed s) t = None \<and> t \<notin> set ab then List.insert t ab else ab)
     (rs_data_txns s) (rs_aborted s)"

definition recover :: "(bytes \<Rightarrow> u32) \<Rightarrow> wal_dir \<Rightarrow> DiskManager \<Rightarrow> (CoreError + DiskManager \<times> RecoveryReport) exec" where
  "recover crc32 log disk = do {
     res \<leftarrow> recover_loop crc32 disk (wal_replay crc32 log (lsn_from_parts 0 (word_of_nat SEGMENT_HEADER_SIZE))) recovery_init;
     Some (case res of
         Inl e \<Rightarrow> Inl e
       | Inr s \<Rightarrow>
           let disk' = disk_sync (flush_dirty crc32 (rs_cache s) disk)
           in Inr (disk', \<lparr>rr_next_txn_id = rs_max_txn s + 1, rr_records_replayed = rs_replayed s,
                rr_records_skipped = rs_skipped s, rr_pages_rebuilt = length (pc_dirtied (rs_cache s)),
                rr_committed = rs_committed s, rr_aborted = add_losers s, rr_heaps = rs_heap_dir s\<rparr>))
   }"

section \<open>Redo does not look at the page LSN or the checksum\<close>

definition same_body :: "bytes \<Rightarrow> bytes \<Rightarrow> bool" where
  "same_body b b' \<longleftrightarrow> length b = 8192 \<and> length b' = 8192 \<and> page_body b = page_body b'"

lemma same_body_refl [simp]: "length b = 8192 \<Longrightarrow> same_body b b"
  by (simp add: same_body_def)

lemma same_body_trans: "same_body a b \<Longrightarrow> same_body b c \<Longrightarrow> same_body a c"
  by (simp add: same_body_def)

lemma same_body_sym: "same_body a b \<Longrightarrow> same_body b a"
  by (simp add: same_body_def)

lemma page_body_wr:
  assumes "off + length v \<le> length b" and "10 \<le> length b"
  shows "page_body (wr off v b) = take (off - 10) (page_body b) @ drop (10 - off) v @
    drop (off + length v - 10) (page_body b)"
proof -
  have "drop 10 (take off b) = take (off - 10) (drop 10 b)" by (rule drop_take)
  moreover have "10 - off - length v + (off + length v) = off + length v - 10 + 10" by arith
  then have "drop (10 - off - length v) (drop (off + length v) b) = drop (off + length v - 10) (drop 10 b)"
    unfolding drop_drop by (rule arg_cong [where f = "\<lambda>n. drop n b"])
  ultimately show ?thesis using assms by (simp add: page_body_def wr_def min_def)
qed

lemma same_body_wr:
  assumes "same_body b b'" and "off + length v \<le> 8192"
  shows "same_body (wr off v b) (wr off v b')"
  using assms page_body_wr [of off v b] page_body_wr [of off v b'] by (simp add: same_body_def)

lemma same_body_reads:
  assumes "same_body b b'"
  shows "hdr_slot_count b = hdr_slot_count b'" "hdr_free_start b = hdr_free_start b'"
    "hdr_free_end b = hdr_free_end b'" "slot_offset b i = slot_offset b' i"
    "slot_length_field b i = slot_length_field b' i" "find_empty b is = find_empty b' is"
proof -
  have l: "length b = 8192" "length b' = 8192" using assms by (simp_all add: same_body_def)
  have c: "page_body b = page_body b'" using assms by (simp add: same_body_def)
  note pc = page_body_cong [OF c]
  show "hdr_slot_count b = hdr_slot_count b'" "hdr_free_start b = hdr_free_start b'"
    "hdr_free_end b = hdr_free_end b'" using pc by simp_all
  show so: "slot_offset b i = slot_offset b' i" for i
    using pc(6) [of "slot_base i" 2] l by (simp add: slot_offset_def rd_u16_def slot_base_def)
  show "slot_length_field b i = slot_length_field b' i"
    using pc(6) [of "slot_base i + 2" 2] l by (simp add: slot_length_field_def rd_u16_def slot_base_def)
  show "find_empty b is = find_empty b' is" by (induction "is") (simp_all add: so cong: if_cong)
qed

lemma page_insert_cong:
  assumes sb: "same_body b b'" and "page_insert b r = Some (c, res)"
  shows "\<exists>c'. page_insert b' r = Some (c', res) \<and> same_body c c'"
proof -
  have l: "length b = 8192" "length b' = 8192" using sb by (simp_all add: same_body_def)
  note reads = same_body_reads [OF sb] and defs = page_insert_def Let_def free_space_def copy_at_def set_slot_def
    set_free_start_def set_free_end_def set_slot_count_def wr_u16_def
  show ?thesis
  proof (cases "length r > MAX_RECORD_LEN")
    case True
    then show ?thesis using assms(2) sb by (simp add: page_insert_def)
  next
    case small: False
    obtain reuse where fe: "find_empty b' [0..<cnt b'] = Some reuse"
      using assms(2) small by (cases "find_empty b' [0..<cnt b']") (auto simp: page_insert_def reads)
    obtain space where sp: "checked_sub (fend b') (fstart b') = Some space"
      using assms(2) small fe by (cases "checked_sub (fend b') (fstart b')") (auto simp: page_insert_def free_space_def reads)
    show ?thesis
    proof (cases "space < length r + (if reuse \<noteq> None then 0 else SLOT_SIZE)")
      case True
      then show ?thesis using assms(2) small fe sp sb by (simp add: page_insert_def free_space_def reads)
    next
      case room: False
      obtain off where off: "checked_sub (fend b') (length r) = Some off" "off + length r \<le> 8192"
        using assms(2) small fe sp room l
        by (cases "checked_sub (fend b') (length r)") (auto simp: page_insert_def free_space_def copy_at_def reads Let_def split: if_splits)
      have w: "same_body (wr off r b) (wr off r b')" "length (wr off r b) = 8192" "length (wr off r b') = 8192"
        using same_body_wr [OF sb off(2)] off(2) l by simp_all
      show ?thesis
      proof (cases reuse)
        case (Some i)
        have "slot_base i + 4 \<le> 8192" using assms(2) small fe sp room off l w Some by (auto simp: defs reads split: if_splits)
        then show ?thesis using assms(2) small fe sp room off l w Some
          by (auto simp: defs reads intro!: same_body_wr)
      next
        case None
        have "slot_base (cnt b') + 4 \<le> 8192" using assms(2) small fe sp room off l w None by (auto simp: defs reads split: if_splits)
        then show ?thesis using assms(2) small fe sp room off l w None
          by (auto simp: defs reads intro!: same_body_wr)
      qed
    qed
  qed
qed

lemma get_mut_cong: "same_body b b' \<Longrightarrow> get_mut b i = get_mut b' i"
  using same_body_reads [of b b'] by (simp add: get_mut_def same_body_def Let_def cong: if_cong)

lemma get_mut_bound: "get_mut b i = Some (Some (off, len)) \<Longrightarrow> off + len \<le> length b"
  by (auto simp: get_mut_def Let_def Option.bind_eq_Some_conv split: if_splits)

lemma same_body_lsn: "same_body b b' \<Longrightarrow> same_body (set_page_lsn b l) (set_page_lsn b' l')"
  by (simp add: same_body_def set_page_lsn_frame)

lemma page_insert_length:
  assumes "page_insert b r = Some (c, res)" and "length b = 8192"
  shows "length c = 8192"
  using page_insert_cong [OF _ assms(1), of b] assms by (auto simp: same_body_def)

definition record_ok :: "RecordPayload \<Rightarrow> bool" where
  "record_ok pl \<longleftrightarrow> (case pl of FullPageImage _ img \<Rightarrow> length img = PAGE_SIZE | _ \<Rightarrow> True)"

lemma redo_page_cong:
  assumes sb: "same_body b b'" and ok: "record_ok pl" and "redo_page t l pl b = Some (Inr c)"
  shows "\<exists>c'. redo_page t l pl b' = Some (Inr c') \<and> same_body c c'"
proof (cases pl)
  case (Insert page slot img)
  obtain c1 res where pi: "page_insert b img = Some (c1, res)" "res = Some slot" "c = set_page_lsn c1 l"
    using assms(3) Insert by (auto simp: redo_insert_def Option.bind_eq_Some_conv split: option.splits if_splits)
  obtain c1' where "page_insert b' img = Some (c1', res)" "same_body c1 c1'" using page_insert_cong [OF sb pi(1)] by blast
  then show ?thesis using pi Insert by (simp add: redo_insert_def same_body_lsn)
next
  case (Update page slot bef img)
  then obtain off len where g: "get_mut b slot = Some (Some (off, len))" "len = length img" "c = set_page_lsn (wr off img b) l"
    using assms(3) by (auto simp: redo_overwrite_def Option.bind_eq_Some_conv split: option.splits if_splits)
  have "off + length img \<le> 8192" using get_mut_bound [OF g(1)] g(2) sb by (simp add: same_body_def)
  then show ?thesis using Update g get_mut_cong [OF sb] same_body_wr [OF sb]
    by (simp add: redo_overwrite_def same_body_lsn)
next
  case (Delete page slot bef)
  then obtain off len where g: "get_mut b slot = Some (Some (off, len))" "len = length bef" "\<not> len < 16"
      "c = set_page_lsn (wr (off + 8) (to_le_bytes t) (wr off bef b)) l"
    using assms(3) by (auto simp: redo_delete_def Option.bind_eq_Some_conv split: option.splits if_splits)
  have bd: "off + length bef \<le> 8192" using get_mut_bound [OF g(1)] g(2) sb by (simp add: same_body_def)
  have "same_body (wr (off + 8) (to_le_bytes t) (wr off bef b)) (wr (off + 8) (to_le_bytes t) (wr off bef b'))"
    using bd g(2,3) by (intro same_body_wr sb) simp_all
  then show ?thesis using Delete g get_mut_cong [OF sb] by (simp add: redo_delete_def same_body_lsn)
qed (use assms in \<open>auto simp: record_ok_def\<close>)

lemma redo_page_length:
  assumes "redo_page t l pl b = Some (Inr c)" and "record_ok pl" and "length b = 8192"
  shows "length c = 8192"
  using redo_page_cong [OF _ assms(2,1), of b] assms(3) by (auto simp: same_body_def)

section \<open>What the replay loop leaves in the cache\<close>

text \<open>Redo of the records of one page above a base LSN; \<open>None\<close> is an error or a panic.\<close>

fun redo_from :: "u64 \<Rightarrow> lsn \<Rightarrow> (lsn \<times> LogRecord) list \<Rightarrow> bytes \<Rightarrow> bytes option" where
  "redo_from q base [] b = Some b"
| "redo_from q base ((l, r) # h) b =
     (if touched (lr_payload r) = Some q \<and> base < l
      then case redo_page (lr_txn_id r) l (lr_payload r) b of Some (Inr b') \<Rightarrow> redo_from q base h b' | _ \<Rightarrow> None
      else redo_from q base h b)"

lemma redo_from_append:
  "redo_from q base (h1 @ h2) b = (case redo_from q base h1 b of Some b' \<Rightarrow> redo_from q base h2 b' | None \<Rightarrow> None)"
  by (induction q base h1 b rule: redo_from.induct) (auto split: option.splits sum.splits)

definition page_touched :: "u64 \<Rightarrow> (lsn \<times> LogRecord) list \<Rightarrow> bool" where
  "page_touched q h \<longleftrightarrow> (\<exists>(l, r) \<in> set h. touched (lr_payload r) = Some q)"

abbreviation base_of :: "(bytes \<Rightarrow> u32) \<Rightarrow> DiskManager \<Rightarrow> u64 \<Rightarrow> lsn" where
  "base_of crc32 disk q \<equiv> snd (load_image crc32 disk q)"

definition cur_page :: "(bytes \<Rightarrow> u32) \<Rightarrow> DiskManager \<Rightarrow> PageCache \<Rightarrow> u64 \<Rightarrow> bytes" where
  "cur_page crc32 disk c q = (case pc_pages c q of Some b \<Rightarrow> b | None \<Rightarrow> fst (load_image crc32 disk q))"

definition cache_ok :: "(bytes \<Rightarrow> u32) \<Rightarrow> DiskManager \<Rightarrow> PageCache \<Rightarrow> bool" where
  "cache_ok crc32 disk c \<longleftrightarrow> distinct (pc_dirtied c) \<and> set (pc_dirtied c) \<subseteq> dom (pc_pages c) \<and>
     (\<forall>q \<in> dom (pc_pages c). pc_base c q = Some (base_of crc32 disk q)) \<and>
     (\<forall>q. q \<notin> set (pc_dirtied c) \<longrightarrow> cur_page crc32 disk c q = fst (load_image crc32 disk q))"

lemma cache_ok_new: "cache_ok crc32 disk page_cache_new"
  by (simp add: cache_ok_def page_cache_new_def cur_page_def)

lemma cache_load_spec:
  assumes "cache_ok crc32 disk c" and c': "c' = cache_load crc32 disk q c"
  shows "cache_ok crc32 disk c'" and "cur_page crc32 disk c' = cur_page crc32 disk c"
    and "pc_pages c' q = Some (cur_page crc32 disk c q)" and "pc_base c' q = Some (base_of crc32 disk q)"
    and "pc_dirtied c' = pc_dirtied c" and "dom (pc_pages c') = insert q (dom (pc_pages c))"
proof -
  have "cur_page crc32 disk c' x = cur_page crc32 disk c x" for x
    by (auto simp: c' cache_load_def cur_page_def Let_def split: prod.splits)
  then show cur: "cur_page crc32 disk c' = cur_page crc32 disk c" by blast
  show "pc_pages c' q = Some (cur_page crc32 disk c q)"
    by (auto simp: c' cache_load_def cur_page_def Let_def split: prod.splits)
  show "pc_base c' q = Some (base_of crc32 disk q)" "pc_dirtied c' = pc_dirtied c"
      "dom (pc_pages c') = insert q (dom (pc_pages c))"
    using assms(1) by (auto simp: c' cache_load_def cache_ok_def Let_def split_beta)
  then show "cache_ok crc32 disk c'"
    using assms(1) cur by (auto simp: cache_ok_def c' cache_load_def Let_def split: prod.splits if_splits)
qed

lemma cache_put_spec:
  assumes "cache_ok crc32 disk c" and "q \<in> dom (pc_pages c)"
    and c': "c' = cache_mark q (c\<lparr>pc_pages := (pc_pages c)(q \<mapsto> b)\<rparr>)"
  shows "cache_ok crc32 disk c'" and "cur_page crc32 disk c' = (cur_page crc32 disk c)(q := b)"
    and "set (pc_dirtied c') = insert q (set (pc_dirtied c))" and "dom (pc_pages c') = dom (pc_pages c)"
proof -
  show cur: "cur_page crc32 disk c' = (cur_page crc32 disk c)(q := b)"
    by (auto simp: c' cache_mark_def cur_page_def fun_eq_iff)
  show "set (pc_dirtied c') = insert q (set (pc_dirtied c))" "dom (pc_pages c') = dom (pc_pages c)"
    using assms(2) by (auto simp: c' cache_mark_def)
  then show "cache_ok crc32 disk c'"
    using assms(1,2) unfolding cache_ok_def cur by (auto simp: c' cache_mark_def)
qed

text \<open>One data record.\<close>

lemma recover_data_spec:
  assumes ok: "cache_ok crc32 disk (rs_cache s)" and q: "touched (lr_payload r) = Some q"
    and redo: "redo_from q (base_of crc32 disk q) [(l, r)] (cur_page crc32 disk (rs_cache s) q) = Some b"
  shows "\<exists>s'. recover_data crc32 disk l r q s = Some (Inr s') \<and> cache_ok crc32 disk (rs_cache s') \<and>
    cur_page crc32 disk (rs_cache s') = (cur_page crc32 disk (rs_cache s))(q := b) \<and>
    dom (pc_pages (rs_cache s')) = insert q (dom (pc_pages (rs_cache s))) \<and>
    set (pc_dirtied (rs_cache s')) = (if base_of crc32 disk q < l then insert q else id) (set (pc_dirtied (rs_cache s)))"
proof -
  define c where "c = cache_load crc32 disk q (rs_cache s)"
  note cl = cache_load_spec [OF ok c_def]
  show ?thesis
  proof (cases "base_of crc32 disk q < l")
    case False
    then have "b = cur_page crc32 disk (rs_cache s) q" using redo by simp
    moreover have "recover_data crc32 disk l r q s = Some (Inr (s\<lparr>rs_data_txns := List.insert (lr_txn_id r) (rs_data_txns s),
        rs_cache := c, rs_skipped := rs_skipped s + 1\<rparr>))"
      using False cl(4) by (simp add: recover_data_def Let_def c_def not_less)
    ultimately show ?thesis using False cl by (simp add: fun_upd_idem)
  next
    case True
    then have rp: "redo_page (lr_txn_id r) l (lr_payload r) (cur_page crc32 disk (rs_cache s) q) = Some (Inr b)"
      using redo q by (auto split: option.splits sum.splits)
    define c' where "c' = cache_mark q (c\<lparr>pc_pages := (pc_pages c)(q \<mapsto> b)\<rparr>)"
    have "q \<in> dom (pc_pages c)" using cl(3) by blast
    note cp = cache_put_spec [OF cl(1) this c'_def]
    have "recover_data crc32 disk l r q s = Some (Inr (s\<lparr>rs_data_txns := List.insert (lr_txn_id r) (rs_data_txns s), rs_cache := c'\<rparr>))"
      using True rp cl(3,4) by (simp add: recover_data_def Let_def c_def c'_def not_le)
    then show ?thesis using True cl cp by simp
  qed
qed

text \<open>The loop redoes, for every page, the records above its base.\<close>

lemma recover_loop_pages:
  assumes "cache_ok crc32 disk (rs_cache s)" and "\<forall>(l, r) \<in> set h. record_ok (lr_payload r)"
    and "\<forall>q. redo_from q (base_of crc32 disk q) h (cur_page crc32 disk (rs_cache s) q) \<noteq> None"
  shows "\<exists>s'. recover_loop crc32 disk (map Inr h) s = Some (Inr s') \<and> cache_ok crc32 disk (rs_cache s') \<and>
    (\<forall>q. redo_from q (base_of crc32 disk q) h (cur_page crc32 disk (rs_cache s) q) =
      Some (cur_page crc32 disk (rs_cache s') q)) \<and>
    set (pc_dirtied (rs_cache s')) = set (pc_dirtied (rs_cache s)) \<union>
      {q. \<exists>(l, r) \<in> set h. touched (lr_payload r) = Some q \<and> base_of crc32 disk q < l}"
  using assms
proof (induction h arbitrary: s)
  case (Cons lr h)
  obtain l r where lr: "lr = (l, r)" by fastforce
  define s0 where "s0 = s\<lparr>rs_replayed := rs_replayed s + 1, rs_max_txn := max (rs_max_txn s) (lr_txn_id r)\<rparr>"
  have c0: "rs_cache s0 = rs_cache s" by (simp add: s0_def)
  have red: "redo_from q (base_of crc32 disk q) ((l, r) # h) (cur_page crc32 disk (rs_cache s) q) \<noteq> None" for q
    using Cons.prems(3) lr by blast
  show ?case
  proof (cases "touched (lr_payload r)")
    case None
    then have st: "\<exists>s1. recover_step crc32 disk lr s = Some (Inr s1) \<and> rs_cache s1 = rs_cache s"
      by (cases "lr_payload r")
        (auto simp: recover_step_def lr recover_heap_page_def Let_def split: option.splits)
    then obtain s1 where s1: "recover_step crc32 disk lr s = Some (Inr s1)" "rs_cache s1 = rs_cache s" by blast
    have "\<forall>q. redo_from q (base_of crc32 disk q) h (cur_page crc32 disk (rs_cache s1) q) \<noteq> None"
      using red None s1(2) by simp
    then show ?thesis
      using Cons.IH [of s1] Cons.prems(1,2) s1 None by (auto simp: lr)
  next
    case (Some q)
    let ?c = "cur_page crc32 disk (rs_cache s)"
    obtain b where b: "redo_from q (base_of crc32 disk q) [(l, r)] (?c q) = Some b"
      using red [of q] redo_from_append [of q "base_of crc32 disk q" "[(l, r)]" h "?c q"] by (auto split: option.splits)
    obtain s1 where s1: "recover_data crc32 disk l r q s0 = Some (Inr s1)" "cache_ok crc32 disk (rs_cache s1)"
        "cur_page crc32 disk (rs_cache s1) = ?c(q := b)"
        "set (pc_dirtied (rs_cache s1)) = (if base_of crc32 disk q < l then insert q else id) (set (pc_dirtied (rs_cache s)))"
      using recover_data_spec [of crc32 disk s0 r q l b] Cons.prems(1) Some b c0 by auto
    have st: "recover_step crc32 disk lr s = Some (Inr s1)"
      using s1(1) Some Cons.prems(2) by (cases "lr_payload r") (auto simp: recover_step_def lr s0_def Let_def record_ok_def)
    have step: "redo_from x (base_of crc32 disk x) ((l, r) # h) (?c x) =
        redo_from x (base_of crc32 disk x) h (cur_page crc32 disk (rs_cache s1) x)" for x
    proof (cases "x = q")
      case True
      then show ?thesis
        using redo_from_append [of q "base_of crc32 disk q" "[(l, r)]" h "?c q"] b s1(3) by simp
    next
      case False
      then show ?thesis using Some s1(3) by simp
    qed
    have "\<forall>x. redo_from x (base_of crc32 disk x) h (cur_page crc32 disk (rs_cache s1) x) \<noteq> None"
      using red step by simp
    then obtain s' where "recover_loop crc32 disk (map Inr h) s1 = Some (Inr s')" "cache_ok crc32 disk (rs_cache s')"
        "\<forall>q. redo_from q (base_of crc32 disk q) h (cur_page crc32 disk (rs_cache s1) q) = Some (cur_page crc32 disk (rs_cache s') q)"
        "set (pc_dirtied (rs_cache s')) = set (pc_dirtied (rs_cache s1)) \<union>
          {q. \<exists>(l, r) \<in> set h. touched (lr_payload r) = Some q \<and> base_of crc32 disk q < l}"
      using Cons.IH [OF s1(2)] Cons.prems(2) by auto
    then show ?thesis using st step s1(4) Some by (auto simp: lr)
  qed
qed simp

section \<open>Page images that redo can start from\<close>

text \<open>The content the whole log gives a page, from an empty heap page.\<close>

definition full_redo :: "u64 \<Rightarrow> (lsn \<times> LogRecord) list \<Rightarrow> bytes option" where
  "full_redo q h = redo_from q 0 h (page_init Heap)"

fun for_page :: "u64 \<Rightarrow> lsn \<times> LogRecord \<Rightarrow> bool" where
  "for_page q (l, r) \<longleftrightarrow> touched (lr_payload r) = Some q"

fun is_image :: "lsn \<times> LogRecord \<Rightarrow> bool" where
  "is_image (l, r) \<longleftrightarrow> (case lr_payload r of FullPageImage _ _ \<Rightarrow> True | _ \<Rightarrow> False)"

text \<open>
  A page image \<open>b\<close> cuts the log at its page LSN: it holds what the records up to the cut give,
  or the first record of the page after the cut is a full page image.
\<close>

definition image_ok :: "u64 \<Rightarrow> (lsn \<times> LogRecord) list \<Rightarrow> bytes \<Rightarrow> bool" where
  "image_ok q h b \<longleftrightarrow> (\<exists>h1 h2. h = h1 @ h2 \<and> length b = PAGE_SIZE \<and>
     (\<forall>x \<in> set h1. for_page q x \<longrightarrow> fst x \<le> hdr_page_lsn b) \<and>
     (\<forall>x \<in> set h2. for_page q x \<longrightarrow> hdr_page_lsn b < fst x) \<and>
     ((\<exists>b1. full_redo q h1 = Some b1 \<and> same_body b b1) \<or>
      (\<exists>x xs. filter (for_page q) h2 = x # xs \<and> is_image x)))"

lemma for_page_alt: "for_page q x \<longleftrightarrow> touched (lr_payload (snd x)) = Some q"
  by (cases x) simp

lemma redo_from_skip: "\<forall>x \<in> set h. for_page q x \<longrightarrow> fst x \<le> base \<Longrightarrow> redo_from q base h b = Some b"
  by (induction h) auto

lemma redo_from_base:
  "\<forall>x \<in> set h. for_page q x \<longrightarrow> base < fst x \<and> base' < fst x \<Longrightarrow> redo_from q base h b = redo_from q base' h b"
proof (induction h arbitrary: b)
  case (Cons x h)
  then show ?case by (cases x) (auto split: option.splits sum.splits)
qed simp

lemma redo_from_cong:
  assumes "same_body b b'" and "\<forall>(l, r) \<in> set h. record_ok (lr_payload r)" and "redo_from q base h b = Some c"
  shows "\<exists>c'. redo_from q base h b' = Some c' \<and> same_body c c'"
  using assms
proof (induction h arbitrary: b b')
  case (Cons x h)
  obtain l r where x: "x = (l, r)" by fastforce
  show ?case
  proof (cases "touched (lr_payload r) = Some q \<and> base < l")
    case True
    then obtain d where d: "redo_page (lr_txn_id r) l (lr_payload r) b = Some (Inr d)" "redo_from q base h d = Some c"
      using Cons.prems(3) x by (auto split: option.splits sum.splits)
    then obtain d' where "redo_page (lr_txn_id r) l (lr_payload r) b' = Some (Inr d')" "same_body d d'"
      using redo_page_cong [OF Cons.prems(1) _ d(1)] Cons.prems(2) x by auto
    then show ?thesis using Cons.IH [OF _ _ d(2)] Cons.prems(2) True x by simp
  next
    case False
    then show ?thesis using Cons x by auto
  qed
qed simp

lemma redo_from_first_image:
  assumes "filter (for_page q) h = x # xs" and "is_image x" and "\<forall>y \<in> set h. for_page q y \<longrightarrow> base < fst y"
  shows "redo_from q base h b = redo_from q base h b'"
  using assms
proof (induction h)
  case (Cons y h)
  obtain l r where y: "y = (l, r)" by fastforce
  show ?case
  proof (cases "for_page q y")
    case True
    then have "x = y" using Cons.prems(1) by simp
    then show ?thesis using Cons.prems(2,3) True y by (cases "lr_payload r") auto
  next
    case False
    then show ?thesis using Cons y by auto
  qed
qed simp

lemma length_page_init [simp]: "length (page_init t) = 8192"
  by (simp add: page_init_def Let_def set_free_start_def set_free_end_def set_slot_count_def wr_u16_def)

text \<open>Redo from such an image gives the records of the full redo.\<close>

lemma image_redo:
  assumes img: "image_ok q h b" and recs: "\<forall>(l, r) \<in> set h. record_ok (lr_payload r)"
    and pos: "\<forall>x \<in> set h. 0 < fst x" and full: "full_redo q h = Some c"
  shows "\<exists>c'. redo_from q (hdr_page_lsn b) h b = Some c' \<and> same_body c' c"
proof -
  let ?L = "hdr_page_lsn b"
  obtain h1 h2 where h: "h = h1 @ h2" "length b = 8192"
      "\<forall>x \<in> set h1. for_page q x \<longrightarrow> fst x \<le> ?L" "\<forall>x \<in> set h2. for_page q x \<longrightarrow> ?L < fst x"
    and alt: "(\<exists>b1. full_redo q h1 = Some b1 \<and> same_body b b1) \<or> (\<exists>x xs. filter (for_page q) h2 = x # xs \<and> is_image x)"
    using img by (auto simp: image_ok_def)
  obtain b1 where b1: "full_redo q h1 = Some b1" "redo_from q 0 h2 b1 = Some c"
    using full h(1) by (auto simp: full_redo_def redo_from_append split: option.splits)
  have skip: "redo_from q ?L h b = redo_from q ?L h2 b"
    using redo_from_skip [OF h(3)] by (simp add: h(1) redo_from_append)
  have base: "redo_from q ?L h2 d = redo_from q 0 h2 d" for d
    using h(4) pos by (intro redo_from_base) (auto simp: h(1))
  have r2: "\<forall>(l, r) \<in> set h2. record_ok (lr_payload r)" and r1: "\<forall>(l, r) \<in> set h1. record_ok (lr_payload r)"
    using recs h(1) by auto
  show ?thesis
  proof (cases "\<exists>b1. full_redo q h1 = Some b1 \<and> same_body b b1")
    case True
    then have "same_body b1 b" using b1(1) by (auto intro: same_body_sym)
    then show ?thesis using redo_from_cong [OF _ r2 b1(2), of b] skip base by (auto intro: same_body_sym)
  next
    case False
    then obtain x xs where "filter (for_page q) h2 = x # xs" "is_image x" using alt by blast
    then have "redo_from q 0 h2 b = redo_from q 0 h2 b1"
      using redo_from_first_image [of q h2 x xs 0] pos h(1) by auto
    moreover have "length c = 8192"
      using redo_from_cong [OF same_body_refl recs full [unfolded full_redo_def]] by (auto simp: same_body_def)
    ultimately show ?thesis using skip base b1(2) by auto
  qed
qed


section \<open>Writing the recovered pages back\<close>

lemma flush_dirty_reads:
  assumes "distinct ks" and "\<forall>k \<in> set ks. length (f k) = 8192"
    and d': "d' = fold (\<lambda>key d. write_page key (f key) d) ks d"
  shows "q \<in> set ks \<Longrightarrow> read_page d' q = Inr (f q)"
    and "q \<notin> set ks \<Longrightarrow> read_page d q = Inr b \<Longrightarrow> read_page d' q = Inr b"
proof -
  have "(q \<in> set ks \<longrightarrow> read_page (fold (\<lambda>key d. write_page key (f key) d) ks d) q = Inr (f q)) \<and>
    (q \<notin> set ks \<longrightarrow> (\<forall>b. read_page d q = Inr b \<longrightarrow> read_page (fold (\<lambda>key d. write_page key (f key) d) ks d) q = Inr b))"
    using assms(1,2)
  proof (induction ks arbitrary: d)
    case (Cons k ks)
    let ?d = "write_page k (f k) d"
    have len: "length (f k) = 8192" using Cons.prems(2) by simp
    note IH = Cons.IH [of ?d]
    have "read_page ?d k = Inr (f k)" by (rule dk.rd_wt_same [OF len])
    moreover have "read_page ?d q = Inr b" if "q \<noteq> k" "read_page d q = Inr b" for b
      by (rule dk.rd_wt_other [OF len]) (use that in auto)
    ultimately show ?case using IH Cons.prems by (cases "q = k") auto
  qed simp
  then show "q \<in> set ks \<Longrightarrow> read_page d' q = Inr (f q)"
    and "q \<notin> set ks \<Longrightarrow> read_page d q = Inr b \<Longrightarrow> read_page d' q = Inr b"
    unfolding d' by blast+
qed

section \<open>The whole pass\<close>

text \<open>
  The log a recovery pass reads: the replay ends without an error, its LSNs are positive, and
  redo of every page from scratch succeeds.
\<close>

definition log_reads :: "(bytes \<Rightarrow> u32) \<Rightarrow> wal_dir \<Rightarrow> (lsn \<times> LogRecord) list \<Rightarrow> bool" where
  "log_reads crc32 log h \<longleftrightarrow> wal_replay crc32 log 0 = map Inr h"

definition redo_ok :: "(lsn \<times> LogRecord) list \<Rightarrow> bool" where
  "redo_ok h \<longleftrightarrow> (\<forall>x \<in> set h. 0 < fst x \<and> record_ok (lr_payload (snd x))) \<and> (\<forall>q. full_redo q h \<noteq> None)"

text \<open>Every page of the heap file that validates and that the log mentions is such an image.\<close>

definition disk_ok :: "(bytes \<Rightarrow> u32) \<Rightarrow> DiskManager \<Rightarrow> (lsn \<times> LogRecord) list \<Rightarrow> bool" where
  "disk_ok crc32 disk h \<longleftrightarrow> (\<forall>q b. page_touched q h \<longrightarrow> read_page disk q = Inr b \<longrightarrow> verify_checksum crc32 b \<longrightarrow> image_ok q h b)"

lemma replay_from_start: "wal_replay crc32 log (lsn_from_parts 0 (word_of_nat SEGMENT_HEADER_SIZE)) = wal_replay crc32 log 0"
proof -
  have "lsn_from_parts 0 64 = (64 :: u64)" by (simp add: lsn_from_parts_def)
  moreover have "lsn_segment_id 64 = 0" "lsn_offset 64 = 64" "lsn_segment_id 0 = 0" "lsn_offset 0 = 0"
    by (simp_all add: lsn_segment_id_def lsn_offset_def)
  ultimately show ?thesis by (simp add: wal_replay_def)
qed

lemma page_untouched: "\<not> page_touched q h \<Longrightarrow> redo_from q base h b = Some b"
  by (induction h) (auto simp: page_touched_def)

lemma redo_okD:
  assumes "redo_ok h"
  shows "\<forall>(l, r) \<in> set h. record_ok (lr_payload r)" and "\<forall>x \<in> set h. 0 < fst x" and "\<exists>c. full_redo q h = Some c"
  using assms by (auto simp: redo_ok_def)

lemma load_image_redo:
  assumes ok: "redo_ok h" and disk: "disk_ok crc32 disk h" and t: "page_touched q h" and full: "full_redo q h = Some c"
  shows "\<exists>c'. redo_from q (base_of crc32 disk q) h (fst (load_image crc32 disk q)) = Some c' \<and> same_body c' c"
proof (cases "\<exists>b. read_page disk q = Inr b \<and> verify_checksum crc32 b")
  case True
  then obtain b where b: "read_page disk q = Inr b" "verify_checksum crc32 b" by blast
  then have li: "load_image crc32 disk q = (b, hdr_page_lsn b)"
    by (simp add: load_image_def verify_checksum_def hdr_page_lsn_def)
  have "image_ok q h b" using disk t b by (auto simp: disk_ok_def)
  then show ?thesis using image_redo [OF _ redo_okD(1,2) [OF ok] full] li by simp
next
  case False
  then have "load_image crc32 disk q = (page_init Heap, 0)"
    by (auto simp: load_image_def verify_checksum_def split: sum.splits)
  moreover have "length c = 8192"
    using redo_from_cong [OF same_body_refl redo_okD(1) [OF ok] full [unfolded full_redo_def]] by (auto simp: same_body_def)
  ultimately show ?thesis using full by (simp add: full_redo_def)
qed

lemma load_image_length: "length (fst (load_image crc32 disk q)) = 8192"
  using dk.rd_length by (auto simp: load_image_def split: sum.splits)

lemma recover_loop_runs:
  assumes ok: "redo_ok h" and disk: "disk_ok crc32 disk h"
  shows "\<exists>s. recover_loop crc32 disk (map Inr h) recovery_init = Some (Inr s) \<and> cache_ok crc32 disk (rs_cache s) \<and>
    (\<forall>q c. page_touched q h \<longrightarrow> full_redo q h = Some c \<longrightarrow> same_body (cur_page crc32 disk (rs_cache s) q) c) \<and>
    (\<forall>q. redo_from q (base_of crc32 disk q) h (fst (load_image crc32 disk q)) = Some (cur_page crc32 disk (rs_cache s) q)) \<and>
    set (pc_dirtied (rs_cache s)) = {q. \<exists>(l, r) \<in> set h. touched (lr_payload r) = Some q \<and> base_of crc32 disk q < l}"
proof -
  have c0: "cache_ok crc32 disk (rs_cache recovery_init)" by (simp add: recovery_init_def cache_ok_new)
  have cur0: "cur_page crc32 disk (rs_cache recovery_init) q = fst (load_image crc32 disk q)" for q
    by (simp add: recovery_init_def cur_page_def page_cache_new_def)
  have red: "redo_from q (base_of crc32 disk q) h (fst (load_image crc32 disk q)) \<noteq> None" for q
  proof (cases "page_touched q h")
    case True
    obtain c where "full_redo q h = Some c" using ok by (auto simp: redo_ok_def)
    then show ?thesis using load_image_redo [OF ok disk True] by auto
  qed (simp add: page_untouched)
  have recs: "\<forall>(l, r) \<in> set h. record_ok (lr_payload r)" using ok by (auto simp: redo_ok_def)
  obtain s where s: "recover_loop crc32 disk (map Inr h) recovery_init = Some (Inr s)" "cache_ok crc32 disk (rs_cache s)"
      "\<forall>q. redo_from q (base_of crc32 disk q) h (fst (load_image crc32 disk q)) = Some (cur_page crc32 disk (rs_cache s) q)"
      "set (pc_dirtied (rs_cache s)) = set (pc_dirtied (rs_cache recovery_init)) \<union>
        {q. \<exists>(l, r) \<in> set h. touched (lr_payload r) = Some q \<and> base_of crc32 disk q < l}"
    using recover_loop_pages [OF c0 recs] red cur0 by auto
  have "same_body (cur_page crc32 disk (rs_cache s) q) c" if "page_touched q h" "full_redo q h = Some c" for q c
    using load_image_redo [OF ok disk that] s(3) by auto
  then show ?thesis using s by (auto simp: recovery_init_def page_cache_new_def)
qed

lemma recovered_page:
  assumes ok: "redo_ok h" and c: "cache_ok crc32 disk c"
    and dirt: "set (pc_dirtied c) = {q. \<exists>(l, r) \<in> set h. touched (lr_payload r) = Some q \<and> base_of crc32 disk q < l}"
    and t: "page_touched q h" and body: "same_body (cur_page crc32 disk c q) full"
    and lens: "\<And>q. q \<in> set (pc_dirtied c) \<Longrightarrow> length (cur_page crc32 disk c q) = 8192"
    and d': "d' = flush_dirty crc32 c disk"
  shows "\<exists>b. read_page d' q = Inr b \<and> verify_checksum crc32 b \<and> same_body b full \<and>
    (if q \<in> set (pc_dirtied c) then b = update_checksum crc32 (cur_page crc32 disk c q) else read_page disk q = Inr b)"
proof -
  let ?f = "\<lambda>k. update_checksum crc32 (the (pc_pages c k))"
  have pg: "the (pc_pages c k) = cur_page crc32 disk c k" if "k \<in> set (pc_dirtied c)" for k
    using c that by (auto simp: cache_ok_def cur_page_def split: option.splits)
  have fl: "\<forall>k \<in> set (pc_dirtied c). length (?f k) = 8192"
    using pg lens by (simp add: update_checksum_frame)
  have dist: "distinct (pc_dirtied c)" using c by (simp add: cache_ok_def)
  note rd = flush_dirty_reads [OF dist fl d' [unfolded flush_dirty_def]]
  show ?thesis
  proof (cases "q \<in> set (pc_dirtied c)")
    case True
    then show ?thesis
      using rd(1) [OF True] pg [OF True] body by (auto simp: update_checksum_frame same_body_def)
  next
    case False
    obtain l r where "(l, r) \<in> set h" "touched (lr_payload r) = Some q" using t by (auto simp: page_touched_def)
    then have "0 < base_of crc32 disk q" using False dirt ok by (fastforce simp: redo_ok_def)
    then obtain b where b: "read_page disk q = Inr b" "verify_checksum crc32 b" "load_image crc32 disk q = (b, hdr_page_lsn b)"
      by (auto simp: load_image_def verify_checksum_def hdr_page_lsn_def split: sum.splits if_splits)
    then have "cur_page crc32 disk c q = b" using c False by (simp add: cache_ok_def)
    then show ?thesis using rd(2) [OF False b(1)] b body False by simp
  qed
qed

section \<open>The analysis: commit status, transaction ids, heap directory\<close>

definition commits :: "(lsn \<times> LogRecord) list \<Rightarrow> (txn_id \<times> lsn) list" where
  "commits h = [(lr_txn_id r, l). (l, r) \<leftarrow> h, case lr_payload r of Commit _ _ \<Rightarrow> True | _ \<Rightarrow> False]"

definition aborts :: "(lsn \<times> LogRecord) list \<Rightarrow> txn_id set" where
  "aborts h = {lr_txn_id r | l r. (l, r) \<in> set h \<and> lr_payload r = Abort}"

definition data_ids :: "(lsn \<times> LogRecord) list \<Rightarrow> txn_id set" where
  "data_ids h = {lr_txn_id r | l r. (l, r) \<in> set h \<and> touched (lr_payload r) \<noteq> None}"

definition heap_pages :: "u64 \<Rightarrow> (lsn \<times> LogRecord) list \<Rightarrow> u64 list" where
  "heap_pages hp h = concat (map (\<lambda>(l, r). case lr_payload r of HeapPage k p \<Rightarrow> if k = hp then [p] else [] | _ \<Rightarrow> []) h)"

lemma recover_data_analysis:
  assumes "recover_data crc32 disk l r q s = Some (Inr s')"
  shows "rs_committed s' = rs_committed s" "rs_aborted s' = rs_aborted s" "rs_max_txn s' = rs_max_txn s"
    "set (rs_data_txns s') = insert (lr_txn_id r) (set (rs_data_txns s))"
    "rs_heap_dir s' = rs_heap_dir s" "rs_heap_index s' = rs_heap_index s"
  using assms
  by (cases "redo_page (lr_txn_id r) l (lr_payload r) (the (pc_pages (cache_load crc32 disk q (rs_cache s)) q))";
      auto simp: recover_data_def Let_def split: if_splits sum.splits)+

definition dir_ok :: "RecoveryState \<Rightarrow> bool" where
  "dir_ok s \<longleftrightarrow> distinct (map fst (rs_heap_dir s)) \<and>
     (\<forall>hp. rs_heap_index s hp = None \<longleftrightarrow> hp \<notin> fst ` set (rs_heap_dir s)) \<and>
     (\<forall>hp i. rs_heap_index s hp = Some i \<longrightarrow> i < length (rs_heap_dir s) \<and> fst (rs_heap_dir s ! i) = hp)"

definition dir_pages :: "RecoveryState \<Rightarrow> u64 \<Rightarrow> u64 list" where
  "dir_pages s hp = (case map_of (rs_heap_dir s) hp of Some ps \<Rightarrow> ps | None \<Rightarrow> [])"

lemma dir_fields [simp]:
  "dir_ok (s\<lparr>rs_committed := a\<rparr>) = dir_ok s" "dir_ok (s\<lparr>rs_aborted := b\<rparr>) = dir_ok s"
  "dir_ok (s\<lparr>rs_replayed := c, rs_max_txn := d\<rparr>) = dir_ok s"
  "dir_pages (s\<lparr>rs_committed := a\<rparr>) = dir_pages s" "dir_pages (s\<lparr>rs_aborted := b\<rparr>) = dir_pages s"
  "dir_pages (s\<lparr>rs_replayed := c, rs_max_txn := d\<rparr>) = dir_pages s"
  by (simp_all add: dir_ok_def dir_pages_def fun_eq_iff)

lemma map_of_nth_distinct:
  "distinct (map fst xs) \<Longrightarrow> i < length xs \<Longrightarrow> map_of xs (fst (xs ! i)) = Some (snd (xs ! i))"
  by (metis map_of_eq_Some_iff nth_mem prod.collapse)

lemma keys_update: "i < length xs \<Longrightarrow> fst v = fst (xs ! i) \<Longrightarrow> map fst (xs[i := v]) = map fst xs"
  by (simp add: map_update list_update_same_conv)

lemma map_of_update_nth:
  assumes "distinct (map fst xs)" and "i < length xs" and "fst (xs ! i) = k"
  shows "map_of (xs[i := (k, v)]) = (map_of xs)(k \<mapsto> v)"
proof
  fix x
  let ?ys = "xs[i := (k, v)]"
  have d: "distinct (map fst ?ys)" using assms keys_update [of i xs "(k, v)"] by simp
  show "map_of ?ys x = ((map_of xs)(k \<mapsto> v)) x"
  proof (cases "x = k")
    case True
    then show ?thesis using map_of_nth_distinct [OF d, of i] assms by simp
  next
    case False
    have "map_of ?ys x = Some y \<longleftrightarrow> map_of xs x = Some y" for y
      unfolding map_of_eq_Some_iff [OF d] map_of_eq_Some_iff [OF assms(1)]
      using False assms(2,3) by (auto simp: in_set_conv_nth nth_list_update) (metis fst_conv)+
    then show ?thesis using False by (metis fun_upd_other not_Some_eq)
  qed
qed

lemma heap_page_spec:
  assumes ok: "dir_ok s" and s': "s' = recover_heap_page hp p s"
  shows "dir_ok s'" and "dir_pages s' = (dir_pages s)(hp := dir_pages s hp @ [p])"
proof -
  have "dir_ok s' \<and> dir_pages s' = (dir_pages s)(hp := dir_pages s hp @ [p])"
  proof (cases "rs_heap_index s hp")
    case None
    have new: "hp \<notin> fst ` set (rs_heap_dir s)" using ok None by (simp add: dir_ok_def)
    then have mo: "map_of (rs_heap_dir s) hp = None" by (simp add: map_of_eq_None_iff)
    have eq: "s' = s\<lparr>rs_heap_dir := rs_heap_dir s @ [(hp, [p])],
        rs_heap_index := (rs_heap_index s)(hp \<mapsto> length (rs_heap_dir s))\<rparr>"
      using None by (simp add: s' recover_heap_page_def Let_def)
    have "dir_ok s'" using ok new unfolding dir_ok_def eq by (auto simp: nth_append less_Suc_eq)
    moreover have "dir_pages s' k = ((dir_pages s)(hp := dir_pages s hp @ [p])) k" for k
      using mo by (cases "map_of (rs_heap_dir s) k") (auto simp: dir_pages_def eq map_add_def)
    ultimately show ?thesis by blast
  next
    case (Some i)
    have i: "i < length (rs_heap_dir s)" "fst (rs_heap_dir s ! i) = hp" and dist: "distinct (map fst (rs_heap_dir s))"
      using ok Some by (auto simp: dir_ok_def)
    have eq: "s' = s\<lparr>rs_heap_dir := (rs_heap_dir s)[i := (hp, snd (rs_heap_dir s ! i) @ [p])]\<rparr>"
      using Some i by (simp add: s' recover_heap_page_def Let_def)
    have k: "map fst (rs_heap_dir s') = map fst (rs_heap_dir s)" 
      using keys_update [of i "rs_heap_dir s" "(hp, snd (rs_heap_dir s ! i) @ [p])"] i by (simp add: eq)
    then have "fst ` set (rs_heap_dir s') = fst ` set (rs_heap_dir s)" by (metis set_map)
    moreover have "fst (rs_heap_dir s' ! j) = fst (rs_heap_dir s ! j)" for j using i by (auto simp: eq nth_list_update)
    ultimately have "dir_ok s'" using ok k unfolding dir_ok_def by (simp add: eq)
    moreover have "dir_pages s hp = snd (rs_heap_dir s ! i)"
      using map_of_nth_distinct [OF dist i(1)] i(2) by (simp add: dir_pages_def)
    moreover have "map_of (rs_heap_dir s') = (map_of (rs_heap_dir s))(hp \<mapsto> snd (rs_heap_dir s ! i) @ [p])"
      using map_of_update_nth [OF dist i] by (simp add: eq)
    ultimately show ?thesis by (auto simp: dir_pages_def fun_eq_iff)
  qed
  then show "dir_ok s'" and "dir_pages s' = (dir_pages s)(hp := dir_pages s hp @ [p])" by blast+
qed

lemma exec_result_bind:
  "Option.bind m (\<lambda>res. case res of Inl e \<Rightarrow> Some (Inl e) | Inr x \<Rightarrow> f x) = Some (Inr y) \<longleftrightarrow>
   (\<exists>x. m = Some (Inr x) \<and> f x = Some (Inr y))"
  by (cases m) (auto split: sum.splits)

lemma recover_loop_analysis:
  assumes "recover_loop crc32 disk (map Inr h) s = Some (Inr s')" and "dir_ok s"
  shows "map_of (rs_committed s') = map_of (rs_committed s) ++ map_of (rev (commits h)) \<and>
    set (rs_aborted s') = set (rs_aborted s) \<union> aborts h \<and>
    set (rs_data_txns s') = set (rs_data_txns s) \<union> data_ids h \<and>
    rs_max_txn s \<le> rs_max_txn s' \<and> (\<forall>(l, r) \<in> set h. lr_txn_id r \<le> rs_max_txn s') \<and>
    (rs_max_txn s' = rs_max_txn s \<or> rs_max_txn s' \<in> (\<lambda>(l, r). lr_txn_id r) ` set h) \<and>
    (\<forall>hp. dir_pages s' hp = dir_pages s hp @ heap_pages hp h)"
  using assms
proof (induction h arbitrary: s)
  case Nil
  then show ?case by (simp add: commits_def aborts_def data_ids_def heap_pages_def)
next
  case (Cons x h)
  obtain l r where x: "x = (l, r)" by fastforce
  define s0 where "s0 = s\<lparr>rs_replayed := rs_replayed s + 1, rs_max_txn := max (rs_max_txn s) (lr_txn_id r)\<rparr>"
  obtain s1 where s1: "recover_step crc32 disk (l, r) s = Some (Inr s1)" "recover_loop crc32 disk (map Inr h) s1 = Some (Inr s')"
    using Cons.prems(1) x by (auto simp: exec_result_bind)
  have ok0: "dir_ok s0" "dir_pages s0 = dir_pages s" using Cons.prems(2) by (simp_all add: s0_def)
  have one: "map_of (rs_committed s1) = map_of (rs_committed s) ++ map_of (rev (commits [(l, r)])) \<and>
    set (rs_aborted s1) = set (rs_aborted s) \<union> aborts [(l, r)] \<and>
    set (rs_data_txns s1) = set (rs_data_txns s) \<union> data_ids [(l, r)] \<and>
    rs_max_txn s1 = max (rs_max_txn s) (lr_txn_id r) \<and> dir_ok s1 \<and>
    (\<forall>hp. dir_pages s1 hp = dir_pages s hp @ heap_pages hp [(l, r)])"
  proof (cases "touched (lr_payload r)")
    case (Some q)
    then have rd: "recover_data crc32 disk l r q s0 = Some (Inr s1)"
      using s1(1) by (cases "lr_payload r") (auto simp: recover_step_def s0_def Let_def split: if_splits)
    have "commits [(l, r)] = []" "aborts [(l, r)] = {}" "data_ids [(l, r)] = {lr_txn_id r}" "heap_pages hp [(l, r)] = []" for hp
      using Some by (cases "lr_payload r"; auto simp: commits_def aborts_def data_ids_def heap_pages_def)+
    moreover have "dir_ok s1" "dir_pages s1 = dir_pages s"
      using recover_data_analysis(5,6) [OF rd] ok0 by (auto simp: dir_ok_def dir_pages_def fun_eq_iff)
    ultimately show ?thesis using recover_data_analysis [OF rd] by (simp add: s0_def)
  next
    case None
    have e: "data_ids [(l, r)] = {}" using None by (auto simp: data_ids_def)
    note defs = commits_def aborts_def heap_pages_def recover_step_def Let_def
    show ?thesis
    proof (cases "lr_payload r")
      case (HeapPage hp p)
      then have "s1 = recover_heap_page hp p s0" using s1(1) by (simp add: recover_step_def Let_def s0_def)
      note hs = heap_page_spec [OF ok0(1) this]
      have fr: "rs_committed s1 = rs_committed s" "rs_aborted s1 = rs_aborted s" "rs_data_txns s1 = rs_data_txns s"
          "rs_max_txn s1 = max (rs_max_txn s) (lr_txn_id r)"
        by (auto simp: \<open>s1 = _\<close> recover_heap_page_def Let_def s0_def split: option.splits)
      show ?thesis using hs fr e HeapPage ok0(2) by (auto simp: commits_def aborts_def heap_pages_def)
    qed (use None s1(1) e Cons.prems(2) in \<open>auto simp: defs update_conv'\<close>)
  qed
  have "commits (x # h) = commits [(l, r)] @ commits h" "aborts (x # h) = aborts [(l, r)] \<union> aborts h"
      "data_ids (x # h) = data_ids [(l, r)] \<union> data_ids h" "heap_pages hp (x # h) = heap_pages hp [(l, r)] @ heap_pages hp h" for hp
    by (auto simp: commits_def aborts_def data_ids_def heap_pages_def x)
  then show ?case
    using Cons.IH [OF s1(2)] one by (auto simp: x max_def map_add_assoc split: if_splits)
qed

lemma word_less_plus_1: "(x :: 'a::len word) \<noteq> - 1 \<Longrightarrow> x < x + 1"
proof -
  assume "x \<noteq> - 1"
  then have "1 + x \<noteq> 0" by (metis add_eq_0_iff)
  then show ?thesis using unatSuc [of x] by (simp add: word_less_nat_alt add.commute)
qed

lemma add_losers_set:
  "set (add_losers s) = set (rs_aborted s) \<union> {t \<in> set (rs_data_txns s). map_of (rs_committed s) t = None}"
proof -
  have "set (fold (\<lambda>t ab. if P t \<and> t \<notin> set ab then List.insert t ab else ab) ts ab) = set ab \<union> {t \<in> set ts. P t}"
    for P and ts ab :: "txn_id list"
    by (induction ts arbitrary: ab) auto
  then show ?thesis by (simp add: add_losers_def)
qed

lemma recover_result:
  assumes "log_reads crc32 log h"
  shows "recover crc32 log disk = Some (Inr (disk', rep)) \<longleftrightarrow>
    (\<exists>s. recover_loop crc32 disk (map Inr h) recovery_init = Some (Inr s) \<and>
      disk' = disk_sync (flush_dirty crc32 (rs_cache s) disk) \<and>
      rep = \<lparr>rr_next_txn_id = rs_max_txn s + 1, rr_records_replayed = rs_replayed s,
        rr_records_skipped = rs_skipped s, rr_pages_rebuilt = length (pc_dirtied (rs_cache s)),
        rr_committed = rs_committed s, rr_aborted = add_losers s, rr_heaps = rs_heap_dir s\<rparr>)"
  using assms replay_from_start [of crc32 log]
  by (cases "recover_loop crc32 disk (map Inr h) recovery_init")
    (auto simp: recover_def log_reads_def Let_def split: sum.splits)

lemma dir_ok_init: "dir_ok recovery_init" "dir_pages recovery_init hp = []"
  by (simp_all add: dir_ok_def dir_pages_def recovery_init_def)

lemma recovered_status:
  assumes s: "recover_loop crc32 disk (map Inr h) recovery_init = Some (Inr s)" and t: "t \<noteq> BOOTSTRAP_TXN"
  shows "is_committed (status (tm_commit_log (new_recovered w n (rs_committed s) (add_losers s))) t) \<longleftrightarrow>
    t \<in> fst ` set (commits h) \<and> t \<notin> aborts h"
proof -
  have an: "map_of (rs_committed s) = map_of (rev (commits h))" "set (rs_aborted s) = aborts h" "set (rs_data_txns s) = data_ids h"
    using recover_loop_analysis [OF s dir_ok_init(1)] by (simp_all add: recovery_init_def)
  have c: "fst ` set (rs_committed s) = fst ` set (commits h)"
    using an(1) by (metis dom_map_of_conv_image_fst set_rev)
  have fc: "is_committed (status (fold (\<lambda>(t, l). record_commit t l) cs cl) t) \<longleftrightarrow> t \<in> fst ` set cs \<or> is_committed (status cl t)" for cs cl
    by (induction cs arbitrary: cl) (auto split: if_splits)
  have fa: "is_committed (status (fold record_abort as cl) t) \<longleftrightarrow> t \<notin> set as \<and> is_committed (status cl t)" for as cl
    by (induction as arbitrary: cl) (auto split: if_splits)
  have cl0: "tm_commit_log (new_recovered w n (rs_committed s) (add_losers s)) =
      fold record_abort (add_losers s) (fold (\<lambda>(t, l). record_commit t l) (rs_committed s) commit_log_new)"
    by (simp add: new_recovered_def with_next_txn_def txn_manager_new_def Let_def)
  have "\<not> is_committed (status commit_log_new t)" using t by (simp add: commit_log_new_def status_def is_committed_def)
  moreover have "map_of (rev (commits h)) t = None \<longleftrightarrow> t \<notin> fst ` set (commits h)" by (simp add: map_of_eq_None_iff)
  ultimately show ?thesis unfolding cl0 fa fc c add_losers_set an by auto
qed


section \<open>Recovering twice\<close>

text \<open>Heap pages are logged by record, index pages by images whose own LSN is zero.\<close>

definition pure_pages :: "(lsn \<times> LogRecord) list \<Rightarrow> bool" where
  "pure_pages h \<longleftrightarrow> sorted_wrt (<) (map fst h) \<and>
     (\<forall>q. (\<forall>x \<in> set h. for_page q x \<longrightarrow> \<not> is_image x) \<or>
       (\<forall>(l, r) \<in> set h. for_page q (l, r) \<longrightarrow> (\<exists>img. lr_payload r = FullPageImage q img \<and> hdr_page_lsn img = 0)))"

lemma redo_page_lsn:
  assumes "redo_page t l pl b = Some (Inr c)" and "touched pl = Some q" and "\<not> is_image (l, r)" and "lr_payload r = pl"
    and "length b = 8192"
  shows "hdr_page_lsn c = l"
proof (cases pl)
  case (Insert page slot img)
  then obtain c1 where "page_insert b img = Some (c1, Some slot)" "c = set_page_lsn c1 l"
    using assms(1) by (auto simp: redo_insert_def Option.bind_eq_Some_conv split: option.splits if_splits)
  then show ?thesis using page_insert_length [OF _ assms(5)] by (simp add: set_page_lsn_frame)
next
  case (Update page slot bef img)
  then obtain off len where g: "get_mut b slot = Some (Some (off, len))" "len = length img" "c = set_page_lsn (wr off img b) l"
    using assms(1) by (auto simp: redo_overwrite_def Option.bind_eq_Some_conv split: option.splits if_splits)
  then show ?thesis using get_mut_bound [OF g(1)] assms(5) by (simp add: set_page_lsn_frame)
next
  case (Delete page slot bef)
  then obtain off len where g: "get_mut b slot = Some (Some (off, len))" "len = length bef" "\<not> len < 16"
      "c = set_page_lsn (wr (off + 8) (to_le_bytes t) (wr off bef b)) l"
    using assms(1) by (auto simp: redo_delete_def Option.bind_eq_Some_conv split: option.splits if_splits)
  then show ?thesis using get_mut_bound [OF g(1)] assms(5) by (simp add: set_page_lsn_frame)
qed (use assms in auto)

lemma redo_from_length:
  assumes "\<forall>(l, r) \<in> set h. record_ok (lr_payload r)" and "redo_from q base h b = Some c" and "length b = 8192"
  shows "length c = 8192"
  using redo_from_cong [OF same_body_refl assms(1,2)] assms(3) by (auto simp: same_body_def)

lemma redo_lsn_bound:
  assumes "sorted_wrt (<) (map fst h)" and "\<forall>x \<in> set h. for_page q x \<longrightarrow> \<not> is_image x"
    and "\<forall>(l, r) \<in> set h. record_ok (lr_payload r)" and "length b = 8192" and "base \<le> hdr_page_lsn b"
    and "redo_from q base h b = Some c"
  shows "\<forall>x \<in> set h. for_page q x \<longrightarrow> fst x \<le> hdr_page_lsn c"
  using assms
proof (induction h arbitrary: c rule: rev_induct)
  case (snoc x h)
  obtain l r where x: "x = (l, r)" by fastforce
  obtain c1 where c1: "redo_from q base h b = Some c1" "redo_from q base [(l, r)] c1 = Some c"
    using snoc.prems(6) by (auto simp: redo_from_append x split: option.splits)
  have sh: "sorted_wrt (<) (map fst h)" "\<forall>y \<in> set h. fst y < l" using snoc.prems(1) by (auto simp: sorted_wrt_append x)
  have IH: "\<forall>y \<in> set h. for_page q y \<longrightarrow> fst y \<le> hdr_page_lsn c1"
    using snoc.IH [OF sh(1) _ _ snoc.prems(4,5) c1(1)] snoc.prems(2,3) by auto
  have len: "length c1 = 8192" using redo_from_length [OF _ c1(1) snoc.prems(4)] snoc.prems(3) by auto
  show ?case
  proof (cases "for_page q x")
    case False
    then show ?thesis using IH c1(2) x by auto
  next
    case True
    show ?thesis
    proof (cases "base < l")
      case applied: True
      then have "redo_page (lr_txn_id r) l (lr_payload r) c1 = Some (Inr c)"
        using c1(2) True x by (auto split: option.splits sum.splits)
      then have "hdr_page_lsn c = l" using redo_page_lsn [OF _ _ _ refl len] True snoc.prems(2) x by auto
      then show ?thesis using sh(2) x by (auto simp: less_imp_le)
    next
      case False
      then have "\<forall>y \<in> set h. for_page q y \<longrightarrow> fst y \<le> base" using sh(2) by force
      then have "c = b" using redo_from_skip [of h q base b] c1 False by simp
      then show ?thesis using snoc.prems(5) False sh(2) x by fastforce
    qed
  qed
qed simp

lemma redo_image_lsn:
  assumes "\<forall>(l, r) \<in> set h. for_page q (l, r) \<longrightarrow> (\<exists>img. lr_payload r = FullPageImage q img \<and> hdr_page_lsn img = 0)"
    and "\<exists>x \<in> set h. for_page q x \<and> base < fst x" and "redo_from q base h b = Some c"
  shows "hdr_page_lsn c = 0"
  using assms
proof (induction h arbitrary: c rule: rev_induct)
  case (snoc x h)
  obtain l r where x: "x = (l, r)" by fastforce
  obtain c1 where c1: "redo_from q base h b = Some c1" "redo_from q base [(l, r)] c1 = Some c"
    using snoc.prems(3) by (auto simp: redo_from_append x split: option.splits)
  show ?case
  proof (cases "for_page q x \<and> base < l")
    case True
    then obtain img where "lr_payload r = FullPageImage q img" "hdr_page_lsn img = 0" using snoc.prems(1) x by auto
    then show ?thesis using c1(2) True by simp
  next
    case False
    then have "c = c1" using c1(2) x by auto
    then show ?thesis using snoc.IH [OF _ _ c1(1)] snoc.prems(1,2) False x by auto
  qed
qed simp

lemma update_checksum_lsn: "length b = 8192 \<Longrightarrow> hdr_page_lsn (update_checksum crc32 b) = hdr_page_lsn b"
  by (simp add: update_checksum_def hdr_page_lsn_def wr_u16_def rd_u64_def byte_simps)

lemma load_image_base: "base_of crc32 disk q \<le> hdr_page_lsn (fst (load_image crc32 disk q))"
  by (auto simp: load_image_def hdr_page_lsn_def split: sum.splits)

lemma recovered_image_ok:
  assumes ok: "redo_ok h" and pure: "pure_pages h" and full: "full_redo q h = Some c0" and t: "page_touched q h"
    and redo: "redo_from q (base_of crc32 disk q) h (fst (load_image crc32 disk q)) = Some c"
    and app: "\<exists>x \<in> set h. for_page q x \<and> base_of crc32 disk q < fst x"
    and b: "b = update_checksum crc32 c" and sb: "same_body b c0"
  shows "image_ok q h b"
proof -
  note recs = redo_okD(1) [OF ok]
  have len: "length c = 8192" by (rule redo_from_length [OF recs redo load_image_length])
  have lsn: "hdr_page_lsn b = hdr_page_lsn c" using len by (simp add: b update_checksum_lsn)
  have lb: "length b = 8192" using sb by (simp add: same_body_def)
  show ?thesis
  proof (cases "\<forall>x \<in> set h. for_page q x \<longrightarrow> \<not> is_image x")
    case True
    have "\<forall>x \<in> set h. for_page q x \<longrightarrow> fst x \<le> hdr_page_lsn c"
      using pure redo_lsn_bound [OF _ True recs load_image_length load_image_base redo] by (simp add: pure_pages_def)
    then show ?thesis using full sb lb lsn unfolding image_ok_def by (intro exI [of _ h] exI [of _ "[]"]) auto
  next
    case False
    then have img: "\<forall>(l, r) \<in> set h. for_page q (l, r) \<longrightarrow> (\<exists>img. lr_payload r = FullPageImage q img \<and> hdr_page_lsn img = 0)"
      using pure by (auto simp: pure_pages_def)
    have "hdr_page_lsn b = 0" using redo_image_lsn [OF img app redo] lsn by simp
    moreover obtain x xs where f: "filter (for_page q) h = x # xs"
      using t by (cases "filter (for_page q) h") (auto simp: page_touched_def filter_empty_conv)
    moreover have "is_image x"
    proof -
      have "x \<in> set (filter (for_page q) h)" unfolding f by simp
      then have "x \<in> set h" "for_page q x" by simp_all
      then show ?thesis using img by (cases x) auto
    qed
    ultimately show ?thesis using lb redo_okD(2) [OF ok] unfolding image_ok_def by (intro exI [of _ "[]"] exI [of _ h]) auto
  qed
qed


lemma recover_runs:
  assumes "log_reads crc32 log h" and ok: "redo_ok h" and "disk_ok crc32 disk h"
  shows "\<exists>disk' rep c. recover crc32 log disk = Some (Inr (disk', rep)) \<and> dk_synced disk' = dk_file disk' \<and>
    cache_ok crc32 disk c \<and>
    (\<forall>q. page_touched q h \<longrightarrow> (\<exists>b d. read_page disk' q = Inr b \<and> verify_checksum crc32 b \<and>
       full_redo q h = Some d \<and> same_body b d \<and>
       redo_from q (base_of crc32 disk q) h (fst (load_image crc32 disk q)) = Some (cur_page crc32 disk c q) \<and>
       (if \<exists>x \<in> set h. for_page q x \<and> base_of crc32 disk q < fst x
        then b = update_checksum crc32 (cur_page crc32 disk c q) else read_page disk q = Inr b))) \<and>
    (\<forall>q b. \<not> page_touched q h \<longrightarrow> read_page disk q = Inr b \<longrightarrow> read_page disk' q = Inr b)"
proof -
  obtain s where s: "recover_loop crc32 disk (map Inr h) recovery_init = Some (Inr s)" "cache_ok crc32 disk (rs_cache s)"
      "\<And>q c. page_touched q h \<Longrightarrow> full_redo q h = Some c \<Longrightarrow> same_body (cur_page crc32 disk (rs_cache s) q) c"
      "\<And>q. redo_from q (base_of crc32 disk q) h (fst (load_image crc32 disk q)) = Some (cur_page crc32 disk (rs_cache s) q)"
      "set (pc_dirtied (rs_cache s)) = {q. \<exists>(l, r) \<in> set h. touched (lr_payload r) = Some q \<and> base_of crc32 disk q < l}"
    using recover_loop_runs [OF assms(2,3)] by blast
  let ?d = "flush_dirty crc32 (rs_cache s) disk"
  have rd: "read_page (disk_sync ?d) q = read_page ?d q" for q by (simp add: disk_sync_def read_page_def)
  have dirt: "q \<in> set (pc_dirtied (rs_cache s)) \<longleftrightarrow> (\<exists>x \<in> set h. for_page q x \<and> base_of crc32 disk q < fst x)" for q
    unfolding s(5) by (simp add: for_page_alt case_prod_unfold)
  have dt: "page_touched q h" if "q \<in> set (pc_dirtied (rs_cache s))" for q
    using that s(5) by (auto simp: page_touched_def)
  have lens: "length (cur_page crc32 disk (rs_cache s) q) = 8192" if "q \<in> set (pc_dirtied (rs_cache s))" for q
    using s(3) [OF dt [OF that]] redo_okD(3) [OF ok, of q] by (auto simp: same_body_def)
  have "\<exists>b d. read_page (disk_sync ?d) q = Inr b \<and> verify_checksum crc32 b \<and> full_redo q h = Some d \<and> same_body b d \<and>
      (if q \<in> set (pc_dirtied (rs_cache s)) then b = update_checksum crc32 (cur_page crc32 disk (rs_cache s) q)
       else read_page disk q = Inr b)" if t: "page_touched q h" for q
  proof -
    obtain c where c: "full_redo q h = Some c" using redo_okD(3) [OF ok] by blast
    show ?thesis using recovered_page [OF ok s(2,5) t s(3) [OF t c] lens refl] c unfolding rd by blast
  qed
  moreover have "read_page (disk_sync ?d) q = Inr b" if "\<not> page_touched q h" "read_page disk q = Inr b" for q b
  proof -
    have "\<forall>k \<in> set (pc_dirtied (rs_cache s)). length (update_checksum crc32 (the (pc_pages (rs_cache s) k))) = 8192"
      using lens s(2) by (force simp: cache_ok_def cur_page_def update_checksum_frame split: option.splits)
    moreover have "distinct (pc_dirtied (rs_cache s))" using s(2) by (simp add: cache_ok_def)
    ultimately show ?thesis
      using flush_dirty_reads(2) [OF _ _ flush_dirty_def] dt that unfolding rd by blast
  qed
  moreover have "dk_synced (disk_sync ?d) = dk_file (disk_sync ?d)" by (simp add: disk_sync_def)
  moreover have "\<exists>rep. recover crc32 log disk = Some (Inr (disk_sync ?d, rep))"
    using recover_result [OF assms(1), of disk] s(1) by blast
  ultimately show ?thesis using s(2,4) unfolding dirt by blast
qed


section \<open>Properties\<close>

text \<open>
  C20: Redo rebuilds the pages. If every valid page of the heap file reflects the log up to its
  own page LSN (or is overwritten by a full page image next), recovery succeeds, and afterwards
  every page the log mentions holds exactly the records that redo of the whole log from an empty
  page gives, with a valid checksum, synced; other pages are unchanged.
\<close>

theorem recovery_rebuilds_pages:
  assumes "log_reads crc32 log h" and "redo_ok h" and "disk_ok crc32 disk h"
  shows "\<exists>disk' rep. recover crc32 log disk = Some (Inr (disk', rep)) \<and> dk_synced disk' = dk_file disk' \<and>
    (\<forall>q. page_touched q h \<longrightarrow> (\<exists>b c. read_page disk' q = Inr b \<and> verify_checksum crc32 b \<and>
       full_redo q h = Some c \<and> same_body b c)) \<and>
    (\<forall>q b. \<not> page_touched q h \<longrightarrow> read_page disk q = Inr b \<longrightarrow> read_page disk' q = Inr b)"
  using recover_runs [OF assms] by blast

definition sample_record :: LogRecord where
  "sample_record = log_txn 5 0 (Insert 1 0 [1, 2, 3])"

lemma sample_log:
  "\<exists>(w :: Wal) l. log_reads (\<lambda>_. 3) (wal_files w) [(l, sample_record)] \<and> 0 < l"
proof -
  obtain w :: Wal and l where w: "wal_reach (\<lambda>_. 3) cfg_small w None [(l, sample_record)]"
    using wal_one_record [of sample_record "\<lambda>_. 3"]
    by (force simp: frame_len_def log_txn_def sample_record_def put_bytes_u32_def)
  show ?thesis using wal_reach_replay [OF w cfg_small_ok] wal_reach_pos [OF w cfg_small_ok] by (auto simp: log_reads_def)
qed

lemma sample_redo_ok: "0 < l \<Longrightarrow> redo_ok [(l, sample_record)]"
proof -
  assume l: "0 < l"
  have inv: "page_inv (page_init Heap)" using page_init_spec by blast
  have fit: "page_fits (page_init Heap) (length [1, 2, 3 :: u8])"
    by (simp add: page_fits_def page_init_fields MAX_RECORD_LEN_def SLOT_LENGTH_MASK_def)
  have "insert_slot (page_init Heap) = None" by (simp add: insert_slot_def page_init_fields)
  then obtain b' where "page_insert (page_init Heap) [1, 2, 3] = Some (b', Some 0)"
    using page_insert_places [OF inv fit] by (auto simp: page_init_fields)
  then have "full_redo q [(l, sample_record)] \<noteq> None" for q
    using l by (simp add: full_redo_def sample_record_def log_txn_def redo_insert_def)
  then show ?thesis using l by (simp add: redo_ok_def record_ok_def sample_record_def log_txn_def)
qed

lemma sample_disk_ok: "disk_ok crc32 (disk_open []) h"
  by (auto simp: disk_ok_def read_page_def disk_open_def slice_def)

theorem recovery_rebuilds_pages_witness:
  "\<exists>log l disk' rep. recover (\<lambda>_. 3) log (disk_open []) = Some (Inr (disk', rep)) \<and>
     (\<exists>b. read_page disk' 1 = Inr b \<and> full_redo 1 [(l, sample_record)] \<noteq> None)"
proof -
  obtain w :: Wal and l where w: "log_reads (\<lambda>_. 3) (wal_files w) [(l, sample_record)]" "0 < l" using sample_log by blast
  have "page_touched 1 [(l, sample_record)]" by (simp add: page_touched_def sample_record_def log_txn_def)
  moreover obtain disk' rep where "recover (\<lambda>_. 3) (wal_files w) (disk_open []) = Some (Inr (disk', rep))"
      "\<And>q. page_touched q [(l, sample_record)] \<Longrightarrow> \<exists>b c. read_page disk' q = Inr b \<and> full_redo q [(l, sample_record)] = Some c"
    using recovery_rebuilds_pages [OF w(1) sample_redo_ok [OF w(2)] sample_disk_ok] by blast
  ultimately show ?thesis by (metis option.distinct(1))
qed

text \<open>
  C21: The analysis classifies transactions. After recovery a transaction counts as committed
  exactly if the log holds its commit record and no abort record; so the versions of a loser are
  invisible to every other transaction. New transaction ids are above all ids of the log, and the
  heap directory lists the pages of each heap in the order of allocation.
\<close>

theorem recovery_classifies_transactions:
  assumes "log_reads crc32 log h" and "recover crc32 log disk = Some (Inr (disk', rep))"
    and "\<forall>(l, r) \<in> set h. lr_txn_id r \<noteq> - 1"
    and "m = new_recovered w (rr_next_txn_id rep) (rr_committed rep) (rr_aborted rep)"
  shows "(\<forall>t. t \<noteq> BOOTSTRAP_TXN \<longrightarrow>
      (is_committed (status (tm_commit_log m) t) \<longleftrightarrow> t \<in> fst ` set (commits h) \<and> t \<notin> aborts h)) \<and>
    (\<forall>(l, r) \<in> set h. lr_txn_id r < tm_next_txn m) \<and>
    (\<forall>hp. (case map_of (rr_heaps rep) hp of Some ps \<Rightarrow> ps | None \<Rightarrow> []) = heap_pages hp h)"
proof -
  obtain s where s: "recover_loop crc32 disk (map Inr h) recovery_init = Some (Inr s)"
      "rr_next_txn_id rep = rs_max_txn s + 1" "rr_committed rep = rs_committed s" "rr_aborted rep = add_losers s"
      "rr_heaps rep = rs_heap_dir s"
    using assms(2) recover_result [OF assms(1)] by auto
  note an = recover_loop_analysis [OF s(1) dir_ok_init(1)]
  have nx: "tm_next_txn m = max (rs_max_txn s + 1) FIRST_USER_TXN"
    by (simp add: assms(4) s new_recovered_def with_next_txn_def Let_def)
  have "rs_max_txn s \<noteq> - 1"
    using an assms(3) by (auto simp: recovery_init_def)
  then have "rs_max_txn s < rs_max_txn s + 1" by (rule word_less_plus_1)
  then have "\<forall>(l, r) \<in> set h. lr_txn_id r < tm_next_txn m" unfolding nx using an by (fastforce simp: less_max_iff_disj)
  moreover have "is_committed (status (tm_commit_log m) t) \<longleftrightarrow> t \<in> fst ` set (commits h) \<and> t \<notin> aborts h" if "t \<noteq> BOOTSTRAP_TXN" for t
    using recovered_status [OF s(1) that] by (simp add: assms(4) s)
  moreover have "(case map_of (rr_heaps rep) hp of Some ps \<Rightarrow> ps | None \<Rightarrow> []) = heap_pages hp h" for hp
    using an dir_ok_init(2) by (simp add: s(5) dir_pages_def)
  ultimately show ?thesis by blast
qed

theorem recovery_classifies_transactions_witness:
  "\<exists>log l disk' rep. recover (\<lambda>_. 3) log (disk_open []) = Some (Inr (disk', rep)) \<and>
     \<not> is_committed (status (tm_commit_log (new_recovered empty_wal (rr_next_txn_id rep) (rr_committed rep) (rr_aborted rep))) 5)"
proof -
  obtain v :: Wal and l where v: "log_reads (\<lambda>_. 3) (wal_files v) [(l, sample_record)]" "0 < l" using sample_log by blast
  obtain disk' rep where r: "recover (\<lambda>_. 3) (wal_files v) (disk_open []) = Some (Inr (disk', rep))"
    using recover_runs [OF v(1) sample_redo_ok [OF v(2)] sample_disk_ok] by blast
  have "\<forall>(l, r) \<in> set [(l, sample_record)]. lr_txn_id r \<noteq> - 1" by (simp add: sample_record_def log_txn_def)
  note th = recovery_classifies_transactions [OF v(1) r this refl, of empty_wal]
  have "5 \<notin> fst ` set (commits [(l, sample_record)])" by (simp add: commits_def sample_record_def log_txn_def)
  then show ?thesis using th r by (auto dest!: spec [of _ 5])
qed

text \<open>
  C22: Recovery can be repeated. If the machine fails again during or after recovery, the heap
  file that recovery wrote is again one that recovery accepts for the same log, and a second pass
  succeeds and leaves the same records in every page.
\<close>

theorem recovery_idempotent:
  assumes "log_reads crc32 log h" and "redo_ok h" and "pure_pages h" and "disk_ok crc32 disk h"
    and "recover crc32 log disk = Some (Inr (disk', rep))"
  shows "disk_ok crc32 disk' h \<and> (\<exists>disk2 rep2. recover crc32 log disk' = Some (Inr (disk2, rep2)) \<and>
    (\<forall>q. page_touched q h \<longrightarrow> (\<exists>b b2. read_page disk' q = Inr b \<and> read_page disk2 q = Inr b2 \<and> same_body b b2)))"
proof -
  obtain c where c: "\<And>q. page_touched q h \<Longrightarrow> \<exists>b d. read_page disk' q = Inr b \<and> verify_checksum crc32 b \<and>
       full_redo q h = Some d \<and> same_body b d \<and>
       redo_from q (base_of crc32 disk q) h (fst (load_image crc32 disk q)) = Some (cur_page crc32 disk c q) \<and>
       (if \<exists>x \<in> set h. for_page q x \<and> base_of crc32 disk q < fst x
        then b = update_checksum crc32 (cur_page crc32 disk c q) else read_page disk q = Inr b)"
    using recover_runs [OF assms(1,2,4)] assms(5) by auto
  have ok: "disk_ok crc32 disk' h"
    unfolding disk_ok_def
  proof (intro allI impI)
    fix q b assume t: "page_touched q h" and b: "read_page disk' q = Inr b" "verify_checksum crc32 b"
    obtain d where d: "full_redo q h = Some d" "same_body b d"
        "redo_from q (base_of crc32 disk q) h (fst (load_image crc32 disk q)) = Some (cur_page crc32 disk c q)"
        "if \<exists>x \<in> set h. for_page q x \<and> base_of crc32 disk q < fst x
         then b = update_checksum crc32 (cur_page crc32 disk c q) else read_page disk q = Inr b"
      using c [OF t] b(1) by auto
    show "image_ok q h b"
    proof (cases "\<exists>x \<in> set h. for_page q x \<and> base_of crc32 disk q < fst x")
      case True
      then show ?thesis using recovered_image_ok [OF assms(2,3) d(1) t d(3) True _ d(2)] d(4) by simp
    next
      case False
      then show ?thesis using d(4) assms(4) t b(2) by (auto simp: disk_ok_def)
    qed
  qed
  moreover obtain disk2 rep2 where "recover crc32 log disk' = Some (Inr (disk2, rep2))"
      "\<And>q. page_touched q h \<Longrightarrow> \<exists>b d. read_page disk2 q = Inr b \<and> full_redo q h = Some d \<and> same_body b d"
    using recover_runs [OF assms(1,2) ok] by blast
  moreover have "\<exists>b b2. read_page disk' q = Inr b \<and> read_page disk2 q = Inr b2 \<and> same_body b b2" if "page_touched q h" for q
    using c [OF that] calculation(3) [OF that] by (metis option.inject same_body_sym same_body_trans)
  ultimately show ?thesis by blast
qed

theorem recovery_idempotent_witness:
  "\<exists>log l disk' rep. recover (\<lambda>_. 3) log (disk_open []) = Some (Inr (disk', rep)) \<and> disk_ok (\<lambda>_. 3) disk' [(l, sample_record)]"
proof -
  obtain v :: Wal and l where v: "log_reads (\<lambda>_. 3) (wal_files v) [(l, sample_record)]" "0 < l" using sample_log by blast
  obtain disk' rep where r: "recover (\<lambda>_. 3) (wal_files v) (disk_open []) = Some (Inr (disk', rep))"
    using recover_runs [OF v(1) sample_redo_ok [OF v(2)] sample_disk_ok] by blast
  have "pure_pages [(l, sample_record)]" by (simp add: pure_pages_def sample_record_def log_txn_def)
  then show ?thesis using recovery_idempotent [OF v(1) sample_redo_ok [OF v(2)] _ sample_disk_ok r] r by blast
qed

text \<open>
  C23: The recovered heap directory can list a page that does not exist. If the durable log ends
  between the record that assigns page \<open>q\<close> to a heap and the first insert, and the extension of the
  heap file was lost, recovery reports \<open>q\<close> as a page of the heap, does not create it, and the
  reopened disk manager hands out the same page id to the next allocation.
\<close>

theorem recovered_directory_lists_missing_page:
  assumes "log_reads crc32 log [(l, r)]" and "lr_payload r = HeapPage hp q"
    and "length (dk_file disk) = unat q * PAGE_SIZE"
  shows "\<exists>disk' rep e. recover crc32 log disk = Some (Inr (disk', rep)) \<and> rr_heaps rep = [(hp, [q])] \<and>
    read_page disk' q = Inl e \<and> fst (allocate_page (disk_open (dk_file disk'))) = q"
proof -
  define s where "s = recover_heap_page hp q (recovery_init\<lparr>rs_replayed := 1, rs_max_txn := max BOOTSTRAP_TXN (lr_txn_id r)\<rparr>)"
  have loop: "recover_loop crc32 disk (map Inr [(l, r)]) recovery_init = Some (Inr s)"
    by (simp add: recover_step_def assms(2) s_def recovery_init_def)
  have dir: "rs_heap_dir s = [(hp, [q])]" and c: "rs_cache s = page_cache_new"
    by (simp_all add: s_def recover_heap_page_def recovery_init_def)
  have d: "disk_sync (flush_dirty crc32 (rs_cache s) disk) = disk_sync disk"
    by (simp add: flush_dirty_def c page_cache_new_def)
  have "read_page (disk_sync disk) q = Inl (ShortRead q 0 PAGE_SIZE)"
    using assms(3) by (simp add: read_page_def disk_sync_def byte_offset_def slice_def)
  moreover have "fst (allocate_page (disk_open (dk_file (disk_sync disk)))) = q"
    using assms(3) by (simp add: allocate_page_def disk_open_def disk_sync_def Let_def)
  ultimately show ?thesis using recover_result [OF assms(1), of disk] loop d dir by auto
qed

theorem recovered_directory_lists_missing_page_witness:
  "\<exists>log disk' rep e. recover (\<lambda>_. 3) log (disk_open []) = Some (Inr (disk', rep)) \<and> rr_heaps rep = [(7, [0])] \<and>
     read_page disk' 0 = Inl e \<and> fst (allocate_page (disk_open (dk_file disk'))) = 0"
proof -
  let ?r = "log_txn 5 0 (HeapPage 7 0)"
  obtain w :: Wal and l where w: "wal_reach (\<lambda>_. 3) cfg_small w None [(l, ?r)]"
    using wal_one_record [of ?r "\<lambda>_. 3"] by (force simp: frame_len_def log_txn_def)
  then have "log_reads (\<lambda>_. 3) (wal_files w) [(l, ?r)]" using wal_reach_replay [OF w cfg_small_ok] by (simp add: log_reads_def)
  moreover have "lr_payload ?r = HeapPage 7 0" "length (dk_file (disk_open [])) = unat (0 :: u64) * PAGE_SIZE"
    by (simp_all add: log_txn_def disk_open_def)
  ultimately show ?thesis using recovered_directory_lists_missing_page by blast
qed

end
