(* ===== verification/Store.thy ===== *)
theory Store
  imports Recovery
begin

text \<open>
  The transactional record store (\<open>prism-core/src/store.rs\<close>): insert, read, update, delete and
  scan of MVCC records in heap pages, over the buffer pool, the log, the lock manager and the
  transaction table.

  An operation is a function of the store and the handle of the calling transaction.  It returns
  a value, fails with a \<open>CoreError\<close>, or waits for a record lock; \<open>None\<close> is a panic (or, in
  \<open>read_chain\<close>, a version chain longer than the fuel).  The log is shared: \<open>put_pool\<close> keeps the
  copy of the pool and the copy of the transaction manager equal.
\<close>


section \<open>State and operations\<close>

record RecordStore =
  st_pool :: BufferPool
  st_txns :: TxnManager
  st_pages :: "u64 \<Rightarrow> u64 list option"
  st_page_heap :: "u64 \<Rightarrow> u64 option"

definition record_store_new :: "BufferPool \<Rightarrow> TxnManager \<Rightarrow> RecordStore" where
  "record_store_new p m = \<lparr>st_pool = p, st_txns = m, st_pages = Map.empty, st_page_heap = Map.empty\<rparr>"

definition put_pool :: "BufferPool \<Rightarrow> RecordStore \<Rightarrow> RecordStore" where
  "put_pool p st = st\<lparr>st_pool := p, st_txns := (st_txns st)\<lparr>tm_wal := bp_wal p\<rparr>\<rparr>"

definition put_txns :: "TxnManager \<Rightarrow> RecordStore \<Rightarrow> RecordStore" where
  "put_txns m st = st\<lparr>st_txns := m, st_pool := (st_pool st)\<lparr>bp_wal := tm_wal m\<rparr>\<rparr>"

datatype 'a Outcome = Ret 'a | Err CoreError | Waits

type_synonym 'a act = "RecordStore \<times> TxnHandle \<Rightarrow> ('a Outcome \<times> RecordStore \<times> TxnHandle) exec"

definition ret :: "'a \<Rightarrow> 'a act" where
  "ret x s = Some (Ret x, s)"

definition raise :: "CoreError \<Rightarrow> 'a act" where
  "raise e s = Some (Err e, s)"

definition bindA :: "'a act \<Rightarrow> ('a \<Rightarrow> 'b act) \<Rightarrow> 'b act" where
  "bindA m f s = do {
     (res, s') \<leftarrow> m s;
     case res of Ret x \<Rightarrow> f x s' | Err e \<Rightarrow> Some (Err e, s') | Waits \<Rightarrow> Some (Waits, s')
   }"

text \<open>A page guard: it is dropped when the body ends, also when the body fails.\<close>

definition with_read :: "u64 \<Rightarrow> (bytes \<Rightarrow> 'a act) \<Rightarrow> 'a act" where
  "with_read page body s =
     (case s of (st, h) \<Rightarrow>
        case fetch_read page (st_pool st) of
          (p, Inl e) \<Rightarrow> Some (Err (CoreBuffer e), put_pool p st, h)
        | (p, Inr i) \<Rightarrow> do {
            (res, st', h') \<leftarrow> body (fr_content (bp_frames p ! i)) (put_pool p st, h);
            Some (res, put_pool (read_guard_drop i (st_pool st')) st', h')
          })"

definition with_write :: "u64 \<Rightarrow> (nat \<Rightarrow> 'a act) \<Rightarrow> 'a act" where
  "with_write page body s =
     (case s of (st, h) \<Rightarrow>
        case fetch_write page (st_pool st) of
          (p, Inl e) \<Rightarrow> Some (Err (CoreBuffer e), put_pool p st, h)
        | (p, Inr i) \<Rightarrow> do {
            (res, st', h') \<leftarrow> body i (put_pool p st, h);
            Some (res, put_pool (write_guard_drop i page (st_pool st')) st', h')
          })"

definition with_new_page :: "(u64 \<Rightarrow> nat \<Rightarrow> 'a act) \<Rightarrow> 'a act" where
  "with_new_page body s =
     (case s of (st, h) \<Rightarrow>
        case new_page (st_pool st) of
          (p, Inl e) \<Rightarrow> Some (Err (CoreBuffer e), put_pool p st, h)
        | (p, Inr (page, i)) \<Rightarrow> do {
            (res, st', h') \<leftarrow> body page i (put_pool p st, h);
            Some (res, put_pool (write_guard_drop i page (st_pool st')) st', h')
          })"

definition page_of :: "nat \<Rightarrow> RecordStore \<Rightarrow> bytes" where
  "page_of i st = fr_content (bp_frames (st_pool st) ! i)"

definition put_page :: "nat \<Rightarrow> bytes \<Rightarrow> RecordStore \<Rightarrow> RecordStore" where
  "put_page i b st = put_pool (guard_modify i (\<lambda>_. b) (st_pool st)) st"


section \<open>Logging\<close>

definition encode_version :: "RecordHeader \<Rightarrow> bytes \<Rightarrow> bytes" where
  "encode_version header payload = header_encode header @ payload"

definition store_log :: "(bytes \<Rightarrow> u32) \<Rightarrow> u64 \<Rightarrow> RecordPayload \<Rightarrow> lsn act" where
  "store_log crc32 now payload s =
     (case s of (st, h) \<Rightarrow> do {
        (w, res) \<leftarrow> wal_append crc32 now (bp_wal (st_pool st)) (log_txn (th_id h) (th_last_lsn h) payload);
        let st' = put_pool ((st_pool st)\<lparr>bp_wal := w\<rparr>) st;
        Some (case res of
            Inl e \<Rightarrow> (Err (CoreWal e), st', h)
          | Inr l \<Rightarrow> (Ret l, st', h\<lparr>th_last_lsn := l\<rparr>))
      })"

definition finalize_page :: "(bytes \<Rightarrow> u32) \<Rightarrow> nat \<Rightarrow> lsn \<Rightarrow> unit act" where
  "finalize_page crc32 i l s =
     (case s of (st, h) \<Rightarrow>
        let p = guard_set_page_lsn i l (st_pool st);
            p = guard_modify i (update_checksum crc32) p
        in Some (Ret (), put_pool p st, h))"

definition log_insert :: "(bytes \<Rightarrow> u32) \<Rightarrow> u64 \<Rightarrow> nat \<Rightarrow> u64 \<Rightarrow> u16 \<Rightarrow> bytes \<Rightarrow> unit act" where
  "log_insert crc32 now i page slot bs =
     bindA (store_log crc32 now (Insert page slot bs)) (\<lambda>l. finalize_page crc32 i l)"


section \<open>Insert\<close>

definition page_insert_at :: "nat \<Rightarrow> bytes \<Rightarrow> u16 option act" where
  "page_insert_at i bs s =
     (case s of (st, h) \<Rightarrow> do {
        (b, slot) \<leftarrow> page_insert (page_of i st) bs;
        Some (Ret slot, put_page i b st, h)
      })"

fun try_pages :: "(bytes \<Rightarrow> u32) \<Rightarrow> u64 \<Rightarrow> bytes \<Rightarrow> u64 list \<Rightarrow> RecordId option act" where
  "try_pages crc32 now bs [] = ret None"
| "try_pages crc32 now bs (pid # pids) =
     bindA (with_write pid (\<lambda>i. bindA (page_insert_at i bs) (\<lambda>slot.
              case slot of
                None \<Rightarrow> ret None
              | Some slot \<Rightarrow> bindA (log_insert crc32 now i pid slot bs) (\<lambda>_. ret (Some (rid_new pid slot))))))
       (\<lambda>r. case r of Some rid \<Rightarrow> ret (Some rid) | None \<Rightarrow> try_pages crc32 now bs pids)"

definition add_heap_page :: "u64 \<Rightarrow> u64 \<Rightarrow> unit act" where
  "add_heap_page heap page s =
     (case s of (st, h) \<Rightarrow>
        Some (Ret (), st\<lparr>st_pages := (st_pages st)(heap \<mapsto> (case st_pages st heap of Some ps \<Rightarrow> ps | None \<Rightarrow> []) @ [page]),
            st_page_heap := (st_page_heap st)(page \<mapsto> heap)\<rparr>, h))"

definition init_heap_page :: "nat \<Rightarrow> unit act" where
  "init_heap_page i s = (case s of (st, h) \<Rightarrow> Some (Ret (), put_page i (page_init Heap) st, h))"

definition insert_fresh_page :: "(bytes \<Rightarrow> u32) \<Rightarrow> u64 \<Rightarrow> u64 \<Rightarrow> bytes \<Rightarrow> RecordId act" where
  "insert_fresh_page crc32 now heap bs =
     with_new_page (\<lambda>pid i.
       bindA (init_heap_page i) (\<lambda>_.
       bindA (page_insert_at i bs) (\<lambda>slot.
         case slot of
           None \<Rightarrow> raise SerializationFailure
         | Some slot \<Rightarrow>
             bindA (store_log crc32 now (HeapPage heap pid)) (\<lambda>_.
             bindA (log_insert crc32 now i pid slot bs) (\<lambda>_.
             bindA (add_heap_page heap pid) (\<lambda>_.
             ret (rid_new pid slot)))))))"

definition insert_bytes :: "(bytes \<Rightarrow> u32) \<Rightarrow> u64 \<Rightarrow> u64 \<Rightarrow> bytes \<Rightarrow> RecordId act" where
  "insert_bytes crc32 now heap bs s =
     (let candidates = (case st_pages (fst s) heap of Some ps \<Rightarrow> ps | None \<Rightarrow> [])
      in bindA (try_pages crc32 now bs (rev candidates)) (\<lambda>r.
           case r of Some rid \<Rightarrow> ret rid | None \<Rightarrow> insert_fresh_page crc32 now heap bs) s)"

definition store_insert :: "(bytes \<Rightarrow> u32) \<Rightarrow> u64 \<Rightarrow> u64 \<Rightarrow> bytes \<Rightarrow> RecordId act" where
  "store_insert crc32 now heap payload s =
     insert_bytes crc32 now heap (encode_version (new_insert (th_id (snd s))) payload) s"


section \<open>Read and scan\<close>

definition get_record :: "bytes \<Rightarrow> u16 \<Rightarrow> bytes option act" where
  "get_record b slot s = do { r \<leftarrow> record_at b slot; Some (Ret r, s) }"

definition sees :: "RecordStore \<Rightarrow> TxnHandle \<Rightarrow> RecordHeader \<Rightarrow> bool" where
  "sees st h header \<longleftrightarrow> visible header (th_snapshot h) (tm_commit_log (st_txns st))"

text \<open>One step of the walk: the payload, the older version to look at, or nothing.\<close>

definition read_step :: "RecordId \<Rightarrow> (bytes option + RecordId) act" where
  "read_step r =
     with_read (rid_page r) (\<lambda>b. bindA (get_record b (rid_slot r)) (\<lambda>rec s.
       Some (Ret (case rec of
           None \<Rightarrow> Inl None
         | Some rec \<Rightarrow>
             (case header_decode rec of
                None \<Rightarrow> Inl None
              | Some header \<Rightarrow>
                  if sees (fst s) (snd s) header then Inl (Some (drop MVCC_HEADER_SIZE rec))
                  else (case prev_version header of None \<Rightarrow> Inl None | Some r' \<Rightarrow> Inr r'))), s)))"

fun read_chain :: "nat \<Rightarrow> RecordId \<Rightarrow> bytes option act" where
  "read_chain 0 r s = None"
| "read_chain (Suc n) r s =
     bindA (read_step r) (\<lambda>x. case x of Inl v \<Rightarrow> ret v | Inr r' \<Rightarrow> read_chain n r') s"

fun scan_slots :: "u64 \<Rightarrow> bytes \<Rightarrow> nat list \<Rightarrow> (RecordId \<times> bytes) list act" where
  "scan_slots pid b [] = ret []"
| "scan_slots pid b (slot # slots) =
     bindA (get_record b (word_of_nat slot)) (\<lambda>rec.
     bindA (scan_slots pid b slots) (\<lambda>out s.
       Some (Ret (case rec of
           None \<Rightarrow> out
         | Some rec \<Rightarrow>
             (case header_decode rec of
                None \<Rightarrow> out
              | Some header \<Rightarrow>
                  if sees (fst s) (snd s) header
                  then (rid_new pid (word_of_nat slot), drop MVCC_HEADER_SIZE rec) # out else out)), s)))"

fun scan_pages :: "u64 list \<Rightarrow> (RecordId \<times> bytes) list act" where
  "scan_pages [] = ret []"
| "scan_pages (pid # pids) =
     bindA (with_read pid (\<lambda>b. scan_slots pid b [0..<unat (hdr_slot_count b)])) (\<lambda>xs.
     bindA (scan_pages pids) (\<lambda>ys. ret (xs @ ys)))"

definition store_scan :: "u64 \<Rightarrow> (RecordId \<times> bytes) list act" where
  "store_scan heap s = scan_pages (case st_pages (fst s) heap of Some ps \<Rightarrow> ps | None \<Rightarrow> []) s"


section \<open>Update and delete\<close>

definition heap_of :: "u64 \<Rightarrow> u64 act" where
  "heap_of page s = (case st_page_heap (fst s) page of
     Some heap \<Rightarrow> ret heap s | None \<Rightarrow> raise SerializationFailure s)"

text \<open>\<open>locks.acquire\<close>: one round; \<open>expired\<close> says whether the deadline has passed.\<close>

definition acquire_lock :: "bool \<Rightarrow> RecordId \<Rightarrow> unit act" where
  "acquire_lock expired rid s =
     (case s of (st, h) \<Rightarrow>
        let (lm, step) = acquire_round (th_id h) rid expired (tm_locks (st_txns st));
            st' = st\<lparr>st_txns := (st_txns st)\<lparr>tm_locks := lm\<rparr>\<rparr>
        in Some (case step of
             Acquired \<Rightarrow> (Ret (), st', h)
           | Failed e \<Rightarrow> (Err (CoreLock e), st', h)
           | MustWait \<Rightarrow> (Waits, st', h)))"

definition check_writable :: "RecordHeader \<Rightarrow> unit act" where
  "check_writable header s =
     (case s of (st, h) \<Rightarrow>
        if \<not> sees st h header then raise SerializationFailure s
        else if is_deleted header \<and> xmax header \<noteq> th_id h then raise SerializationFailure s
        else ret () s)"

definition validate_target :: "RecordId \<Rightarrow> unit act" where
  "validate_target rid =
     with_read (rid_page rid) (\<lambda>b. bindA (get_record b (rid_slot rid)) (\<lambda>rec.
       case Option.bind rec header_decode of
         None \<Rightarrow> raise SerializationFailure
       | Some header \<Rightarrow> check_writable header))"

text \<open>\<open>after[8..16]\<close> panics on a record shorter than sixteen bytes.\<close>

definition stamp_xmax :: "(bytes \<Rightarrow> u32) \<Rightarrow> u64 \<Rightarrow> RecordId \<Rightarrow> bool \<Rightarrow> unit act" where
  "stamp_xmax crc32 now rid is_delete =
     with_write (rid_page rid) (\<lambda>i s. case s of (st, h) \<Rightarrow> do {
       rec \<leftarrow> record_at (page_of i st) (rid_slot rid);
       case rec of
         None \<Rightarrow> raise SerializationFailure s
       | Some before \<Rightarrow> do {
           after \<leftarrow> copy_at 8 (to_le_bytes (th_id h)) before;
           dst \<leftarrow> get_mut (page_of i st) (rid_slot rid);
           case dst of
             None \<Rightarrow> raise SerializationFailure s
           | Some (off, len) \<Rightarrow>
               bindA (store_log crc32 now
                   (if is_delete then Delete (rid_page rid) (rid_slot rid) before
                    else Update (rid_page rid) (rid_slot rid) before after))
                 (\<lambda>l. finalize_page crc32 i l)
                 (put_page i (wr off after (page_of i st)) st, h)
         }
     })"

definition store_update :: "(bytes \<Rightarrow> u32) \<Rightarrow> u64 \<Rightarrow> bool \<Rightarrow> RecordId \<Rightarrow> bytes \<Rightarrow> RecordId act" where
  "store_update crc32 now expired rid payload s =
     bindA (heap_of (rid_page rid)) (\<lambda>heap.
     bindA (acquire_lock expired rid) (\<lambda>_.
     bindA (validate_target rid) (\<lambda>_.
     bindA (insert_bytes crc32 now heap (encode_version
         \<lparr>xmin = th_id (snd s), xmax = NO_TXN, prev_version = Some rid, hdr_flags = 0\<rparr> payload)) (\<lambda>new_rid.
     bindA (stamp_xmax crc32 now rid False) (\<lambda>_.
     ret new_rid))))) s"

definition store_delete :: "(bytes \<Rightarrow> u32) \<Rightarrow> u64 \<Rightarrow> bool \<Rightarrow> RecordId \<Rightarrow> unit act" where
  "store_delete crc32 now expired rid =
     bindA (acquire_lock expired rid) (\<lambda>_.
     bindA (validate_target rid) (\<lambda>_.
     stamp_xmax crc32 now rid True))"


section \<open>Checkpoint and heap directory\<close>

definition checkpoint :: "RecordStore \<Rightarrow> RecordStore" where
  "checkpoint st = put_pool (flush_all (st_pool st)) st"

definition seed_heap_directory :: "(u64 \<times> u64 list) list \<Rightarrow> RecordStore \<Rightarrow> RecordStore" where
  "seed_heap_directory heaps st =
     fold (\<lambda>(heap, pages) st. st\<lparr>st_page_heap := fold (\<lambda>page m. m(page \<mapsto> heap)) pages (st_page_heap st),
        st_pages := (st_pages st)(heap \<mapsto> (case st_pages st heap of Some ps \<Rightarrow> ps | None \<Rightarrow> []) @ pages)\<rparr>)
       heaps st"

section \<open>The pool under the store\<close>

lemma act_simps [simp]:
  "bindA (ret x) f s = f x s" "bindA (raise e) f s = raise e s"
  "ret x s = Some (Ret x, s)" "raise e s = Some (Err e, s)"
  by (simp_all add: bindA_def ret_def raise_def)

lemma bindA_cases:
  "m s = Some (Ret x, s') \<Longrightarrow> bindA m f s = f x s'"
  "m s = Some (Err e, s') \<Longrightarrow> bindA m f s = Some (Err e, s')"
  "m s = Some (Waits, s') \<Longrightarrow> bindA m f s = Some (Waits, s')"
  by (simp_all add: bindA_def)

lemma put_pool_simps [simp]:
  "st_pool (put_pool p st) = p" "st_txns (put_pool p st) = (st_txns st)\<lparr>tm_wal := bp_wal p\<rparr>"
  "st_pages (put_pool p st) = st_pages st" "st_page_heap (put_pool p st) = st_page_heap st"
  by (simp_all add: put_pool_def)

lemma log_flushes_segment: "log_flushes w w' \<Longrightarrow> wal_segment_size w' = wal_segment_size w"
proof -
  have "wal_segment_size (fold flush_through ls w) = wal_segment_size w" for ls
    by (induction ls arbitrary: w) (simp_all add: flush_through_def flush_publish_def flush_sync_def sync_file_def Let_def split_beta split: option.splits)
  then show "log_flushes w w' \<Longrightarrow> ?thesis" by (auto simp: log_flushes_def)
qed

text \<open>The active segment is the newest.\<close>

definition wal_top :: "Wal \<Rightarrow> bool" where
  "wal_top w \<longleftrightarrow> (\<forall>k. map_of (wal_files w) k \<noteq> None \<longrightarrow> k \<le> wal_active_id w)"

lemma flush_through_files [simp]:
  "wal_files (flush_through l w) = wal_files w" "wal_active_id (flush_through l w) = wal_active_id w"
  by (auto simp: flush_through_def flush_publish_def flush_sync_def sync_file_def Let_def split_beta split: option.splits)

lemma log_flushes_top: "log_flushes w w' \<Longrightarrow> wal_top w' = wal_top w"
proof -
  have "wal_top (fold flush_through ls w) = wal_top w" for ls
    by (induction ls arbitrary: w) (simp_all add: wal_top_def)
  then show "log_flushes w w' \<Longrightarrow> ?thesis" by (auto simp: log_flushes_def)
qed

definition pool_up :: "BufferPool \<Rightarrow> bool" where
  "pool_up p \<longleftrightarrow> pool_inv p \<and> alloc_ok p \<and> 64 \<le> wal_segment_size (bp_wal p) \<and> wal_top (bp_wal p)"

definition pins :: "BufferPool \<Rightarrow> nat list" where
  "pins p = map fr_pins (bp_frames p)"

text \<open>Every frame is pinned, or a log segment cannot hold the records of one page.\<close>

definition tight :: "RecordStore \<Rightarrow> bool" where
  "tight st \<longleftrightarrow> wal_segment_size (bp_wal (st_pool st)) < 20000"

definition strained :: "RecordStore \<Rightarrow> bool" where
  "strained st \<longleftrightarrow> 0 \<notin> set (pins (st_pool st)) \<or> tight st"

text \<open>The heap tables and the transactions stay; the shared log and the pool may move on.\<close>

definition drift :: "RecordStore \<Rightarrow> RecordStore \<Rightarrow> bool" where
  "drift st st' \<longleftrightarrow> st_pages st' = st_pages st \<and> st_page_heap st' = st_page_heap st \<and>
     st_txns st' = (st_txns st)\<lparr>tm_wal := bp_wal (st_pool st')\<rparr> \<and> pool_up (st_pool st') \<and>
     wal_segment_size (bp_wal (st_pool st')) = wal_segment_size (bp_wal (st_pool st)) \<and>
     page_count (bp_disk (st_pool st')) = page_count (bp_disk (st_pool st))"

text \<open>The same, with the same pins.\<close>

definition evolves :: "RecordStore \<Rightarrow> RecordStore \<Rightarrow> bool" where
  "evolves st st' \<longleftrightarrow> drift st st' \<and> pins (st_pool st') = pins (st_pool st)"

text \<open>The same, with pages allocated.\<close>

definition grown :: "RecordStore \<Rightarrow> RecordStore \<Rightarrow> bool" where
  "grown st st' \<longleftrightarrow> st_pages st' = st_pages st \<and> st_page_heap st' = st_page_heap st \<and>
     st_txns st' = (st_txns st)\<lparr>tm_wal := bp_wal (st_pool st')\<rparr> \<and> pool_up (st_pool st') \<and>
     wal_segment_size (bp_wal (st_pool st')) = wal_segment_size (bp_wal (st_pool st)) \<and>
     page_count (bp_disk (st_pool st)) \<le> page_count (bp_disk (st_pool st')) \<and>
     page_count (bp_disk (st_pool st')) \<le> page_count (bp_disk (st_pool st)) + 1"

lemmas evolves_defs = evolves_def drift_def

lemma evolves_trans: "evolves a b \<Longrightarrow> evolves b c \<Longrightarrow> evolves a c"
  by (auto simp: evolves_defs)

lemma evolves_drift: "evolves st st' \<Longrightarrow> drift st st'"
  by (simp add: evolves_def)

lemma tight_kept: "drift st st' \<Longrightarrow> tight st' = tight st" "evolves st st' \<Longrightarrow> tight st' = tight st" "grown st st' \<Longrightarrow> tight st' = tight st"
  by (simp_all add: evolves_defs grown_def tight_def)

lemma tight_strained: "tight st \<Longrightarrow> strained st"
  by (simp add: strained_def)

lemma strained_evolves: "evolves st st' \<Longrightarrow> strained st' = strained st"
  by (simp add: evolves_defs strained_def tight_def)

lemma drift_grown: "drift st st' \<Longrightarrow> grown st st'"
  by (simp add: drift_def grown_def)

lemmas evolves_grown = drift_grown [OF evolves_drift]

lemma grown_trans: "grown a b \<Longrightarrow> evolves b c \<Longrightarrow> grown a c"
  by (auto simp: evolves_defs grown_def)

text \<open>A frame held through a write guard, with its content.\<close>

definition held :: "nat \<Rightarrow> u64 \<Rightarrow> bytes \<Rightarrow> RecordStore \<Rightarrow> bool" where
  "held i page b st \<longleftrightarrow> pool_up (st_pool st) \<and> handle (st_pool st) i page \<and>
     fr_latched (bp_frames (st_pool st) ! i) \<and> page_of i st = b"

abbreviation view :: "RecordStore \<Rightarrow> pages" where
  "view st \<equiv> pool_view (st_pool st)"

lemma held_view: "held i page b st \<Longrightarrow> view st page = Some b"
  by (auto simp: held_def pool_up_def page_of_def handle_view)

lemma upd_frame_pins:
  assumes "\<And>f. fr_pins (g f) = fr_pins f"
  shows "pins (upd_frame i g p) = pins p"
proof (cases "i < length (bp_frames p)")
  case True
  then have "(map fr_pins (bp_frames p))[i := fr_pins (bp_frames p ! i)] = map fr_pins (bp_frames p)"
    by (metis list_update_id nth_map)
  then show ?thesis using assms by (simp add: pins_def upd_frame_def map_update)
qed (simp add: pins_def upd_frame_def list_update_beyond)

lemma find_victim_pins:
  assumes "pool_inv p" and "find_victim p = (p', res)"
  shows "pins p' = pins p"
proof (rule sweep_keeps [where P = "\<lambda>q. pins q = pins p", OF _ _ _ _ assms(1) refl assms(2) [unfolded find_victim_def]])
  fix q i assume "pins q = pins p"
  then show "pins (clear_victim i q) = pins p"
    by (simp add: clear_victim_def upd_frame_pins Let_def split: option.splits) (simp add: pins_def)
qed (simp_all add: upd_frame_pins, simp_all add: pins_def write_back_def)

lemma pin_pins:
  assumes "pool_inv p" and "pin_for_access page p = (p', res)"
  shows "case res of Inl e \<Rightarrow> pins p' = pins p | Inr i \<Rightarrow> pins p' = (pins p)[i := Suc (pins p ! i)] \<and> i < length (pins p)"
proof (cases "bp_table p page")
  case None
  obtain p1 r1 where v: "find_victim p = (p1, r1)" by fastforce
  note k = find_victim_pins [OF assms(1) v] find_victim_spec(3,6) [OF assms(1) v]
  have "pins (seat page c l i p1) = (pins p)[i := Suc (pins p ! i)] \<and> i < length (pins p)" if "r1 = Inr i" for c l i
  proof -
    have "fr_pins (bp_frames p1 ! i) = 0" "i < length (bp_frames p)" using k(3) [OF that] by (simp_all add: victim_ok_def)
    then have "pins p ! i = 0" using k(1,2) by (metis pins_def nth_map)
    then show ?thesis using k(1,2) \<open>i < length (bp_frames p)\<close>
      by (simp add: pins_def seat_def upd_frame_def map_update)
  qed
  then show ?thesis using assms(2) None v k(1)
    by (cases r1) (auto simp: pin_for_access_def install_page_def split: sum.splits)
next
  case (Some i)
  have i: "i < length (bp_frames p)" "fr_page (bp_frames p ! i) = Some page" using pool_inv_table [OF assms(1)] Some by blast+
  then show ?thesis using assms(2) Some by (auto simp: pin_for_access_def pins_def upd_frame_def map_update)
qed

lemma unpin_pins: "i < length (bp_frames p) \<Longrightarrow> pins (unpin i p) = (pins p)[i := pins p ! i - 1]"
  by (simp add: unpin_def upd_frame_def pins_def map_update)

lemma pin_up:
  assumes up: "pool_up p" and q: "unat page < page_count (bp_disk p)" and "pin_for_access page p = (p', res)"
  shows "pool_up p'" and "page_count (bp_disk p') = page_count (bp_disk p)"
    and "wal_segment_size (bp_wal p') = wal_segment_size (bp_wal p)"
proof -
  have inv: "pool_inv p" "alloc_ok p" using up by (simp_all add: pool_up_def)
  show "page_count (bp_disk p') = page_count (bp_disk p)" by (rule pin_table(2) [OF inv(1) assms(3)])
  then have "alloc_ok p'" using alloc_okI [OF inv(2) pin_table(1) [OF inv(1) assms(3)]] q by simp
  moreover show "wal_segment_size (bp_wal p') = wal_segment_size (bp_wal p)"
    by (rule log_flushes_segment [OF pin_log [OF inv(1) assms(3)]])
  ultimately show "pool_up p'"
    using up pin_spec(1) [OF inv(1) assms(3)] log_flushes_top [OF pin_log [OF inv(1) assms(3)]] by (simp add: pool_up_def)
qed

lemma pin_fails_strained:
  assumes "pool_inv (st_pool st)" and "view st page = Some b" and "pin_for_access page (st_pool st) = (p, Inl e)"
  shows "strained st"
proof (rule ccontr)
  assume "\<not> strained st"
  then obtain j where "j < length (bp_frames (st_pool st))" "fr_pins (bp_frames (st_pool st) ! j) = 0"
    by (auto simp: strained_def pins_def in_set_conv_nth)
  then show False using pin_succeeds [OF assms(1,2)] assms(3) by auto
qed

lemma drift_put:
  "pool_up p \<Longrightarrow> page_count (bp_disk p) = page_count (bp_disk (st_pool st)) \<Longrightarrow>
   wal_segment_size (bp_wal p) = wal_segment_size (bp_wal (st_pool st)) \<Longrightarrow> drift st (put_pool p st)"
  by (simp add: drift_def)

lemma with_read_spec:
  assumes up: "pool_up (st_pool st)" and q: "unat page < page_count (bp_disk (st_pool st))" and v: "view st page = Some b"
    and body: "\<And>st1. drift st st1 \<Longrightarrow> view st1 = view st \<Longrightarrow> body b (st1, h) = Some (x, st1, h)"
  shows "\<exists>st' res. with_read page body (st, h) = Some (res, st', h) \<and> evolves st st' \<and> view st' = view st \<and>
    (res = x \<or> (\<exists>n. res = Err (CoreBuffer (Exhausted n))) \<and> strained st)"
proof -
  obtain p r where f: "fetch_read page (st_pool st) = (p, r)" by fastforce
  then have pin: "pin_for_access page (st_pool st) = (p, r)" by (simp add: fetch_read_def)
  have inv: "pool_inv (st_pool st)" using up by (simp add: pool_up_def)
  note ps = pin_spec [OF inv pin] and pu = pin_up [OF up q pin] and pp = pin_pins [OF inv pin]
  have ev: "drift st (put_pool p st)" using pu by (simp add: drift_put)
  show ?thesis
  proof (cases r)
    case (Inl e)
    then show ?thesis using f ev pp ps(2) ps(5) [OF Inl] v pin_fails_strained [OF inv v] pin
      by (auto simp: with_read_def evolves_def)
  next
    case (Inr i)
    have h: "handle p i page" "fr_latched (bp_frames p ! i) \<longrightarrow> fr_pins (bp_frames p ! i) > 1" using ps(4) [OF Inr] by simp_all
    then have i: "i < length (bp_frames p)" by (simp add: handle_def)
    have "fr_content (bp_frames p ! i) = b" using handle_view [OF ps(1) h(1)] ps(2) v by simp
    then have bd: "body (fr_content (bp_frames p ! i)) (put_pool p st, h) = Some (x, put_pool p st, h)"
      using body [OF ev] ps(2) by simp
    note rg = read_guard_drop_spec [OF ps(1) i h(2)]
    have "pool_up (read_guard_drop i p)" using rg(1) pu(1) by (auto simp: pool_up_def read_guard_drop_def unpin_def alloc_ok_def)
    moreover have "bp_disk (read_guard_drop i p) = bp_disk p" "bp_wal (read_guard_drop i p) = bp_wal p"
      by (simp_all add: read_guard_drop_def unpin_def)
    moreover have "pins (read_guard_drop i p) = pins (st_pool st)"
      using pp Inr i by (simp add: read_guard_drop_def unpin_pins)
    ultimately have "evolves st (put_pool (read_guard_drop i p) (put_pool p st))"
      using pu(2,3) by (simp add: evolves_defs)
    then show ?thesis using f Inr bd rg(2) ps(2) by (auto simp: with_read_def)
  qed
qed

lemma drop_held:
  assumes "held i page b st"
  shows "drift st (put_pool (write_guard_drop i page (st_pool st)) st)"
    and "view (put_pool (write_guard_drop i page (st_pool st)) st) = view st"
    and "pins (write_guard_drop i page (st_pool st)) = (pins (st_pool st))[i := pins (st_pool st) ! i - 1]"
proof -
  let ?p = "write_guard_drop i page (st_pool st)"
  have h: "pool_inv (st_pool st)" "handle (st_pool st) i page" "fr_latched (bp_frames (st_pool st) ! i)"
    using assms by (simp_all add: held_def pool_up_def)
  note wg = write_guard_drop_spec [OF h]
  have "bp_table ?p = bp_table (st_pool st)" "bp_disk ?p = bp_disk (st_pool st)" "bp_wal ?p = bp_wal (st_pool st)"
    by (simp_all add: write_guard_drop_def unpin_def Let_def)
  then show "drift st (put_pool ?p st)"
    using wg(1) assms by (intro drift_put) (simp_all add: held_def pool_up_def alloc_ok_def)
  show "view (put_pool ?p st) = view st" using wg(2) by simp
  have "i < length (bp_frames (st_pool st))" using h(2) by (simp add: handle_def)
  then show "pins ?p = (pins (st_pool st))[i := pins (st_pool st) ! i - 1]"
    by (simp add: write_guard_drop_def Let_def unpin_def upd_frame_def pins_def map_update)
qed

lemma with_write_spec:
  assumes up: "pool_up (st_pool st)" and q: "unat page < page_count (bp_disk (st_pool st))" and v: "view st page = Some b"
    and body: "\<And>i st1. drift st st1 \<Longrightarrow> held i page b st1 \<Longrightarrow> view st1 = view st \<Longrightarrow>
      \<exists>x st2 h2 b2. body i (st1, h) = Some (x, st2, h2) \<and> evolves st1 st2 \<and> held i page b2 st2 \<and>
        view st2 = (view st)(page \<mapsto> b2) \<and> Q x b2 h2"
  shows "\<exists>st' res h'. with_write page body (st, h) = Some (res, st', h') \<and> evolves st st' \<and>
    ((\<exists>n. res = Err (CoreBuffer (Exhausted n)) \<and> strained st \<and> view st' = view st \<and> h' = h) \<or>
     (\<exists>b'. view st' = (view st)(page \<mapsto> b') \<and> Q res b' h'))"
proof -
  obtain p r where f: "fetch_write page (st_pool st) = (p, r)" by fastforce
  obtain p1 r1 where pin: "pin_for_access page (st_pool st) = (p1, r1)" by fastforce
  have inv: "pool_inv (st_pool st)" using up by (simp add: pool_up_def)
  note fs = fetch_write_spec [OF inv f] and pu = pin_up [OF up q pin] and pp = pin_pins [OF inv pin]
  have lw: "bp_wal p = bp_wal p1 \<and> bp_table p = bp_table p1 \<and> bp_disk p = bp_disk p1" "r = r1"
    using f pin latch_wal [of p1 r1 p r] by (auto simp: fetch_write_def latch_def split: sum.splits)
  have lp: "pins p = pins p1" using f pin by (cases r1) (auto simp: fetch_write_def latch_def upd_frame_pins)
  have pu': "pool_up p" using lw pu(1) fs(1) by (simp add: pool_up_def alloc_ok_def)
  have ev: "drift st (put_pool p st)" using pu(2,3) lw pu' by (simp add: drift_put)
  show ?thesis
  proof (cases r)
    case (Inl e)
    then show ?thesis using f ev pp lw(2) lp fs(2) fs(4) [OF Inl] v pin_fails_strained [OF inv v] pin
      by (auto simp: with_write_def evolves_def)
  next
    case (Inr i)
    have h: "handle p i page" "fr_latched (bp_frames p ! i)" using fs(3) [OF Inr] by simp_all
    have "held i page b (put_pool p st)"
      using h pu' handle_view [OF fs(1) h(1)] fs(2) v by (simp add: held_def page_of_def)
    then obtain x st2 h2 b2 where b: "body i (put_pool p st, h) = Some (x, st2, h2)" "evolves (put_pool p st) st2"
        "held i page b2 st2" "view st2 = (view st)(page \<mapsto> b2)" "Q x b2 h2"
      using body [OF ev] fs(2) by fastforce
    note d = drop_held [OF b(3)]
    have "pins (st_pool st2) = (pins (st_pool st))[i := Suc (pins (st_pool st) ! i)]" "i < length (pins (st_pool st))"
      using b(2) pp lw(2) [symmetric] lp Inr by (simp_all add: evolves_def)
    then have "pins (write_guard_drop i page (st_pool st2)) = pins (st_pool st)" using d(3) by simp
    then have "evolves st (put_pool (write_guard_drop i page (st_pool st2)) st2)"
      using ev b(2) d(1) by (simp add: evolves_defs)
    then show ?thesis using f Inr b(1,4,5) d(2) by (auto simp: with_write_def)
  qed
qed

section \<open>Writing through a guard\<close>

definition same_txn :: "TxnHandle \<Rightarrow> TxnHandle \<Rightarrow> bool" where
  "same_txn h h' \<longleftrightarrow> (\<exists>l. h' = h\<lparr>th_last_lsn := l\<rparr>)"

lemma same_txn_refl [simp]: "same_txn h h"
  unfolding same_txn_def by (rule exI [of _ "th_last_lsn h"]) simp

lemma same_txn_trans: "same_txn a b \<Longrightarrow> same_txn b c \<Longrightarrow> same_txn a c"
  by (auto simp: same_txn_def)

lemma same_txnD: "same_txn h h' \<Longrightarrow> th_id h' = th_id h" "same_txn h h' \<Longrightarrow> th_snapshot h' = th_snapshot h"
  by (auto simp: same_txn_def)

lemma held_upd:
  assumes h: "held i page b st" and b': "b' = g b" "\<And>b. length b = 8192 \<Longrightarrow> length (g b) = 8192"
    and st': "st' = put_pool (upd_frame i (\<lambda>f. f\<lparr>fr_content := g (fr_content f), fr_lsn := m (fr_lsn f)\<rparr>) (st_pool st)) st"
  shows "evolves st st'" and "held i page b' st'" and "view st' = (view st)(page \<mapsto> b')"
proof -
  have a: "pool_inv (st_pool st)" "handle (st_pool st) i page" "fr_latched (bp_frames (st_pool st) ! i)"
      "fr_content (bp_frames (st_pool st) ! i) = b" "pool_up (st_pool st)"
    using h by (simp_all add: held_def pool_up_def page_of_def)
  note l = latched_upd_spec [where g = g and m = m, OF a(1-3) b'(2) refl]
  have up: "pool_up (st_pool st')" using l(1) a(5) by (simp add: st' pool_up_def alloc_ok_def)
  show "evolves st st'" using up by (simp add: st' evolves_def drift_put upd_frame_pins)
  show "held i page b' st'" using l(3,4) up a by (simp add: st' held_def page_of_def handle_def b'(1))
  show "view st' = (view st)(page \<mapsto> b')" using l(2) a(4) by (simp add: st' b'(1))
qed

lemma held_put_page:
  assumes "held i page b st" and "length b' = 8192"
  shows "evolves st (put_page i b' st)" and "held i page b' (put_page i b' st)"
    and "view (put_page i b' st) = (view st)(page \<mapsto> b')"
  using held_upd [OF assms(1), of b' "\<lambda>_. b'" _ "\<lambda>x. x"] assms(2) by (simp_all add: put_page_def)

lemma wal_append_segment:
  "wal_append crc32 now w r = Some (w', res) \<Longrightarrow> wal_segment_size w' = wal_segment_size w"
  by (auto simp: wal_append_def wal_write_def wal_rotate_def create_segment_def sync_file_def Let_def split_beta
      split: if_splits sum.splits Option.bind_splits option.splits)

lemma wal_append_runs: "64 \<le> wal_segment_size w \<Longrightarrow> \<exists>w' res. wal_append crc32 now w r = Some (w', res)"
  by (auto simp: wal_append_def checked_sub_def Let_def split_beta split: sum.splits)

lemma wal_append_top:
  assumes "wal_top w" and "wal_append crc32 now w r = Some (w', res)"
  shows "wal_top w'" and "res = Inl e \<Longrightarrow> wal_segment_size w < 64 + frame_len r"
proof -
  obtain rtype body where e: "encode_body (lr_payload r) = (rtype, body)" by fastforce
  have fl: "frame_len r = RECORD_HEADER_SIZE + length body + RECORD_CRC_SIZE" by (simp add: frame_len_def e)
  have new: "map_of (wal_files w) (wal_active_id w + 1) = None"
    using assms(1) by (metis add_le_same_cancel1 not_one_le_zero wal_top_def)
  have rot: "\<exists>w1. wal_rotate crc32 now w = (w1, Inr ()) \<and> wal_top w1"
  proof -
    have "wal_top w1" if "wal_files w1 = AList.update (wal_active_id w + 1) b (wal_files w)" "wal_active_id w1 = wal_active_id w + 1" for w1 b
      using assms(1) that by (force simp: wal_top_def update_conv' split: if_splits)
    moreover have "wal_files (sync_file k w2) = wal_files w2" "wal_active_id (sync_file k w2) = wal_active_id w2" for k w2
      by (simp_all add: sync_file_def split: option.splits)
    ultimately show ?thesis using new by (simp add: wal_rotate_def create_segment_def Let_def)
  qed
  have wr: "wal_top (fst (wal_write crc32 w1 r))" if "wal_top w1" "map_of (wal_files w1) (wal_active_id w1) \<noteq> None \<or> True" for w1
    using that by (auto simp: wal_top_def wal_write_def Let_def split_beta update_conv')
  show "wal_top w'" "res = Inl e \<Longrightarrow> wal_segment_size w < 64 + frame_len r"
    using assms rot wr [of w] wr
    by (auto simp: wal_append_def e fl checked_sub_def Let_def split_beta split: if_splits)
qed

lemma pool_view_wal [simp]: "pool_view (p\<lparr>bp_wal := w\<rparr>) = pool_view p"
  by (simp add: pool_view_def fun_eq_iff split: option.splits)

lemma store_log_spec:
  assumes up: "pool_up (st_pool st)"
  shows "\<exists>res st' h'. store_log crc32 now pl (st, h) = Some (res, st', h') \<and> evolves st st' \<and> view st' = view st \<and>
    same_txn h h' \<and> (\<forall>i page b. held i page b st \<longrightarrow> held i page b st') \<and>
    ((\<exists>l. res = Ret l) \<or> (\<exists>e. res = Err (CoreWal e)) \<and> (length (snd (encode_body pl)) \<le> 19000 \<longrightarrow> tight st))"
proof -
  obtain w res where w: "wal_append crc32 now (bp_wal (st_pool st)) (log_txn (th_id h) (th_last_lsn h) pl) = Some (w, res)"
    using wal_append_runs up by (fastforce simp: pool_up_def)
  let ?st = "put_pool ((st_pool st)\<lparr>bp_wal := w\<rparr>) st"
  have up': "pool_up (st_pool ?st)"
    using up wal_append_segment [OF w] wal_append_top(1) [OF _ w] by (auto simp: pool_up_def pool_inv_def alloc_ok_def)
  then have "evolves st ?st" using wal_append_segment [OF w] by (simp add: evolves_def drift_put pins_def)
  moreover have "held i page b ?st" if "held i page b st" for i page b
    using that up' by (simp add: held_def handle_def page_of_def)
  moreover have "same_txn h (h\<lparr>th_last_lsn := l\<rparr>)" for l by (auto simp: same_txn_def)
  moreover have "wal_segment_size (bp_wal (st_pool st)) < 20000" if "res = Inl e" "length (snd (encode_body pl)) \<le> 19000" for e
    using wal_append_top(2) [OF _ w that(1)] up that(2) by (simp add: pool_up_def frame_len_def log_txn_def)
  ultimately show ?thesis using w by (cases res) (auto simp: store_log_def tight_def)
qed

lemma finalize_upd:
  assumes "i < length (bp_frames p)"
  shows "guard_modify i (update_checksum crc32) (guard_set_page_lsn i l p) =
    upd_frame i (\<lambda>f. f\<lparr>fr_content := update_checksum crc32 (set_page_lsn (fr_content f) l), fr_lsn := max (fr_lsn f) l\<rparr>) p"
  unfolding guard_modify_def guard_set_page_lsn_def upd_frame_twice [OF assms]
  by (rule arg_cong [where f = "\<lambda>g. upd_frame i g p"]) (simp add: fun_eq_iff)

lemma finalize_page_spec:
  assumes h: "held i page b st" and len: "length b = 8192"
  shows "\<exists>st'. finalize_page crc32 i l (st, h) = Some (Ret (), st', h) \<and> evolves st st' \<and>
    held i page (update_checksum crc32 (set_page_lsn b l)) st' \<and>
    view st' = (view st)(page \<mapsto> update_checksum crc32 (set_page_lsn b l))"
proof -
  let ?g = "\<lambda>b. update_checksum crc32 (set_page_lsn b l)"
  have "i < length (bp_frames (st_pool st))" using h by (simp add: held_def handle_def)
  then have "finalize_page crc32 i l (st, h) = Some (Ret (), put_pool (upd_frame i
      (\<lambda>f. f\<lparr>fr_content := ?g (fr_content f), fr_lsn := max (fr_lsn f) l\<rparr>) (st_pool st)) st, h)"
    by (simp only: finalize_page_def finalize_upd Let_def prod.case)
  moreover have "length (?g c) = 8192" if "length c = 8192" for c
    using that by (simp add: update_checksum_frame set_page_lsn_frame)
  ultimately show ?thesis using held_upd [OF h refl, of ?g _ "\<lambda>x. max x l"] by blast
qed

text \<open>A page with the records \<open>a\<close>; redoing the checksum and the LSN keeps them.\<close>

definition holds_records :: "(nat \<Rightarrow> bytes option) \<Rightarrow> bytes \<Rightarrow> bool" where
  "holds_records a b \<longleftrightarrow> page_inv b \<and> page_abs b = a"

lemma holds_records_finalize:
  assumes "holds_records a b"
  shows "holds_records a (update_checksum crc32 (set_page_lsn b l))"
proof -
  have len: "length b = 8192" using assms page_inv_length by (auto simp: holds_records_def)
  let ?b = "update_checksum crc32 (set_page_lsn b l)"
  have "page_body ?b = page_body b" "length ?b = length b"
    using len by (simp_all add: update_checksum_frame set_page_lsn_frame)
  then show ?thesis using assms page_body_inv_abs [of ?b b] by (simp add: holds_records_def)
qed

lemma log_page_spec:
  assumes h: "held i page b st" and a: "holds_records a b" and pl: "length (snd (encode_body pl)) \<le> 19000"
  shows "\<exists>res st' h' b'. bindA (store_log crc32 now pl) (\<lambda>l. finalize_page crc32 i l) (st, h) = Some (res, st', h') \<and>
    evolves st st' \<and> same_txn h h' \<and> held i page b' st' \<and> view st' = (view st)(page \<mapsto> b') \<and> holds_records a b' \<and>
    (res = Ret () \<or> (\<exists>e. res = Err (CoreWal e)) \<and> tight st)"
proof -
  have len: "length b = 8192" using a page_inv_length by (auto simp: holds_records_def)
  have "pool_up (st_pool st)" using h by (simp add: held_def)
  then obtain res st1 h1 where l: "store_log crc32 now pl (st, h) = Some (res, st1, h1)" "evolves st st1" "view st1 = view st"
      "same_txn h h1" "held i page b st1" "(\<exists>l. res = Ret l) \<or> (\<exists>e. res = Err (CoreWal e)) \<and> tight st"
    using store_log_spec [of st crc32 now pl h] h pl by blast
  show ?thesis
  proof (cases "\<exists>l. res = Ret l")
    case True
    then obtain l where r: "res = Ret l" by blast
    obtain st2 where f: "finalize_page crc32 i l (st1, h1) = Some (Ret (), st2, h1)" "evolves st1 st2"
        "held i page (update_checksum crc32 (set_page_lsn b l)) st2"
        "view st2 = (view st1)(page \<mapsto> update_checksum crc32 (set_page_lsn b l))"
      using finalize_page_spec [OF l(5) len] by blast
    have "bindA (store_log crc32 now pl) (\<lambda>l. finalize_page crc32 i l) (st, h) = Some (Ret (), st2, h1)"
      using l(1) r f(1) by (simp add: bindA_cases(1))
    moreover have "view st2 = (view st)(page \<mapsto> update_checksum crc32 (set_page_lsn b l))" using f(4) l(3) by simp
    ultimately show ?thesis using l(4) f(3) holds_records_finalize [OF a, of crc32 l] evolves_trans [OF l(2) f(2)]
      by (intro exI [of _ "Ret ()"] exI [of _ st2] exI [of _ h1] exI [of _ "update_checksum crc32 (set_page_lsn b l)"] conjI) simp_all
  next
    case False
    then obtain e where "res = Err (CoreWal e)" "tight st" using l(6) by blast
    moreover have "view st1 = (view st)(page \<mapsto> b)" using l(3) held_view [OF h] by auto
    ultimately show ?thesis using l(1-5) a
      by (intro exI [of _ "Err (CoreWal e)"] exI [of _ st1] exI [of _ h1] exI [of _ b] conjI) (simp_all add: bindA_cases(2))
  qed
qed

lemma page_insert_at_spec:
  assumes h: "held i page b st" and a: "holds_records a b"
  shows "\<exists>slot st' b'. page_insert_at i bs (st, h) = Some (Ret slot, st', h) \<and> evolves st st' \<and> held i page b' st' \<and>
    view st' = (view st)(page \<mapsto> b') \<and> (case slot of
      None \<Rightarrow> \<not> page_fits b (length bs) \<and> b' = b
    | Some s \<Rightarrow> page_fits b (length bs) \<and> a (unat s) = None \<and> holds_records (a(unat s \<mapsto> bs)) b')"
proof -
  have inv: "page_inv b" "page_abs b = a" "page_of i st = b" using a h by (auto simp: holds_records_def held_def)
  note sp = page_insert_spec [OF inv(1), of bs]
  show ?thesis
  proof (cases "page_fits b (length bs)")
    case True
    then obtain b' s where p: "page_insert b bs = Some (b', Some s)" "page_inv b'" "a (unat s) = None"
        "page_abs b' = a(unat s \<mapsto> bs)" using sp inv(2) by auto
    then show ?thesis
      using True held_put_page [OF h page_inv_length [OF p(2)]] inv(3) by (auto simp: page_insert_at_def holds_records_def)
  next
    case False
    then have "page_insert b bs = Some (b, None)" using sp by simp
    then show ?thesis
      using False held_put_page [OF h page_inv_length [OF inv(1)]] inv(3) by (auto simp: page_insert_at_def)
  qed
qed

section \<open>Versions\<close>

definition tables_ok :: "RecordStore \<Rightarrow> bool" where
  "tables_ok st \<longleftrightarrow> (\<forall>page heap. st_page_heap st page = Some heap \<longleftrightarrow>
       (\<exists>ps. st_pages st heap = Some ps \<and> page \<in> set ps)) \<and>
     (\<forall>heap ps. st_pages st heap = Some ps \<longrightarrow> distinct ps)"

definition heap_page_ok :: "RecordStore \<Rightarrow> u64 \<Rightarrow> bool" where
  "heap_page_ok st page \<longleftrightarrow> unat page < page_count (bp_disk (st_pool st)) \<and>
     (\<exists>b. view st page = Some b \<and> page_inv b)"

definition store_ok :: "RecordStore \<Rightarrow> bool" where
  "store_ok st \<longleftrightarrow> pool_up (st_pool st) \<and> tm_wal (st_txns st) = bp_wal (st_pool st) \<and> tables_ok st \<and>
     (\<forall>page. st_page_heap st page \<noteq> None \<longrightarrow> heap_page_ok st page)"

text \<open>The stored versions: the records of the heap pages.\<close>

definition versions :: "RecordStore \<Rightarrow> RecordId \<Rightarrow> bytes option" where
  "versions st r =
     (if st_page_heap st (rid_page r) = None then None
      else case view st (rid_page r) of Some b \<Rightarrow> page_abs b (unat (rid_slot r)) | None \<Rightarrow> None)"

lemma evolves_refl: "store_ok st \<Longrightarrow> evolves st st"
  by (simp add: evolves_defs store_ok_def)

lemma store_okD:
  assumes "store_ok st" and "st_page_heap st page = Some heap"
  obtains b where "unat page < page_count (bp_disk (st_pool st))" "view st page = Some b" "page_inv b"
    "\<And>s. versions st (rid_new page s) = page_abs b (unat s)"
  using assms by (fastforce simp: store_ok_def heap_page_ok_def versions_def rid_new_def)

lemma grown_ok:
  assumes "store_ok st" and "grown st st'" and "\<And>page. st_page_heap st page \<noteq> None \<Longrightarrow> view st' page = view st page"
  shows "store_ok st' \<and> versions st' = versions st"
proof -
  have "heap_page_ok st' page" if "st_page_heap st page \<noteq> None" for page
  proof -
    have "heap_page_ok st page" using assms(1) that unfolding store_ok_def by blast
    then show ?thesis using assms(2) assms(3) [OF that] by (auto simp: heap_page_ok_def grown_def)
  qed
  moreover have "tables_ok st'" using assms(1,2) by (simp add: store_ok_def tables_ok_def grown_def)
  ultimately have "store_ok st'" using assms(2) by (simp add: store_ok_def grown_def)
  moreover have "versions st' r = versions st r" for r
    using assms(2) assms(3) [of "rid_page r"] by (simp add: versions_def grown_def)
  ultimately show ?thesis by blast
qed

lemmas evolves_ok = grown_ok [OF _ evolves_grown]

lemma evolves_page:
  assumes ok: "store_ok st" and ev: "evolves st st'" and v: "view st' = (view st)(page \<mapsto> b')"
    and hp: "st_page_heap st page = Some heap" and a: "holds_records a b'"
  shows "store_ok st'" and "versions st' r = (if rid_page r = page then a (unat (rid_slot r)) else versions st r)"
proof -
  have "heap_page_ok st' q" if "st_page_heap st q \<noteq> None" for q
  proof -
    have "heap_page_ok st q" using ok that unfolding store_ok_def by blast
    then show ?thesis using ev a v by (auto simp: heap_page_ok_def evolves_defs holds_records_def)
  qed
  moreover have "tables_ok st'" using ok ev by (simp add: store_ok_def tables_ok_def evolves_defs)
  ultimately show "store_ok st'" using ev by (simp add: store_ok_def evolves_defs)
  show "versions st' r = (if rid_page r = page then a (unat (rid_slot r)) else versions st r)"
    using ev hp a v by (auto simp: versions_def evolves_defs holds_records_def)
qed

definition added_version :: "u64 \<Rightarrow> RecordId \<Rightarrow> bytes \<Rightarrow> RecordStore \<Rightarrow> RecordStore \<Rightarrow> bool" where
  "added_version heap rid bs st st' \<longleftrightarrow> versions st rid = None \<and> versions st' = (versions st)(rid \<mapsto> bs) \<and>
     st_page_heap st' (rid_page rid) = Some heap"

lemma rid_new_eq: "r = rid_new page s \<longleftrightarrow> rid_page r = page \<and> rid_slot r = s"
  by (cases r) (simp add: rid_new_def)

lemma evolves_added:
  assumes ok: "store_ok st" and ev: "evolves st st'" and v: "view st' = (view st)(page \<mapsto> b')"
    and hp: "st_page_heap st page = Some heap" and b: "view st page = Some b"
    and free: "page_abs b (unat s) = None" and a: "holds_records ((page_abs b)(unat s \<mapsto> bs)) b'"
  shows "store_ok st' \<and> added_version heap (rid_new page s) bs st st'"
proof -
  note e = evolves_page [OF ok ev v hp a]
  have "versions st r = page_abs b (unat (rid_slot r))" if "rid_page r = page" for r
    using that hp b by (simp add: versions_def)
  then have "versions st' r = ((versions st)(rid_new page s \<mapsto> bs)) r" for r
    unfolding e(2) by (cases "rid_page r = page") (auto simp: rid_new_eq word_unat_eq_iff)
  moreover have "versions st (rid_new page s) = None" using hp b free by (simp add: versions_def rid_new_def)
  moreover have "st_page_heap st' page = Some heap" using ev hp by (simp add: evolves_defs)
  ultimately show ?thesis using e(1) by (auto simp: added_version_def rid_new_def)
qed

text \<open>Extending the heap directory by a fresh page that holds the records \<open>a\<close>.\<close>

definition add_page :: "u64 \<Rightarrow> u64 \<Rightarrow> RecordStore \<Rightarrow> RecordStore" where
  "add_page heap page st = st\<lparr>st_pages := (st_pages st)(heap \<mapsto> (case st_pages st heap of Some ps \<Rightarrow> ps | None \<Rightarrow> []) @ [page]),
     st_page_heap := (st_page_heap st)(page \<mapsto> heap)\<rparr>"

lemma add_page_simps [simp]:
  "st_pool (add_page heap page st) = st_pool st" "st_txns (add_page heap page st) = st_txns st"
  "st_page_heap (add_page heap page st) = (st_page_heap st)(page \<mapsto> heap)"
  "add_heap_page heap page (st, h) = Some (Ret (), add_page heap page st, h)"
  "put_pool p (add_page heap page st) = add_page heap page (put_pool p st)"
  by (simp_all add: add_page_def add_heap_page_def put_pool_def)

text \<open>The allocated pages that do not belong to a heap stay as they are and stay outside.\<close>

definition aside :: "RecordStore \<Rightarrow> RecordStore \<Rightarrow> bool" where
  "aside st st' \<longleftrightarrow> page_count (bp_disk (st_pool st)) \<le> page_count (bp_disk (st_pool st')) \<and>
     (\<forall>q. st_page_heap st q = None \<and> unat q < page_count (bp_disk (st_pool st)) \<longrightarrow>
        st_page_heap st' q = None \<and> (\<forall>c. view st q = Some c \<longrightarrow> view st' q = Some c))"

lemma aside_refl [simp]: "aside st st"
  by (simp add: aside_def)

lemma aside_trans: "aside a b \<Longrightarrow> aside b c \<Longrightarrow> aside a c"
  unfolding aside_def by (meson le_trans less_le_trans)

lemma evolves_aside:
  "evolves st st' \<Longrightarrow> view st' = view st \<Longrightarrow> aside st st'"
  "evolves st st' \<Longrightarrow> view st' = (view st)(page \<mapsto> b) \<Longrightarrow> st_page_heap st page = Some heap \<Longrightarrow> aside st st'"
  by (auto simp: aside_def evolves_defs)

lemma grown_aside:
  "grown st st' \<Longrightarrow> pages_kept (view st) (view st') \<Longrightarrow> aside st st'"
  "grown st st' \<Longrightarrow> pages_kept (view st) m \<Longrightarrow> view st' = m(page \<mapsto> b) \<Longrightarrow> page_count (bp_disk (st_pool st)) \<le> unat page \<Longrightarrow>
     aside st st' \<and> aside st (add_page heap page st')"
  by (auto simp: aside_def grown_def pages_kept_def)

section \<open>Insertion adds one version\<close>

lemma insert_payload: "page_fits b (length bs) \<Longrightarrow> length (snd (encode_body (Insert pid s bs))) \<le> 19000"
  by (simp add: page_fits_def MAX_RECORD_LEN_eq put_bytes_u32_def)

text \<open>What an attempt on existing pages may do: nothing, or add the version.\<close>

definition insert_effect :: "u64 \<Rightarrow> bytes \<Rightarrow> RecordStore \<Rightarrow> RecordId option Outcome \<Rightarrow> RecordStore \<Rightarrow> bool" where
  "insert_effect heap bs st res st' \<longleftrightarrow> aside st st' \<and>
     (case res of
        Ret None \<Rightarrow> versions st' = versions st
      | Ret (Some rid) \<Rightarrow> added_version heap rid bs st st'
      | Err (CoreBuffer (Exhausted n)) \<Rightarrow> strained st \<and> versions st' = versions st
      | Err (CoreWal e) \<Rightarrow> strained st \<and> (\<exists>rid. added_version heap rid bs st st')
      | _ \<Rightarrow> False)"

lemma try_page_spec:
  assumes ok: "store_ok st" and hp: "st_page_heap st pid = Some heap"
  shows "\<exists>res st' h'. with_write pid (\<lambda>i. bindA (page_insert_at i bs) (\<lambda>slot.
              case slot of
                None \<Rightarrow> ret None
              | Some slot \<Rightarrow> bindA (log_insert crc32 now i pid slot bs) (\<lambda>_. ret (Some (rid_new pid slot))))) (st, h)
      = Some (res, st', h') \<and> evolves st st' \<and> store_ok st' \<and> same_txn h h' \<and> insert_effect heap bs st res st'"
    (is "\<exists>res st' h'. with_write pid ?body _ = _ \<and> _")
proof -
  obtain b where b: "unat pid < page_count (bp_disk (st_pool st))" "view st pid = Some b" "page_inv b"
    by (rule store_okD [OF ok hp])
  have up: "pool_up (st_pool st)" using ok by (simp add: store_ok_def)
  define Q where "Q x b' h' \<longleftrightarrow> same_txn h h' \<and>
    (case x of Ret None \<Rightarrow> b' = b
      | Ret (Some rid) \<Rightarrow> \<exists>s. rid = rid_new pid s \<and> page_abs b (unat s) = None \<and> holds_records ((page_abs b)(unat s \<mapsto> bs)) b'
      | Err (CoreWal e) \<Rightarrow> strained st \<and> (\<exists>s :: u16. page_abs b (unat s) = None \<and> holds_records ((page_abs b)(unat s \<mapsto> bs)) b')
      | _ \<Rightarrow> False)" for x b' h'
  have body: "\<exists>x st2 h2 b2. ?body i (st1, h) = Some (x, st2, h2) \<and> evolves st1 st2 \<and> held i pid b2 st2 \<and>
      view st2 = (view st)(pid \<mapsto> b2) \<and> Q x b2 h2"
    if dr: "drift st st1" and h1: "held i pid b st1" and v1: "view st1 = view st" for i st1
  proof -
    have a: "holds_records (page_abs b) b" using b(3) by (simp add: holds_records_def)
    obtain slot st2 b2 where p: "page_insert_at i bs (st1, h) = Some (Ret slot, st2, h)" "evolves st1 st2" "held i pid b2 st2"
        "view st2 = (view st1)(pid \<mapsto> b2)" and c: "case slot of None \<Rightarrow> \<not> page_fits b (length bs) \<and> b2 = b
          | Some s \<Rightarrow> page_fits b (length bs) \<and> page_abs b (unat s) = None \<and> holds_records ((page_abs b)(unat s \<mapsto> bs)) b2"
      using page_insert_at_spec [OF h1 a, of bs h] by blast
    show ?thesis
    proof (cases slot)
      case None
      then show ?thesis using p c v1 by (intro exI [of _ "Ret None"] exI [of _ st2] exI [of _ h] exI [of _ b2])
          (simp add: bindA_cases(1) Q_def)
    next
      case (Some s)
      then have a2: "holds_records ((page_abs b)(unat s \<mapsto> bs)) b2" and free: "page_abs b (unat s) = None"
        and fit: "page_fits b (length bs)" using c by simp_all
      obtain res st3 h3 b3 where l: "log_insert crc32 now i pid s bs (st2, h) = Some (res, st3, h3)" "evolves st2 st3"
          "same_txn h h3" "held i pid b3 st3" "view st3 = (view st2)(pid \<mapsto> b3)" "holds_records ((page_abs b)(unat s \<mapsto> bs)) b3"
          "res = Ret () \<or> (\<exists>e. res = Err (CoreWal e)) \<and> tight st2"
        using log_page_spec [OF p(3) a2 insert_payload [OF fit], of crc32 now pid s h] unfolding log_insert_def by blast
      have fin: "\<exists>x. bindA (log_insert crc32 now i pid s bs) (\<lambda>_. ret (Some (rid_new pid s))) (st2, h) = Some (x, st3, h3) \<and>
          (x = Ret (Some (rid_new pid s)) \<or> (\<exists>e. x = Err (CoreWal e)) \<and> tight st2)"
        using l(1,7) by (auto simp: bindA_def)
      then obtain x where x: "?body i (st1, h) = Some (x, st3, h3)" "x = Ret (Some (rid_new pid s)) \<or> (\<exists>e. x = Err (CoreWal e)) \<and> tight st2"
        using p(1) Some by (auto simp: bindA_cases(1))
      have "tight st2 \<longrightarrow> strained st" using tight_kept(2) [OF p(2)] tight_kept(1) [OF dr] tight_strained by simp
      then have "Q x b3 h3" using x(2) l(3,6) free by (auto simp: Q_def intro!: exI [of _ s])
      moreover have "view st3 = (view st)(pid \<mapsto> b3)" using l(5) p(4) v1 by simp
      ultimately show ?thesis using x(1) l(4) evolves_trans [OF p(2) l(2)]
        by (intro exI [of _ x] exI [of _ st3] exI [of _ h3] exI [of _ b3] conjI)
    qed
  qed
  obtain st' res h' where r: "with_write pid ?body (st, h) = Some (res, st', h')" "evolves st st'"
      "(\<exists>n. res = Err (CoreBuffer (Exhausted n)) \<and> strained st \<and> view st' = view st \<and> h' = h) \<or> (\<exists>b'. view st' = (view st)(pid \<mapsto> b') \<and> Q res b' h')"
    using with_write_spec [OF up b(1,2), of ?body h Q] body by blast
  show ?thesis
    using r(3)
  proof
    assume "\<exists>n. res = Err (CoreBuffer (Exhausted n)) \<and> strained st \<and> view st' = view st \<and> h' = h"
    then show ?thesis using r(1,2) evolves_ok [OF ok r(2)] evolves_aside(1) [OF r(2)] by (auto simp: insert_effect_def)
  next
    assume "\<exists>b'. view st' = (view st)(pid \<mapsto> b') \<and> Q res b' h'"
    then obtain b' where b': "view st' = (view st)(pid \<mapsto> b')" "Q res b' h'" by blast
    note added = evolves_added [OF ok r(2) b'(1) hp b(2)] and off = evolves_aside(2) [OF r(2) b'(1) hp]
    have "store_ok st' \<and> insert_effect heap bs st res st'"
    proof (cases "res = Ret None")
      case True
      then have "view st' = view st" using b' b(2) by (auto simp: Q_def)
      then show ?thesis using True evolves_ok [OF ok r(2)] off by (simp add: insert_effect_def)
    next
      case False
      then show ?thesis using b'(2) added off
        by (auto simp: Q_def insert_effect_def split: Outcome.splits option.splits CoreError.splits)
    qed
    then show ?thesis using r(1,2) b'(2) by (auto simp: Q_def)
  qed
qed

lemma insert_effect_mono:
  "versions st1 = versions st \<Longrightarrow> strained st1 = strained st \<Longrightarrow> aside st st1 \<Longrightarrow> insert_effect heap bs st1 res st' \<Longrightarrow> insert_effect heap bs st res st'"
  by (auto simp: insert_effect_def added_version_def intro: aside_trans split: Outcome.splits option.splits CoreError.splits BufferError.splits)

lemma try_pages_spec:
  assumes "store_ok st" and "\<forall>pid \<in> set pids. st_page_heap st pid = Some heap"
  shows "\<exists>res st' h'. try_pages crc32 now bs pids (st, h) = Some (res, st', h') \<and> evolves st st' \<and> store_ok st' \<and>
    same_txn h h' \<and> insert_effect heap bs st res st'"
  using assms
proof (induction pids arbitrary: st h)
  case Nil
  then show ?case by (auto simp: insert_effect_def evolves_refl)
next
  case (Cons pid pids)
  obtain res st1 h1 where w: "with_write pid (\<lambda>i. bindA (page_insert_at i bs) (\<lambda>slot.
              case slot of
                None \<Rightarrow> ret None
              | Some slot \<Rightarrow> bindA (log_insert crc32 now i pid slot bs) (\<lambda>_. ret (Some (rid_new pid slot))))) (st, h)
      = Some (res, st1, h1)" "evolves st st1" "store_ok st1" "same_txn h h1" "insert_effect heap bs st res st1"
    using try_page_spec [OF Cons.prems(1), of pid heap bs crc32 now h] Cons.prems(2) by auto
  show ?case
  proof (cases "res = Ret None")
    case True
    then have v: "versions st1 = versions st" and off: "aside st st1" using w(5) by (simp_all add: insert_effect_def)
    have "\<forall>pid \<in> set pids. st_page_heap st1 pid = Some heap" using Cons.prems(2) w(2) by (simp add: evolves_defs)
    from Cons.IH [OF w(3) this, of h1] obtain res2 st2 h2 where
      t: "try_pages crc32 now bs pids (st1, h1) = Some (res2, st2, h2)" "evolves st1 st2" "store_ok st2" "same_txn h1 h2"
        "insert_effect heap bs st1 res2 st2" by blast
    have "try_pages crc32 now bs (pid # pids) (st, h) = Some (res2, st2, h2)" using w(1) True t(1) by (simp add: bindA_cases(1))
    then show ?thesis
      using evolves_trans [OF w(2) t(2)] t(3) same_txn_trans [OF w(4) t(4)] insert_effect_mono [OF v strained_evolves [OF w(2)] off t(5)]
      by blast
  next
    case False
    then have "try_pages crc32 now bs (pid # pids) (st, h) = Some (res, st1, h1)"
      using w(1) by (cases res) (auto simp: bindA_def split: option.splits)
    then show ?thesis using w(2-) by blast
  qed
qed

lemma new_page_up:
  assumes up: "pool_up p" and cnt: "page_count (bp_disk p) < 2 ^ 64" and np: "new_page p = (p', res)"
  shows "pool_up p'" and "page_count (bp_disk p') = page_count (bp_disk p) + 1"
    and "res = Inr (page, i) \<Longrightarrow> page_count (bp_disk p) \<le> unat page \<and> unat page < page_count (bp_disk p')"
    and "wal_segment_size (bp_wal p') = wal_segment_size (bp_wal p)"
proof -
  have inv: "pool_inv p" and al: "alloc_ok p" using up by (simp_all add: pool_up_def)
  obtain q d where a: "allocate_page (bp_disk p) = (q, d)" by fastforce
  let ?p = "p\<lparr>bp_disk := d\<rparr>"
  obtain p1 r1 where ip: "install_page q True ?p = (p1, r1)" by fastforce
  obtain p2 r2 where v: "find_victim ?p = (p2, r2)" by fastforce
  note inv1 = pool_inv_allocate(1) [OF inv a] and nr = new_page_readable [OF a cnt]
  note sp = find_victim_spec [OF inv1 v]
  have lt: "latch (p1, r1) = (p', case res of Inl e \<Rightarrow> Inl e | Inr x \<Rightarrow> Inr (snd x))"
    using np a ip by (cases r1) (auto simp: new_page_def latch_def)
  note lw = latch_wal [OF lt]
  have tab: "bp_table p1 k \<noteq> None \<Longrightarrow> k \<noteq> q \<Longrightarrow> bp_table p k \<noteq> None"
    and cnt': "page_count (bp_disk p1) = page_count d" for k
    using ip v sp(5) [of k] find_victim_keeps_count [OF inv1 v]
    by (cases "bp_table p k"; auto simp: install_page_def seat_def split: sum.splits)+
  have "alloc_ok p'" using alloc_okI [OF al, of p' q] tab cnt' lw nr by simp
  moreover have "pool_inv p'" using new_page_spec [OF inv al cnt np] by (auto split: sum.splits)
  moreover show "wal_segment_size (bp_wal p') = wal_segment_size (bp_wal p)"
    using log_flushes_segment [OF install_log [OF inv1 ip]] lw by simp
  ultimately show "pool_up p'" using up log_flushes_top [OF install_log [OF inv1 ip]] lw by (simp add: pool_up_def)
  show "page_count (bp_disk p') = page_count (bp_disk p) + 1" using cnt' lw nr by simp
  show "page_count (bp_disk p) \<le> unat page \<and> unat page < page_count (bp_disk p')" if "res = Inr (page, i)"
    using that np a ip cnt' lw nr by (cases r1) (auto simp: new_page_def latch_def)
qed

lemma new_page_pins:
  assumes inv: "pool_inv p" and np: "new_page p = (p', res)"
  shows "case res of Inl e \<Rightarrow> pins p' = pins p \<and> 0 \<notin> set (pins p)
    | Inr (page, i) \<Rightarrow> pins p' = (pins p)[i := Suc (pins p ! i)] \<and> i < length (pins p)"
proof -
  obtain q d where a: "allocate_page (bp_disk p) = (q, d)" by fastforce
  let ?p = "p\<lparr>bp_disk := d\<rparr>"
  obtain p1 r1 where v: "find_victim ?p = (p1, r1)" by fastforce
  note inv1 = pool_inv_allocate(1) [OF inv a]
  note k = find_victim_pins [OF inv1 v] find_victim_spec(3,6) [OF inv1 v]
  show ?thesis
  proof (cases r1)
    case (Inl e)
    have "False" if z: "0 \<in> set (pins p)"
    proof -
      obtain j where "j < length (bp_frames ?p)" "fr_pins (bp_frames ?p ! j) = 0"
        using z by (auto simp: pins_def in_set_conv_nth)
      then show False using find_victim_finds [OF inv1] v Inl by auto
    qed
    then show ?thesis using np a v Inl k(1) by (auto simp: new_page_def install_page_def latch_def pins_def)
  next
    case (Inr i)
    have i: "fr_pins (bp_frames p1 ! i) = 0" "i < length (bp_frames p)" using k(3) [OF Inr] by (simp_all add: victim_ok_def)
    then have "pins p ! i = 0" using k(1,2) by (metis pins_def nth_map BufferPool.select_convs(1) BufferPool.surjective BufferPool.update_convs(5))
    then show ?thesis using np a v Inr k(1,2) i
      by (auto simp: new_page_def install_page_def latch_def seat_def upd_frame_pins) (simp_all add: pins_def upd_frame_def map_update)
  qed
qed

lemma with_new_page_spec:
  assumes up: "pool_up (st_pool st)" and cnt: "page_count (bp_disk (st_pool st)) < 2 ^ 64"
    and body: "\<And>page i st1 m. grown st st1 \<Longrightarrow> held i page (replicate 8192 0) st1 \<Longrightarrow>
      page_count (bp_disk (st_pool st)) \<le> unat page \<Longrightarrow> unat page < page_count (bp_disk (st_pool st1)) \<Longrightarrow>
      pages_kept (view st) m \<Longrightarrow> view st1 = m(page \<mapsto> replicate 8192 0) \<Longrightarrow>
      \<exists>x st2 h2 b2. body page i (st1, h) = Some (x, st2, h2) \<and> held i page b2 st2 \<and> pins (st_pool st2) = pins (st_pool st1) \<and> Q x page b2 st2 h2"
  shows "(\<exists>st' n. with_new_page body (st, h) = Some (Err (CoreBuffer (Exhausted n)), st', h) \<and> grown st st' \<and> strained st \<and>
      pins (st_pool st') = pins (st_pool st) \<and> pages_kept (view st) (view st')) \<or>
    (\<exists>x st2 h2 b2 page i. with_new_page body (st, h) =
      Some (x, put_pool (write_guard_drop i page (st_pool st2)) st2, h2) \<and> held i page b2 st2 \<and>
      pins (write_guard_drop i page (st_pool st2)) = pins (st_pool st) \<and> Q x page b2 st2 h2)"
proof -
  obtain p r where n: "new_page (st_pool st) = (p, r)" by fastforce
  have inv: "pool_inv (st_pool st)" "alloc_ok (st_pool st)" using up by (simp_all add: pool_up_def)
  note ns = new_page_spec [OF inv cnt n] and nu = new_page_up [OF up cnt n] and np = new_page_pins [OF inv(1) n]
  have ev: "grown st (put_pool p st)" using nu by (simp add: grown_def)
  show ?thesis
  proof (cases r)
    case (Inl e)
    then show ?thesis using n ns ev np by (auto simp: with_new_page_def strained_def)
  next
    case (Inr pi)
    obtain page i where pi: "pi = (page, i)" by fastforce
    then obtain m where h: "handle p i page" "fr_latched (bp_frames p ! i)" "fr_content (bp_frames p ! i) = replicate 8192 0"
        "pages_kept (view st) m" "pool_view p = m(page \<mapsto> replicate 8192 0)"
      using ns Inr by auto
    have "held i page (replicate 8192 0) (put_pool p st)"
      using h nu(1) by (simp add: held_def page_of_def)
    then obtain x st2 h2 b2 where b: "body page i (put_pool p st, h) = Some (x, st2, h2)" "held i page b2 st2" "Q x page b2 st2 h2"
        "pins (st_pool st2) = pins p"
      using body [OF ev] h(4,5) nu(3) Inr pi by fastforce
    have "pins (write_guard_drop i page (st_pool st2)) = pins (st_pool st)"
      using drop_held(3) [OF b(2)] b(4) np Inr pi by simp
    moreover have "with_new_page body (st, h) = Some (x, put_pool (write_guard_drop i page (st_pool st2)) st2, h2)"
      using b(1) n Inr pi by (simp add: with_new_page_def)
    ultimately show ?thesis using b(2,3) by blast
  qed
qed

lemma add_page_tables:
  assumes "tables_ok st" and "st_page_heap st page = None"
  shows "tables_ok (add_page heap page st)"
proof -
  have t: "st_page_heap st q = Some k \<longleftrightarrow> (\<exists>ps. st_pages st k = Some ps \<and> q \<in> set ps)"
    and d: "st_pages st k = Some ps \<Longrightarrow> distinct ps" for q k ps
    using assms(1) by (auto simp: tables_ok_def)
  have n: "st_pages st k = Some ps \<Longrightarrow> page \<notin> set ps" for k ps using t [of page k] assms(2) by auto
  have "(st_page_heap (add_page heap page st) q = Some k) = (\<exists>ps. st_pages (add_page heap page st) k = Some ps \<and> q \<in> set ps)" for q k
    using t [of q k] n [of k] by (cases "q = page"; cases "k = heap") (auto simp: add_page_def split: option.splits)
  moreover have "distinct ps" if "st_pages (add_page heap page st) k = Some ps" for k ps
    using that d [of k] n [of k] by (cases "k = heap") (auto simp: add_page_def split: option.splits)
  ultimately show ?thesis unfolding tables_ok_def by blast
qed

lemma store_ok_fresh:
  assumes "store_ok st" and "page_count (bp_disk (st_pool st)) \<le> unat page"
  shows "st_page_heap st page = None"
proof (rule ccontr)
  assume "st_page_heap st page \<noteq> None"
  then have "heap_page_ok st page" using assms(1) unfolding store_ok_def by blast
  then show False using assms(2) by (simp add: heap_page_ok_def)
qed

lemma add_page_ok:
  assumes ok: "store_ok st" and fresh: "page_count (bp_disk (st_pool st)) \<le> unat page"
    and ev: "grown st st'" and in': "unat page < page_count (bp_disk (st_pool st'))"
    and kept: "pages_kept (view st) m" and v: "view st' = m(page \<mapsto> b)" and a: "holds_records [unat s \<mapsto> bs] b"
  shows "store_ok (add_page heap page st') \<and> added_version heap (rid_new page s) bs st (add_page heap page st')"
proof -
  have new: "st_page_heap st page = None" by (rule store_ok_fresh [OF ok fresh])
  have same: "view st' q = view st q" if "st_page_heap st q \<noteq> None" for q
  proof -
    have "heap_page_ok st q" using ok that unfolding store_ok_def by blast
    then obtain c where "view st q = Some c" by (auto simp: heap_page_ok_def)
    moreover have "q \<noteq> page" using new that by auto
    ultimately show ?thesis using kept v by (auto simp: pages_kept_def)
  qed
  have o: "store_ok st'" "versions st' = versions st" using grown_ok [OF ok ev same] by blast+
  have "heap_page_ok (add_page heap page st') q" if "st_page_heap (add_page heap page st') q \<noteq> None" for q
  proof (cases "q = page")
    case True
    then show ?thesis using in' v a by (auto simp: heap_page_ok_def holds_records_def)
  next
    case False
    then have "heap_page_ok st' q" using that o(1) unfolding store_ok_def by auto
    then show ?thesis by (simp add: heap_page_ok_def)
  qed
  moreover have new': "st_page_heap st' page = None" using new ev by (simp add: grown_def)
  moreover have "tables_ok (add_page heap page st')" using add_page_tables new' o(1) by (simp add: store_ok_def)
  ultimately have "store_ok (add_page heap page st')" using o(1) by (simp add: store_ok_def)
  moreover have "versions (add_page heap page st') r = ((versions st)(rid_new page s \<mapsto> bs)) r" for r
  proof (cases "rid_page r = page")
    case True
    then show ?thesis using v a new by (auto simp: versions_def holds_records_def rid_new_eq word_unat_eq_iff [where 'a = 16])
  next
    case False
    then have "versions (add_page heap page st') r = versions st' r" by (simp add: versions_def)
    then show ?thesis using False o(2) by (auto simp: rid_new_def)
  qed
  moreover have "versions st (rid_new page s) = None" using new by (simp add: versions_def rid_new_def)
  ultimately show ?thesis by (auto simp: added_version_def rid_new_def)
qed

text \<open>The whole effect of an insertion; a record of more than 8156 bytes fits no page.\<close>

definition insert_result :: "u64 \<Rightarrow> bytes \<Rightarrow> RecordStore \<Rightarrow> RecordId Outcome \<Rightarrow> RecordStore \<Rightarrow> bool" where
  "insert_result heap bs st res st' \<longleftrightarrow> aside st st' \<and>
     (case res of
        Ret rid \<Rightarrow> added_version heap rid bs st st'
      | Err (CoreBuffer (Exhausted n)) \<Rightarrow> strained st \<and> versions st' = versions st
      | Err (CoreWal e) \<Rightarrow> strained st \<and> (versions st' = versions st \<or> (\<exists>rid. added_version heap rid bs st st'))
      | Err SerializationFailure \<Rightarrow> versions st' = versions st \<and> 8156 < length bs
      | _ \<Rightarrow> False)"

definition txns_kept :: "RecordStore \<Rightarrow> RecordStore \<Rightarrow> bool" where
  "txns_kept st st' \<longleftrightarrow> (\<exists>w. st_txns st' = (st_txns st)\<lparr>tm_wal := w\<rparr>) \<and> strained st' = strained st \<and>
     (\<forall>page heap. st_page_heap st page = Some heap \<longrightarrow> st_page_heap st' page = Some heap)"

lemma txns_kept_trans: "txns_kept a b \<Longrightarrow> txns_kept b c \<Longrightarrow> txns_kept a c"
  by (auto simp: txns_kept_def)

lemma grown_kept: "grown st st' \<Longrightarrow> pins (st_pool st') = pins (st_pool st) \<Longrightarrow> txns_kept st st'"
  by (auto simp: grown_def txns_kept_def strained_def tight_def)

lemma evolves_kept: "evolves st st' \<Longrightarrow> txns_kept st st'"
  using evolves_grown grown_kept by (simp add: evolves_def)

lemma fits_empty_page: "page_fits (page_init Heap) n \<longleftrightarrow> n \<le> 8156"
  by (auto simp: page_fits_def insert_slot_def page_init_fields MAX_RECORD_LEN_eq)

lemma fresh_body:
  assumes ev: "grown st st1" and h1: "held i page (replicate 8192 0) st1"
    and in1: "unat page < page_count (bp_disk (st_pool st1))"
    and v1: "view st1 = m(page \<mapsto> replicate 8192 0)"
  shows "\<exists>x st2 h2 b2. bindA (init_heap_page i) (\<lambda>_.
       bindA (page_insert_at i bs) (\<lambda>slot.
         case slot of
           None \<Rightarrow> raise SerializationFailure
         | Some slot \<Rightarrow>
             bindA (store_log crc32 now (HeapPage heap page)) (\<lambda>_.
             bindA (log_insert crc32 now i page slot bs) (\<lambda>_.
             bindA (add_heap_page heap page) (\<lambda>_.
             ret (rid_new page slot)))))) (st1, h) = Some (x, st2, h2) \<and> held i page b2 st2 \<and> pins (st_pool st2) = pins (st_pool st1) \<and> same_txn h h2 \<and>
     (\<exists>st3. grown st st3 \<and> view st3 = m(page \<mapsto> b2) \<and> unat page < page_count (bp_disk (st_pool st3)) \<and>
       (case x of Ret rid \<Rightarrow> st2 = add_page heap page st3 \<and> (\<exists>s. rid = rid_new page s \<and> holds_records [unat s \<mapsto> bs] b2)
        | Err (CoreWal e) \<Rightarrow> strained st \<and> st2 = st3
        | Err SerializationFailure \<Rightarrow> st2 = st3 \<and> 8156 < length bs
        | _ \<Rightarrow> False))" (is "\<exists>x st2 h2 b2. ?act (st1, h) = _ \<and> _")
proof -
  let ?st = "put_page i (page_init Heap) st1"
  have init: "init_heap_page i (st1, h) = Some (Ret (), ?st, h)" by (simp add: init_heap_page_def)
  have len: "length (page_init Heap) = 8192" by simp
  note pp = held_put_page [OF h1 len]
  have a0: "holds_records Map.empty (page_init Heap)" using page_init_spec by (simp add: holds_records_def)
  obtain slot sta b where p: "page_insert_at i bs (?st, h) = Some (Ret slot, sta, h)" "evolves ?st sta" "held i page b sta"
      "view sta = (view ?st)(page \<mapsto> b)" and c: "case slot of None \<Rightarrow> \<not> page_fits (page_init Heap) (length bs) \<and> b = page_init Heap
          | Some s \<Rightarrow> page_fits (page_init Heap) (length bs) \<and> holds_records [unat s \<mapsto> bs] b"
    using page_insert_at_spec [OF pp(2) a0, of bs h] by (auto split: option.splits)
  have eva: "grown st sta" using ev pp(1) p(2) grown_trans by blast
  have va: "view sta = m(page \<mapsto> b)" using p(4) pp(3) v1 by simp
  have grow: "unat page < page_count (bp_disk (st_pool st'))" if "evolves st1 st'" for st'
    using that in1 by (simp add: evolves_defs)
  have pk: "pins (st_pool st') = pins (st_pool st1)" if "evolves st1 st'" for st'
    using that by (simp add: evolves_def)
  have sk: "tight st' \<Longrightarrow> strained st" if "evolves st1 st'" for st'
    using tight_kept(2) [OF that] tight_kept(3) [OF ev] tight_strained by simp
  have ga: "evolves st1 sta" using pp(1) p(2) evolves_trans by blast
  show ?thesis
  proof (cases slot)
    case None
    then have "?act (st1, h) = Some (Err SerializationFailure, sta, h)" using init p(1) by (simp add: bindA_cases(1))
    moreover have "8156 < length bs" using c None by (simp add: fits_empty_page)
    ultimately show ?thesis using p(3) eva va grow [OF ga] pk [OF ga]
      by (intro exI [of _ "Err SerializationFailure"] exI [of _ sta] exI [of _ h] exI [of _ b]) auto
  next
    case (Some s)
    then have a: "holds_records [unat s \<mapsto> bs] b" and fit: "page_fits (page_init Heap) (length bs)" using c by simp_all
    have "pool_up (st_pool sta)" using p(3) by (simp add: held_def)
    then obtain r1 stb hb where l: "store_log crc32 now (HeapPage heap page) (sta, h) = Some (r1, stb, hb)" "evolves sta stb"
        "view stb = view sta" "same_txn h hb" "held i page b stb" "(\<exists>l. r1 = Ret l) \<or> (\<exists>e. r1 = Err (CoreWal e)) \<and> tight sta"
      using store_log_spec [of sta crc32 now "HeapPage heap page" h] p(3) by auto
    have evb: "grown st stb" "evolves st1 stb" using eva ga l(2) evolves_trans grown_trans by blast+
    obtain r2 stc hc bc where f: "log_insert crc32 now i page s bs (stb, hb) = Some (r2, stc, hc)" "evolves stb stc" "same_txn hb hc"
        "held i page bc stc" "view stc = (view stb)(page \<mapsto> bc)" "holds_records [unat s \<mapsto> bs] bc"
        "r2 = Ret () \<or> (\<exists>e. r2 = Err (CoreWal e)) \<and> tight stb"
      using log_page_spec [OF l(5) a insert_payload [OF fit], of crc32 now page s hb] unfolding log_insert_def by blast
    have evc: "grown st stc" "evolves st1 stc" using evb f(2) evolves_trans grown_trans by blast+
    have vc: "view stc = m(page \<mapsto> bc)" using f(5) l(3) va by simp
    have hc: "same_txn h hc" using l(4) f(3) same_txn_trans by blast
    consider (log) e where "r1 = Err (CoreWal e)" "strained st" | (ins) k e where "r1 = Ret k" "r2 = Err (CoreWal e)" "strained st" | (fin) k where "r1 = Ret k" "r2 = Ret ()"
      using l(6) f(7) sk [OF ga] sk [OF evb(2)] by blast
    then show ?thesis
    proof cases
      case log
      then have "?act (st1, h) = Some (Err (CoreWal e), stb, hb)" using init p(1) Some l(1) by (simp add: bindA_cases)
      then show ?thesis using l(3,4,5) evb va grow pk [OF evb(2)] log(2)
        by (intro exI [of _ "Err (CoreWal e)"] exI [of _ stb] exI [of _ hb] exI [of _ b]) auto
    next
      case ins
      then have "?act (st1, h) = Some (Err (CoreWal e), stc, hc)" using init p(1) Some l(1) f(1) by (simp add: bindA_cases)
      then show ?thesis using f(4) hc evc vc grow pk [OF evc(2)] ins(3)
        by (intro exI [of _ "Err (CoreWal e)"] exI [of _ stc] exI [of _ hc] exI [of _ bc]) auto
    next
      case fin
      then have "?act (st1, h) = Some (Ret (rid_new page s), add_page heap page stc, hc)"
        using init p(1) Some l(1) f(1) by (simp add: bindA_cases)
      moreover have "held i page bc (add_page heap page stc)" using f(4) by (simp add: held_def page_of_def)
      ultimately show ?thesis using f(6) hc evc vc grow pk [OF evc(2)]
        by (intro exI [of _ "Ret (rid_new page s)"] exI [of _ "add_page heap page stc"] exI [of _ hc] exI [of _ bc]) auto
    qed
  qed
qed

definition fresh_effect :: "u64 \<Rightarrow> bytes \<Rightarrow> RecordStore \<Rightarrow> TxnHandle \<Rightarrow> RecordId Outcome \<Rightarrow> u64 \<Rightarrow> bytes \<Rightarrow> RecordStore \<Rightarrow> TxnHandle \<Rightarrow> bool" where
  "fresh_effect heap bs st h x page b2 st2 h2 \<longleftrightarrow> same_txn h h2 \<and> page_count (bp_disk (st_pool st)) \<le> unat page \<and>
     (\<exists>st3 m. pages_kept (view st) m \<and> grown st st3 \<and> view st3 = m(page \<mapsto> b2) \<and> unat page < page_count (bp_disk (st_pool st3)) \<and>
       (case x of Ret rid \<Rightarrow> st2 = add_page heap page st3 \<and> (\<exists>s. rid = rid_new page s \<and> holds_records [unat s \<mapsto> bs] b2)
        | Err (CoreWal e) \<Rightarrow> strained st \<and> st2 = st3
        | Err SerializationFailure \<Rightarrow> st2 = st3 \<and> 8156 < length bs
        | _ \<Rightarrow> False))"

lemma fresh_effect_drop:
  assumes ok: "store_ok st" and h: "held i page b2 st2" and e: "fresh_effect heap bs st h x page b2 st2 h2"
    and pk: "pins (write_guard_drop i page (st_pool st2)) = pins (st_pool st)"
  shows "store_ok (put_pool (write_guard_drop i page (st_pool st2)) st2) \<and>
    txns_kept st (put_pool (write_guard_drop i page (st_pool st2)) st2) \<and>
    page_count (bp_disk (write_guard_drop i page (st_pool st2))) \<le> page_count (bp_disk (st_pool st)) + 1 \<and>
    insert_result heap bs st x (put_pool (write_guard_drop i page (st_pool st2)) st2)"
proof -
  obtain st3 m where m: "pages_kept (view st) m" "grown st st3" "view st3 = m(page \<mapsto> b2)"
      "unat page < page_count (bp_disk (st_pool st3))" "page_count (bp_disk (st_pool st)) \<le> unat page"
    and c: "case x of Ret rid \<Rightarrow> st2 = add_page heap page st3 \<and> (\<exists>s. rid = rid_new page s \<and> holds_records [unat s \<mapsto> bs] b2)
        | Err (CoreWal e) \<Rightarrow> strained st \<and> st2 = st3
        | Err SerializationFailure \<Rightarrow> st2 = st3 \<and> 8156 < length bs
        | _ \<Rightarrow> False"
    using e by (auto simp: fresh_effect_def)
  have pool: "st_pool st2 = st_pool st3" using c by (auto split: Outcome.splits CoreError.splits)
  then have "held i page b2 st3" using h by (simp add: held_def page_of_def)
  note d = drop_held [OF this]
  let ?st = "put_pool (write_guard_drop i page (st_pool st3)) st3"
  have ev: "grown st ?st" using m(2) d(1) by (auto simp: grown_def drift_def)
  have pc: "page_count (bp_disk (st_pool ?st)) \<le> page_count (bp_disk (st_pool st)) + 1" using ev by (simp add: grown_def)
  have kept: "txns_kept st ?st" using grown_kept [OF ev] pk pool by simp
  have v: "view ?st = m(page \<mapsto> b2)" using d(2) m(3) by simp
  have in': "unat page < page_count (bp_disk (st_pool ?st))" using d(1) m(4) by (simp add: drift_def)
  show ?thesis
  proof (cases "\<exists>rid. x = Ret rid")
    case True
    then obtain s where s: "x = Ret (rid_new page s)" "holds_records [unat s \<mapsto> bs] b2" "st2 = add_page heap page st3" using c by auto
    have "txns_kept st (add_page heap page ?st)"
      using kept store_ok_fresh [OF ok m(5)] by (auto simp: txns_kept_def strained_def tight_def)
    then show ?thesis using add_page_ok [OF ok m(5) ev in' m(1) v s(2)] grown_aside(2) [OF ev m(1) v m(5)] s pc by (simp add: insert_result_def)
  next
    case False
    then have eq: "st2 = st3" using c by (auto split: Outcome.splits CoreError.splits)
    have "store_ok ?st \<and> versions ?st = versions st"
    proof (rule grown_ok [OF ok ev])
      fix q assume "st_page_heap st q \<noteq> None"
      then have hp: "heap_page_ok st q" using ok unfolding store_ok_def by blast
      then obtain c where "view st q = Some c" by (auto simp: heap_page_ok_def)
      then show "view ?st q = view st q" using m(1,5) v hp by (auto simp: pages_kept_def heap_page_ok_def)
    qed
    then show ?thesis using False c kept pc grown_aside(2) [OF ev m(1) v m(5)] unfolding eq
      by (auto simp: insert_result_def split: Outcome.splits CoreError.splits)
  qed
qed

lemma insert_fresh_page_spec:
  assumes ok: "store_ok st" and cnt: "page_count (bp_disk (st_pool st)) < 2 ^ 64"
  shows "\<exists>res st' h'. insert_fresh_page crc32 now heap bs (st, h) = Some (res, st', h') \<and> store_ok st' \<and> txns_kept st st' \<and>
    page_count (bp_disk (st_pool st')) \<le> page_count (bp_disk (st_pool st)) + 1 \<and> 
    same_txn h h' \<and> insert_result heap bs st res st'"
proof -
  have up: "pool_up (st_pool st)" using ok by (simp add: store_ok_def)
  let ?body = "\<lambda>pid i.
       bindA (init_heap_page i) (\<lambda>_.
       bindA (page_insert_at i bs) (\<lambda>slot.
         case slot of
           None \<Rightarrow> raise SerializationFailure
         | Some slot \<Rightarrow>
             bindA (store_log crc32 now (HeapPage heap pid)) (\<lambda>_.
             bindA (log_insert crc32 now i pid slot bs) (\<lambda>_.
             bindA (add_heap_page heap pid) (\<lambda>_.
             ret (rid_new pid slot))))))"
  have body: "\<exists>x st2 h2 b2. ?body page i (st1, h) = Some (x, st2, h2) \<and> held i page b2 st2 \<and> pins (st_pool st2) = pins (st_pool st1) \<and>
      fresh_effect heap bs st h x page b2 st2 h2"
    if "grown st st1" "held i page (replicate 8192 0) st1" "page_count (bp_disk (st_pool st)) \<le> unat page"
      "unat page < page_count (bp_disk (st_pool st1))" "pages_kept (view st) m" "view st1 = m(page \<mapsto> replicate 8192 0)" for page i st1 m
    using fresh_body [OF that(1,2,4,6), of bs crc32 now heap h] that(3,5) unfolding fresh_effect_def by blast
  from with_new_page_spec [OF up cnt, of ?body h "fresh_effect heap bs st h"] body
  consider (full) st' n where "insert_fresh_page crc32 now heap bs (st, h) = Some (Err (CoreBuffer (Exhausted n)), st', h)"
      "grown st st'" "pages_kept (view st) (view st')" "strained st" "pins (st_pool st') = pins (st_pool st)"
    | (page) x st2 h2 b2 page i where "insert_fresh_page crc32 now heap bs (st, h) =
        Some (x, put_pool (write_guard_drop i page (st_pool st2)) st2, h2)" "held i page b2 st2"
        "fresh_effect heap bs st h x page b2 st2 h2" "pins (write_guard_drop i page (st_pool st2)) = pins (st_pool st)"
    unfolding insert_fresh_page_def by blast
  then show ?thesis
  proof cases
    case full
    have "store_ok st' \<and> versions st' = versions st"
    proof (rule grown_ok [OF ok full(2)])
      fix q assume "st_page_heap st q \<noteq> None"
      then have "heap_page_ok st q" using ok unfolding store_ok_def by blast
      then show "view st' q = view st q" using full(3) by (auto simp: pages_kept_def heap_page_ok_def)
    qed
    then show ?thesis using full(1,2,4) grown_kept [OF full(2,5)] grown_aside(1) [OF full(2,3)] by (auto simp: insert_result_def grown_def)
  next
    case page
    have "same_txn h h2" using page(3) by (simp add: fresh_effect_def)
    then show ?thesis using page(1) fresh_effect_drop [OF ok page(2,3,4)] by auto
  qed
qed

lemma insert_bytes_spec:
  assumes ok: "store_ok st" and cnt: "page_count (bp_disk (st_pool st)) < 2 ^ 64"
  shows "\<exists>res st' h'. insert_bytes crc32 now heap bs (st, h) = Some (res, st', h') \<and> store_ok st' \<and> txns_kept st st' \<and>
    page_count (bp_disk (st_pool st')) \<le> page_count (bp_disk (st_pool st)) + 1 \<and> 
    same_txn h h' \<and> insert_result heap bs st res st'"
proof -
  let ?ps = "case st_pages st heap of Some ps \<Rightarrow> ps | None \<Rightarrow> []"
  have "st_page_heap st page = Some heap \<longleftrightarrow> (\<exists>ps. st_pages st heap = Some ps \<and> page \<in> set ps)" for page
    using ok by (simp add: store_ok_def tables_ok_def)
  then have "\<forall>pid \<in> set (rev ?ps). st_page_heap st pid = Some heap" by (cases "st_pages st heap") simp_all
  then obtain r st1 h1 where t: "try_pages crc32 now bs (rev ?ps) (st, h) = Some (r, st1, h1)" "evolves st st1" "store_ok st1"
      "same_txn h h1" "insert_effect heap bs st r st1"
    using try_pages_spec [OF ok] by blast
  show ?thesis
  proof (cases "r = Ret None")
    case True
    then have v: "versions st1 = versions st" and off: "aside st st1" using t(5) by (simp_all add: insert_effect_def)
    have cnt1: "page_count (bp_disk (st_pool st1)) < 2 ^ 64" using cnt t(2) by (simp add: evolves_defs)
    obtain res st2 h2 where f: "insert_fresh_page crc32 now heap bs (st1, h1) = Some (res, st2, h2)" "store_ok st2" "txns_kept st1 st2"
        "same_txn h1 h2" "insert_result heap bs st1 res st2"
        "page_count (bp_disk (st_pool st2)) \<le> page_count (bp_disk (st_pool st)) + 1"
      using insert_fresh_page_spec [OF t(3) cnt1, of crc32 now heap bs h1] t(2) by (auto simp: evolves_defs)
    have "insert_result heap bs st res st2"
      using f(5) aside_trans [OF off] unfolding insert_result_def added_version_def v strained_evolves [OF t(2)] by blast
    moreover have "insert_bytes crc32 now heap bs (st, h) = Some (res, st2, h2)"
      using t(1) True f(1) by (simp add: insert_bytes_def bindA_cases(1))
    ultimately show ?thesis
      using f(2,6) same_txn_trans [OF t(4) f(4)] txns_kept_trans [OF evolves_kept [OF t(2)] f(3)] by blast
  next
    case False
    then obtain res where "insert_bytes crc32 now heap bs (st, h) = Some (res, st1, h1)" "insert_result heap bs st res st1"
      using t(1,5) by (cases r) (auto simp: insert_bytes_def bindA_def insert_effect_def insert_result_def
          split: option.splits CoreError.splits BufferError.splits)
    then show ?thesis using t(2,3,4) evolves_kept [OF t(2)] by (auto simp: evolves_defs)
  qed
qed

section \<open>Stamping and validation\<close>

definition stamped_version :: "RecordId \<Rightarrow> txn_id \<Rightarrow> bytes \<Rightarrow> RecordStore \<Rightarrow> RecordStore \<Rightarrow> bool" where
  "stamped_version rid t rec st st' \<longleftrightarrow> versions st' = (versions st)(rid \<mapsto> stamp_bytes t rec)"

definition stamp_result :: "RecordId \<Rightarrow> txn_id \<Rightarrow> bytes \<Rightarrow> RecordStore \<Rightarrow> unit Outcome \<Rightarrow> RecordStore \<Rightarrow> bool" where
  "stamp_result rid t rec st res st' \<longleftrightarrow> aside st st' \<and>
     (case res of
        Ret _ \<Rightarrow> stamped_version rid t rec st st'
      | Err (CoreBuffer (Exhausted n)) \<Rightarrow> strained st \<and> versions st' = versions st
      | Err (CoreWal e) \<Rightarrow> strained st \<and> stamped_version rid t rec st st'
      | _ \<Rightarrow> False)"

lemma versions_page:
  assumes "store_ok st" and "versions st rid = Some rec"
  obtains b heap where "st_page_heap st (rid_page rid) = Some heap" "unat (rid_page rid) < page_count (bp_disk (st_pool st))"
    "view st (rid_page rid) = Some b" "page_inv b" "page_abs b (unat (rid_slot rid)) = Some rec"
proof -
  obtain heap where hp: "st_page_heap st (rid_page rid) = Some heap" using assms(2) by (auto simp: versions_def split: if_splits)
  then have "heap_page_ok st (rid_page rid)" using assms(1) unfolding store_ok_def by blast
  then show ?thesis using that hp assms(2) by (auto simp: heap_page_ok_def versions_def)
qed

lemma stamp_xmax_spec:
  assumes ok: "store_ok st" and rec: "versions st rid = Some rec" and len: "24 \<le> length rec"
  shows "\<exists>res st' h'. stamp_xmax crc32 now rid is_delete (st, h) = Some (res, st', h') \<and> evolves st st' \<and> store_ok st' \<and>
    same_txn h h' \<and> stamp_result rid (th_id h) rec st res st'"
proof -
  obtain b heap where b: "st_page_heap st (rid_page rid) = Some heap" "unat (rid_page rid) < page_count (bp_disk (st_pool st))"
    "view st (rid_page rid) = Some b" "page_inv b" "page_abs b (unat (rid_slot rid)) = Some rec"
    by (rule versions_page [OF ok rec])
  have up: "pool_up (st_pool st)" using ok by (simp add: store_ok_def)
  let ?after = "stamp_bytes (th_id h) rec"
  let ?pl = "if is_delete then Delete (rid_page rid) (rid_slot rid) rec else Update (rid_page rid) (rid_slot rid) rec ?after"
  obtain b' where ow: "page_overwrite b (rid_slot rid) ?after = Some (Some b')" "page_inv b'"
      "page_abs b' = (page_abs b)(unat (rid_slot rid) \<mapsto> ?after)"
    using page_overwrite_spec [OF b(4,5)] stamp_bytes_decode(1) [OF len] by blast
  then obtain off n where gm: "get_mut b (rid_slot rid) = Some (Some (off, n))" "b' = wr off ?after b"
    by (auto simp: page_overwrite_def copy_at_def split: Option.bind_splits option.splits if_splits)
  have after: "copy_at 8 (to_le_bytes (th_id h)) rec = Some ?after" using len by (simp add: copy_at_def stamp_bytes_def)
  have "length rec \<le> 8192" using b(5) page_inv_length [OF b(4)] by (auto simp: page_abs_def split: if_splits)
  then have pl: "length (snd (encode_body ?pl)) \<le> 19000"
    using stamp_bytes_decode(1) [OF len] by (simp add: put_bytes_u32_def)
  define Q where "Q x b2 h2 \<longleftrightarrow> same_txn h h2 \<and> holds_records ((page_abs b)(unat (rid_slot rid) \<mapsto> ?after)) b2 \<and>
    (x = Ret () \<or> (\<exists>e. x = Err (CoreWal e)) \<and> strained st)" for x :: "unit Outcome" and b2 h2
  let ?body = "\<lambda>i s. case s of (st, h) \<Rightarrow> do {
       rec \<leftarrow> record_at (page_of i st) (rid_slot rid);
       case rec of
         None \<Rightarrow> raise SerializationFailure s
       | Some before \<Rightarrow> do {
           after \<leftarrow> copy_at 8 (to_le_bytes (th_id h)) before;
           dst \<leftarrow> get_mut (page_of i st) (rid_slot rid);
           case dst of
             None \<Rightarrow> raise SerializationFailure s
           | Some (off, len) \<Rightarrow>
               bindA (store_log crc32 now
                   (if is_delete then Delete (rid_page rid) (rid_slot rid) before
                    else Update (rid_page rid) (rid_slot rid) before after))
                 (\<lambda>l. finalize_page crc32 i l)
                 (put_page i (wr off after (page_of i st)) st, h)
         }
     }"
  have body: "\<exists>x st2 h2 b2. ?body i (st1, h) = Some (x, st2, h2) \<and> evolves st1 st2 \<and> held i (rid_page rid) b2 st2 \<and>
      view st2 = (view st)(rid_page rid \<mapsto> b2) \<and> Q x b2 h2"
    if dr: "drift st st1" and h1: "held i (rid_page rid) b st1" and v1: "view st1 = view st" for i st1
  proof -
    have str: "tight (put_page i b' st1) \<longrightarrow> strained st"
      using tight_kept(1) [OF dr] tight_kept(2) [OF held_put_page(1) [OF h1 page_inv_length [OF ow(2)]]] tight_strained by simp
    have pg: "page_of i st1 = b" using h1 by (simp add: held_def)
    note pp = held_put_page [OF h1 page_inv_length [OF ow(2)]]
    have a: "holds_records ((page_abs b)(unat (rid_slot rid) \<mapsto> ?after)) b'" using ow by (simp add: holds_records_def)
    have run: "?body i (st1, h) = bindA (store_log crc32 now ?pl) (\<lambda>l. finalize_page crc32 i l) (put_page i b' st1, h)"
      using gm after by (simp add: pg record_at_abs [OF b(4)] b(5))
    obtain x st2 h2 b2 where l: "?body i (st1, h) = Some (x, st2, h2)" "evolves (put_page i b' st1) st2" "same_txn h h2"
        "held i (rid_page rid) b2 st2" "view st2 = (view (put_page i b' st1))(rid_page rid \<mapsto> b2)"
        "holds_records ((page_abs b)(unat (rid_slot rid) \<mapsto> ?after)) b2" "x = Ret () \<or> (\<exists>e. x = Err (CoreWal e)) \<and> tight (put_page i b' st1)"
      unfolding run using log_page_spec [OF pp(2) a pl, of crc32 now h] by blast
    have "view st2 = (view st)(rid_page rid \<mapsto> b2)" using l(5) pp(3) v1 by simp
    moreover have "Q x b2 h2" using l(3,6,7) str unfolding Q_def by blast
    ultimately show ?thesis using l(1,4) evolves_trans [OF pp(1) l(2)]
      by (intro exI [of _ x] exI [of _ st2] exI [of _ h2] exI [of _ b2] conjI)
  qed
  obtain st' res h' where r: "stamp_xmax crc32 now rid is_delete (st, h) = Some (res, st', h')" "evolves st st'"
      "(\<exists>n. res = Err (CoreBuffer (Exhausted n)) \<and> strained st \<and> view st' = view st \<and> h' = h) \<or>
       (\<exists>b'. view st' = (view st)(rid_page rid \<mapsto> b') \<and> Q res b' h')"
    using with_write_spec [OF up b(2,3), of ?body h Q] body unfolding stamp_xmax_def by blast
  show ?thesis
    using r(3)
  proof
    assume "\<exists>n. res = Err (CoreBuffer (Exhausted n)) \<and> strained st \<and> view st' = view st \<and> h' = h"
    then show ?thesis using r(1,2) evolves_ok [OF ok r(2)] evolves_aside(1) [OF r(2)] by (auto simp: stamp_result_def)
  next
    assume "\<exists>b'. view st' = (view st)(rid_page rid \<mapsto> b') \<and> Q res b' h'"
    then obtain c where c: "view st' = (view st)(rid_page rid \<mapsto> c)" "Q res c h'" by blast
    note e = evolves_page [OF ok r(2) c(1) b(1), of "(page_abs b)(unat (rid_slot rid) \<mapsto> ?after)"]
    have "versions st r = page_abs b (unat (rid_slot r))" if "rid_page r = rid_page rid" for r
      using that b by (simp add: versions_def)
    then have "versions st' r = ((versions st)(rid \<mapsto> ?after)) r" for r
      using e(2) [of r] c(2) by (cases "rid_page r = rid_page rid") (auto simp: Q_def word_unat_eq_iff [where 'a = 16, symmetric])
    then have "stamped_version rid (th_id h) rec st st'" by (simp add: stamped_version_def fun_eq_iff)
    then show ?thesis using r(1,2) e(1) c(2) evolves_aside(2) [OF r(2) c(1) b(1)] by (auto simp: Q_def stamp_result_def)
  qed
qed

lemma sees_kept: "txns_kept st st' \<Longrightarrow> th_snapshot h' = th_snapshot h \<Longrightarrow> sees st' h' header = sees st h header"
  by (auto simp: sees_def txns_kept_def)

lemma sees_drift: "drift st st' \<Longrightarrow> th_snapshot h' = th_snapshot h \<Longrightarrow> sees st' h' header = sees st h header"
  by (auto simp: sees_def drift_def)

lemmas sees_evolves = sees_drift [OF evolves_drift]

definition writable :: "RecordStore \<Rightarrow> TxnHandle \<Rightarrow> bytes \<Rightarrow> bool" where
  "writable st h rec \<longleftrightarrow> (case header_decode rec of
     None \<Rightarrow> False
   | Some header \<Rightarrow> sees st h header \<and> (is_deleted header \<longrightarrow> xmax header = th_id h))"

text \<open>The slot of a heap page that a guard reads is the stored version.\<close>

lemma heap_page_versions:
  assumes ok: "store_ok st" and hp: "st_page_heap st (rid_page rid) = Some heap"
  obtains b where "unat (rid_page rid) < page_count (bp_disk (st_pool st))" "view st (rid_page rid) = Some b"
    "page_inv b" "record_at b (rid_slot rid) = Some (versions st rid)"
  by (rule store_okD [OF ok hp]) (use hp in \<open>auto simp: record_at_abs versions_def intro!: that\<close>)

lemma validate_target_spec:
  assumes ok: "store_ok st" and hp: "st_page_heap st (rid_page rid) = Some heap"
  shows "\<exists>res st'. validate_target rid (st, h) = Some (res, st', h) \<and> evolves st st' \<and> store_ok st' \<and> versions st' = versions st \<and> view st' = view st \<and>
    ((\<exists>n. res = Err (CoreBuffer (Exhausted n))) \<and> strained st \<or>
     res = (case versions st rid of Some rec \<Rightarrow> if writable st h rec then Ret () else Err SerializationFailure
            | None \<Rightarrow> Err SerializationFailure))"
proof -
  obtain b where b: "unat (rid_page rid) < page_count (bp_disk (st_pool st))" "view st (rid_page rid) = Some b" "page_inv b"
    "record_at b (rid_slot rid) = Some (versions st rid)" by (rule heap_page_versions [OF ok hp])
  have up: "pool_up (st_pool st)" using ok by (simp add: store_ok_def)
  let ?x = "case versions st rid of Some rec \<Rightarrow> if writable st h rec then Ret () else Err SerializationFailure
      | None \<Rightarrow> Err SerializationFailure"
  let ?body = "\<lambda>b. bindA (get_record b (rid_slot rid)) (\<lambda>rec. case Option.bind rec header_decode of
         None \<Rightarrow> raise SerializationFailure | Some header \<Rightarrow> check_writable header)"
  have "?body b (st1, h) = Some (?x, st1, h)" if "drift st st1" for st1
    using b(4) sees_drift [OF that refl, of h]
    by (cases "versions st rid") (auto simp: bindA_def get_record_def writable_def check_writable_def
        simp del: header_decode_None_iff split: option.splits)
  then obtain res st' where "validate_target rid (st, h) = Some (res, st', h)" "evolves st st'" "view st' = view st"
      "res = ?x \<or> (\<exists>n. res = Err (CoreBuffer (Exhausted n))) \<and> strained st"
    using with_read_spec [OF up b(1,2), of ?body h ?x] unfolding validate_target_def by blast
  then show ?thesis using evolves_ok [OF ok] by metis
qed

text \<open>The walk over the version chain as a function of the stored versions.\<close>

definition chain_step :: "(RecordId \<Rightarrow> bytes option) \<Rightarrow> (RecordHeader \<Rightarrow> bool) \<Rightarrow> RecordId \<Rightarrow> bytes option + RecordId" where
  "chain_step vs see r = (case vs r of
     None \<Rightarrow> Inl None
   | Some rec \<Rightarrow> (case header_decode rec of
       None \<Rightarrow> Inl None
     | Some header \<Rightarrow> if see header then Inl (Some (drop 24 rec))
         else (case prev_version header of None \<Rightarrow> Inl None | Some r' \<Rightarrow> Inr r')))"

fun chain_read :: "nat \<Rightarrow> (RecordId \<Rightarrow> bytes option) \<Rightarrow> (RecordHeader \<Rightarrow> bool) \<Rightarrow> RecordId \<Rightarrow> bytes option option" where
  "chain_read 0 vs see r = None"
| "chain_read (Suc n) vs see r = (case chain_step vs see r of Inl v \<Rightarrow> Some v | Inr r' \<Rightarrow> chain_read n vs see r')"

lemma read_step_spec:
  assumes ok: "store_ok st" and hp: "st_page_heap st (rid_page r) = Some heap"
  shows "\<exists>res st'. read_step r (st, h) = Some (res, st', h) \<and> evolves st st' \<and> store_ok st' \<and> versions st' = versions st \<and> view st' = view st \<and>
    ((\<exists>n. res = Err (CoreBuffer (Exhausted n))) \<and> strained st \<or> res = Ret (chain_step (versions st) (sees st h) r))"
proof -
  obtain b where b: "unat (rid_page r) < page_count (bp_disk (st_pool st))" "view st (rid_page r) = Some b" "page_inv b"
    "record_at b (rid_slot r) = Some (versions st r)" by (rule heap_page_versions [OF ok hp])
  have up: "pool_up (st_pool st)" using ok by (simp add: store_ok_def)
  let ?x = "chain_step (versions st) (sees st h) r"
  let ?body = "\<lambda>b. bindA (get_record b (rid_slot r)) (\<lambda>rec s.
       Some (Ret (case rec of
           None \<Rightarrow> Inl None
         | Some rec \<Rightarrow>
             (case header_decode rec of
                None \<Rightarrow> Inl None
              | Some header \<Rightarrow>
                  if sees (fst s) (snd s) header then Inl (Some (drop MVCC_HEADER_SIZE rec))
                  else (case prev_version header of None \<Rightarrow> Inl None | Some r' \<Rightarrow> Inr r'))), s))"
  have "?body b (st1, h) = Some (Ret ?x, st1, h)" if "drift st st1" for st1
    using b(4) sees_drift [OF that refl, of h]
    by (simp add: bindA_def get_record_def chain_step_def del: header_decode_None_iff split: option.splits)
  then obtain res st' where "read_step r (st, h) = Some (res, st', h)" "evolves st st'" "view st' = view st"
      "res = Ret ?x \<or> (\<exists>n. res = Err (CoreBuffer (Exhausted n))) \<and> strained st"
    using with_read_spec [OF up b(1,2), of ?body h "Ret ?x"] unfolding read_step_def by blast
  then show ?thesis using evolves_ok [OF ok] by metis
qed

section \<open>A log with wide segments\<close>

definition cfg_wide :: Config where
  "cfg_wide = \<lparr>cfg_segment_size = 20000, cfg_sync_mode = Fsync\<rparr>"

lemma wide_wal: "\<exists>w. wal_open (\<lambda>_. 3) 0 cfg_wide [] = Inr w \<and> wal_segment_size w = 20000 \<and> wal_top w"
  by (simp add: wal_open_def create_segment_def Let_def cfg_wide_def sync_file_def wal_top_def split: option.splits)

end
