(* ===== verification/Versions.thy ===== *)
theory Versions
  imports Store
begin

text \<open>
  The record store as a store of versions.  \<open>vstep\<close> is the abstract machine: a transaction adds
  versions of its own and stamps versions nobody else has stamped.  Every operation of the store
  is a sequence of its steps; the walk over a version chain ends; old snapshots keep their
  versions; the first updater of a version wins.
\<close>

section \<open>The abstract version store\<close>

type_synonym version_map = "RecordId \<Rightarrow> bytes option"

text \<open>
  What a transaction may do to the versions: add a version of its own, not superseded and chained
  to an existing version or to none, and stamp a version that nobody else has stamped.
\<close>

inductive vstep :: "txn_id \<Rightarrow> version_map \<Rightarrow> version_map \<Rightarrow> bool" for t :: txn_id where
  Add: "vs r = None \<Longrightarrow> header_decode bs = Some header \<Longrightarrow> xmin header = t \<Longrightarrow> xmax header = NO_TXN \<Longrightarrow>
    (\<forall>r'. prev_version header = Some r' \<longrightarrow> vs r' \<noteq> None) \<Longrightarrow> vstep t vs (vs(r \<mapsto> bs))"
| Stamp: "vs r = Some rec \<Longrightarrow> header_decode rec = Some header \<Longrightarrow> xmax header = NO_TXN \<or> xmax header = t \<Longrightarrow>
    vstep t vs (vs(r \<mapsto> stamp_bytes t rec))"

text \<open>The versions in the order of their creation; every version points to an older one.\<close>

definition chain_ok :: "version_map \<Rightarrow> RecordId list \<Rightarrow> bool" where
  "chain_ok vs rs \<longleftrightarrow> distinct rs \<and> set rs = dom vs \<and>
     (\<forall>k < length rs. \<forall>header r'. Option.bind (vs (rs ! k)) header_decode = Some header \<longrightarrow>
        prev_version header = Some r' \<longrightarrow> r' \<in> set (take k rs)) \<and>
     (\<forall>r rec. vs r = Some rec \<longrightarrow> 24 \<le> length rec)"

lemma chain_ok_add:
  assumes ok: "chain_ok vs rs" and r: "vs r = None" and bs: "header_decode bs = Some header"
    and prev: "\<forall>r'. prev_version header = Some r' \<longrightarrow> vs r' \<noteq> None"
  shows "chain_ok (vs(r \<mapsto> bs)) (rs @ [r])"
proof -
  have set: "set rs = dom vs" "r \<notin> set rs" using ok r by (auto simp: chain_ok_def)
  have "r' \<in> set (take k (rs @ [r]))"
    if k: "k < length (rs @ [r])" and d: "Option.bind ((vs(r \<mapsto> bs)) ((rs @ [r]) ! k)) header_decode = Some hd'"
      and p: "prev_version hd' = Some r'" for k hd' r'
  proof (cases "k = length rs")
    case True
    then show ?thesis using d p bs prev set(1) by auto
  next
    case False
    then have k': "k < length rs" using k by simp
    moreover have "rs ! k \<noteq> r" using set(2) k' nth_mem by metis
    ultimately have "r' \<in> set (take k rs)" using ok d p by (simp add: chain_ok_def nth_append)
    then show ?thesis using k' by simp
  qed
  moreover have "24 \<le> length bs" using bs by (metis header_decode_None_iff not_le option.distinct(1))
  ultimately show ?thesis using ok set by (auto simp: chain_ok_def)
qed

lemma chain_ok_stamp:
  assumes ok: "chain_ok vs rs" and r: "vs r = Some rec"
  shows "chain_ok (vs(r \<mapsto> stamp_bytes t rec)) rs"
proof -
  have len: "24 \<le> length rec" using ok r by (simp add: chain_ok_def)
  note sb = stamp_bytes_decode [OF len, of t]
  have "r' \<in> set (take k rs)" if k: "k < length rs" and d: "Option.bind ((vs(r \<mapsto> stamp_bytes t rec)) (rs ! k)) header_decode = Some hd'"
      and p: "prev_version hd' = Some r'" for k hd' r'
  proof -
    obtain h0 where "Option.bind (vs (rs ! k)) header_decode = Some h0" "prev_version h0 = Some r'"
      using d p r sb(2) by (cases "rs ! k = r") auto
    then show ?thesis using ok k by (auto simp: chain_ok_def)
  qed
  then show ?thesis using ok r sb(1) by (auto simp: chain_ok_def)
qed

lemma vstep_chain_ok: "vstep t vs vs' \<Longrightarrow> chain_ok vs rs \<Longrightarrow> \<exists>rs'. chain_ok vs' rs'"
  by (induction rule: vstep.induct) (blast intro: chain_ok_add chain_ok_stamp)+

lemma vsteps_chain_ok: "(vstep t)\<^sup>*\<^sup>* vs vs' \<Longrightarrow> \<exists>rs. chain_ok vs rs \<Longrightarrow> \<exists>rs'. chain_ok vs' rs'"
  by (induction rule: rtranclp_induct) (blast intro: vstep_chain_ok)+

lemma chain_step_older:
  assumes "chain_ok vs rs" and "k < length rs" and "chain_step vs see (rs ! k) = Inr r'"
  shows "r' \<in> set (take k rs)"
proof -
  obtain rec header where "vs (rs ! k) = Some rec" "header_decode rec = Some header" "prev_version header = Some r'"
    using assms(3) by (auto simp: chain_step_def split: option.splits if_splits)
  then show ?thesis using assms(1,2) by (simp add: chain_ok_def)
qed

text \<open>The walk ends within as many steps as there are versions, and does not depend on the fuel.\<close>

lemma chain_read_ends:
  assumes ok: "chain_ok vs rs"
  shows "r \<in> set (take k rs) \<Longrightarrow> k \<le> n \<Longrightarrow> chain_read n vs see r \<noteq> None"
proof (induction k arbitrary: n r rule: less_induct)
  case (less k)
  obtain j where j: "j < k" "j < length rs" "r = rs ! j" using less.prems(1) by (auto simp: in_set_conv_nth)
  obtain m where n: "n = Suc m" using less.prems(2) j(1) by (cases n) auto
  show ?case
  proof (cases "chain_step vs see r")
    case (Inr r')
    then have "r' \<in> set (take j rs)" using chain_step_older [OF ok j(2)] j(3) by simp
    then show ?thesis using less.IH [OF j(1), of r' m] Inr n less.prems(2) j(1) by simp
  qed (simp add: n)
qed

lemma chain_read_mono: "chain_read n vs see r = Some v \<Longrightarrow> n \<le> m \<Longrightarrow> chain_read m vs see r = Some v"
proof (induction n arbitrary: r m)
  case (Suc n)
  then obtain k where "m = Suc k" "n \<le> k" by (cases m) auto
  then show ?case using Suc by (auto split: sum.splits)
qed simp

definition read_result :: "nat \<Rightarrow> RecordId \<Rightarrow> RecordStore \<Rightarrow> TxnHandle \<Rightarrow> (bytes option Outcome \<times> RecordStore \<times> TxnHandle) exec \<Rightarrow> bool" where
  "read_result n r st h x \<longleftrightarrow> (case x of
     None \<Rightarrow> chain_read n (versions st) (sees st h) r = None
   | Some (res, st', h') \<Rightarrow> h' = h \<and> evolves st st' \<and> store_ok st' \<and> versions st' = versions st \<and> view st' = view st \<and>
       ((\<exists>n. res = Err (CoreBuffer (Exhausted n))) \<and> strained st \<or>
        (\<exists>v. res = Ret v \<and> chain_read n (versions st) (sees st h) r = Some v)))"

lemma read_chain_spec:
  assumes "chain_ok (versions st) rs" and "store_ok st" and "versions st r \<noteq> None"
  shows "read_result n r st h (read_chain n r (st, h))"
  using assms
proof (induction n arbitrary: r st)
  case 0
  then show ?case by (simp add: read_result_def)
next
  case (Suc n)
  obtain heap where hp: "st_page_heap st (rid_page r) = Some heap" using Suc.prems(3) by (auto simp: versions_def split: if_splits)
  obtain res st1 where s: "read_step r (st, h) = Some (res, st1, h)" "evolves st st1" "store_ok st1" "versions st1 = versions st" "view st1 = view st"
      "(\<exists>n. res = Err (CoreBuffer (Exhausted n))) \<and> strained st \<or> res = Ret (chain_step (versions st) (sees st h) r)"
    using read_step_spec [OF Suc.prems(2) hp] by blast
  have see: "sees st1 h = sees st h" using sees_evolves [OF s(2) refl] by blast
  show ?case
  proof (cases "\<exists>r'. res = Ret (Inr r')")
    case False
    then show ?thesis using s by (cases "chain_step (versions st) (sees st h) r") (auto simp: bindA_cases read_result_def)
  next
    case True
    then obtain r' where r': "res = Ret (Inr r')" "chain_step (versions st) (sees st h) r = Inr r'" using s(6)
      by (metis Outcome.distinct(1) Outcome.inject(1))
    obtain k where "k < length rs" "r = rs ! k" using Suc.prems(1,3) by (metis chain_ok_def domIff in_set_conv_nth)
    then have "r' \<in> set (take k rs)" using chain_step_older [OF Suc.prems(1)] r'(2) by simp
    then have in': "versions st1 r' \<noteq> None" using Suc.prems(1) s(4) by (auto simp: chain_ok_def dest!: in_set_takeD)
    have "chain_ok (versions st1) rs" using Suc.prems(1) s(4) by simp
    note IH = Suc.IH [OF this s(3) in']
    show ?thesis
    proof (cases "read_chain n r' (st1, h)")
      case None
      then show ?thesis using IH s(1,4,5) r' see by (simp add: bindA_cases read_result_def)
    next
      case (Some x)
      obtain res2 st2 h2 where x: "x = (res2, st2, h2)" by (cases x) auto
      have "evolves st st2" using IH Some x evolves_trans [OF s(2)] by (simp add: read_result_def)
      then show ?thesis using IH Some x s(1,4,5) r' see strained_evolves [OF s(2)] by (simp add: bindA_cases read_result_def)
    qed
  qed
qed

section \<open>Operations are sequences of version steps\<close>

definition cl_kept :: "RecordStore \<Rightarrow> RecordStore \<Rightarrow> bool" where
  "cl_kept st st' \<longleftrightarrow> tm_commit_log (st_txns st') = tm_commit_log (st_txns st) \<and> tm_next_txn (st_txns st') = tm_next_txn (st_txns st) \<and>
     tm_active (st_txns st') = tm_active (st_txns st) \<and> strained st' = strained st \<and>
     (\<forall>page heap. st_page_heap st page = Some heap \<longrightarrow> st_page_heap st' page = Some heap)"

lemma cl_kept_refl [simp]: "cl_kept st st"
  by (simp add: cl_kept_def)

lemma cl_kept_trans: "cl_kept a b \<Longrightarrow> cl_kept b c \<Longrightarrow> cl_kept a c"
  by (simp add: cl_kept_def)

lemma txns_kept_cl: "txns_kept st st' \<Longrightarrow> cl_kept st st'"
  by (auto simp: txns_kept_def cl_kept_def)

lemmas evolves_cl = txns_kept_cl [OF evolves_kept]

lemma sees_cl: "cl_kept st st' \<Longrightarrow> th_snapshot h' = th_snapshot h \<Longrightarrow> sees st' h' header = sees st h header"
  by (simp add: cl_kept_def sees_def)

lemma writable_cl: "cl_kept st st' \<Longrightarrow> same_txn h h' \<Longrightarrow> writable st' h' rec = writable st h rec"
  using sees_cl [of st st' h' h] by (simp add: writable_def same_txnD del: header_decode_None_iff split: option.splits)

definition lock_free :: "RecordStore \<Rightarrow> TxnHandle \<Rightarrow> RecordId \<Rightarrow> bool" where
  "lock_free st h rid \<longleftrightarrow> holder_of (tm_locks (st_txns st)) rid \<in> {None, Some (th_id h)}"

text \<open>No other transaction holds a lock.\<close>

definition locks_calm :: "RecordStore \<Rightarrow> TxnHandle \<Rightarrow> bool" where
  "locks_calm st h \<longleftrightarrow> lk_inv (tm_locks (st_txns st)) \<and> (\<forall>rid. lock_free st h rid)"

lemma txns_kept_calm: "txns_kept st st' \<Longrightarrow> same_txn h h' \<Longrightarrow> locks_calm st' h' = locks_calm st h"
  by (auto simp: txns_kept_def locks_calm_def lock_free_def same_txnD)

lemma acquire_lock_spec:
  assumes "store_ok st"
  shows "\<exists>res st'. acquire_lock expired rid (st, h) = Some (res, st', h) \<and> store_ok st' \<and> versions st' = versions st \<and>
    cl_kept st st' \<and> st_page_heap st' = st_page_heap st \<and> st_pool st' = st_pool st \<and> (locks_calm st h \<longrightarrow> locks_calm st' h) \<and>
    (res = Ret () \<or> (res = Waits \<or> (\<exists>e. res = Err (CoreLock e))) \<and> \<not> lock_free st h rid)"
proof -
  obtain lm step where a: "acquire_round (th_id h) rid expired (tm_locks (st_txns st)) = (lm, step)" by fastforce
  let ?st = "st\<lparr>st_txns := (st_txns st)\<lparr>tm_locks := lm\<rparr>\<rparr>"
  have "store_ok ?st" using assms by (auto simp: store_ok_def tables_ok_def heap_page_ok_def)
  moreover have "versions ?st = versions st" by (simp add: versions_def fun_eq_iff)
  moreover have "step = Acquired" if "lock_free st h rid"
    using a that by (auto simp: lock_free_def acquire_round_def Let_def split: option.splits)
  moreover have "locks_calm ?st h" if "locks_calm st h"
  proof -
    have inv: "lk_inv (tm_locks (st_txns st))" and free: "\<And>q. holder_of (tm_locks (st_txns st)) q \<in> {None, Some (th_id h)}"
      using that by (simp_all add: locks_calm_def lock_free_def)
    then have "lk_inv lm" using lk_inv_apply [OF inv, of "OpAcquire (th_id h) rid expired"] a by simp
    moreover have "holder_of lm q \<in> {None, Some (th_id h)}" for q
    proof (cases "holder_of (tm_locks (st_txns st)) rid")
      case None
      then show ?thesis using acquire_round_free(2) [OF inv None, of "th_id h" expired q] a free [of q] by auto
    next
      case (Some t)
      then have "t = th_id h" using free [of rid] by auto
      then show ?thesis using Some a free [of q] by (auto simp: acquire_round_def)
    qed
    ultimately show ?thesis by (simp add: locks_calm_def lock_free_def)
  qed
  ultimately show ?thesis using a by (cases step) (auto simp: acquire_lock_def cl_kept_def strained_def tight_def)
qed

text \<open>A new version that is chained to \<open>prev\<close>.\<close>

definition version_header :: "txn_id \<Rightarrow> RecordId option \<Rightarrow> RecordHeader" where
  "version_header t prev = \<lparr>xmin = t, xmax = NO_TXN, prev_version = prev, hdr_flags = 0\<rparr>"

definition version_bytes :: "txn_id \<Rightarrow> RecordId option \<Rightarrow> bytes \<Rightarrow> bytes" where
  "version_bytes t prev payload = encode_version (version_header t prev) payload"

lemma version_bytes_decode:
  assumes "\<And>r. prev = Some r \<Longrightarrow> rid6_ok r"
  shows "\<exists>header. header_decode (version_bytes t prev payload) = Some header \<and> xmin header = t \<and> xmax header = 0 \<and>
    prev_version header = prev" and "drop 24 (version_bytes t prev payload) = payload" and "24 \<le> length (version_bytes t prev payload)"
proof -
  have "header_ok6 (version_header t prev)" using assms by (simp add: header_ok6_def version_header_def split: option.splits)
  from header_decode_encode [OF this, of payload]
  show "\<exists>header. header_decode (version_bytes t prev payload) = Some header \<and> xmin header = t \<and> xmax header = 0 \<and>
      prev_version header = prev"
    by (simp add: version_bytes_def encode_version_def) (simp add: version_header_def)
  show "drop 24 (version_bytes t prev payload) = payload" "24 \<le> length (version_bytes t prev payload)"
    by (simp_all add: version_bytes_def encode_version_def)
qed

lemma length_version_bytes: "length (version_bytes t prev payload) = 24 + length payload"
  by (simp add: version_bytes_def encode_version_def)

lemma vstep_added:
  assumes "added_version heap rid (version_bytes t prev payload) st st'" and "\<And>r. prev = Some r \<Longrightarrow> rid6_ok r \<and> versions st r \<noteq> None"
  shows "vstep t (versions st) (versions st')"
proof -
  obtain header where h: "header_decode (version_bytes t prev payload) = Some header" "xmin header = t" "xmax header = 0"
      "prev_version header = prev" using version_bytes_decode(1) [of prev t payload] assms(2) by blast
  have a: "versions st rid = None" "versions st' = (versions st)(rid \<mapsto> version_bytes t prev payload)"
    using assms(1) by (auto simp: added_version_def)
  show ?thesis unfolding a(2) by (rule vstep.Add [where vs = "versions st" and r = rid, OF a(1) h(1,2)]) (use h(3,4) assms(2) in auto)
qed

lemma vstep_insert_result:
  assumes "insert_result heap (version_bytes t prev payload) st res st'" and "\<And>r. prev = Some r \<Longrightarrow> rid6_ok r \<and> versions st r \<noteq> None"
  shows "(vstep t)\<^sup>*\<^sup>* (versions st) (versions st')"
proof -
  have "versions st' = versions st \<or> (\<exists>rid. added_version heap rid (version_bytes t prev payload) st st')"
    using assms(1) by (auto simp: insert_result_def split: Outcome.splits CoreError.splits BufferError.splits)
  then show ?thesis using vstep_added [OF _ assms(2)] by auto
qed

lemma store_insert_spec:
  assumes ok: "store_ok st" and cnt: "page_count (bp_disk (st_pool st)) < 2 ^ 64"
  shows "\<exists>res st' h'. store_insert crc32 now heap payload (st, h) = Some (res, st', h') \<and> store_ok st' \<and> txns_kept st st' \<and>
    page_count (bp_disk (st_pool st')) \<le> page_count (bp_disk (st_pool st)) + 1 \<and> 
    same_txn h h' \<and> insert_result heap (version_bytes (th_id h) None payload) st res st'"
proof -
  have "store_insert crc32 now heap payload (st, h) = insert_bytes crc32 now heap (version_bytes (th_id h) None payload) (st, h)"
    by (simp add: store_insert_def version_bytes_def new_insert_def version_header_def)
  then show ?thesis using insert_bytes_spec [OF assms, of crc32 now heap "version_bytes (th_id h) None payload" h] by simp
qed

lemma writable_header:
  assumes "writable st h rec"
  obtains header where "header_decode rec = Some header" "sees st h header" "xmax header = 0 \<or> xmax header = th_id h" "24 \<le> length rec"
proof -
  obtain header where h: "header_decode rec = Some header" "sees st h header" "is_deleted header \<longrightarrow> xmax header = th_id h"
    using assms by (auto simp: writable_def simp del: header_decode_None_iff split: option.splits)
  moreover have "24 \<le> length rec" using h(1) by (metis header_decode_None_iff not_le option.distinct(1))
  ultimately show ?thesis using that by (auto simp: is_deleted_def)
qed

lemma vstep_stamp_result:
  assumes "stamp_result rid t rec st res st'" and "versions st rid = Some rec" and "header_decode rec = Some header"
    and "xmax header = 0 \<or> xmax header = t"
  shows "(vstep t)\<^sup>*\<^sup>* (versions st) (versions st')"
proof -
  have "versions st' = versions st \<or> stamped_version rid t rec st st'"
    using assms(1) by (auto simp: stamp_result_def split: Outcome.splits CoreError.splits BufferError.splits)
  then show ?thesis using vstep.Stamp [where vs = "versions st" and r = rid, OF assms(2,3)] assms(4) by (auto simp: stamped_version_def)
qed

lemma bindA_assoc: "bindA m (\<lambda>x. bindA (f x) g) = bindA (bindA m f) g"
  by (auto simp: bindA_def fun_eq_iff split: Option.bind_splits Outcome.splits)

text \<open>Lock and validate: afterwards the target is a version the transaction may supersede.\<close>

definition claim_target :: "bool \<Rightarrow> RecordId \<Rightarrow> unit act" where
  "claim_target expired rid = bindA (acquire_lock expired rid) (\<lambda>_. validate_target rid)"

lemma claim_target_spec:
  assumes ok: "store_ok st" and hp: "st_page_heap st (rid_page rid) = Some heap"
  shows "\<exists>res st'. claim_target expired rid (st, h) = Some (res, st', h) \<and> store_ok st' \<and> versions st' = versions st \<and>
    cl_kept st st' \<and> page_count (bp_disk (st_pool st')) = page_count (bp_disk (st_pool st)) \<and> aside st st' \<and>
    (locks_calm st h \<longrightarrow> locks_calm st' h) \<and> (res = Ret () \<longrightarrow> (\<exists>rec. versions st rid = Some rec \<and> writable st h rec)) \<and>
    (res = Ret () \<or> strained st \<or> \<not> lock_free st h rid \<or> (\<forall>rec. versions st rid = Some rec \<longrightarrow> \<not> writable st h rec))"
proof -
  obtain r1 st1 where a: "acquire_lock expired rid (st, h) = Some (r1, st1, h)" "store_ok st1" "versions st1 = versions st"
      "cl_kept st st1" "st_page_heap st1 = st_page_heap st" "st_pool st1 = st_pool st" "locks_calm st h \<longrightarrow> locks_calm st1 h" "r1 = Ret () \<or> (r1 = Waits \<or> (\<exists>e. r1 = Err (CoreLock e))) \<and> \<not> lock_free st h rid"
    using acquire_lock_spec [OF ok] by blast
  show ?thesis
  proof (cases "r1 = Ret ()")
    case False
    then show ?thesis using a by (auto simp: claim_target_def bindA_cases aside_def)
  next
    case True
    have hp1: "st_page_heap st1 (rid_page rid) = Some heap" using hp a(5) by simp
    obtain r2 st2 where v: "validate_target rid (st1, h) = Some (r2, st2, h)" "evolves st1 st2" "store_ok st2" "versions st2 = versions st1" "view st2 = view st1"
      "(\<exists>n. r2 = Err (CoreBuffer (Exhausted n))) \<and> strained st1 \<or>
        r2 = (case versions st1 rid of Some rec \<Rightarrow> if writable st1 h rec then Ret () else Err SerializationFailure | None \<Rightarrow> Err SerializationFailure)"
      using validate_target_spec [OF a(2) hp1] by blast
    have cl2: "cl_kept st st2" using a(4) evolves_cl [OF v(2)] cl_kept_trans by blast
    have "r2 = Ret () \<longrightarrow> (\<exists>rec. versions st rid = Some rec \<and> writable st h rec)"
        "r2 = Ret () \<or> strained st \<or> (\<forall>rec. versions st rid = Some rec \<longrightarrow> \<not> writable st h rec)"
      using v(6) a(3,4) writable_cl [OF a(4) same_txn_refl, of h] by (auto simp: cl_kept_def split: option.splits if_splits)
    moreover have "claim_target expired rid (st, h) = Some (r2, st2, h)" using a(1) True v(1) by (simp add: claim_target_def bindA_cases)
    moreover have "aside st st2" using evolves_aside(1) [OF v(2,5)] a(5,6) by (simp add: aside_def)
    moreover have "locks_calm st h \<longrightarrow> locks_calm st2 h" using a(7) txns_kept_calm [OF evolves_kept [OF v(2)] same_txn_refl] by blast
    ultimately show ?thesis using v(2,3,4) a(3,6) cl2 by (auto simp: evolves_defs)
  qed
qed

text \<open>Stamping a version that may be superseded.\<close>

lemma stamp_writable:
  assumes ok: "store_ok st" and rec: "versions st rid = Some rec" and w: "writable st0 h rec" and h: "same_txn h h1"
  shows "\<exists>res st' h'. stamp_xmax crc32 now rid is_delete (st, h1) = Some (res, st', h') \<and> store_ok st' \<and> txns_kept st st' \<and>
    same_txn h h' \<and> stamp_result rid (th_id h) rec st res st' \<and> (vstep (th_id h))\<^sup>*\<^sup>* (versions st) (versions st') \<and>
    page_count (bp_disk (st_pool st')) = page_count (bp_disk (st_pool st))"
proof -
  obtain header where hd: "header_decode rec = Some header" "xmax header = 0 \<or> xmax header = th_id h" "24 \<le> length rec"
    by (rule writable_header [OF w])
  obtain res st' h' where s: "stamp_xmax crc32 now rid is_delete (st, h1) = Some (res, st', h')" "evolves st st'" "store_ok st'"
      "same_txn h1 h'" "stamp_result rid (th_id h) rec st res st'"
    using stamp_xmax_spec [OF ok rec hd(3), of crc32 now is_delete h1] same_txnD(1) [OF h] by auto
  then show ?thesis
    using vstep_stamp_result [OF s(5) rec hd(1,2)] evolves_kept [OF s(2)] same_txn_trans [OF h s(4)] by (auto simp: evolves_defs)
qed

definition update_result :: "RecordId \<Rightarrow> bytes \<Rightarrow> TxnHandle \<Rightarrow> RecordStore \<Rightarrow> RecordId Outcome \<Rightarrow> RecordStore \<Rightarrow> bool" where
  "update_result rid payload h st res st' \<longleftrightarrow> aside st st' \<and> page_count (bp_disk (st_pool st')) \<le> page_count (bp_disk (st_pool st)) + 1 \<and> (locks_calm st h \<longrightarrow> locks_calm st' h) \<and>
     (vstep (th_id h))\<^sup>*\<^sup>* (versions st) (versions st') \<and>
     (case res of
        Ret new \<Rightarrow> \<exists>rec. versions st rid = Some rec \<and> writable st h rec \<and> versions st new = None \<and>
          st_page_heap st' (rid_page new) = st_page_heap st (rid_page rid) \<and>
          versions st' = (versions st)(new \<mapsto> version_bytes (th_id h) (Some rid) payload, rid \<mapsto> stamp_bytes (th_id h) rec)
      | Waits \<Rightarrow> versions st' = versions st
      | Err e \<Rightarrow> (\<exists>rec. versions st rid = Some rec \<and> \<not> writable st h rec) \<longrightarrow> versions st' = versions st)"

text \<open>The part of an update after the target has been claimed.\<close>

lemma update_writes:
  assumes ok: "store_ok st" and cnt: "page_count (bp_disk (st_pool st)) < 2 ^ 64" and r6: "rid6_ok rid"
    and rec: "versions st rid = Some rec" "writable st0 h rec"
  shows "\<exists>res st' h'. bindA (insert_bytes crc32 now heap (version_bytes (th_id h) (Some rid) payload))
      (\<lambda>new_rid. bindA (stamp_xmax crc32 now rid False) (\<lambda>_. ret new_rid)) (st, h) = Some (res, st', h') \<and>
    store_ok st' \<and> cl_kept st st' \<and> same_txn h h' \<and> (vstep (th_id h))\<^sup>*\<^sup>* (versions st) (versions st') \<and> aside st st' \<and> txns_kept st st' \<and> res \<noteq> Waits \<and>
    page_count (bp_disk (st_pool st')) \<le> page_count (bp_disk (st_pool st)) + 1 \<and>
    ((\<exists>new. res = Ret new) \<or> strained st \<or> 8132 < length payload) \<and>
    (\<forall>new. res = Ret new \<longrightarrow> versions st new = None \<and> st_page_heap st' (rid_page new) = Some heap \<and>
       versions st' = (versions st)(new \<mapsto> version_bytes (th_id h) (Some rid) payload, rid \<mapsto> stamp_bytes (th_id h) rec))"
proof -
  let ?bs = "version_bytes (th_id h) (Some rid) payload"
  obtain r3 st3 h3 where i: "insert_bytes crc32 now heap ?bs (st, h) = Some (r3, st3, h3)" "store_ok st3" "txns_kept st st3"
      "same_txn h h3" "insert_result heap ?bs st r3 st3" "page_count (bp_disk (st_pool st3)) \<le> page_count (bp_disk (st_pool st)) + 1"
    using insert_bytes_spec [OF ok cnt] by blast
  note cl3 = txns_kept_cl [OF i(3)]
  have off3: "aside st st3" using i(5) by (simp add: insert_result_def)
  have s1: "(vstep (th_id h))\<^sup>*\<^sup>* (versions st) (versions st3)" using vstep_insert_result [OF i(5)] r6 rec by simp
  show ?thesis
  proof (cases "\<exists>new. r3 = Ret new")
    case False
    then obtain e where "r3 = Err e" "strained st \<or> 8156 < length ?bs"
      using i(5) by (auto simp: insert_result_def split: Outcome.splits CoreError.splits BufferError.splits)
    then show ?thesis using i(1-4,6) s1 cl3 off3 by (auto simp: bindA_cases length_version_bytes)
  next
    case True
    then obtain new where new: "r3 = Ret new" by blast
    then have ad: "versions st new = None" "versions st3 = (versions st)(new \<mapsto> ?bs)" "st_page_heap st3 (rid_page new) = Some heap"
      using i(5) by (simp_all add: insert_result_def added_version_def)
    have rec3: "versions st3 rid = Some rec" using ad rec(1) by auto
    obtain r4 st4 h4 where s: "stamp_xmax crc32 now rid False (st3, h3) = Some (r4, st4, h4)" "store_ok st4" "txns_kept st3 st4"
        "same_txn h h4" "stamp_result rid (th_id h) rec st3 r4 st4" "(vstep (th_id h))\<^sup>*\<^sup>* (versions st3) (versions st4)"
        "page_count (bp_disk (st_pool st4)) = page_count (bp_disk (st_pool st3))"
      using stamp_writable [OF i(2) rec3 rec(2) i(4)] by blast
    have "r4 \<noteq> Waits" "r4 = Ret () \<Longrightarrow> versions st4 = (versions st3)(rid \<mapsto> stamp_bytes (th_id h) rec)"
        "r4 = Err e \<Longrightarrow> strained st" for e
      using s(5) cl3 by (auto simp: stamp_result_def stamped_version_def cl_kept_def split: CoreError.splits BufferError.splits)
    moreover have "st_page_heap st4 (rid_page new) = Some heap" using s(3) ad(3) by (simp add: txns_kept_def)
    moreover have "aside st st4" using s(5) aside_trans [OF off3] by (simp add: stamp_result_def)
    ultimately show ?thesis
      using i(1,6) s(1,2,4,7) new ad txns_kept_cl [OF txns_kept_trans [OF i(3) s(3)]] txns_kept_trans [OF i(3) s(3)] rtranclp_trans [OF s1 s(6)]
      by (cases r4) (auto simp: bindA_cases)
  qed
qed

lemma store_update_spec:
  assumes ok: "store_ok st" and cnt: "page_count (bp_disk (st_pool st)) < 2 ^ 64" and r6: "rid6_ok rid"
  shows "\<exists>res st' h'. store_update crc32 now expired rid payload (st, h) = Some (res, st', h') \<and> store_ok st' \<and> cl_kept st st' \<and>
    same_txn h h' \<and> update_result rid payload h st res st' \<and>
    (strained st \<or> \<not> lock_free st h rid \<or> (\<forall>rec. versions st rid = Some rec \<longrightarrow> \<not> writable st h rec) \<or>
     8132 < length payload \<or> (\<exists>new. res = Ret new))"
proof (cases "st_page_heap st (rid_page rid)")
  case None
  then have "versions st rid = None" by (simp add: versions_def)
  then show ?thesis using ok None by (auto simp: store_update_def heap_of_def bindA_def update_result_def)
next
  case (Some heap)
  let ?rest = "bindA (insert_bytes crc32 now heap (version_bytes (th_id h) (Some rid) payload))
      (\<lambda>new_rid. bindA (stamp_xmax crc32 now rid False) (\<lambda>_. ret new_rid))"
  have "heap_of (rid_page rid) (st, h) = Some (Ret heap, st, h)" using Some by (simp add: heap_of_def)
  then have unf: "store_update crc32 now expired rid payload (st, h) = bindA (claim_target expired rid) (\<lambda>_. ?rest) (st, h)"
    by (simp add: store_update_def bindA_cases(1) version_bytes_def version_header_def claim_target_def bindA_assoc [symmetric])
  obtain r1 st1 where c: "claim_target expired rid (st, h) = Some (r1, st1, h)" "store_ok st1" "versions st1 = versions st"
      "cl_kept st st1" "page_count (bp_disk (st_pool st1)) = page_count (bp_disk (st_pool st))"
      "r1 = Ret () \<longrightarrow> (\<exists>rec. versions st rid = Some rec \<and> writable st h rec)" "aside st st1" "locks_calm st h \<longrightarrow> locks_calm st1 h"
      "r1 = Ret () \<or> strained st \<or> \<not> lock_free st h rid \<or> (\<forall>rec. versions st rid = Some rec \<longrightarrow> \<not> writable st h rec)"
    using claim_target_spec [OF ok Some] by blast
  show ?thesis
  proof (cases "r1 = Ret ()")
    case False
    then show ?thesis using c(1-5,7-9) by (cases r1) (auto simp: unf bindA_cases update_result_def)
  next
    case True
    then obtain rec where rec: "versions st1 rid = Some rec" "writable st h rec" using c(3,6) by auto
    obtain res st' h' where u: "?rest (st1, h) = Some (res, st', h')" "store_ok st'" "cl_kept st1 st'" "same_txn h h'"
        "(vstep (th_id h))\<^sup>*\<^sup>* (versions st1) (versions st')" "res \<noteq> Waits" "aside st1 st'" "txns_kept st1 st'"
        "page_count (bp_disk (st_pool st')) \<le> page_count (bp_disk (st_pool st1)) + 1"
        "(\<exists>new. res = Ret new) \<or> strained st1 \<or> 8132 < length payload" "\<forall>new. res = Ret new \<longrightarrow> versions st1 new = None \<and> st_page_heap st' (rid_page new) = Some heap \<and>
          versions st' = (versions st1)(new \<mapsto> version_bytes (th_id h) (Some rid) payload, rid \<mapsto> stamp_bytes (th_id h) rec)"
      using update_writes [OF c(2) _ r6 rec, of crc32 now heap payload] c(5) cnt by auto
    then have "update_result rid payload h st res st'" using c(3,5,8) rec Some aside_trans [OF c(7)] txns_kept_calm [of st1 st' h h] by (cases res) (auto simp: update_result_def)
    moreover have "strained st1 = strained st" using c(4) by (simp add: cl_kept_def)
    ultimately show ?thesis using u(1,2,4,10) c(1) True cl_kept_trans [OF c(4) u(3)] by (auto simp: unf bindA_cases(1))
  qed
qed

definition delete_result :: "RecordId \<Rightarrow> TxnHandle \<Rightarrow> RecordStore \<Rightarrow> unit Outcome \<Rightarrow> RecordStore \<Rightarrow> bool" where
  "delete_result rid h st res st' \<longleftrightarrow> aside st st' \<and> page_count (bp_disk (st_pool st')) \<le> page_count (bp_disk (st_pool st)) + 1 \<and> (locks_calm st h \<longrightarrow> locks_calm st' h) \<and>
     (vstep (th_id h))\<^sup>*\<^sup>* (versions st) (versions st') \<and>
     (case res of
        Ret _ \<Rightarrow> \<exists>rec. versions st rid = Some rec \<and> writable st h rec \<and> versions st' = (versions st)(rid \<mapsto> stamp_bytes (th_id h) rec)
      | Waits \<Rightarrow> versions st' = versions st
      | Err e \<Rightarrow> (\<exists>rec. versions st rid = Some rec \<and> \<not> writable st h rec) \<longrightarrow> versions st' = versions st)"

lemma store_delete_spec:
  assumes ok: "store_ok st" and hp: "st_page_heap st (rid_page rid) = Some heap"
  shows "\<exists>res st' h'. store_delete crc32 now expired rid (st, h) = Some (res, st', h') \<and> store_ok st' \<and> cl_kept st st' \<and>
    same_txn h h' \<and> delete_result rid h st res st' \<and>
    (strained st \<or> \<not> lock_free st h rid \<or> (\<forall>rec. versions st rid = Some rec \<longrightarrow> \<not> writable st h rec) \<or> res = Ret ())"
proof -
  have unf: "store_delete crc32 now expired rid = bindA (claim_target expired rid) (\<lambda>_. stamp_xmax crc32 now rid True)"
    by (simp add: store_delete_def claim_target_def bindA_assoc [symmetric])
  obtain r1 st1 where c: "claim_target expired rid (st, h) = Some (r1, st1, h)" "store_ok st1" "versions st1 = versions st"
      "cl_kept st st1" "r1 = Ret () \<longrightarrow> (\<exists>rec. versions st rid = Some rec \<and> writable st h rec)"
      "aside st st1" "page_count (bp_disk (st_pool st1)) = page_count (bp_disk (st_pool st))" "locks_calm st h \<longrightarrow> locks_calm st1 h"
      "r1 = Ret () \<or> strained st \<or> \<not> lock_free st h rid \<or> (\<forall>rec. versions st rid = Some rec \<longrightarrow> \<not> writable st h rec)"
    using claim_target_spec [OF ok hp] by blast
  show ?thesis
  proof (cases "r1 = Ret ()")
    case False
    then show ?thesis using c(1-4,6-9) by (cases r1) (auto simp: unf bindA_cases delete_result_def)
  next
    case True
    then obtain rec where rec: "versions st1 rid = Some rec" "writable st h rec" using c(3,5) by auto
    obtain r4 st4 h4 where s: "stamp_xmax crc32 now rid True (st1, h) = Some (r4, st4, h4)" "store_ok st4" "txns_kept st1 st4"
        "same_txn h h4" "stamp_result rid (th_id h) rec st1 r4 st4" "(vstep (th_id h))\<^sup>*\<^sup>* (versions st1) (versions st4)"
        "page_count (bp_disk (st_pool st4)) = page_count (bp_disk (st_pool st1))"
      using stamp_writable [OF c(2) rec same_txn_refl] by blast
    then have "delete_result rid h st r4 st4"
      using rec c(3,7,8) aside_trans [OF c(6)] txns_kept_calm [OF s(3) same_txn_refl] by (auto simp: delete_result_def stamp_result_def stamped_version_def split: Outcome.splits)
    moreover have "r4 = Ret () \<or> strained st"
      using s(5) c(4) by (auto simp: stamp_result_def cl_kept_def split: Outcome.splits CoreError.splits BufferError.splits)
    ultimately show ?thesis using s(1,2,4) c(1) True cl_kept_trans [OF c(4) txns_kept_cl [OF s(3)]] by (auto simp: unf bindA_cases(1))
  qed
qed

section \<open>Scan\<close>

definition visible_row :: "(RecordHeader \<Rightarrow> bool) \<Rightarrow> bytes option \<Rightarrow> bytes option" where
  "visible_row see rec = (case Option.bind rec header_decode of
     None \<Rightarrow> None | Some header \<Rightarrow> if see header then Some (drop 24 (the rec)) else None)"

definition slot_hit :: "u64 \<Rightarrow> bytes \<Rightarrow> (RecordHeader \<Rightarrow> bool) \<Rightarrow> nat \<Rightarrow> (RecordId \<times> bytes) option" where
  "slot_hit pid b see slot = map_option (Pair (rid_new pid (word_of_nat slot))) (visible_row see (page_abs b (unat (word_of_nat slot :: u16))))"

lemma slot_hit_fst: "slot_hit pid b see i = Some x \<Longrightarrow> fst x = rid_new pid (word_of_nat i)"
  by (auto simp: slot_hit_def)

lemma scan_slots_spec:
  assumes "page_inv b"
  shows "scan_slots pid b slots (st, h) = Some (Ret (List.map_filter (slot_hit pid b (sees st h)) slots), st, h)"
proof (induction slots)
  case Nil
  then show ?case by (simp add: map_filter_simps)
next
  case (Cons slot slots)
  have "get_record b (word_of_nat slot) (st, h) = Some (Ret (page_abs b (unat (word_of_nat slot :: u16))), st, h)"
    by (simp add: get_record_def record_at_abs [OF assms])
  moreover have "bindA (scan_slots pid b slots) f (st, h) = f (List.map_filter (slot_hit pid b (sees st h)) slots) (st, h)"
    for f :: "(RecordId \<times> bytes) list \<Rightarrow> (RecordId \<times> bytes) list act" using Cons by (rule bindA_cases(1))
  ultimately show ?case
    using slot_hit_def [of pid b "sees st h" slot]
    by (simp add: bindA_cases(1) map_filter_simps visible_row_def del: header_decode_None_iff split: option.splits)
qed

definition rows_of :: "version_map \<Rightarrow> (RecordHeader \<Rightarrow> bool) \<Rightarrow> u64 set \<Rightarrow> (RecordId \<times> bytes) set" where
  "rows_of vs see ps = {(r, p). rid_page r \<in> ps \<and> visible_row see (vs r) = Some p}"

lemma slot_hits_spec:
  fixes see :: "RecordHeader \<Rightarrow> bool"
  assumes inv: "page_inv b" and vs: "\<And>s. vs (rid_new pid s) = page_abs b (unat s)"
  defines "rows \<equiv> List.map_filter (slot_hit pid b see) [0..<unat (hdr_slot_count b)]"
  shows "set rows = rows_of vs see {pid}" and "distinct (map fst rows)"
proof -
  have cnt: "unat (hdr_slot_count b) < 65536" using unsigned_less [of "hdr_slot_count b", where ?'a = nat] by simp
  then have un: "unat (word_of_nat i :: u16) = i" if "i < unat (hdr_slot_count b)" for i
    using that by (simp add: unat_of_nat take_bit_eq_mod)
  have "(r, p) \<in> set rows \<longleftrightarrow> (r, p) \<in> rows_of vs see {pid}" for r p
  proof
    assume "(r, p) \<in> set rows"
    then obtain i where i: "i < unat (hdr_slot_count b)" "slot_hit pid b see i = Some (r, p)"
      by (auto simp: rows_def map_filter_def)
    then have "r = rid_new pid (word_of_nat i)" "visible_row see (page_abs b (unat (word_of_nat i :: u16))) = Some p"
      by (auto simp: slot_hit_def)
    then show "(r, p) \<in> rows_of vs see {pid}" using vs [of "word_of_nat i"] by (simp add: rows_of_def rid_new_def)
  next
    assume "(r, p) \<in> rows_of vs see {pid}"
    then have r: "r = rid_new pid (rid_slot r)" "visible_row see (vs r) = Some p" by (auto simp: rows_of_def rid_new_eq)
    then have v: "visible_row see (page_abs b (unat (rid_slot r))) = Some p" using vs by metis
    then have "live b (unat (rid_slot r))" by (cases "page_abs b (unat (rid_slot r))") (auto simp: visible_row_def page_abs_live [symmetric])
    then have "unat (rid_slot r) < unat (hdr_slot_count b)" by (simp add: live_def)
    moreover have "slot_hit pid b see (unat (rid_slot r)) = Some (r, p)" using r(1) v by (simp add: slot_hit_def)
    ultimately show "(r, p) \<in> set rows" by (force simp: rows_def map_filter_def)
  qed
  then show "set rows = rows_of vs see {pid}" by auto
  have "distinct (map fst (List.map_filter (slot_hit pid b see) is)) \<and>
      fst ` set (List.map_filter (slot_hit pid b see) is) \<subseteq> (\<lambda>i. rid_new pid (word_of_nat i)) ` set is"
    if "distinct is" "\<forall>i \<in> set is. i < unat (hdr_slot_count b)" for "is"
    using that
  proof (induction "is")
    case (Cons i js)
    have "rid_new pid (word_of_nat i) \<notin> (\<lambda>i. rid_new pid (word_of_nat i)) ` set js"
    proof
      assume "rid_new pid (word_of_nat i) \<in> (\<lambda>i. rid_new pid (word_of_nat i)) ` set js"
      then obtain j where j: "j \<in> set js" "(word_of_nat i :: u16) = word_of_nat j" by (auto simp: rid_new_def)
      then have "i = j" using un [of i] un [of j] Cons.prems(2) by (metis list.set_intros(1,2))
      then show False using j(1) Cons.prems(1) by simp
    qed
    moreover have "distinct (map fst (List.map_filter (slot_hit pid b see) js))"
        "fst ` set (List.map_filter (slot_hit pid b see) js) \<subseteq> (\<lambda>i. rid_new pid (word_of_nat i)) ` set js"
      using Cons by simp_all
    ultimately show ?case
      using slot_hit_fst [of pid b see i] by (cases "slot_hit pid b see i") (auto simp: map_filter_simps)
  qed (simp add: map_filter_simps)
  then show "distinct (map fst rows)" unfolding rows_def by simp
qed

lemma rows_of_fst: "r \<in> fst ` rows_of vs see ps \<Longrightarrow> rid_page r \<in> ps"
  by (auto simp: rows_of_def)

lemma scan_pages_spec:
  assumes "store_ok st" and "distinct ps" and "\<forall>page \<in> set ps. st_page_heap st page \<noteq> None"
  shows "\<exists>res st'. scan_pages ps (st, h) = Some (res, st', h) \<and> evolves st st' \<and> store_ok st' \<and> versions st' = versions st \<and> view st' = view st \<and>
    ((\<exists>n. res = Err (CoreBuffer (Exhausted n))) \<and> strained st \<or>
     (\<exists>rows. res = Ret rows \<and> set rows = rows_of (versions st) (sees st h) (set ps) \<and> distinct (map fst rows)))"
  using assms
proof (induction ps arbitrary: st)
  case Nil
  then show ?case by (auto simp: rows_of_def evolves_refl)
next
  case (Cons pid ps)
  obtain heap where hp: "st_page_heap st pid = Some heap" using Cons.prems(3) by auto
  obtain b where b: "unat pid < page_count (bp_disk (st_pool st))" "view st pid = Some b" "page_inv b"
      "\<And>s. versions st (rid_new pid s) = page_abs b (unat s)" by (rule store_okD [OF Cons.prems(1) hp]) blast
  have up: "pool_up (st_pool st)" using Cons.prems(1) by (simp add: store_ok_def)
  let ?rows = "List.map_filter (slot_hit pid b (sees st h)) [0..<unat (hdr_slot_count b)]"
  let ?body = "\<lambda>b. scan_slots pid b [0..<unat (hdr_slot_count b)]"
  have "?body b (st1, h) = Some (Ret ?rows, st1, h)" if "drift st st1" for st1
  proof -
    have "sees st1 h = sees st h" using sees_drift [OF that refl] by blast
    then show ?thesis using scan_slots_spec [OF b(3)] by simp
  qed
  then obtain r1 st1 where w: "with_read pid ?body (st, h) = Some (r1, st1, h)" "evolves st st1" "view st1 = view st"
      "r1 = Ret ?rows \<or> (\<exists>n. r1 = Err (CoreBuffer (Exhausted n))) \<and> strained st"
    using with_read_spec [OF up b(1,2), of ?body h "Ret ?rows"] by blast
  have ok1: "store_ok st1" "versions st1 = versions st" using evolves_ok [OF Cons.prems(1) w(2)] w(3) by simp_all
  show ?case
  proof (cases "r1 = Ret ?rows")
    case False
    then show ?thesis using w ok1 by (auto simp: bindA_cases)
  next
    case True
    have hp1: "\<forall>page \<in> set ps. st_page_heap st1 page \<noteq> None" using Cons.prems(3) w(2) by (simp add: evolves_defs)
    have see: "sees st1 h = sees st h" using sees_evolves [OF w(2) refl] by blast
    obtain r2 st2 where s: "scan_pages ps (st1, h) = Some (r2, st2, h)" "evolves st1 st2" "store_ok st2" "versions st2 = versions st1" "view st2 = view st1"
        "(\<exists>n. r2 = Err (CoreBuffer (Exhausted n))) \<and> strained st \<or>
         (\<exists>rows. r2 = Ret rows \<and> set rows = rows_of (versions st) (sees st h) (set ps) \<and> distinct (map fst rows))"
      using Cons.IH [OF ok1(1) _ hp1] Cons.prems(2) ok1(2) see strained_evolves [OF w(2)] by auto
    note hits = slot_hits_spec [where vs = "versions st" and pid = pid and see = "sees st h", OF b(3,4)]
    have ev: "evolves st st2" using w(2) s(2) evolves_trans by blast
    show ?thesis
    proof (cases "\<exists>rows. r2 = Ret rows")
      case False
      then show ?thesis using w(1,3) True s ok1 ev by (auto simp: bindA_cases)
    next
      case r2: True
      then obtain rows where rows: "r2 = Ret rows" "set rows = rows_of (versions st) (sees st h) (set ps)" "distinct (map fst rows)"
        using s(6) by auto
      have "set (?rows @ rows) = rows_of (versions st) (sees st h) (set (pid # ps))"
        using hits(1) rows(2) by (auto simp: rows_of_def)
      moreover have "fst ` set ?rows \<inter> fst ` set rows = {}"
        unfolding hits(1) rows(2) using Cons.prems(2) by (auto dest!: rows_of_fst)
      then have "distinct (map fst (?rows @ rows))" using hits(2) rows(3) by simp
      moreover have "scan_pages (pid # ps) (st, h) = Some (Ret (?rows @ rows), st2, h)"
        using w(1) True s(1) rows(1) by (simp add: bindA_cases)
      ultimately show ?thesis using s(3-5) ok1(2) ev w(3) by auto
    qed
  qed
qed

lemma store_scan_spec:
  assumes ok: "store_ok st"
  shows "\<exists>res st'. store_scan heap (st, h) = Some (res, st', h) \<and> evolves st st' \<and> store_ok st' \<and> versions st' = versions st \<and> view st' = view st \<and>
    ((\<exists>n. res = Err (CoreBuffer (Exhausted n))) \<and> strained st \<or>
     (\<exists>rows. res = Ret rows \<and> distinct (map fst rows) \<and>
        set rows = rows_of (versions st) (sees st h) {page. st_page_heap st page = Some heap}))"
proof -
  let ?ps = "case st_pages st heap of Some ps \<Rightarrow> ps | None \<Rightarrow> []"
  have t: "st_page_heap st page = Some heap \<longleftrightarrow> (\<exists>ps. st_pages st heap = Some ps \<and> page \<in> set ps)"
    and d: "st_pages st heap = Some ps \<Longrightarrow> distinct ps" for page ps
    using ok by (simp_all add: store_ok_def tables_ok_def)
  have "set ?ps = {page. st_page_heap st page = Some heap}" "distinct ?ps"
    using t d by (cases "st_pages st heap"; auto)+
  moreover from this have "\<forall>page \<in> set ?ps. st_page_heap st page \<noteq> None" by auto
  ultimately show ?thesis using scan_pages_spec [OF ok, of ?ps h] by (auto simp: store_scan_def)
qed

section \<open>Other users of the pool and the log\<close>

lemma flush_through_segment: "wal_segment_size (flush_through l w) = wal_segment_size w"
  by (rule log_flushes_segment [OF log_flushes_step [OF log_flushes_refl]])

definition same_sizes :: "BufferPool \<Rightarrow> BufferPool \<Rightarrow> bool" where
  "same_sizes p p' \<longleftrightarrow> wal_segment_size (bp_wal p') = wal_segment_size (bp_wal p) \<and> wal_top (bp_wal p') = wal_top (bp_wal p) \<and>
     page_count (bp_disk p') = page_count (bp_disk p) \<and> pins p' = pins p"

lemma flush_frame_sizes: "same_sizes p (flush_frame pred i pk p)"
proof -
  have "same_sizes p (write_back page l b p)" for page l b
    by (simp add: same_sizes_def write_back_def flush_through_segment page_count_def wal_top_def pins_def)
  moreover have "same_sizes p (q\<lparr>bp_dirty := ds\<rparr>)" if "same_sizes p q" for q ds
    using that by (simp add: same_sizes_def pins_def)
  moreover have "same_sizes p (upd_frame i (\<lambda>f. f\<lparr>fr_dirty := False\<rparr>) q)" if "same_sizes p q" for q
    using that by (simp add: same_sizes_def upd_frame_pins)
  moreover have "same_sizes p p" by (simp add: same_sizes_def)
  ultimately show ?thesis by (simp add: flush_frame_def Let_def split_beta split: option.splits)
qed

lemma flush_matching_sizes: "same_sizes p (flush_matching pred p)"
proof -
  have "same_sizes p (fold (\<lambda>i q. flush_frame pred i (flush_peek i q) q) is p)" for "is"
  proof (induction "is" arbitrary: p)
    case (Cons i js)
    show ?case using Cons [of "flush_frame pred i (flush_peek i p) p"] flush_frame_sizes [of p pred i "flush_peek i p"]
      by (simp add: same_sizes_def)
  qed (simp add: same_sizes_def)
  then show ?thesis by (simp add: flush_matching_def Let_def)
qed

lemma flushed_up: "pool_up p \<Longrightarrow> flushed pred A p p' \<Longrightarrow> same_sizes p p' \<Longrightarrow> pool_up p'"
  by (auto simp: pool_up_def flushed_def alloc_ok_def same_sizes_def)

lemma flush_all_up:
  assumes "pool_up p"
  shows "pool_up (flush_all p)" and "same_sizes p (flush_all p)"
proof -
  have "pool_inv p" using assms by (simp add: pool_up_def)
  note k = flush_all_keeps(3) [OF this]
  show "same_sizes p (flush_all p)"
    using flush_matching_sizes [of p "\<lambda>_. True"] by (simp add: flush_all_def Let_def same_sizes_def page_count_def disk_sync_def pins_def)
  then show "pool_up (flush_all p)" by (rule flushed_up [OF assms k])
qed

lemma checkpoint_spec:
  assumes ok: "store_ok st"
  shows "evolves st (checkpoint st)" and "store_ok (checkpoint st) \<and> versions (checkpoint st) = versions st"
proof -
  have up: "pool_up (st_pool st)" using ok by (simp add: store_ok_def)
  then have inv: "pool_inv (st_pool st)" by (simp add: pool_up_def)
  show ev: "evolves st (checkpoint st)" using flush_all_up [OF up] by (simp add: checkpoint_def evolves_def drift_put same_sizes_def)
  show "store_ok (checkpoint st) \<and> versions (checkpoint st) = versions st"
    by (rule evolves_ok [OF ok ev]) (simp add: checkpoint_def flush_all_keeps(2) [OF inv])
qed

lemma put_txns_spec:
  assumes ok: "store_ok st" and seg: "64 \<le> wal_segment_size (tm_wal m)" "wal_top (tm_wal m)"
  shows "store_ok (put_txns m st) \<and> versions (put_txns m st) = versions st"
proof -
  have v: "view (put_txns m st) = view st" "st_page_heap (put_txns m st) = st_page_heap st" "st_pages (put_txns m st) = st_pages st"
    "bp_disk (st_pool (put_txns m st)) = bp_disk (st_pool st)" by (simp_all add: put_txns_def)
  have "pool_up (st_pool (put_txns m st))"
    using ok seg by (auto simp: put_txns_def store_ok_def pool_up_def pool_inv_def alloc_ok_def)
  moreover have "tm_wal (st_txns (put_txns m st)) = bp_wal (st_pool (put_txns m st))" by (simp add: put_txns_def)
  moreover have "versions (put_txns m st) = versions st" by (simp add: versions_def fun_eq_iff v)
  ultimately show ?thesis using ok by (simp add: store_ok_def tables_ok_def heap_page_ok_def v)
qed

lemma commit_internal_log:
  assumes "commit_internal crc32 now seg_now t mode l m = Some (m', res) \<or> abort_internal crc32 seg_now t mode l m = Some (m', res)"
    and "wal_top (tm_wal m)"
  shows "wal_segment_size (tm_wal m') = wal_segment_size (tm_wal m) \<and> wal_top (tm_wal m')"
proof -
  have "wal_segment_size (flush_through k w) = wal_segment_size (tm_wal m) \<and> wal_top (flush_through k w) \<and>
      wal_segment_size w = wal_segment_size (tm_wal m) \<and> wal_top w"
    if "wal_append crc32 seg_now (tm_wal m) r = Some (w, x)" for w x r k
    using wal_append_segment [OF that] wal_append_top(1) [OF assms(2) that] by (simp add: flush_through_segment wal_top_def)
  then show ?thesis using assms
    by (auto simp: commit_internal_def abort_internal_def txn_finish_def split: TxnMode.splits Option.bind_splits sum.splits)
qed

fun op_page :: "pool_op \<Rightarrow> u64 option" where
  "op_page (PWrite q g l) = Some q" | "op_page _ = None"

lemma pool_exec_up:
  assumes up: "pool_up p" and ok: "pool_op_ok op p" and ex: "pool_exec op p = (p', res)"
  shows "pool_up p' \<and> page_count (bp_disk p) \<le> page_count (bp_disk p') \<and> page_count (bp_disk p') \<le> page_count (bp_disk p) + 1 \<and> wal_segment_size (bp_wal p') = wal_segment_size (bp_wal p)"
proof -
  have inv: "pool_inv p" "alloc_ok p" using up by (simp_all add: pool_up_def)
  have inv': "pool_inv p'" using pool_exec_spec [OF inv ok ex] by simp
  show ?thesis
  proof (cases op)
    case (PRead q)
    obtain p1 r1 where f: "pin_for_access q p = (p1, r1)" by fastforce
    have "pool_up p1" "page_count (bp_disk p1) = page_count (bp_disk p)" "wal_segment_size (bp_wal p1) = wal_segment_size (bp_wal p)" using pin_up [OF up _ f] ok PRead by simp_all
    then show ?thesis using ex PRead f inv'
      by (auto simp: fetch_read_def read_guard_drop_def unpin_def pool_up_def alloc_ok_def split: sum.splits)
  next
    case (PWrite q g l)
    obtain p1 r1 where f: "pin_for_access q p = (p1, r1)" by fastforce
    obtain p2 r2 where l2: "latch (p1, r1) = (p2, r2)" by fastforce
    have "pool_up p1" "page_count (bp_disk p1) = page_count (bp_disk p)" "wal_segment_size (bp_wal p1) = wal_segment_size (bp_wal p)" using pin_up [OF up _ f] ok PWrite by simp_all
    then show ?thesis using ex PWrite f inv' l2 latch_wal [OF l2]
      by (auto simp: fetch_write_def pool_up_def alloc_ok_def split: sum.splits)
  next
    case (PNew g l)
    obtain p1 r1 where n: "new_page p = (p1, r1)" by fastforce
    show ?thesis using new_page_up [OF up _ n] ok ex PNew n inv' by (auto simp: pool_up_def alloc_ok_def split: sum.splits)
  next
    case (PFlush l)
    then show ?thesis using ex flushed_up [OF up flush_matching_spec [OF inv(1)] flush_matching_sizes] flush_matching_sizes
      by (auto simp: pool_flush_through_def same_sizes_def)
  next
    case PFlushAll
    then show ?thesis using ex flush_all_up [OF up] by (auto simp: same_sizes_def)
  qed
qed

text \<open>A page operation of an index, on a page that is not a heap page.\<close>

lemma index_op_spec:
  assumes ok: "store_ok st" and op: "pool_op_ok op (st_pool st)" and ex: "pool_exec op (st_pool st) = (p', res)"
    and free: "\<And>page. op_page op = Some page \<Longrightarrow> st_page_heap st page = None"
  shows "store_ok (put_pool p' st) \<and> versions (put_pool p' st) = versions st"
proof -
  have up: "pool_up (st_pool st)" using ok by (simp add: store_ok_def)
  have inv: "pool_inv (st_pool st)" "alloc_ok (st_pool st)" using up by (simp_all add: pool_up_def)
  have gr: "grown st (put_pool p' st)" using pool_exec_up [OF up op ex] by (simp add: grown_def)
  have ps: "page_spec op res (view st) (pool_view p')" using pool_exec_spec [OF inv op ex] by simp
  show ?thesis
  proof (rule grown_ok [OF ok gr])
    fix page assume hp: "st_page_heap st page \<noteq> None"
    then have "heap_page_ok st page" using ok unfolding store_ok_def by blast
    then obtain c where c: "unat page < page_count (bp_disk (st_pool st))" "view st page = Some c" by (auto simp: heap_page_ok_def)
    have new: "page_count (bp_disk (st_pool st)) \<le> unat q" if "op = PNew g l" "res = PPage q" for g l q
      using ex that op new_page_up(3) [OF up, of "fst (new_page (st_pool st))" "snd (new_page (st_pool st))" q]
      by (auto split: prod.splits sum.splits)
    show "view (put_pool p' st) page = view st page"
    proof (cases op)
      case (PNew g l)
      show ?thesis
      proof (cases res)
        case (PPage q)
        then have "q \<noteq> page" using new [OF PNew PPage] c(1) by auto
        then show ?thesis using ps PNew PPage c(2) by (auto simp: pages_kept_def)
      qed (use ps PNew c(2) in \<open>auto simp: pages_kept_def\<close>)
    qed (use ps hp free in \<open>cases res; auto\<close>)+
  qed
qed

section \<open>Reachable stores\<close>

text \<open>
  One step of a store: an operation of a transaction, named by its id, or something else that
  leaves the versions alone: a checkpoint, a page operation of an index, the begin or the end of
  a transaction.  Operations run one after the other; a waiting writer tries again later.
\<close>

inductive store_step :: "(bytes \<Rightarrow> u32) \<Rightarrow> txn_id option \<Rightarrow> RecordStore \<Rightarrow> RecordStore \<Rightarrow> bool" for crc32 :: "bytes \<Rightarrow> u32" where
  Insert: "page_count (bp_disk (st_pool st)) < 2 ^ 64 \<Longrightarrow>
    store_insert crc32 now heap payload (st, h) = Some (res, st', h') \<Longrightarrow> store_step crc32 (Some (th_id h)) st st'"
| Update: "page_count (bp_disk (st_pool st)) < 2 ^ 64 \<Longrightarrow> rid6_ok rid \<Longrightarrow>
    store_update crc32 now expired rid payload (st, h) = Some (res', st', h') \<Longrightarrow> store_step crc32 (Some (th_id h)) st st'"
| Delete: "st_page_heap st (rid_page rid) = Some heap \<Longrightarrow>
    store_delete crc32 now expired rid (st, h) = Some (out, st', h') \<Longrightarrow> store_step crc32 (Some (th_id h)) st st'"
| Read: "versions st rid \<noteq> None \<Longrightarrow> read_chain n rid (st, h) = Some (val, st', h') \<Longrightarrow> store_step crc32 None st st'"
| Scan: "store_scan heap (st, h) = Some (rows, st', h') \<Longrightarrow> store_step crc32 None st st'"
| Checkpoint: "store_step crc32 None st (checkpoint st)"
| Index: "pool_op_ok op (st_pool st) \<Longrightarrow> pool_exec op (st_pool st) = (p', r) \<Longrightarrow>
    (\<forall>page. op_page op = Some page \<longrightarrow> st_page_heap st page = None) \<Longrightarrow> store_step crc32 None st (put_pool p' st)"
| Begin: "begin_txn mode (st_txns st) = (h, m) \<Longrightarrow> store_step crc32 None st (put_txns m st)"
| Commit: "commit_internal crc32 now seg_now t mode l (st_txns st) = Some (m, done') \<Longrightarrow> store_step crc32 None st (put_txns m st)"
| Abort: "abort_internal crc32 seg_now t mode l (st_txns st) = Some (m, done') \<Longrightarrow> store_step crc32 None st (put_txns m st)"

definition some_step :: "(bytes \<Rightarrow> u32) \<Rightarrow> RecordStore \<Rightarrow> RecordStore \<Rightarrow> bool" where
  "some_step crc32 st st' \<longleftrightarrow> (\<exists>a. store_step crc32 a st st')"

definition store_start :: "RecordStore \<Rightarrow> bool" where
  "store_start st \<longleftrightarrow> (\<exists>d w n. st = record_store_new (pool_new d w n) (txn_manager_new w) \<and> 0 < n \<and>
     64 \<le> wal_segment_size w \<and> wal_top w)"

definition store_reach :: "(bytes \<Rightarrow> u32) \<Rightarrow> RecordStore \<Rightarrow> bool" where
  "store_reach crc32 st \<longleftrightarrow> (\<exists>st0. store_start st0 \<and> (some_step crc32)\<^sup>*\<^sup>* st0 st)"

definition store_good :: "RecordStore \<Rightarrow> bool" where
  "store_good st \<longleftrightarrow> store_ok st \<and> (\<exists>rs. chain_ok (versions st) rs)"

lemma store_start_good: "store_start st \<Longrightarrow> store_good st"
proof -
  assume "store_start st"
  then obtain d w n where st: "st = record_store_new (pool_new d w n) (txn_manager_new w)" "0 < n" "64 \<le> wal_segment_size w" "wal_top w"
    by (auto simp: store_start_def)
  have pool: "bp_wal (pool_new d w n) = w" "bp_table (pool_new d w n) = Map.empty" by (simp_all add: pool_new_def Let_def)
  have "pool_inv (pool_new d w n)" using st(2) by (auto simp: pool_inv_def pool_new_def frame_empty_def frame_ok_def Let_def)
  then have "pool_up (pool_new d w n)" using st(3,4) pool by (simp add: pool_up_def alloc_ok_def)
  then have "store_ok st" using pool by (simp add: st(1) record_store_new_def store_ok_def tables_ok_def txn_manager_new_def)
  moreover have "chain_ok (versions st) []" by (simp add: st(1) record_store_new_def versions_def chain_ok_def dom_def)
  ultimately show ?thesis unfolding store_good_def by blast
qed

lemma put_txns_good:
  assumes "store_good st" and "wal_segment_size (tm_wal m) = wal_segment_size (tm_wal (st_txns st))" and "wal_top (tm_wal m)"
  shows "store_good (put_txns m st) \<and> versions (put_txns m st) = versions st"
  using assms put_txns_spec [of st m] by (auto simp: store_good_def store_ok_def pool_up_def)

lemma store_step_good:
  assumes "store_step crc32 a st st'" and good: "store_good st"
  shows "store_good st' \<and> (case a of Some t \<Rightarrow> (vstep t)\<^sup>*\<^sup>* (versions st) (versions st') | None \<Rightarrow> versions st' = versions st)"
proof -
  have ok: "store_ok st" and top: "wal_top (tm_wal (st_txns st))" using good by (simp_all add: store_good_def store_ok_def pool_up_def)
  obtain rs where rs: "chain_ok (versions st) rs" using good by (auto simp: store_good_def)
  have steps: "store_good st' \<and> (vstep t)\<^sup>*\<^sup>* (versions st) (versions st')" if "store_ok st'" "(vstep t)\<^sup>*\<^sup>* (versions st) (versions st')" for st' t
    using that vsteps_chain_ok [OF that(2)] rs by (auto simp: store_good_def)
  have same: "store_good st' \<and> versions st' = versions st" if "store_ok st' \<and> versions st' = versions st" for st'
    using that rs by (auto simp: store_good_def)
  show ?thesis using assms(1)
  proof cases
    case (Insert now heap payload h res h')
    then have i: "store_ok st'" "insert_result heap (version_bytes (th_id h) None payload) st res st'"
      using store_insert_spec [OF ok Insert(2), of crc32 now heap payload h] by auto
    have "(vstep (th_id h))\<^sup>*\<^sup>* (versions st) (versions st')" using vstep_insert_result [OF i(2)] by simp
    then show ?thesis using steps [OF i(1)] Insert(1) by simp
  next
    case (Update rid now expired payload h res' h')
    then show ?thesis
      using store_update_spec [OF ok Update(2,3), of crc32 now expired payload h] steps by (auto simp: update_result_def)
  next
    case (Delete rid heap now expired h out h')
    then show ?thesis
      using store_delete_spec [OF ok Delete(2), of crc32 now expired h] steps by (auto simp: delete_result_def)
  next
    case (Read rid n h val h')
    then show ?thesis using read_chain_spec [OF rs ok Read(2), of n h] same by (simp add: read_result_def)
  next
    case (Scan heap h rows h')
    then show ?thesis using store_scan_spec [OF ok, of heap h] same by auto
  next
    case Checkpoint
    then show ?thesis using checkpoint_spec(2) [OF ok] same by simp
  next
    case (Index op p' r)
    then show ?thesis using index_op_spec [OF ok Index(3,4)] same by simp
  next
    case (Begin mode h m)
    then have "tm_wal m = tm_wal (st_txns st)" by (auto simp: begin_txn_def begin_alloc_def begin_snapshot_def Let_def)
    then show ?thesis using put_txns_good [OF good] top Begin by simp
  next
    case (Commit now seg_now t mode l m done')
    then show ?thesis using commit_internal_log [OF disjI1 [OF Commit(3)] top] put_txns_good [OF good] by simp
  next
    case (Abort seg_now t mode l m done')
    then show ?thesis using commit_internal_log [OF disjI2 [OF Abort(3)] top] put_txns_good [OF good] by simp
  qed
qed

lemma some_steps_good: "(some_step crc32)\<^sup>*\<^sup>* st st' \<Longrightarrow> store_good st \<Longrightarrow> store_good st'"
  by (induction rule: rtranclp_induct) (auto simp: some_step_def dest: store_step_good)

lemma store_reach_good: "store_reach crc32 st \<Longrightarrow> store_good st"
  using store_start_good some_steps_good by (auto simp: store_reach_def)

lemma store_goodE:
  assumes "store_reach crc32 st"
  obtains rs where "store_ok st" "chain_ok (versions st) rs"
  using store_reach_good [OF assms] by (auto simp: store_good_def)

end
