(* ===== verification/VersionProps.thy ===== *)
theory VersionProps
  imports Versions
begin

text \<open>
  The properties of the record store that its users rely on, with the lemmas that carry them:
  reads follow version chains that end, snapshots keep their versions across updates, a stamped
  version stays stamped, scans list the visible rows.
\<close>

section \<open>Lemmas for the properties\<close>

lemma chain_read_cong:
  assumes ok: "chain_ok vs rs" and step: "\<And>r. vs r \<noteq> None \<Longrightarrow> chain_step vs' see' r = chain_step vs see r"
  shows "vs r \<noteq> None \<Longrightarrow> chain_read n vs' see' r = chain_read n vs see r"
proof (induction n arbitrary: r)
  case (Suc n)
  show ?case
  proof (cases "chain_step vs see r")
    case (Inr r')
    obtain k where "k < length rs" "r = rs ! k" using ok Suc.prems by (metis chain_ok_def domIff in_set_conv_nth)
    then have "r' \<in> set (take k rs)" using chain_step_older [OF ok] Inr by simp
    then have "vs r' \<noteq> None" using ok by (auto simp: chain_ok_def dest!: in_set_takeD)
    then show ?thesis using Suc.IH [of r'] step [OF Suc.prems] Inr by simp
  qed (use step [OF Suc.prems] in simp)
qed simp

lemma read_chain_Ret:
  assumes "chain_ok (versions st) rs" and "store_ok st" and "versions st r \<noteq> None"
  shows "read_chain n r (st, h) = Some (Ret v, s) \<Longrightarrow> chain_read n (versions st) (sees st h) r = Some v"
    and "chain_read n (versions st) (sees st h) r = Some v \<Longrightarrow> \<not> strained st \<Longrightarrow> \<exists>st'. read_chain n r (st, h) = Some (Ret v, st', h)"
  using read_chain_spec [OF assms, of n h] by (auto simp: read_result_def split: option.splits)

lemma sees_iff:
  "sees st h header \<longleftrightarrow> effect_visible (xmin header) (th_snapshot h) (tm_commit_log (st_txns st)) \<and>
     \<not> effect_visible (xmax header) (th_snapshot h) (tm_commit_log (st_txns st))"
  by (simp add: sees_def visible_iff)

lemma own_effect_visible: "snap_txn_id s = t \<Longrightarrow> t \<noteq> 0 \<Longrightarrow> effect_visible t s cl"
  by (simp add: effect_visible_iff)

lemma zero_not_visible [simp]: "\<not> effect_visible 0 s cl"
  by (simp add: effect_visible_iff)

text \<open>A stamp stays.\<close>

definition stamped :: "txn_id \<Rightarrow> RecordId \<Rightarrow> version_map \<Rightarrow> bool" where
  "stamped t r vs \<longleftrightarrow> (\<exists>rec header. vs r = Some rec \<and> header_decode rec = Some header \<and> xmax header = t)"

lemma decode_length: "header_decode rec = Some header \<Longrightarrow> 24 \<le> length rec"
  by (metis header_decode_None_iff not_le option.distinct(1))

lemma vstep_stamped:
  assumes "vstep u vs vs'" and "stamped t r vs" and "t \<noteq> 0"
  shows "stamped t r vs'"
  using assms(1)
proof cases
  case (Add q bs header)
  then show ?thesis using assms(2) by (auto simp: stamped_def)
next
  case (Stamp q rec header)
  show ?thesis
  proof (cases "q = r")
    case True
    then have "xmax header = t" using assms(2) Stamp by (auto simp: stamped_def)
    then have "u = t" using Stamp(4) assms(3) by auto
    then show ?thesis using True Stamp stamp_bytes_decode(2) [OF decode_length [OF Stamp(3)], of t] by (auto simp: stamped_def)
  next
    case False
    then show ?thesis using assms(2) Stamp(1) by (auto simp: stamped_def)
  qed
qed

lemma vsteps_stamped: "(vstep u)\<^sup>*\<^sup>* vs vs' \<Longrightarrow> stamped t r vs \<Longrightarrow> t \<noteq> 0 \<Longrightarrow> stamped t r vs'"
  by (induction rule: rtranclp_induct) (auto intro: vstep_stamped)

lemma some_steps_stamped:
  assumes "(some_step crc32)\<^sup>*\<^sup>* st st'" and "store_good st" and "stamped t r (versions st)" and "t \<noteq> 0"
  shows "stamped t r (versions st')"
  using assms
proof (induction rule: rtranclp_induct)
  case (step st1 st2)
  obtain a where a: "store_step crc32 a st1 st2" using step.hyps(2) by (auto simp: some_step_def)
  have "store_good st1" using some_steps_good [OF step.hyps(1) step.prems(1)] .
  then show ?case using store_step_good [OF a] step vsteps_stamped by (cases a) auto
qed

lemma stamped_not_writable:
  assumes "stamped t rid (versions st)" and "t \<noteq> 0" and "th_id g \<noteq> t" and "versions st rid = Some rec"
  shows "\<not> writable st g rec"
  using assms by (auto simp: stamped_def writable_def is_deleted_def)

lemma delete_Ret_writable:
  assumes ok: "store_ok st" and hp: "st_page_heap st (rid_page rid) = Some heap"
    and "store_delete crc32 now expired rid (st, g) = Some (Ret (), s)"
  shows "\<exists>rec. versions st rid = Some rec \<and> writable st g rec"
  using store_delete_spec [OF ok hp, of crc32 now expired g] assms(3) by (auto simp: delete_result_def)

lemma update_Ret_writable:
  assumes ok: "store_ok st" and "store_update crc32 now expired rid payload (st, g) = Some (Ret new, s)"
  shows "\<exists>rec. versions st rid = Some rec \<and> writable st g rec"
proof -
  obtain heap where hp: "st_page_heap st (rid_page rid) = Some heap"
    using assms(2) by (auto simp: store_update_def bindA_def heap_of_def split: option.splits)
  obtain r1 st1 where c: "claim_target expired rid (st, g) = Some (r1, st1, g)" "r1 = Ret () \<longrightarrow> (\<exists>rec. versions st rid = Some rec \<and> writable st g rec)"
    using claim_target_spec [OF ok hp, of expired g] by blast
  have "store_update crc32 now expired rid payload (st, g) = bindA (claim_target expired rid) (\<lambda>_.
     bindA (insert_bytes crc32 now heap (version_bytes (th_id g) (Some rid) payload)) (\<lambda>new_rid.
     bindA (stamp_xmax crc32 now rid False) (\<lambda>_. ret new_rid))) (st, g)"
    using hp by (simp add: store_update_def heap_of_def bindA_cases(1) version_bytes_def version_header_def claim_target_def bindA_assoc [symmetric])
  then have "r1 = Ret ()" using assms(2) c(1) by (cases r1) (auto simp: bindA_cases)
  then show ?thesis using c(2) by blast
qed

lemma stamp_stamped: "24 \<le> length rec \<Longrightarrow> stamped t rid (vs(rid \<mapsto> stamp_bytes t rec))"
  using stamp_bytes_decode(2) [of rec t] by (cases "header_decode rec") (auto simp: stamped_def simp: header_decode_None_iff)

section \<open>A store with one record\<close>

definition demo_handle :: TxnHandle where
  "demo_handle = \<lparr>th_id = 2, th_mode = ReadWrite, th_snapshot = \<lparr>snap_txn_id = 2, snap_xmin = 2, snap_xmax = 3, snap_active = {}\<rparr>,
     th_last_lsn = 0, th_finished = False\<rparr>"

lemma demo_start:
  "\<exists>st. store_reach (\<lambda>_. 3) st \<and> \<not> strained st \<and> page_count (bp_disk (st_pool st)) = 0 \<and> versions st = Map.empty \<and>
     (\<forall>h rid. lock_free st h rid) \<and> tm_commit_log (st_txns st) = commit_log_new \<and> (\<exists>w. st_txns st = txn_manager_new w) \<and>
     st_page_heap st = Map.empty"
proof -
  obtain w where w: "wal_segment_size w = 20000" "wal_top w" using wide_wal by blast
  let ?st = "record_store_new (pool_new (disk_open []) w 2) (txn_manager_new w)"
  have "store_start ?st" unfolding store_start_def using w
    by (intro exI [of _ "disk_open []"] exI [of _ w] exI [of _ 2]) simp
  then have "store_reach (\<lambda>_. 3) ?st" unfolding store_reach_def by blast
  moreover have "\<not> strained ?st"
    using w by (simp add: strained_def tight_def record_store_new_def pool_new_def pins_def frame_empty_def Let_def)
  moreover have "page_count (bp_disk (st_pool ?st)) = 0"
    by (simp add: record_store_new_def pool_new_def Let_def page_count_def disk_open_def)
  moreover have "versions ?st = Map.empty" by (simp add: record_store_new_def versions_def fun_eq_iff)
  moreover have "lock_free ?st h rid" for h rid
    by (simp add: lock_free_def record_store_new_def txn_manager_new_def lock_manager_new_def holder_of_def shard_index_def)
  ultimately show ?thesis by (intro exI [of _ ?st]) (auto simp: record_store_new_def txn_manager_new_def)
qed

lemma record_by:
  fixes h :: TxnHandle
  shows "\<exists>st rid. store_reach (\<lambda>_. 3) st \<and> \<not> strained st \<and> page_count (bp_disk (st_pool st)) < 2 ^ 64 \<and> rid6_ok rid \<and>
     versions st = [rid \<mapsto> version_bytes (th_id h) None [7]] \<and> (\<forall>h rid. lock_free st h rid) \<and>
     tm_commit_log (st_txns st) = commit_log_new \<and> (\<exists>heap. st_page_heap st (rid_page rid) = Some heap)"
proof -
  obtain st0 where st0: "store_reach (\<lambda>_. 3) st0" "\<not> strained st0" "page_count (bp_disk (st_pool st0)) = 0" "versions st0 = Map.empty"
      "\<forall>h rid. lock_free st0 h rid" "tm_commit_log (st_txns st0) = commit_log_new" using demo_start by blast
  have ok: "store_ok st0" using store_reach_good [OF st0(1)] by (simp add: store_good_def)
  obtain res st h' where i: "store_insert (\<lambda>_. 3) 0 1 [7] (st0, h) = Some (res, st, h')" "store_ok st" "txns_kept st0 st"
      "page_count (bp_disk (st_pool st)) \<le> 1" "insert_result 1 (version_bytes (th_id h) None [7]) st0 res st"
    using store_insert_spec [OF ok, of "\<lambda>_. 3" 0 1 "[7]" h] st0(3) by auto
  then obtain rid where rid: "added_version 1 rid (version_bytes (th_id h) None [7]) st0 st"
    using st0(2) by (auto simp: insert_result_def length_version_bytes split: Outcome.splits CoreError.splits BufferError.splits)
  have "store_step (\<lambda>_. 3) (Some (th_id h)) st0 st" using store_step.Insert [OF _ i(1)] st0(3) by simp
  then have "some_step (\<lambda>_. 3) st0 st" by (auto simp: some_step_def)
  then have "store_reach (\<lambda>_. 3) st" using st0(1) unfolding store_reach_def by (meson rtranclp.rtrancl_into_rtrancl)
  moreover have hp: "st_page_heap st (rid_page rid) = Some 1" using rid by (simp add: added_version_def)
  then have "heap_page_ok st (rid_page rid)" using i(2) unfolding store_ok_def by auto
  then have "unat (rid_page rid) = 0" using i(4) unfolding heap_page_ok_def by linarith
  then have "rid6_ok rid" by (simp add: rid6_ok_def)
  moreover have "\<forall>h rid. lock_free st h rid" "tm_commit_log (st_txns st) = commit_log_new" "\<not> strained st"
  proof -
    have "tm_locks (st_txns st) = tm_locks (st_txns st0)" using i(3) by (auto simp: txns_kept_def)
    then show "\<forall>h rid. lock_free st h rid" using st0(5) by (simp add: lock_free_def)
  qed (use i(3) st0(2,6) in \<open>auto simp: txns_kept_def\<close>)
  ultimately show ?thesis using rid st0(4) i(4) hp by (intro exI [of _ st] exI [of _ rid]) (auto simp: added_version_def)
qed

lemma demo_record:
  "\<exists>st rid. store_reach (\<lambda>_. 3) st \<and> \<not> strained st \<and> page_count (bp_disk (st_pool st)) < 2 ^ 64 \<and> rid6_ok rid \<and>
     versions st = [rid \<mapsto> version_bytes 2 None [7]] \<and> (\<forall>rid. lock_free st demo_handle rid) \<and>
     tm_commit_log (st_txns st) = commit_log_new \<and> (\<exists>heap. st_page_heap st (rid_page rid) = Some heap)"
proof -
  have "th_id demo_handle = 2" by (simp add: demo_handle_def)
  then show ?thesis using record_by [of demo_handle] by metis
qed

lemma demo_writable: "tm_commit_log (st_txns st) = commit_log_new \<Longrightarrow> writable st demo_handle (version_bytes 2 None payload)"
  using version_bytes_decode(1) [of None 2 payload]
  by (auto simp: writable_def sees_iff is_deleted_def demo_handle_def effect_visible_iff)

section \<open>Properties\<close>

text \<open>
  C24: The record store refines the version store. In every reachable store, whatever an
  operation returns, its effect on the stored versions is a sequence of steps of its own
  transaction (adding versions of its own, stamping versions nobody else has stamped); reads,
  scans, checkpoints, index pages, begin, commit and abort leave the versions unchanged.
\<close>

theorem store_refines_version_store:
  assumes "store_reach crc32 st" and "store_step crc32 a st st'"
  shows "case a of Some t \<Rightarrow> (vstep t)\<^sup>*\<^sup>* (versions st) (versions st') | None \<Rightarrow> versions st' = versions st"
  using store_step_good [OF assms(2) store_reach_good [OF assms(1)]] by simp

theorem store_refines_version_store_witness:
  "\<exists>st st' rid. (vstep 2)\<^sup>*\<^sup>* (versions st) (versions st') \<and> versions st rid = Some (version_bytes 2 None [7]) \<and>
     stamped 2 rid (versions st')"
proof -
  obtain st rid heap where st: "store_reach (\<lambda>_. 3) st" "\<not> strained st" "versions st = [rid \<mapsto> version_bytes 2 None [7]]"
      "\<forall>rid. lock_free st demo_handle rid" "tm_commit_log (st_txns st) = commit_log_new" "st_page_heap st (rid_page rid) = Some heap"
    using demo_record by blast
  have ok: "store_ok st" using store_reach_good [OF st(1)] by (simp add: store_good_def)
  have id: "th_id demo_handle = 2" by (simp add: demo_handle_def)
  obtain st' h' where d: "store_delete (\<lambda>_. 3) 0 False rid (st, demo_handle) = Some (Ret (), st', h')"
      "versions st' = (versions st)(rid \<mapsto> stamp_bytes 2 (version_bytes 2 None [7]))"
    using store_delete_spec [OF ok st(6), of "\<lambda>_. 3" 0 False demo_handle] st(2-5) demo_writable [OF st(5)] id
    by (auto simp: delete_result_def)
  have "store_step (\<lambda>_. 3) (Some 2) st st'" using store_step.Delete [OF st(6) d(1)] id by simp
  from store_refines_version_store [OF st(1) this]
  have "(vstep 2)\<^sup>*\<^sup>* (versions st) (versions st')" by simp
  moreover have "stamped 2 rid (versions st')" unfolding d(2) by (rule stamp_stamped) (simp add: length_version_bytes)
  ultimately show ?thesis using st(3) by (intro exI [of _ st] exI [of _ st'] exI [of _ rid]) simp
qed

text \<open>
  C30: Reads end. From any stored version the walk along the version chain returns, with the same
  value for every sufficient number of steps, if a frame is free; so the version chains of a
  reachable store have no cycle.
\<close>

theorem read_chain_ends:
  assumes "store_reach crc32 st" and "versions st r \<noteq> None" and "\<not> strained st"
  shows "\<exists>n v. \<forall>m \<ge> n. \<exists>st'. read_chain m r (st, h) = Some (Ret v, st', h)"
proof -
  obtain rs where rs: "store_ok st" "chain_ok (versions st) rs" by (rule store_goodE [OF assms(1)])
  have "r \<in> set (take (length rs) rs)" using rs(2) assms(2) by (auto simp: chain_ok_def)
  then obtain v where "chain_read (length rs) (versions st) (sees st h) r = Some v"
    using chain_read_ends [OF rs(2)] by blast
  then have "\<exists>st'. read_chain m r (st, h) = Some (Ret v, st', h)" if "length rs \<le> m" for m
    using read_chain_Ret(2) [OF rs(2,1) assms(2)] chain_read_mono that assms(3) by blast
  then show ?thesis by blast
qed

theorem read_chain_ends_witness:
  "\<exists>st rid n v st'. versions st rid \<noteq> None \<and> read_chain n rid (st, demo_handle) = Some (Ret v, st', demo_handle)"
proof -
  obtain st rid where st: "store_reach (\<lambda>_. 3) st" "\<not> strained st" "versions st = [rid \<mapsto> version_bytes 2 None [7]]"
    using demo_record by blast
  then have "versions st rid \<noteq> None" by simp
  from read_chain_ends [OF st(1) this st(2)] this show ?thesis by blast
qed

text \<open>
  C29: Insertion. If a frame is free and a log segment has room for a page of records, inserting a
  payload of up to 8132 bytes succeeds at a record id that was unused, changes no other version,
  and the inserting transaction reads the payload back.
\<close>

theorem store_insert_reads_back:
  assumes "store_reach crc32 st" and "\<not> strained st" and "page_count (bp_disk (st_pool st)) < 2 ^ 64"
    and "length payload \<le> 8132" and "snap_txn_id (th_snapshot h) = th_id h" and "th_id h \<noteq> NO_TXN"
  shows "\<exists>rid st' h' st''. store_insert crc32 now heap payload (st, h) = Some (Ret rid, st', h') \<and> versions st rid = None \<and>
    (\<forall>r. r \<noteq> rid \<longrightarrow> versions st' r = versions st r) \<and> read_chain 1 rid (st', h') = Some (Ret (Some payload), st'', h')"
proof -
  have good: "store_good st" by (rule store_reach_good [OF assms(1)])
  then have ok: "store_ok st" by (simp add: store_good_def)
  obtain res st' h' where i: "store_insert crc32 now heap payload (st, h) = Some (res, st', h')" "store_ok st'" "txns_kept st st'"
      "same_txn h h'" "insert_result heap (version_bytes (th_id h) None payload) st res st'"
    using store_insert_spec [OF ok assms(3)] by blast
  obtain rid where rid: "res = Ret rid" "versions st rid = None" "versions st' = (versions st)(rid \<mapsto> version_bytes (th_id h) None payload)"
    using i(5) assms(2,4) by (auto simp: insert_result_def added_version_def length_version_bytes split: Outcome.splits CoreError.splits BufferError.splits)
  obtain rs where rs: "chain_ok (versions st') rs"
    using store_step_good [OF store_step.Insert [OF assms(3) i(1)] good] by (auto simp: store_good_def)
  have "effect_visible (th_id h) (th_snapshot h') (tm_commit_log (st_txns st'))"
    using own_effect_visible assms(5,6) same_txnD(2) [OF i(4)] by simp
  then have "chain_read 1 (versions st') (sees st' h') rid = Some (Some payload)"
    using rid(3) version_bytes_decode [of None "th_id h" payload] by (auto simp: chain_step_def sees_iff)
  moreover have "\<not> strained st'" using i(3) assms(2) by (simp add: txns_kept_def)
  moreover have "versions st' rid \<noteq> None" using rid(3) by simp
  ultimately have "\<exists>st''. read_chain 1 rid (st', h') = Some (Ret (Some payload), st'', h')"
    using read_chain_Ret(2) [OF rs i(2)] by blast
  then show ?thesis using i(1) rid by auto
qed

theorem store_insert_reads_back_witness:
  "\<exists>st rid st' h' st''. store_insert (\<lambda>_. 3) 0 1 [1, 2] (st, demo_handle) = Some (Ret rid, st', h') \<and>
     read_chain 1 rid (st', h') = Some (Ret (Some [1, 2]), st'', h')"
proof -
  obtain st where st: "store_reach (\<lambda>_. 3) st" "\<not> strained st" "page_count (bp_disk (st_pool st)) < 2 ^ 64"
    using demo_record by blast
  have "length [1, 2 :: u8] \<le> 8132" "snap_txn_id (th_snapshot demo_handle) = th_id demo_handle" "th_id demo_handle \<noteq> NO_TXN"
    by (simp_all add: demo_handle_def)
  from store_insert_reads_back [OF st this] show ?thesis by blast
qed

text \<open>
  C25: Updates keep snapshots. After a successful update, a transaction that does not see the
  updater still reads what it read before, both through the old record id and through the new
  one, by following the version chain.
\<close>

theorem update_keeps_snapshots:
  assumes "store_reach crc32 st" and "\<not> strained st" and "page_count (bp_disk (st_pool st)) < 2 ^ 64" and "rid6_ok rid"
    and "store_update crc32 now expired rid payload (st, h) = Some (Ret new, st', h')"
    and "\<not> effect_visible (th_id h) (th_snapshot g) (tm_commit_log (st_txns st))"
    and "read_chain n rid (st, g) = Some (Ret v, s, g)"
  shows "\<exists>s1 s2. read_chain n rid (st', g) = Some (Ret v, s1, g) \<and> read_chain (Suc n) new (st', g) = Some (Ret v, s2, g)"
proof -
  obtain rs where rs: "store_ok st" "chain_ok (versions st) rs" by (rule store_goodE [OF assms(1)])
  let ?t = "th_id h" and ?nb = "version_bytes (th_id h) (Some rid) payload"
  obtain rec where u: "store_ok st'" "cl_kept st st'" "versions st rid = Some rec" "writable st h rec" "versions st new = None"
      "versions st' = (versions st)(new \<mapsto> ?nb, rid \<mapsto> stamp_bytes ?t rec)"
    using store_update_spec [OF rs(1) assms(3,4), of crc32 now expired payload h] assms(5) by (auto simp: update_result_def)
  obtain rs' where rs': "chain_ok (versions st') rs'"
    using store_step_good [OF store_step.Update [OF assms(3-5)] store_reach_good [OF assms(1)]] by (auto simp: store_good_def)
  obtain header where hd: "header_decode rec = Some header" "xmax header = 0 \<or> xmax header = ?t" "24 \<le> length rec"
    by (rule writable_header [OF u(4)])
  have see: "sees st' g = sees st g" using sees_cl [OF u(2) refl] by blast
  have unseen: "\<not> effect_visible (xmax header) (th_snapshot g) (tm_commit_log (st_txns st))" using hd(2) assms(6) by auto
  have neq: "new \<noteq> rid" using u(3,5) by auto
  have step: "chain_step (versions st') (sees st' g) r = chain_step (versions st) (sees st g) r" if "versions st r \<noteq> None" for r
  proof (cases "r = rid")
    case True
    then show ?thesis
      using hd(1) u(3,6) stamp_bytes_decode(2,3) [OF hd(3), of ?t] unseen assms(6) by (simp add: chain_step_def see sees_iff)
  next
    case False
    moreover have "r \<noteq> new" using that u(5) by auto
    ultimately show ?thesis using u(6) by (simp add: chain_step_def see)
  qed
  have "chain_read n (versions st) (sees st g) rid = Some v" using read_chain_Ret(1) [OF rs(2,1)] u(3) assms(7) by blast
  then have old: "chain_read n (versions st') (sees st' g) rid = Some v"
    using chain_read_cong [where vs = "versions st" and see = "sees st g", OF rs(2) step, of rid n] u(3) by simp
  obtain header' where nd: "header_decode ?nb = Some header'" "xmin header' = ?t" "prev_version header' = Some rid"
    using version_bytes_decode(1) [of "Some rid" ?t payload] assms(4) by auto
  have "chain_step (versions st') (sees st' g) new = Inr rid"
    using u(6) neq nd assms(6) by (simp add: chain_step_def see sees_iff)
  then have new: "chain_read (Suc n) (versions st') (sees st' g) new = Some v" using old by simp
  have "\<not> strained st'" using u(2) assms(2) by (simp add: cl_kept_def)
  moreover have "versions st' rid \<noteq> None" "versions st' new \<noteq> None" using u(6) neq by simp_all
  ultimately show ?thesis using read_chain_Ret(2) [OF rs' u(1)] old new by blast
qed

definition late_handle :: TxnHandle where
  "late_handle = \<lparr>th_id = 3, th_mode = ReadWrite, th_snapshot = \<lparr>snap_txn_id = 3, snap_xmin = 2, snap_xmax = 4, snap_active = {2}\<rparr>,
     th_last_lsn = 0, th_finished = False\<rparr>"

theorem update_keeps_snapshots_witness:
  "\<exists>st rid new st' h' n v s1 s2. store_update (\<lambda>_. 3) 0 False rid [8] (st, demo_handle) = Some (Ret new, st', h') \<and>
     read_chain n rid (st', late_handle) = Some (Ret v, s1, late_handle) \<and>
     read_chain (Suc n) new (st', late_handle) = Some (Ret v, s2, late_handle)"
proof -
  obtain st rid heap where st: "store_reach (\<lambda>_. 3) st" "\<not> strained st" "page_count (bp_disk (st_pool st)) < 2 ^ 64" "rid6_ok rid"
      "versions st = [rid \<mapsto> version_bytes 2 None [7]]" "\<forall>rid. lock_free st demo_handle rid" "tm_commit_log (st_txns st) = commit_log_new"
    using demo_record by blast
  have ok: "store_ok st" using store_reach_good [OF st(1)] by (simp add: store_good_def)
  obtain new st' h' where d: "store_update (\<lambda>_. 3) 0 False rid [8] (st, demo_handle) = Some (Ret new, st', h')"
    using store_update_spec [OF ok st(3,4), of "\<lambda>_. 3" 0 False "[8]" demo_handle] st(2,5,6) demo_writable [OF st(7)] by auto
  obtain rs where "chain_ok (versions st) rs" using store_reach_good [OF st(1)] by (auto simp: store_good_def)
  obtain n v s where r: "read_chain n rid (st, late_handle) = Some (Ret v, s, late_handle)"
    using read_chain_Ret(2) [OF \<open>chain_ok (versions st) rs\<close> ok, of rid]
      chain_read_ends [OF \<open>chain_ok (versions st) rs\<close>, of rid "length rs" "length rs"] \<open>chain_ok (versions st) rs\<close> st(2,5)
    by (fastforce simp: chain_ok_def)
  have "\<not> effect_visible (th_id demo_handle) (th_snapshot late_handle) (tm_commit_log (st_txns st))"
    by (simp add: effect_visible_iff demo_handle_def late_handle_def)
  from update_keeps_snapshots [OF st(1-4) d this r] d show ?thesis by blast
qed

text \<open>After a successful delete the stamp stays, and blocks every other transaction.\<close>

lemma deleted_stays:
  assumes reach: "store_reach crc32 st" and hp: "st_page_heap st (rid_page rid) = Some heap" and id: "th_id h \<noteq> 0"
    and del: "store_delete crc32 now expired rid (st, h) = Some (Ret (), st', h')" and steps: "(some_step crc32)\<^sup>*\<^sup>* st' st''"
  shows "stamped (th_id h) rid (versions st'')" and "store_good st''"
    and "th_id g \<noteq> th_id h \<Longrightarrow> store_delete crc32 now' expired' rid (st'', g) \<noteq> Some (Ret (), s) \<and>
      store_update crc32 now' expired' rid payload (st'', g) \<noteq> Some (Ret new, s')"
proof -
  have good: "store_good st" by (rule store_reach_good [OF reach])
  then have ok: "store_ok st" by (simp add: store_good_def)
  obtain rec where d: "versions st rid = Some rec" "writable st h rec" "versions st' = (versions st)(rid \<mapsto> stamp_bytes (th_id h) rec)"
    using store_delete_spec [OF ok hp, of crc32 now expired h] del by (auto simp: delete_result_def)
  have "24 \<le> length rec" by (rule writable_header [OF d(2)])
  then have st1: "stamped (th_id h) rid (versions st')" unfolding d(3) by (rule stamp_stamped)
  have good': "store_good st'" using store_step_good [OF store_step.Delete [OF hp del] good] by simp
  show st2: "stamped (th_id h) rid (versions st'')" by (rule some_steps_stamped [OF steps good' st1 id])
  show good2: "store_good st''" by (rule some_steps_good [OF steps good'])
  then have ok2: "store_ok st''" by (simp add: store_good_def)
  obtain heap'' where hp2: "st_page_heap st'' (rid_page rid) = Some heap''"
    using st2 by (auto simp: stamped_def versions_def split: if_splits)
  show "store_delete crc32 now' expired' rid (st'', g) \<noteq> Some (Ret (), s) \<and>
      store_update crc32 now' expired' rid payload (st'', g) \<noteq> Some (Ret new, s')" if "th_id g \<noteq> th_id h"
  proof -
    have no: "\<nexists>rec. versions st'' rid = Some rec \<and> writable st'' g rec" using stamped_not_writable [OF st2 id] that by auto
    show ?thesis using no delete_Ret_writable [OF ok2 hp2] update_Ret_writable [OF ok2] by blast
  qed
qed



text \<open>
  C28: A scan lists exactly the visible rows. If a frame is free, a scan of a heap returns every
  version of the heap that the snapshot sees, with its payload, and nothing else, each once.
\<close>

theorem scan_lists_visible_rows:
  assumes "store_reach crc32 st" and "\<not> strained st"
  shows "\<exists>rows st'. store_scan heap (st, h) = Some (Ret rows, st', h) \<and> distinct (map fst rows) \<and>
    set rows = {(r, p). st_page_heap st (rid_page r) = Some heap \<and>
      (\<exists>rec header. versions st r = Some rec \<and> header_decode rec = Some header \<and>
         visible header (th_snapshot h) (tm_commit_log (st_txns st)) \<and> p = drop MVCC_HEADER_SIZE rec)}"
proof -
  have ok: "store_ok st" using store_reach_good [OF assms(1)] by (simp add: store_good_def)
  obtain rows st' where r: "store_scan heap (st, h) = Some (Ret rows, st', h)" "distinct (map fst rows)"
      "set rows = rows_of (versions st) (sees st h) {page. st_page_heap st page = Some heap}"
    using store_scan_spec [OF ok, of heap h] assms(2) by auto
  have "visible_row (sees st h) (versions st r) = Some p \<longleftrightarrow> (\<exists>rec header. versions st r = Some rec \<and> header_decode rec = Some header \<and>
         visible header (th_snapshot h) (tm_commit_log (st_txns st)) \<and> p = drop MVCC_HEADER_SIZE rec)" for r p
    by (cases "versions st r"; cases "header_decode (the (versions st r))") (auto simp: visible_row_def sees_def simp del: header_decode_None_iff)
  then show ?thesis using r by (auto simp: rows_of_def)
qed

theorem scan_lists_visible_rows_witness:
  "\<exists>st heap rid rows st'. store_scan heap (st, demo_handle) = Some (Ret rows, st', demo_handle) \<and> (rid, [7]) \<in> set rows"
proof -
  obtain st rid heap where st: "store_reach (\<lambda>_. 3) st" "\<not> strained st" "st_page_heap st (rid_page rid) = Some heap"
      "versions st = [rid \<mapsto> version_bytes 2 None [7]]" "tm_commit_log (st_txns st) = commit_log_new"
    using demo_record by blast
  obtain header where hd: "header_decode (version_bytes 2 None [7]) = Some header" "xmin header = 2" "xmax header = 0"
    using version_bytes_decode(1) [of None 2 "[7]"] by auto
  have "visible header (th_snapshot demo_handle) (tm_commit_log (st_txns st))"
    using hd by (simp add: visible_iff effect_visible_iff demo_handle_def)
  moreover have "[7] = drop MVCC_HEADER_SIZE (version_bytes 2 None [7])" using version_bytes_decode(2) [of None 2 "[7]"] by simp
  ultimately show ?thesis using scan_lists_visible_rows [OF st(1,2), of heap demo_handle] st(3,4) hd(1) by fastforce
qed


text \<open>Stored versions keep their creator, their payload and their link.\<close>

definition same_version :: "bytes \<Rightarrow> bytes \<Rightarrow> bool" where
  "same_version rec rec' \<longleftrightarrow> drop 24 rec' = drop 24 rec \<and> (\<exists>header header'. header_decode rec = Some header \<and>
     header_decode rec' = Some header' \<and> xmin header' = xmin header \<and> prev_version header' = prev_version header)"

lemma same_version_trans: "same_version a b \<Longrightarrow> same_version b c \<Longrightarrow> same_version a c"
  by (auto simp: same_version_def)

lemma same_version_refl: "24 \<le> length rec \<Longrightarrow> same_version rec rec"
  by (cases "header_decode rec") (simp_all add: same_version_def)

lemma vstep_same_version:
  assumes "vstep t vs vs'" and "vs r = Some rec" and "24 \<le> length rec"
  shows "\<exists>rec'. vs' r = Some rec' \<and> same_version rec rec' \<and> 24 \<le> length rec'"
  using assms(1)
proof cases
  case (Add q bs header)
  then show ?thesis using assms(2,3) same_version_refl by auto
next
  case (Stamp q rec0 header)
  show ?thesis
  proof (cases "q = r")
    case True
    then show ?thesis using assms(2,3) Stamp stamp_bytes_decode [OF assms(3), of t] by (auto simp: same_version_def)
  next
    case False
    then show ?thesis using assms(2,3) Stamp(1) same_version_refl by auto
  qed
qed

lemma vsteps_same_version:
  "(vstep t)\<^sup>*\<^sup>* vs vs' \<Longrightarrow> vs r = Some rec \<Longrightarrow> 24 \<le> length rec \<Longrightarrow> \<exists>rec'. vs' r = Some rec' \<and> same_version rec rec' \<and> 24 \<le> length rec'"
proof (induction rule: rtranclp_induct)
  case (step vs1 vs2)
  then obtain rec1 where r1: "vs1 r = Some rec1" "same_version rec rec1" "24 \<le> length rec1" by blast
  then show ?case using vstep_same_version [OF step.hyps(2) r1(1,3)] same_version_trans by blast
qed (auto simp: same_version_refl)

lemma some_steps_same_version:
  assumes "(some_step crc32)\<^sup>*\<^sup>* st st'" and "store_good st" and "versions st r = Some rec"
  shows "\<exists>rec'. versions st' r = Some rec' \<and> same_version rec rec'"
  using assms
proof (induction rule: rtranclp_induct)
  case base
  then show ?case by (auto simp: store_good_def chain_ok_def intro!: same_version_refl)
next
  case (step st1 st2)
  obtain a where a: "store_step crc32 a st1 st2" using step.hyps(2) by (auto simp: some_step_def)
  have good: "store_good st1" by (rule some_steps_good [OF step.hyps(1) step.prems(1)])
  obtain rec1 where r1: "versions st1 r = Some rec1" "same_version rec rec1" using step.IH step.prems by blast
  have "24 \<le> length rec1" using good r1(1) by (auto simp: store_good_def chain_ok_def)
  then have "\<exists>rec'. versions st2 r = Some rec' \<and> same_version rec1 rec'"
    using store_step_good [OF a good] r1(1) vsteps_same_version [of _ "versions st1" "versions st2" r rec1] same_version_refl
    by (cases a) auto
  then show ?case using r1(2) same_version_trans by blast
qed

text \<open>
  C27: Versions are immutable but for their stamp. A stored version never disappears, and its
  payload, its creator and its link to the older version never change, in any later state.
\<close>

theorem versions_are_immutable:
  assumes "store_reach crc32 st" and "(some_step crc32)\<^sup>*\<^sup>* st st'" and "versions st r = Some rec"
  shows "\<exists>rec' header header'. versions st' r = Some rec' \<and> drop MVCC_HEADER_SIZE rec' = drop MVCC_HEADER_SIZE rec \<and>
    header_decode rec = Some header \<and> header_decode rec' = Some header' \<and> xmin header' = xmin header \<and>
    prev_version header' = prev_version header"
  using some_steps_same_version [OF assms(2) store_reach_good [OF assms(1)] assms(3)] by (auto simp: same_version_def)

theorem versions_are_immutable_witness:
  "\<exists>st rid rec'. versions (checkpoint st) rid = Some rec' \<and> drop MVCC_HEADER_SIZE rec' = [7]"
proof -
  obtain st rid where st: "store_reach (\<lambda>_. 3) st" "versions st = [rid \<mapsto> version_bytes 2 None [7]]" using demo_record by blast
  have "(some_step (\<lambda>_. 3))\<^sup>*\<^sup>* st (checkpoint st)"
    using store_step.Checkpoint [of "\<lambda>_. 3" st] by (intro r_into_rtranclp) (auto simp: some_step_def)
  from versions_are_immutable [OF st(1) this, of rid "version_bytes 2 None [7]"] st(2) version_bytes_decode(2) [of None 2 "[7]"]
  show ?thesis by auto
qed

text \<open>
  C31: An aborted delete blocks its version. If a transaction deletes a version and aborts, a later
  transaction that sees the version's creator reads the version as live, and yet its attempts to
  update or delete it never succeed.
\<close>

theorem aborted_delete_blocks_version:
  assumes "store_reach crc32 st" and "st_page_heap st (rid_page rid) = Some heap" and "th_id h \<noteq> NO_TXN"
    and "store_delete crc32 now expired rid (st, h) = Some (Ret (), st', h')" and "(some_step crc32)\<^sup>*\<^sup>* st' st''"
    and "status (tm_commit_log (st_txns st'')) (th_id h) = Aborted"
    and "snap_txn_id (th_snapshot g) = th_id g" and "th_id g \<noteq> th_id h" and "\<not> strained st''"
    and "versions st rid = Some rec" and "header_decode rec = Some header"
    and "effect_visible (xmin header) (th_snapshot g) (tm_commit_log (st_txns st''))"
  shows "(\<exists>s. read_chain 1 rid (st'', g) = Some (Ret (Some (drop MVCC_HEADER_SIZE rec)), s, g)) \<and>
    (\<forall>now expired s. store_delete crc32 now expired rid (st'', g) \<noteq> Some (Ret (), s)) \<and>
    (\<forall>now expired payload new s. store_update crc32 now expired rid payload (st'', g) \<noteq> Some (Ret new, s))"
proof -
  have id: "th_id h \<noteq> 0" using assms(3) by simp
  note ds = deleted_stays [OF assms(1,2) id assms(4,5)]
  obtain rs where rs: "store_ok st''" "chain_ok (versions st'') rs" using ds(2) by (auto simp: store_good_def)
  have "some_step crc32 st st'" using store_step.Delete [OF assms(2,4)] by (auto simp: some_step_def)
  then have "(some_step crc32)\<^sup>*\<^sup>* st st''" using assms(5) by simp
  from some_steps_same_version [OF this store_reach_good [OF assms(1)] assms(10)]
  obtain rec2 header2 where r2: "versions st'' rid = Some rec2" "drop 24 rec2 = drop 24 rec" "header_decode rec2 = Some header2"
      "xmin header2 = xmin header" using assms(11) by (auto simp: same_version_def)
  have "xmax header2 = th_id h" using ds(1) r2(1,3) by (simp add: stamped_def)
  then have "sees st'' g header2" using r2(4) assms(6-8,12) by (simp add: sees_iff) (simp add: effect_visible_iff)
  then have "chain_read 1 (versions st'') (sees st'' g) rid = Some (Some (drop 24 rec))"
    using r2 by (simp add: chain_step_def)
  moreover have "versions st'' rid \<noteq> None" using r2(1) by simp
  ultimately have "\<exists>s. read_chain 1 rid (st'', g) = Some (Ret (Some (drop 24 rec)), s, g)"
    using read_chain_Ret(2) [OF rs(2,1)] assms(9) by blast
  then show ?thesis using ds(3) [OF assms(8)] by simp
qed


definition reader_handle :: TxnHandle where
  "reader_handle = \<lparr>th_id = 4, th_mode = ReadWrite, th_snapshot = \<lparr>snap_txn_id = 4, snap_xmin = 4, snap_xmax = 5, snap_active = {}\<rparr>,
     th_last_lsn = 0, th_finished = False\<rparr>"

lemma abort_runs:
  assumes "store_ok st" and "\<not> strained st"
  shows "\<exists>m. abort_internal crc32 now t ReadWrite l (st_txns st) = Some (m, Inr ()) \<and> tm_commit_log m = record_abort t (tm_commit_log (st_txns st)) \<and>
    \<not> strained (put_txns m st)"
proof -
  have w: "wal_top (tm_wal (st_txns st))" "20000 \<le> wal_segment_size (tm_wal (st_txns st))"
    using assms by (auto simp: store_ok_def pool_up_def strained_def tight_def)
  let ?r = "log_txn t l Abort"
  have fl: "frame_len ?r \<le> 100" by (simp add: frame_len_def log_txn_def)
  obtain w' res where a: "wal_append crc32 now (tm_wal (st_txns st)) ?r = Some (w', res)"
    using wal_append_runs [of "tm_wal (st_txns st)"] w(2) by fastforce
  then obtain k where k: "res = Inr k" using wal_append_top(2) [OF w(1) a] w(2) fl by (cases res) force+
  have "wal_segment_size (flush_through k w') = wal_segment_size (tm_wal (st_txns st))"
    using wal_append_segment [OF a] by (simp add: flush_through_segment)
  then show ?thesis using a k assms w(2)
    by (auto simp: abort_internal_def txn_finish_def put_txns_def strained_def tight_def pins_def)
qed

theorem aborted_delete_blocks_version_witness:
  "\<exists>st rid st1. (\<exists>s. read_chain 1 rid (st1, reader_handle) = Some (Ret (Some [7]), s, reader_handle)) \<and>
     (\<forall>now expired s. store_delete (\<lambda>_. 3) now expired rid (st1, reader_handle) \<noteq> Some (Ret (), s)) \<and> versions st rid \<noteq> None"
proof -
  define boot where "boot = demo_handle\<lparr>th_id := BOOTSTRAP_TXN\<rparr>"
  obtain st rid heap where st: "store_reach (\<lambda>_. 3) st" "\<not> strained st" "versions st = [rid \<mapsto> version_bytes 1 None [7]]"
      "\<forall>h rid. lock_free st h rid" "tm_commit_log (st_txns st) = commit_log_new" "st_page_heap st (rid_page rid) = Some heap"
    using record_by [of boot] by (auto simp: boot_def)
  have ok: "store_ok st" using store_reach_good [OF st(1)] by (simp add: store_good_def)
  obtain header where hd: "header_decode (version_bytes 1 None [7]) = Some header" "xmin header = 1" "xmax header = 0"
    using version_bytes_decode(1) [of None 1 "[7]"] by auto
  have seen: "effect_visible 1 (th_snapshot g) cl" if "g \<in> {late_handle, reader_handle}" "cl 1 = Some (Committed 0)" for g cl
    using that by (auto simp: effect_visible_iff late_handle_def reader_handle_def status_def)
  have "writable st late_handle (version_bytes 1 None [7])"
    using seen [of late_handle "tm_commit_log (st_txns st)"] hd st(5) by (simp add: writable_def sees_iff is_deleted_def commit_log_new_def)
  then obtain st1 h1 where d: "store_delete (\<lambda>_. 3) 0 False rid (st, late_handle) = Some (Ret (), st1, h1)" "store_ok st1" "cl_kept st st1"
    using store_delete_spec [OF ok st(6), of "\<lambda>_. 3" 0 False late_handle] st(2-4) by auto
  obtain m where m: "abort_internal (\<lambda>_. 3) 0 3 ReadWrite 0 (st_txns st1) = Some (m, Inr ())"
      "tm_commit_log m = record_abort 3 (tm_commit_log (st_txns st1))" "\<not> strained (put_txns m st1)"
    using abort_runs [OF d(2), of "\<lambda>_. 3" 0 3 0] d(3) st(2) unfolding cl_kept_def by blast
  let ?st = "put_txns m st1"
  have step: "(some_step (\<lambda>_. 3))\<^sup>*\<^sup>* st1 ?st" using store_step.Abort [OF m(1)] by (intro r_into_rtranclp) (auto simp: some_step_def)
  have cl: "tm_commit_log (st_txns ?st) = record_abort 3 commit_log_new" using m(2) d(3) st(5) by (simp add: put_txns_def cl_kept_def)
  have "th_id late_handle \<noteq> NO_TXN" "status (tm_commit_log (st_txns ?st)) (th_id late_handle) = Aborted"
      "snap_txn_id (th_snapshot reader_handle) = th_id reader_handle" "th_id reader_handle \<noteq> th_id late_handle"
    unfolding cl by (simp_all add: late_handle_def reader_handle_def)
  moreover have "versions st rid = Some (version_bytes 1 None [7])" using st(3) by simp
  moreover have "effect_visible (xmin header) (th_snapshot reader_handle) (tm_commit_log (st_txns ?st))"
    unfolding cl hd(2) by (rule seen) (simp_all add: record_abort_def commit_log_new_def)
  ultimately have "(\<exists>s. read_chain 1 rid (?st, reader_handle) = Some (Ret (Some (drop MVCC_HEADER_SIZE (version_bytes 1 None [7]))), s, reader_handle)) \<and>
    (\<forall>now expired s. store_delete (\<lambda>_. 3) now expired rid (?st, reader_handle) \<noteq> Some (Ret (), s))"
    using aborted_delete_blocks_version [OF st(1,6) _ d(1) step _ _ _ m(3) _ hd(1), of reader_handle] by blast
  then show ?thesis using version_bytes_decode(2) [of None 1 "[7]"] \<open>versions st rid = _\<close>
    by (intro exI [of _ st] exI [of _ rid] exI [of _ ?st]) simp
qed

end
