(* ===== verification/Index.thy ===== *)
theory Index
  imports Store "HOL-Library.List_Lexorder"
begin

text \<open>
  The nodes of the B+tree index (\<open>prism-index/src/btree.rs\<close>) and their pages: the node types,
  the byte-exact encoding of a node in a page, and the page I/O of the tree (read a node, write a
  node, allocate a node), with the full-page image each write appends to the log.

  Keys are byte strings in lexicographic order. An index action runs on the buffer pool, whose
  log is the one the tree appends to; \<open>None\<close> is a panic.
\<close>

section \<open>Nodes\<close>

definition BODY_START :: nat where [simp]: "BODY_START = 32"
definition MAX_BODY :: nat where [simp]: "MAX_BODY = PAGE_SIZE - BODY_START"
definition NIL :: u64 where [simp]: "NIL = 0"

datatype IndexError = IxBuffer BufferError | IxWal WalError | Corrupt string | EntryTooLarge

record Leaf =
  lf_right_sibling :: "u64 option"
  lf_entries :: "(bytes \<times> RecordId) list"

record Internal =
  in_level :: u16
  in_right_sibling :: "u64 option"
  in_keys :: "bytes list"
  in_children :: "u64 list"

datatype Node = LeafNode Leaf | InternalNode Internal

text \<open>The index of the first element that does not satisfy the predicate of a partitioned slice.\<close>

definition partition_point :: "('a \<Rightarrow> bool) \<Rightarrow> 'a list \<Rightarrow> nat" where
  "partition_point P xs = length (takeWhile P xs)"

text \<open>Indexing and \<open>Vec::insert\<close> panic out of range.\<close>

definition nth_exec :: "'a list \<Rightarrow> nat \<Rightarrow> 'a exec" where
  "nth_exec xs i = (if i < length xs then Some (xs ! i) else None)"

definition vec_insert :: "nat \<Rightarrow> 'a \<Rightarrow> 'a list \<Rightarrow> 'a list exec" where
  "vec_insert i x xs = (if i \<le> length xs then Some (take i xs @ x # drop i xs) else None)"

definition route :: "Internal \<Rightarrow> bytes \<Rightarrow> u64 exec" where
  "route n key = nth_exec (in_children n) (partition_point (\<lambda>k. k \<le> key) (in_keys n))"

definition insert_child :: "bytes \<Rightarrow> u64 \<Rightarrow> Internal \<Rightarrow> Internal exec" where
  "insert_child pivot new_right n =
     (let pos = partition_point (\<lambda>k. k < pivot) (in_keys n) in do {
        keys \<leftarrow> vec_insert pos pivot (in_keys n);
        children \<leftarrow> vec_insert (pos + 1) new_right (in_children n);
        Some (n\<lparr>in_keys := keys, in_children := children\<rparr>)
      })"

definition entry_at :: "(bytes \<times> RecordId) list \<Rightarrow> bytes \<Rightarrow> RecordId option" where
  "entry_at entries key =
     (let pos = partition_point (\<lambda>(k, _). k < key) entries in
      if pos < length entries \<and> fst (entries ! pos) = key then Some (snd (entries ! pos)) else None)"

definition upsert :: "(bytes \<times> RecordId) list \<Rightarrow> bytes \<Rightarrow> RecordId \<Rightarrow> (bytes \<times> RecordId) list" where
  "upsert entries key rid =
     (let pos = partition_point (\<lambda>(k, _). k < key) entries in
      if pos < length entries \<and> fst (entries ! pos) = key
      then entries[pos := (fst (entries ! pos), rid)]
      else take pos entries @ (key, rid) # drop pos entries)"

definition leaf_size :: "Leaf \<Rightarrow> nat" where
  "leaf_size leaf = 8 + 4 + sum_list (map (\<lambda>(k, _). 4 + length k + 10) (lf_entries leaf))"

definition internal_size :: "Internal \<Rightarrow> nat" where
  "internal_size n = 2 + 8 + 4 + length (in_children n) * 8 + sum_list (map (\<lambda>k. 4 + length k) (in_keys n))"


section \<open>Encoding\<close>

definition opt_to_nil :: "u64 option \<Rightarrow> u64" where
  "opt_to_nil r = (case r of None \<Rightarrow> NIL | Some p \<Rightarrow> p)"

definition nil_to_opt :: "u64 \<Rightarrow> u64 option" where
  "nil_to_opt v = (if v = NIL then None else Some v)"

definition enc_entry :: "bytes \<times> RecordId \<Rightarrow> bytes" where
  "enc_entry = (\<lambda>(key, rid). put_bytes_u32 key @ to_le_bytes (rid_page rid) @ to_le_bytes (rid_slot rid))"

fun encode_node :: "Node \<Rightarrow> PageType \<times> bytes" where
  "encode_node (LeafNode leaf) =
     (BTreeLeaf, to_le_bytes (opt_to_nil (lf_right_sibling leaf)) @
        to_le_bytes (word_of_nat (length (lf_entries leaf)) :: u32) @ concat (map enc_entry (lf_entries leaf)))"
| "encode_node (InternalNode n) =
     (BTreeInternal, to_le_bytes (in_level n) @ to_le_bytes (opt_to_nil (in_right_sibling n)) @
        to_le_bytes (word_of_nat (length (in_keys n)) :: u32) @
        concat (map to_le_bytes (in_children n)) @ concat (map put_bytes_u32 (in_keys n)))"

definition node_truncated :: IndexError where
  "node_truncated = Corrupt ''index node truncated''"

definition dec_entry :: "(IndexError, bytes \<times> RecordId) reader" where
  "dec_entry = bindR (bytes_u32R node_truncated) (\<lambda>key. bindR (wordR node_truncated) (\<lambda>page.
     bindR (wordR node_truncated) (\<lambda>slot. retR (key, rid_new page slot))))"

definition dec_leaf :: "(IndexError, Node) reader" where
  "dec_leaf = bindR (wordR node_truncated) (\<lambda>right. bindR (wordR node_truncated) (\<lambda>count :: u32.
     bindR (repR (unat count) dec_entry) (\<lambda>entries.
     retR (LeafNode \<lparr>lf_right_sibling = nil_to_opt right, lf_entries = entries\<rparr>))))"

definition dec_internal :: "(IndexError, Node) reader" where
  "dec_internal = bindR (wordR node_truncated) (\<lambda>level. bindR (wordR node_truncated) (\<lambda>right.
     bindR (wordR node_truncated) (\<lambda>key_count :: u32.
     bindR (repR (unat key_count + 1) (wordR node_truncated)) (\<lambda>children.
     bindR (repR (unat key_count) (bytes_u32R node_truncated)) (\<lambda>keys.
     retR (InternalNode \<lparr>in_level = level, in_right_sibling = nil_to_opt right, in_keys = keys, in_children = children\<rparr>))))))"

definition decode_node :: "bytes \<Rightarrow> IndexError + Node" where
  "decode_node page =
     (case page_type_from_u8 (page ! 10) of
        Some BTreeLeaf \<Rightarrow> bindE (dec_leaf (drop BODY_START page)) (\<lambda>(n, _). Inr n)
      | Some BTreeInternal \<Rightarrow> bindE (dec_internal (drop BODY_START page)) (\<lambda>(n, _). Inr n)
      | _ \<Rightarrow> Inl (Corrupt ''unexpected page type byte''))"

text \<open>The page that \<open>put_node\<close> leaves behind a guard that held the page \<open>b\<close>.\<close>

definition node_page :: "(bytes \<Rightarrow> u32) \<Rightarrow> Node \<Rightarrow> bytes \<Rightarrow> bytes" where
  "node_page crc32 node b =
     (let (page_type, body) = encode_node node;
          b = wr 0 (replicate 8 0) b;
          b = wr 10 (replicate (PAGE_SIZE - 10) 0) b;
          b = wr 10 [page_type_u8 page_type] b;
          b = wr BODY_START body b
      in wr 8 (to_le_bytes (page_checksum crc32 b)) b)"


section \<open>Page I/O\<close>

type_synonym 'a ix = "BufferPool \<Rightarrow> ((IndexError + 'a) \<times> BufferPool) exec"

definition read_node :: "u64 \<Rightarrow> Node ix" where
  "read_node page p =
     (case fetch_read page p of
        (p, Inl e) \<Rightarrow> Some (Inl (IxBuffer e), p)
      | (p, Inr i) \<Rightarrow> Some (decode_node (fr_content (bp_frames p ! i)), read_guard_drop i p))"

definition put_node :: "(bytes \<Rightarrow> u32) \<Rightarrow> Node \<Rightarrow> nat \<Rightarrow> unit ix" where
  "put_node crc32 node i p =
     (if length (snd (encode_node node)) > MAX_BODY then Some (Inl EntryTooLarge, p)
      else Some (Inr (), guard_modify i (node_page crc32 node) p))"

definition log_page :: "(bytes \<Rightarrow> u32) \<Rightarrow> u64 \<Rightarrow> u64 \<Rightarrow> nat \<Rightarrow> unit ix" where
  "log_page crc32 now page i p = do {
     (w, res) \<leftarrow> wal_append crc32 now (bp_wal p) (log_system (FullPageImage page (fr_content (bp_frames p ! i))));
     Some (case res of
         Inl e \<Rightarrow> (Inl (IxWal e), p\<lparr>bp_wal := w\<rparr>)
       | Inr l \<Rightarrow> (Inr (), guard_set_page_lsn i l (p\<lparr>bp_wal := w\<rparr>)))
   }"

text \<open>\<open>put_node\<close> and \<open>log_page\<close> behind a write guard, which is dropped on every path.\<close>

definition fill_node :: "(bytes \<Rightarrow> u32) \<Rightarrow> u64 \<Rightarrow> u64 \<Rightarrow> Node \<Rightarrow> nat \<Rightarrow> unit ix" where
  "fill_node crc32 now page node i p = do {
     (r, p) \<leftarrow> put_node crc32 node i p;
     (r, p) \<leftarrow> (case r of Inl e \<Rightarrow> Some (Inl e, p) | Inr _ \<Rightarrow> log_page crc32 now page i p);
     Some (r, write_guard_drop i page p)
   }"

definition write_node :: "(bytes \<Rightarrow> u32) \<Rightarrow> u64 \<Rightarrow> u64 \<Rightarrow> Node \<Rightarrow> unit ix" where
  "write_node crc32 now page node p =
     (case fetch_write page p of
        (p, Inl e) \<Rightarrow> Some (Inl (IxBuffer e), p)
      | (p, Inr i) \<Rightarrow> fill_node crc32 now page node i p)"

definition alloc_node :: "(bytes \<Rightarrow> u32) \<Rightarrow> u64 \<Rightarrow> Node \<Rightarrow> u64 ix" where
  "alloc_node crc32 now node p =
     (case new_page p of
        (p, Inl e) \<Rightarrow> Some (Inl (IxBuffer e), p)
      | (p, Inr (page, i)) \<Rightarrow> do {
          (r, p) \<leftarrow> fill_node crc32 now page node i p;
          Some (case r of Inl e \<Rightarrow> Inl e | Inr _ \<Rightarrow> Inr page, p)
        })"

section \<open>Round trip of nodes\<close>

interpretation c_entry: codec enc_entry dec_entry "\<lambda>(key, _). length key < 2 ^ 32"
  by unfold_locales (auto simp: enc_entry_def dec_entry_def reader_simps rid_new_def)

text \<open>The size the tree computes for a node is the size of its encoding.\<close>

fun node_size :: "Node \<Rightarrow> nat" where
  "node_size (LeafNode leaf) = leaf_size leaf"
| "node_size (InternalNode n) = internal_size n"

lemma length_encode_node: "length (snd (encode_node n)) = node_size n"
proof -
  have e: "length \<circ> enc_entry = (\<lambda>(k, _). 4 + length k + 10)"
    by (auto simp: fun_eq_iff enc_entry_def put_bytes_u32_def)
  have k: "length \<circ> put_bytes_u32 = (\<lambda>k. 4 + length k)" by (auto simp: fun_eq_iff put_bytes_u32_def)
  have c: "sum_list (map (length \<circ> to_le_bytes) cs) = length cs * 8" for cs :: "u64 list" by (induction cs) simp_all
  show ?thesis by (cases n) (simp_all add: length_concat e k c leaf_size_def internal_size_def)
qed

text \<open>Page 0 is the database header, so 0 is free to mean that there is no sibling.\<close>

fun node_ok :: "Node \<Rightarrow> bool" where
  "node_ok (LeafNode leaf) \<longleftrightarrow> lf_right_sibling leaf \<noteq> Some 0"
| "node_ok (InternalNode n) \<longleftrightarrow> in_right_sibling n \<noteq> Some 0 \<and> length (in_children n) = length (in_keys n) + 1"

lemma nil_opt [simp]: "r \<noteq> Some 0 \<Longrightarrow> nil_to_opt (opt_to_nil r) = r"
  by (auto simp: nil_to_opt_def opt_to_nil_def split: option.splits)

lemma entries_size: "(k, rid) \<in> set es \<Longrightarrow> length k + length es \<le> sum_list (map (\<lambda>(k, _). 4 + length k + 10) es)"
proof (induction es)
  case (Cons e es)
  have "length es \<le> sum_list (map (\<lambda>(k, _). 4 + length k + 10) es)" by (induction es) auto
  then show ?case using Cons by (cases e) auto
qed simp

lemma keys_size: "k \<in> set ks \<Longrightarrow> length k + length ks \<le> sum_list (map (\<lambda>k. 4 + length k) ks)"
proof (induction ks)
  case (Cons e ks)
  have "length ks \<le> sum_list (map (\<lambda>k. 4 + length k) ks)" by (induction ks) auto
  then show ?case using Cons by auto
qed simp

lemma dec_leaf_encode:
  assumes "lf_right_sibling leaf \<noteq> Some 0" and "leaf_size leaf \<le> 8160"
  shows "dec_leaf (snd (encode_node (LeafNode leaf)) @ rest) = Inr (LeafNode leaf, rest)"
proof -
  have k: "length k + length (lf_entries leaf) < 2 ^ 32" if "(k, rid) \<in> set (lf_entries leaf)" for k rid
    using entries_size [OF that] assms(2) by (simp add: leaf_size_def)
  then have n: "length (lf_entries leaf) < 2 ^ 32" by (cases "lf_entries leaf") fastforce+
  have "repR (unat (word_of_nat (length (lf_entries leaf)) :: u32)) dec_entry (concat (map enc_entry (lf_entries leaf)) @ rest)
      = Inr (lf_entries leaf, rest)"
    using n k by (intro c_entry.rep_enc) (fastforce simp: unat_of_nat)+
  then show ?thesis using assms(1) by (simp add: dec_leaf_def reader_simps)
qed

lemma dec_internal_encode:
  assumes "node_ok (InternalNode n)" and "internal_size n \<le> 8160"
  shows "dec_internal (snd (encode_node (InternalNode n)) @ rest) = Inr (InternalNode n, rest)"
proof -
  have k: "length k + length (in_keys n) < 2 ^ 32" if "k \<in> set (in_keys n)" for k
    using keys_size [OF that] assms(2) by (simp add: internal_size_def)
  then have l: "length (in_keys n) < 2 ^ 32" by (cases "in_keys n") fastforce+
  then have "unat (word_of_nat (length (in_keys n)) :: u32) = length (in_keys n)" by (simp add: unat_of_nat)
  moreover have "repR (length (in_keys n) + 1) (wordR node_truncated) (concat (map to_le_bytes (in_children n)) @ r) = Inr (in_children n, r)" for r
    using assms(1) by (intro c_u64.rep_enc) simp_all
  moreover have "repR (length (in_keys n)) (bytes_u32R node_truncated) (concat (map put_bytes_u32 (in_keys n)) @ rest) = Inr (in_keys n, rest)"
    using k by (intro c_bytes_u32.rep_enc) fastforce+
  ultimately show ?thesis using assms(1) by (simp add: dec_internal_def reader_simps del: repR.simps)
qed

lemma wr_at_body:
  assumes "length b = 8192" and "length body \<le> 8160"
  shows "drop 32 (wr 32 body b) = body @ drop (32 + length body) b"
  using assms by (simp add: wr_def)

lemma node_page_fields:
  assumes "length b = 8192" and "node_size n \<le> 8160" and "encode_node n = (t, body)"
  shows "length (node_page crc32 n b) = 8192" and "node_page crc32 n b ! 10 = page_type_u8 t"
    and "\<exists>rest. drop 32 (node_page crc32 n b) = body @ rest"
    and "verify_checksum crc32 (node_page crc32 n b)"
proof -
  define b3 where "b3 = wr 10 [page_type_u8 t] (wr 10 (replicate 8182 0) (wr 0 (replicate 8 0) b))"
  define b4 where "b4 = wr 32 body b3"
  have lb: "length body \<le> 8160" using length_encode_node [of n] assms(2,3) by simp
  have l3: "length b3 = 8192" using assms(1) by (simp add: b3_def)
  have l4: "length b4 = 8192" using l3 lb by (simp add: b4_def)
  have eq: "node_page crc32 n b = wr 8 (to_le_bytes (page_checksum crc32 b4)) b4"
    by (simp add: node_page_def assms(3) b4_def b3_def Let_def)
  show "length (node_page crc32 n b) = 8192" using l4 by (simp add: eq)
  have at: "c ! 10 = (slice 10 1 c) ! 0" if "length c = 8192" for c :: bytes using that by (simp add: slice_def)
  have "slice 10 1 (node_page crc32 n b) = [page_type_u8 t]"
    using l4 l3 lb assms(1) by (simp add: eq b4_def b3_def byte_simps)
  then show "node_page crc32 n b ! 10 = page_type_u8 t" using at [of "node_page crc32 n b"] l4 by (simp add: eq)
  have "drop 32 (node_page crc32 n b) = drop 32 b4" using l4 by (simp add: eq wr_def)
  then show "\<exists>rest. drop 32 (node_page crc32 n b) = body @ rest" using wr_at_body [OF l3 lb] by (auto simp: b4_def)
  have "slice 8 2 (node_page crc32 n b) = to_le_bytes (page_checksum crc32 b4)" using l4 by (simp add: eq byte_simps)
  moreover have "drop 16 (node_page crc32 n b) = drop 16 b4" using l4 by (simp add: eq wr_def)
  ultimately show "verify_checksum crc32 (node_page crc32 n b)"
    by (simp add: verify_checksum_def rd_u16_def page_checksum_def)
qed

lemma decode_node_page:
  assumes "length b = 8192" and "node_size n \<le> 8160" and "node_ok n"
  shows "decode_node (set_page_lsn (node_page crc32 n b) l) = Inr n" and "decode_node (node_page crc32 n b) = Inr n"
proof -
  obtain t body where e: "encode_node n = (t, body)" by fastforce
  note f = node_page_fields [OF assms(1,2) e, of crc32]
  obtain rest where r: "drop 32 (node_page crc32 n b) = body @ rest" using f(3) by blast
  have body: "body = snd (encode_node n)" by (simp add: e)
  have d: "decode_node c = Inr n" if "c ! 10 = page_type_u8 t" "drop 32 c = body @ rest" for c
  proof (cases n)
    case (LeafNode leaf)
    then show ?thesis using that e assms dec_leaf_encode [of leaf rest]
      by (auto simp: decode_node_def page_type_u8_def page_type_from_u8_def)
  next
    case (InternalNode m)
    then show ?thesis using that e assms dec_internal_encode [of m rest]
      by (auto simp: decode_node_def page_type_u8_def page_type_from_u8_def)
  qed
  show "decode_node (node_page crc32 n b) = Inr n" using d f(2) r by blast
  have "set_page_lsn (node_page crc32 n b) l ! 10 = node_page crc32 n b ! 10" using f(1) by (simp add: set_page_lsn_def wr_def nth_append)
  moreover have "drop 32 (set_page_lsn (node_page crc32 n b) l) = drop 32 (node_page crc32 n b)" using f(1) by (simp add: set_page_lsn_def wr_def)
  ultimately show "decode_node (set_page_lsn (node_page crc32 n b) l) = Inr n" using d f(2) r by simp
qed

section \<open>Page I/O on a pool with a free frame\<close>

text \<open>Every frame is pinned, or a log segment cannot hold a page image.\<close>

definition starved :: "BufferPool \<Rightarrow> bool" where
  "starved p \<longleftrightarrow> 0 \<notin> set (pins p) \<or> wal_segment_size (bp_wal p) < 20000"

text \<open>A usable pool, and a pool as usable as before with \<open>k\<close> more pages.\<close>

definition pool_fit :: "BufferPool \<Rightarrow> bool" where
  "pool_fit p \<longleftrightarrow> pool_up p \<and> \<not> starved p"

definition pool_more :: "nat \<Rightarrow> BufferPool \<Rightarrow> BufferPool \<Rightarrow> bool" where
  "pool_more k p p' \<longleftrightarrow> pool_fit p' \<and> page_count (bp_disk p') = page_count (bp_disk p) + k \<and> pins p' = pins p \<and>
     wal_segment_size (bp_wal p') = wal_segment_size (bp_wal p)"

lemma pool_more_trans: "pool_more j p p' \<Longrightarrow> pool_more k p' p'' \<Longrightarrow> pool_more (j + k) p p''"
  by (simp add: pool_more_def)

lemma pool_more_fit: "pool_more k p p' \<Longrightarrow> pool_fit p'"
  by (simp add: pool_more_def)

lemma pool_more_refl: "pool_fit p \<Longrightarrow> pool_more 0 p p"
  by (simp add: pool_more_def)

definition node_of :: "bytes \<Rightarrow> Node option" where
  "node_of b = (case decode_node b of Inl _ \<Rightarrow> None | Inr n \<Rightarrow> Some n)"

text \<open>The nodes that the pages of the pool hold.\<close>

definition nodes :: "BufferPool \<Rightarrow> u64 \<Rightarrow> Node option" where
  "nodes p page = Option.bind (pool_view p page) node_of"

definition at_page :: "BufferPool \<Rightarrow> u64 \<Rightarrow> Node \<Rightarrow> bool" where
  "at_page p page n \<longleftrightarrow> unat page < page_count (bp_disk p) \<and> nodes p page = Some n"

lemma node_of_page: "length b = 8192 \<Longrightarrow> node_size n \<le> 8160 \<Longrightarrow> node_ok n \<Longrightarrow> node_of (set_page_lsn (node_page crc32 n b) l) = Some n"
  using decode_node_page(1) [of b n crc32 l] by (simp add: node_of_def)

lemma read_node_spec:
  assumes fit: "pool_fit p" and at: "at_page p page n"
  shows "\<exists>p'. read_node page p = Some (Inr n, p') \<and> pool_more 0 p p' \<and> pool_view p' = pool_view p"
proof -
  have up: "pool_up p" and inv: "pool_inv p" using fit by (simp_all add: pool_fit_def pool_up_def)
  obtain b where b: "pool_view p page = Some b" "node_of b = Some n" and q: "unat page < page_count (bp_disk p)"
    using at by (auto simp: at_page_def nodes_def bind_eq_Some_conv)
  obtain p1 r where f: "pin_for_access page p = (p1, r)" by fastforce
  obtain j where "j < length (bp_frames p)" "fr_pins (bp_frames p ! j) = 0"
    using fit by (auto simp: pool_fit_def starved_def pins_def in_set_conv_nth)
  then obtain i where r: "r = Inr i" using pin_succeeds [OF inv b(1)] f by fastforce
  note ps = pin_spec [OF inv f] and pu = pin_up [OF up q f] and pp = pin_pins [OF inv f]
  have h: "handle p1 i page" "fr_latched (bp_frames p1 ! i) \<longrightarrow> fr_pins (bp_frames p1 ! i) > 1" using ps(4) [OF r] by simp_all
  then have i: "i < length (bp_frames p1)" by (simp add: handle_def)
  have c: "decode_node (fr_content (bp_frames p1 ! i)) = Inr n"
    using handle_view [OF ps(1) h(1)] ps(2) b by (simp add: node_of_def split: sum.splits)
  note rg = read_guard_drop_spec [OF ps(1) i h(2)]
  have "pool_up (read_guard_drop i p1)" using rg(1) pu(1) by (auto simp: pool_up_def read_guard_drop_def unpin_def alloc_ok_def)
  moreover have "bp_disk (read_guard_drop i p1) = bp_disk p1" "bp_wal (read_guard_drop i p1) = bp_wal p1"
    by (simp_all add: read_guard_drop_def unpin_def)
  moreover have "pins (read_guard_drop i p1) = pins p" using pp r i by (simp add: read_guard_drop_def unpin_pins)
  ultimately have "pool_more 0 p (read_guard_drop i p1)"
    using pu(2,3) fit by (simp add: pool_more_def pool_fit_def starved_def)
  then show ?thesis using f r c rg(2) ps(2) by (simp add: read_node_def fetch_read_def)
qed

text \<open>A frame behind a write guard.\<close>

definition latched :: "nat \<Rightarrow> u64 \<Rightarrow> BufferPool \<Rightarrow> bool" where
  "latched i page p \<longleftrightarrow> pool_up p \<and> handle p i page \<and> fr_latched (bp_frames p ! i)"

lemma latched_upd:
  assumes "latched i page p" and "\<And>b. length b = 8192 \<Longrightarrow> length (g b) = 8192"
    and p': "p' = upd_frame i (\<lambda>f. f\<lparr>fr_content := g (fr_content f), fr_lsn := m (fr_lsn f)\<rparr>) p"
  shows "latched i page p'" and "pool_view p' = (pool_view p)(page \<mapsto> g (fr_content (bp_frames p ! i)))"
    and "fr_content (bp_frames p' ! i) = g (fr_content (bp_frames p ! i))" and "pins p' = pins p"
    and "bp_disk p' = bp_disk p" and "bp_wal p' = bp_wal p"
proof -
  have a: "pool_inv p" "handle p i page" "fr_latched (bp_frames p ! i)" "pool_up p" using assms(1) by (simp_all add: latched_def pool_up_def)
  note l = latched_upd_spec [OF a(1-3) assms(2) p']
  show "latched i page p'" using l a(4) by (simp add: latched_def pool_up_def p' alloc_ok_def)
  show "pool_view p' = (pool_view p)(page \<mapsto> g (fr_content (bp_frames p ! i)))" by (rule l(2))
  show "fr_content (bp_frames p' ! i) = g (fr_content (bp_frames p ! i))" using a(2) by (simp add: p' handle_def)
  show "pins p' = pins p" "bp_disk p' = bp_disk p" "bp_wal p' = bp_wal p" by (simp_all add: p' upd_frame_pins)
qed

lemma latched_drop:
  assumes "latched i page p"
  shows "pool_up (write_guard_drop i page p)" and "pool_view (write_guard_drop i page p) = pool_view p"
    and "pins (write_guard_drop i page p) = (pins p)[i := pins p ! i - 1]"
    and "bp_disk (write_guard_drop i page p) = bp_disk p" and "bp_wal (write_guard_drop i page p) = bp_wal p"
proof -
  have a: "pool_inv p" "handle p i page" "fr_latched (bp_frames p ! i)" using assms by (simp_all add: latched_def pool_up_def)
  note w = write_guard_drop_spec [OF a]
  have e: "bp_table (write_guard_drop i page p) = bp_table p" "bp_disk (write_guard_drop i page p) = bp_disk p"
      "bp_wal (write_guard_drop i page p) = bp_wal p"
    by (simp_all add: write_guard_drop_def unpin_def Let_def)
  then show "pool_up (write_guard_drop i page p)" using w(1) assms by (simp add: latched_def pool_up_def alloc_ok_def)
  show "pool_view (write_guard_drop i page p) = pool_view p" by (rule w(2))
  show "bp_disk (write_guard_drop i page p) = bp_disk p" "bp_wal (write_guard_drop i page p) = bp_wal p" by (simp_all add: e)
  have "i < length (bp_frames p)" using a(2) by (simp add: handle_def)
  then show "pins (write_guard_drop i page p) = (pins p)[i := pins p ! i - 1]"
    by (simp add: write_guard_drop_def Let_def unpin_def upd_frame_def pins_def map_update)
qed

lemma log_page_runs:
  assumes h: "latched i page p" and len: "length (fr_content (bp_frames p ! i)) = 8192" and seg: "20000 \<le> wal_segment_size (bp_wal p)"
  shows "\<exists>l p'. log_page crc32 now page i p = Some (Inr (), p') \<and> latched i page p' \<and>
    pool_view p' = (pool_view p)(page \<mapsto> set_page_lsn (fr_content (bp_frames p ! i)) l) \<and> pins p' = pins p \<and> bp_disk p' = bp_disk p \<and>
    wal_segment_size (bp_wal p') = wal_segment_size (bp_wal p)"
proof -
  let ?r = "log_system (FullPageImage page (fr_content (bp_frames p ! i)))"
  have up: "pool_up p" using h by (simp add: latched_def)
  then obtain w res where w: "wal_append crc32 now (bp_wal p) ?r = Some (w, res)"
    using wal_append_runs by (fastforce simp: pool_up_def)
  have fl: "frame_len ?r \<le> 10000" using len by (simp add: frame_len_def log_system_def put_bytes_u32_def)
  have "\<exists>l. res = Inr l"
  proof (cases res)
    case (Inl e)
    then show ?thesis using wal_append_top(2) [OF _ w Inl] up fl seg by (simp add: pool_up_def)
  qed simp
  then obtain l where l: "res = Inr l" by blast
  have "latched i page (p\<lparr>bp_wal := w\<rparr>)"
    using h wal_append_segment [OF w] wal_append_top(1) [OF _ w]
    by (auto simp: latched_def pool_up_def pool_inv_def alloc_ok_def handle_def)
  from latched_upd [OF this, of "\<lambda>b. set_page_lsn b l" "guard_set_page_lsn i l (p\<lparr>bp_wal := w\<rparr>)" "\<lambda>x. max x l"]
  have "latched i page (guard_set_page_lsn i l (p\<lparr>bp_wal := w\<rparr>))"
      "pool_view (guard_set_page_lsn i l (p\<lparr>bp_wal := w\<rparr>)) = (pool_view p)(page \<mapsto> set_page_lsn (fr_content (bp_frames p ! i)) l)"
      "pins (guard_set_page_lsn i l (p\<lparr>bp_wal := w\<rparr>)) = pins p" "bp_disk (guard_set_page_lsn i l (p\<lparr>bp_wal := w\<rparr>)) = bp_disk p"
      "bp_wal (guard_set_page_lsn i l (p\<lparr>bp_wal := w\<rparr>)) = w"
    by (simp_all add: guard_set_page_lsn_def set_page_lsn_frame pins_def)
  then show ?thesis using w l wal_append_segment [OF w] by (auto simp: log_page_def)
qed

text \<open>Every page but those of \<open>S\<close> keeps its content.\<close>

definition touches :: "u64 set \<Rightarrow> BufferPool \<Rightarrow> BufferPool \<Rightarrow> bool" where
  "touches S p p' \<longleftrightarrow> (\<forall>q c. q \<notin> S \<and> unat q < page_count (bp_disk p) \<and> pool_view p q = Some c \<longrightarrow> pool_view p' q = Some c)"

lemma touches_trans:
  "touches S p p' \<Longrightarrow> touches T p' p'' \<Longrightarrow> page_count (bp_disk p) \<le> page_count (bp_disk p') \<Longrightarrow> touches (S \<union> T) p p''"
  by (fastforce simp: touches_def)

lemma touches_mono: "touches S p p' \<Longrightarrow> S \<subseteq> T \<Longrightarrow> touches T p p'"
  by (auto simp: touches_def)

lemma touches_view: "pool_view p' = pool_view p \<Longrightarrow> touches S p p'"
  by (simp add: touches_def)

lemma touches_at:
  "touches S p p' \<Longrightarrow> at_page p q n \<Longrightarrow> q \<notin> S \<Longrightarrow> page_count (bp_disk p) \<le> page_count (bp_disk p') \<Longrightarrow> at_page p' q n"
  by (auto simp: touches_def at_page_def nodes_def bind_eq_Some_conv)

lemma fill_node_spec:
  assumes h: "latched i page p" and seg: "20000 \<le> wal_segment_size (bp_wal p)"
  shows "node_size n \<le> 8160 \<Longrightarrow> node_ok n \<Longrightarrow>
      \<exists>b p'. fill_node crc32 now page n i p = Some (Inr (), p') \<and> pool_up p' \<and> pool_view p' = (pool_view p)(page \<mapsto> b) \<and>
        node_of b = Some n \<and> pins p' = (pins p)[i := pins p ! i - 1] \<and> bp_disk p' = bp_disk p \<and>
        wal_segment_size (bp_wal p') = wal_segment_size (bp_wal p)"
    and "8160 < node_size n \<Longrightarrow> fill_node crc32 now page n i p = Some (Inl EntryTooLarge, write_guard_drop i page p)"
proof -
  have "frame_ok (bp_disk p) (bp_dirty p) (bp_frames p ! i)" "fr_page (bp_frames p ! i) = Some page"
    using h pool_inv_frame [of p i] by (auto simp: latched_def pool_up_def handle_def)
  then have len: "length (fr_content (bp_frames p ! i)) = 8192" by (auto simp: frame_ok_def)
  show "\<exists>b p'. fill_node crc32 now page n i p = Some (Inr (), p') \<and> pool_up p' \<and> pool_view p' = (pool_view p)(page \<mapsto> b) \<and>
        node_of b = Some n \<and> pins p' = (pins p)[i := pins p ! i - 1] \<and> bp_disk p' = bp_disk p \<and>
        wal_segment_size (bp_wal p') = wal_segment_size (bp_wal p)" if n: "node_size n \<le> 8160" "node_ok n"
  proof -
    have len': "length (node_page crc32 n b) = 8192" if "length b = 8192" for b
      using node_page_fields(1) [OF that n(1)] by fastforce
    let ?p1 = "guard_modify i (node_page crc32 n) p" and ?b = "node_page crc32 n (fr_content (bp_frames p ! i))"
    note u = latched_upd [OF h, of "node_page crc32 n" ?p1 "\<lambda>x. x"]
    have u: "latched i page ?p1" "pool_view ?p1 = (pool_view p)(page \<mapsto> ?b)" "fr_content (bp_frames ?p1 ! i) = ?b"
        "pins ?p1 = pins p" "bp_disk ?p1 = bp_disk p" "bp_wal ?p1 = bp_wal p"
      using u len' by simp_all
    obtain l p2 where lg: "log_page crc32 now page i ?p1 = Some (Inr (), p2)" "latched i page p2"
        "pool_view p2 = (pool_view ?p1)(page \<mapsto> set_page_lsn ?b l)" "pins p2 = pins ?p1" "bp_disk p2 = bp_disk ?p1"
        "wal_segment_size (bp_wal p2) = wal_segment_size (bp_wal ?p1)"
      using log_page_runs [OF u(1)] u(3,6) len' [OF len] seg by metis
    have "fill_node crc32 now page n i p = Some (Inr (), write_guard_drop i page p2)"
      using n(1) lg(1) by (simp add: fill_node_def put_node_def length_encode_node)
    then show ?thesis using latched_drop [OF lg(2)] lg(3-6) u(2,4,5,6) node_of_page [OF len n, of crc32 l] by auto
  qed
  show "fill_node crc32 now page n i p = Some (Inl EntryTooLarge, write_guard_drop i page p)" if "8160 < node_size n"
    using that by (simp add: fill_node_def put_node_def length_encode_node)
qed

lemma write_node_spec:
  assumes fit: "pool_fit p" and at: "at_page p page m"
  shows "node_size n \<le> 8160 \<Longrightarrow> node_ok n \<Longrightarrow>
      \<exists>p'. write_node crc32 now page n p = Some (Inr (), p') \<and> pool_more 0 p p' \<and> at_page p' page n \<and> touches {page} p p'"
    and "8160 < node_size n \<Longrightarrow> \<exists>p'. write_node crc32 now page n p = Some (Inl EntryTooLarge, p') \<and> pool_more 0 p p' \<and> pool_view p' = pool_view p"
proof -
  have up: "pool_up p" and inv: "pool_inv p" and seg: "20000 \<le> wal_segment_size (bp_wal p)"
    using fit by (simp_all add: pool_fit_def pool_up_def starved_def)
  obtain b where b: "pool_view p page = Some b" and q: "unat page < page_count (bp_disk p)"
    using at by (auto simp: at_page_def nodes_def bind_eq_Some_conv)
  obtain p0 r0 where pin: "pin_for_access page p = (p0, r0)" by fastforce
  obtain p1 r where f: "fetch_write page p = (p1, r)" by fastforce
  obtain j where "j < length (bp_frames p)" "fr_pins (bp_frames p ! j) = 0"
    using fit by (auto simp: pool_fit_def starved_def pins_def in_set_conv_nth)
  then obtain i where r0: "r0 = Inr i" using pin_succeeds [OF inv b(1)] pin by fastforce
  note fs = fetch_write_spec [OF inv f] and pu = pin_up [OF up q pin] and pp = pin_pins [OF inv pin]
  have lw: "bp_wal p1 = bp_wal p0 \<and> bp_table p1 = bp_table p0 \<and> bp_disk p1 = bp_disk p0" "r = Inr i"
    using f pin r0 latch_wal [of p0 r0 p1 r] by (auto simp: fetch_write_def latch_def split: sum.splits)
  have lp: "pins p1 = pins p0" using f pin by (cases r0) (auto simp: fetch_write_def latch_def upd_frame_pins)
  have h: "latched i page p1" using fs(1) fs(3) [OF lw(2)] lw pu(1) by (simp add: latched_def pool_up_def alloc_ok_def)
  have pn: "(pins p1)[i := pins p1 ! i - 1] = pins p" using pp r0 lp by simp
  have seg1: "20000 \<le> wal_segment_size (bp_wal p1)" using seg pu(3) lw by simp
  have w: "write_node crc32 now page n p = fill_node crc32 now page n i p1" using f lw(2) by (simp add: write_node_def)
  show "\<exists>p'. write_node crc32 now page n p = Some (Inr (), p') \<and> pool_more 0 p p' \<and> at_page p' page n \<and> touches {page} p p'"
    if n: "node_size n \<le> 8160" "node_ok n"
  proof -
    obtain c p' where c: "fill_node crc32 now page n i p1 = Some (Inr (), p')" "pool_up p'" "pool_view p' = (pool_view p1)(page \<mapsto> c)"
        "node_of c = Some n" "pins p' = pins p" "bp_disk p' = bp_disk p1" "wal_segment_size (bp_wal p') = wal_segment_size (bp_wal p1)"
      using fill_node_spec(1) [OF h seg1 n, of crc32 now] pn by auto
    have "pool_more 0 p p'" using c(2,5-7) pu(2,3) lw fit by (simp add: pool_more_def pool_fit_def starved_def)
    moreover have "at_page p' page n" using c(3,4,6) pu(2) lw q by (simp add: at_page_def nodes_def)
    moreover have "touches {page} p p'" using c(3) fs(2) by (simp add: touches_def)
    ultimately show ?thesis using w c(1) by auto
  qed
  show "\<exists>p'. write_node crc32 now page n p = Some (Inl EntryTooLarge, p') \<and> pool_more 0 p p' \<and> pool_view p' = pool_view p" if "8160 < node_size n"
    using fill_node_spec(2) [OF h seg1 that, of crc32 now] w latched_drop [OF h] pn fs(2) pu(2,3) lw fit
    by (auto simp: pool_more_def pool_fit_def starved_def)
qed

lemma alloc_node_spec:
  assumes fit: "pool_fit p" and cnt: "page_count (bp_disk p) < 2 ^ 64"
  shows "node_size n \<le> 8160 \<Longrightarrow> node_ok n \<Longrightarrow>
      \<exists>page p'. alloc_node crc32 now n p = Some (Inr page, p') \<and> unat page = page_count (bp_disk p) \<and> pool_more 1 p p' \<and>
        at_page p' page n \<and> touches {} p p'"
    and "8160 < node_size n \<Longrightarrow>
      \<exists>p'. alloc_node crc32 now n p = Some (Inl EntryTooLarge, p') \<and> pool_more 1 p p' \<and> touches {} p p'"
proof -
  have up: "pool_up p" and inv: "pool_inv p" "alloc_ok p" and seg: "20000 \<le> wal_segment_size (bp_wal p)"
    using fit by (simp_all add: pool_fit_def pool_up_def starved_def)
  obtain p1 r where np: "new_page p = (p1, r)" by fastforce
  note ns = new_page_spec [OF inv cnt np] and nu = new_page_up [OF up cnt np] and pn = new_page_pins [OF inv(1) np]
  obtain page i where r: "r = Inr (page, i)" using pn fit by (cases r) (auto simp: pool_fit_def starved_def)
  then obtain m where m: "handle p1 i page" "fr_latched (bp_frames p1 ! i)" "pages_kept (pool_view p) m"
      "pool_view p1 = m(page \<mapsto> replicate 8192 0)"
    using ns by auto
  have h: "latched i page p1" using m(1,2) nu(1) by (simp add: latched_def)
  have pg: "unat page = page_count (bp_disk p)" using nu(2) nu(3) [OF r] by simp
  have pn': "(pins p1)[i := pins p1 ! i - 1] = pins p" using pn r by simp
  have seg1: "20000 \<le> wal_segment_size (bp_wal p1)" using seg nu(4) by simp
  have keep: "pool_view q = (pool_view p1)(page \<mapsto> c) \<Longrightarrow> touches {} p q" for q c
    using m(3,4) pg by (auto simp: touches_def pages_kept_def)
  have w: "alloc_node crc32 now n p = do { (r, p) \<leftarrow> fill_node crc32 now page n i p1; Some (case r of Inl e \<Rightarrow> Inl e | Inr _ \<Rightarrow> Inr page, p) }"
    using np r by (simp add: alloc_node_def)
  show "\<exists>page p'. alloc_node crc32 now n p = Some (Inr page, p') \<and> unat page = page_count (bp_disk p) \<and> pool_more 1 p p' \<and>
        at_page p' page n \<and> touches {} p p'" if n: "node_size n \<le> 8160" "node_ok n"
  proof -
    obtain c p' where c: "fill_node crc32 now page n i p1 = Some (Inr (), p')" "pool_up p'" "pool_view p' = (pool_view p1)(page \<mapsto> c)"
        "node_of c = Some n" "pins p' = pins p" "bp_disk p' = bp_disk p1" "wal_segment_size (bp_wal p') = wal_segment_size (bp_wal p1)"
      using fill_node_spec(1) [OF h seg1 n, of crc32 now] pn' by auto
    have "pool_more 1 p p'" using c(2,5-7) nu(2,4) fit by (simp add: pool_more_def pool_fit_def starved_def)
    moreover have "at_page p' page n" using c(3,4,6) nu(2) pg by (simp add: at_page_def nodes_def)
    ultimately show ?thesis using w c(1) pg keep [OF c(3)] by auto
  qed
  show "\<exists>p'. alloc_node crc32 now n p = Some (Inl EntryTooLarge, p') \<and> pool_more 1 p p' \<and> touches {} p p'" if "8160 < node_size n"
  proof -
    let ?p = "write_guard_drop i page p1"
    have "pool_view ?p = (pool_view p1)(page \<mapsto> replicate 8192 0)" using latched_drop(2) [OF h] m(4) by simp
    then show ?thesis using fill_node_spec(2) [OF h seg1 that, of crc32 now] w latched_drop [OF h] pn' nu(2,4) fit keep
      by (auto simp: pool_more_def pool_fit_def starved_def)
  qed
qed

end
