(* ===== verification/TreeShape.thy ===== *)
theory TreeShape
  imports BTree
begin

text \<open>
  The shape of a B+tree: the tree that the pages of the index spell out, with its keys in order.
  The predicate \<open>repr\<close> ties a shape to the pages of a pool (levels, child pointers, the sibling
  chain of the leaves), \<open>ordered\<close> bounds the keys of every subtree by its separators, \<open>sized\<close>
  says that every node fits its page. The list of all entries is the abstract content.
\<close>

section \<open>Sorted entry lists\<close>

type_synonym entry_list = "(bytes \<times> RecordId) list"

definition ge_lo :: "bytes option \<Rightarrow> bytes \<Rightarrow> bool" where
  "ge_lo lo k \<longleftrightarrow> (case lo of None \<Rightarrow> True | Some l \<Rightarrow> l \<le> k)"

definition gt_lo :: "bytes option \<Rightarrow> bytes \<Rightarrow> bool" where
  "gt_lo lo k \<longleftrightarrow> (case lo of None \<Rightarrow> True | Some l \<Rightarrow> l < k)"

definition lt_hi :: "bytes \<Rightarrow> bytes option \<Rightarrow> bool" where
  "lt_hi k hi \<longleftrightarrow> (case hi of None \<Rightarrow> True | Some h \<Rightarrow> k < h)"

named_theorems bound_simps \<open>bounds of keys\<close>

lemma bound_simps_all [bound_simps]:
  "ge_lo None k" "gt_lo None k" "lt_hi k None" "ge_lo (Some l) k \<longleftrightarrow> l \<le> k" "gt_lo (Some l) k \<longleftrightarrow> l < k" "lt_hi k (Some h) \<longleftrightarrow> k < h"
  by (simp_all add: ge_lo_def gt_lo_def lt_hi_def)

lemma ge_lo_trans: "gt_lo lo k \<Longrightarrow> k \<le> k' \<Longrightarrow> ge_lo lo k'" "ge_lo lo k \<Longrightarrow> k < k' \<Longrightarrow> gt_lo lo k'"
  "gt_lo lo k \<Longrightarrow> k < k' \<Longrightarrow> gt_lo lo k'" "ge_lo lo k \<Longrightarrow> k \<le> k' \<Longrightarrow> ge_lo lo k'"
  by (cases lo; auto simp: bound_simps)+

lemma lt_hi_trans: "lt_hi k hi \<Longrightarrow> k' \<le> k \<Longrightarrow> lt_hi k' hi" "lt_hi k hi \<Longrightarrow> k' < k \<Longrightarrow> lt_hi k' hi"
  by (cases hi; auto simp: bound_simps)+

definition within :: "bytes option \<Rightarrow> bytes option \<Rightarrow> bytes \<Rightarrow> bool" where
  "within lo hi k \<longleftrightarrow> ge_lo lo k \<and> lt_hi k hi"

definition keys_of :: "entry_list \<Rightarrow> bytes list" where
  "keys_of es = map fst es"

abbreviation increasing :: "bytes list \<Rightarrow> bool" where
  "increasing \<equiv> sorted_wrt (<)"

lemma keys_of_simps [simp]: "keys_of [] = []" "keys_of (e # es) = fst e # keys_of es" "keys_of (es @ fs) = keys_of es @ keys_of fs"
  by (simp_all add: keys_of_def)

lemma keys_of_drop: "keys_of (take n es) = take n (keys_of es)" "keys_of (drop n es) = drop n (keys_of es)"
  by (simp_all add: keys_of_def take_map drop_map)

lemma fst_in_keys: "e \<in> set es \<Longrightarrow> fst e \<in> set (keys_of es)"
  by (simp add: keys_of_def)

lemma partition_split:
  assumes "\<forall>x \<in> set xs. P x" and "ys = [] \<or> \<not> P (hd ys)"
  shows "partition_point P (xs @ ys) = length xs"
  using assms by (cases ys) (simp_all add: partition_point_def takeWhile_append takeWhile_eq_all_conv [THEN iffD2])

text \<open>The position of a key in an increasing list splits it in two or three.\<close>

lemma key_position:
  assumes "increasing (keys_of es)"
  obtains (found) a r b where "es = a @ (key, r) # b" and "\<forall>e \<in> set a. fst e < key" and "\<forall>e \<in> set b. key < fst e"
      and "partition_point (\<lambda>(k, _). k < key) es = length a"
  | (absent) a b where "es = a @ b" and "\<forall>e \<in> set a. fst e < key" and "\<forall>e \<in> set b. key < fst e"
      and "partition_point (\<lambda>(k, _). k < key) es = length a"
proof -
  define a b where "a = takeWhile (\<lambda>(k, _). k < key) es" and "b = dropWhile (\<lambda>(k, _). k < key) es"
  have ab: "es = a @ b" "\<forall>e \<in> set a. fst e < key" "partition_point (\<lambda>(k, _). k < key) es = length a"
    by (auto simp: a_def b_def partition_point_def dest: set_takeWhileD)
  have hd: "b \<noteq> [] \<Longrightarrow> key \<le> fst (List.hd b)" using hd_dropWhile [of "\<lambda>(k, _). k < key" es] by (force simp: b_def split_beta)
  have inc: "increasing (keys_of b)" using assms by (simp add: ab(1) sorted_wrt_append)
  show thesis
  proof (cases b)
    case Nil
    then show ?thesis using absent [of a "[]"] ab by simp
  next
    case (Cons e b')
    then have "key \<le> fst e" and less: "\<forall>x \<in> set b'. fst e < fst x" using hd inc by (auto simp: keys_of_def)
    then consider "fst e = key" | "key < fst e" by fastforce
    then show ?thesis
    proof cases
      case 1
      then have "es = a @ (key, snd e) # b'" using ab(1) Cons by auto
      then show ?thesis using found ab less 1 by blast
    next
      case 2
      then have "\<forall>x \<in> set b. key < fst x" using less Cons by auto
      then show ?thesis using absent ab by blast
    qed
  qed
qed

lemma map_of_sorted:
  fixes key :: bytes
  shows "\<forall>e \<in> set a. fst e < key \<Longrightarrow> map_of (a @ es) key = map_of es key"
  "\<forall>e \<in> set b. key < fst e \<Longrightarrow> map_of (es @ b) key = map_of es key"
proof -
  show "\<forall>e \<in> set a. fst e < key \<Longrightarrow> map_of (a @ es) key = map_of es key" by (induction a) auto
  show "\<forall>e \<in> set b. key < fst e \<Longrightarrow> map_of (es @ b) key = map_of es key" by (induction es) (auto simp: map_of_eq_None_iff)
qed

lemma entry_at_map_of:
  assumes "increasing (keys_of es)"
  shows "entry_at es key = map_of es key"
  using assms
proof (cases rule: key_position [where key = key])
  case (found a r b)
  then show ?thesis using map_of_sorted(1) [OF found(2), of "(key, r) # b"] by (simp add: Let_def entry_at_def nth_append)
next
  case (absent a b)
  then have "map_of es key = None" by (auto simp: map_of_eq_None_iff)
  moreover have "length a < length es \<Longrightarrow> fst (es ! length a) \<noteq> key" using absent(1,3) by (cases b) (auto simp: nth_append)
  ultimately show ?thesis using absent(4) by (simp add: Let_def entry_at_def)
qed

lemma upsert_split:
  assumes "increasing (keys_of es)"
  obtains a b where "upsert es key rid = a @ (key, rid) # b" and "\<forall>e \<in> set a. fst e < key" and "\<forall>e \<in> set b. key < fst e"
    and "es = a @ b \<or> (\<exists>r. es = a @ (key, r) # b)"
  using assms
proof (cases rule: key_position [where key = key])
  case (found a r b)
  then have "upsert es key rid = a @ (key, rid) # b" by (simp add: Let_def upsert_def nth_append)
  then show ?thesis using that found by blast
next
  case (absent a b)
  then have "length a < length es \<Longrightarrow> fst (es ! length a) \<noteq> key" by (cases b) (auto simp: nth_append)
  then have "upsert es key rid = a @ (key, rid) # b" using absent(1,4) by (auto simp: Let_def upsert_def)
  then show ?thesis using that absent by blast
qed

lemma upsert_unique:
  assumes "increasing (keys_of es)" and "\<forall>e \<in> set a. fst e < key" and "\<forall>e \<in> set b. key < fst e"
    and "es = a @ b \<or> (\<exists>r. es = a @ (key, r) # b)"
  shows "upsert es key rid = a @ (key, rid) # b"
proof -
  have hd: "b = [] \<or> \<not> (\<lambda>(k, _). k < key) (hd b)" using assms(3) by (cases b) (auto simp: split_beta)
  have pa: "\<forall>x \<in> set a. (\<lambda>(k, _). k < key) x" using assms(2) by auto
  from assms(4) show ?thesis
  proof
    assume es: "es = a @ b"
    then have pos: "partition_point (\<lambda>(k, _). k < key) es = length a" using partition_split [OF pa hd] by simp
    have "length a < length es \<Longrightarrow> fst (es ! length a) \<noteq> key" using es assms(3) by (cases b) (auto simp: nth_append)
    then show ?thesis using es pos by (auto simp: Let_def upsert_def)
  next
    assume "\<exists>r. es = a @ (key, r) # b"
    then obtain r where es: "es = a @ (key, r) # b" by blast
    then have pos: "partition_point (\<lambda>(k, _). k < key) es = length a" using partition_split [OF pa, of "(key, r) # b"] by simp
    then show ?thesis using es by (simp add: Let_def upsert_def nth_append)
  qed
qed

lemma upsert_inside:
  assumes "increasing (keys_of (xs @ es @ ys))" and "\<forall>e \<in> set xs. fst e < key" and "\<forall>e \<in> set ys. key < fst e"
  shows "upsert (xs @ es @ ys) key rid = xs @ upsert es key rid @ ys"
proof -
  have "increasing (keys_of es)" using assms(1) by (simp add: sorted_wrt_append)
  then obtain a b where ab: "upsert es key rid = a @ (key, rid) # b" "\<forall>e \<in> set a. fst e < key" "\<forall>e \<in> set b. key < fst e"
      "es = a @ b \<or> (\<exists>r. es = a @ (key, r) # b)" by (rule upsert_split)
  have "upsert (xs @ es @ ys) key rid = (xs @ a) @ (key, rid) # (b @ ys)"
    by (rule upsert_unique [OF assms(1)]) (use ab assms(2,3) in auto)
  then show ?thesis using ab(1) by simp
qed

lemma upsert_increasing:
  assumes "increasing (keys_of es)"
  shows "increasing (keys_of (upsert es key rid))" and "set (keys_of (upsert es key rid)) = insert key (set (keys_of es))"
    and "map_of (upsert es key rid) = (map_of es)(key \<mapsto> rid)"
proof -
  obtain a b where ab: "upsert es key rid = a @ (key, rid) # b" "\<forall>e \<in> set a. fst e < key" "\<forall>e \<in> set b. key < fst e"
      "es = a @ b \<or> (\<exists>r. es = a @ (key, r) # b)" using assms by (rule upsert_split)
  have "increasing (keys_of a)" "increasing (keys_of b)" using ab(4) assms by (auto simp: sorted_wrt_append)
  then show "increasing (keys_of (upsert es key rid))" using ab(1-3) by (fastforce simp: sorted_wrt_append keys_of_def)
  show "set (keys_of (upsert es key rid)) = insert key (set (keys_of es))" using ab(1,4) by auto
  have n: "map_of a key = None" using ab(2) by (auto simp: map_of_eq_None_iff)
  show "map_of (upsert es key rid) = (map_of es)(key \<mapsto> rid)"
    using ab(1,4) n by (fastforce simp: fun_eq_iff map_add_def split: option.splits)
qed

section \<open>Shapes\<close>

datatype shape = SLeaf u64 entry_list | SNode u64 "bytes list" "shape list"

fun root_of :: "shape \<Rightarrow> u64" where
  "root_of (SLeaf g es) = g"
| "root_of (SNode g ks cs) = g"

fun pages_of :: "shape \<Rightarrow> u64 list" where
  "pages_of (SLeaf g es) = [g]"
| "pages_of (SNode g ks cs) = g # concat (map pages_of cs)"

fun leaves_of :: "shape \<Rightarrow> (u64 \<times> entry_list) list" where
  "leaves_of (SLeaf g es) = [(g, es)]"
| "leaves_of (SNode g ks cs) = concat (map leaves_of cs)"

definition entries_of :: "shape \<Rightarrow> entry_list" where
  "entries_of t = concat (map snd (leaves_of t))"

fun first_leaf :: "shape \<Rightarrow> u64" where
  "first_leaf (SLeaf g es) = g"
| "first_leaf (SNode g ks cs) = (case cs of [] \<Rightarrow> g | c # _ \<Rightarrow> first_leaf c)"

definition link :: "u64 option \<Rightarrow> shape list \<Rightarrow> u64 option" where
  "link nxt cs = (case cs of [] \<Rightarrow> nxt | c # _ \<Rightarrow> Some (first_leaf c))"

text \<open>The pages below \<open>root_of t\<close> spell \<open>t\<close>, of height \<open>h\<close>, and its last leaf points to \<open>nxt\<close>.\<close>

fun repr :: "BufferPool \<Rightarrow> nat \<Rightarrow> u64 option \<Rightarrow> shape \<Rightarrow> bool"
  and reprs :: "BufferPool \<Rightarrow> nat \<Rightarrow> u64 option \<Rightarrow> shape list \<Rightarrow> bool" where
  "repr p h nxt (SLeaf g es) \<longleftrightarrow> h = 0 \<and> at_page p g (LeafNode \<lparr>lf_right_sibling = nxt, lf_entries = es\<rparr>)"
| "repr p h nxt (SNode g ks cs) \<longleftrightarrow> 0 < h \<and> ks \<noteq> [] \<and> length cs = length ks + 1 \<and>
     (\<exists>r. r \<noteq> Some 0 \<and> at_page p g (InternalNode \<lparr>in_level = word_of_nat h, in_right_sibling = r, in_keys = ks, in_children = map root_of cs\<rparr>)) \<and>
     reprs p (h - 1) nxt cs"
| "reprs p h nxt [] \<longleftrightarrow> True"
| "reprs p h nxt (c # cs) \<longleftrightarrow> repr p h (link nxt cs) c \<and> reprs p h nxt cs"

text \<open>Every key lies between the bounds of its subtree, and the separators are strictly between.\<close>

fun ordered :: "bytes option \<Rightarrow> bytes option \<Rightarrow> shape \<Rightarrow> bool"
  and ordereds :: "bytes option \<Rightarrow> bytes option \<Rightarrow> bytes list \<Rightarrow> shape list \<Rightarrow> bool" where
  "ordered lo hi (SLeaf g es) \<longleftrightarrow> increasing (keys_of es) \<and> (\<forall>k \<in> set (keys_of es). within lo hi k)"
| "ordered lo hi (SNode g ks cs) \<longleftrightarrow> ordereds lo hi ks cs"
| "ordereds lo hi ks [] \<longleftrightarrow> False"
| "ordereds lo hi ks (c # cs) \<longleftrightarrow> (case ks of
     [] \<Rightarrow> cs = [] \<and> ordered lo hi c
   | k # ks \<Rightarrow> gt_lo lo k \<and> lt_hi k hi \<and> ordered lo (Some k) c \<and> ordereds (Some k) hi ks cs)"

text \<open>Keys of at most 256 bytes, in nodes that fit a page.\<close>

definition short :: "bytes \<Rightarrow> bool" where
  "short k \<longleftrightarrow> length k \<le> 256"

definition leaf_weight :: "entry_list \<Rightarrow> nat" where
  "leaf_weight es = sum_list (map (\<lambda>(k, _). 4 + length k + 10) es)"

definition key_weight :: "bytes list \<Rightarrow> nat" where
  "key_weight ks = sum_list (map (\<lambda>k. 12 + length k) ks)"

fun sized :: "shape \<Rightarrow> bool" where
  "sized (SLeaf g es) \<longleftrightarrow> list_all short (keys_of es) \<and> leaf_weight es \<le> 8148"
| "sized (SNode g ks cs) \<longleftrightarrow> list_all short ks \<and> key_weight ks \<le> 8138 \<and> list_all sized cs"

lemma leaf_size_weight: "leaf_size leaf = 12 + leaf_weight (lf_entries leaf)"
  by (simp add: leaf_size_def leaf_weight_def)

lemma internal_size_weight:
  "length (in_children n) = length (in_keys n) + 1 \<Longrightarrow> internal_size n = 22 + key_weight (in_keys n)"
proof -
  have "sum_list (map (\<lambda>k. 12 + length k) ks) = 8 * length ks + sum_list (map (\<lambda>k. 4 + length k) ks)" for ks :: "bytes list"
    by (induction ks) auto
  then show "length (in_children n) = length (in_keys n) + 1 \<Longrightarrow> ?thesis" by (simp add: internal_size_def key_weight_def)
qed

lemma link_append [simp]: "link nxt (cs @ ds) = link (link nxt ds) cs"
  by (cases cs) (simp_all add: link_def)

lemma link_Nil [simp]: "link nxt [] = nxt"
  by (simp add: link_def)

lemma reprs_append: "reprs p h nxt (cs @ ds) \<longleftrightarrow> reprs p h (link nxt ds) cs \<and> reprs p h nxt ds"
  by (induction cs) auto

lemma root_in_pages [simp]: "root_of t \<in> set (pages_of t)"
  by (cases t) simp_all

lemma first_leaf_in_pages: "repr p h nxt t \<Longrightarrow> first_leaf t \<in> set (pages_of t)"
proof (induction t arbitrary: h nxt)
  case (SNode g ks cs)
  then obtain c cs' where cs: "cs = c # cs'" by (cases cs) auto
  then show ?case using SNode.IH [of c] SNode.prems by auto
qed simp

lemma repr_frame:
  "repr p h nxt t \<Longrightarrow> touches S p p' \<Longrightarrow> page_count (bp_disk p) \<le> page_count (bp_disk p') \<Longrightarrow> S \<inter> set (pages_of t) = {} \<Longrightarrow> repr p' h nxt t"
  "reprs p h nxt cs \<Longrightarrow> touches S p p' \<Longrightarrow> page_count (bp_disk p) \<le> page_count (bp_disk p') \<Longrightarrow>
     S \<inter> (\<Union>c \<in> set cs. set (pages_of c)) = {} \<Longrightarrow> reprs p' h nxt cs"
proof (induction p h nxt t and p h nxt cs rule: repr_reprs.induct)
  case (1 p h nxt g es)
  then show ?case using touches_at by auto
next
  case (2 p h nxt g ks cs)
  have "reprs p' (h - 1) nxt cs" using 2 by auto
  moreover have "\<exists>r. r \<noteq> Some 0 \<and> at_page p' g (InternalNode \<lparr>in_level = word_of_nat h, in_right_sibling = r, in_keys = ks, in_children = map root_of cs\<rparr>)"
    using 2(2-5) touches_at [of S p p' g] by auto
  ultimately show ?case using 2(2) by auto
next
  case (4 p h nxt c cs)
  then show ?case by auto
qed simp

text \<open>The pages of a tree are allocated pages.\<close>

lemma repr_allocated:
  "repr p h nxt t \<Longrightarrow> g \<in> set (pages_of t) \<Longrightarrow> unat g < page_count (bp_disk p)"
  "reprs p h nxt cs \<Longrightarrow> c \<in> set cs \<Longrightarrow> g \<in> set (pages_of c) \<Longrightarrow> unat g < page_count (bp_disk p)"
  by (induction p h nxt t and p h nxt cs arbitrary: g and g c rule: repr_reprs.induct) (auto simp: at_page_def)

text \<open>Every inner node has at least two children, so a tree of height 64 needs more pages than there are.\<close>

lemma repr_height:
  "repr p h nxt t \<Longrightarrow> 2 ^ h \<le> length (pages_of t)"
  "reprs p h nxt cs \<Longrightarrow> length cs * 2 ^ h \<le> length (concat (map pages_of cs))"
proof (induction p h nxt t and p h nxt cs rule: repr_reprs.induct)
  case (2 p h nxt g ks cs)
  then have "length cs * 2 ^ (h - 1) \<le> length (concat (map pages_of cs))" by auto
  moreover have "2 \<le> length cs" using 2(2) by (cases ks) auto
  then have "2 * 2 ^ (h - 1) \<le> length cs * 2 ^ (h - 1)" by (rule mult_le_mono1)
  moreover have "2 * 2 ^ (h - 1) = (2 :: nat) ^ h" using 2(2) by (cases h) auto
  ultimately have "2 ^ h \<le> length (concat (map pages_of cs))" by linarith
  then show ?case by simp
qed auto

lemma height_bound:
  assumes "repr p h nxt t" and "distinct (pages_of t)"
  shows "h \<le> 64"
proof -
  have "length (pages_of t) = card (set (pages_of t))" using assms(2) by (simp add: distinct_card)
  also have "\<dots> \<le> CARD(u64)" by (rule card_mono) simp_all
  finally have "(2 :: nat) ^ h \<le> 2 ^ 64" using repr_height(1) [OF assms(1)] by (simp add: card_word)
  then show ?thesis by (simp only: power_increasing_iff)
qed

section \<open>Order\<close>

definition entries_all :: "shape list \<Rightarrow> entry_list" where
  "entries_all cs = concat (map entries_of cs)"

lemma entries_simps [simp]:
  "entries_of (SLeaf g es) = es" "entries_of (SNode g ks cs) = entries_all cs"
  "entries_all [] = []" "entries_all (c # cs) = entries_of c @ entries_all cs" "entries_all (cs @ ds) = entries_all cs @ entries_all ds"
proof -
  show "entries_of (SNode g ks cs) = entries_all cs"
    by (induction cs) (simp_all add: entries_of_def entries_all_def)
qed (simp_all add: entries_of_def entries_all_def)

lemma ordereds_length: "ordereds lo hi ks cs \<Longrightarrow> length cs = length ks + 1"
proof (induction ks arbitrary: lo cs)
  case Nil
  then show ?case by (cases cs) auto
next
  case (Cons k ks)
  then show ?case by (cases cs) auto
qed

lemma within_mono:
  "within lo (Some k) j \<Longrightarrow> lt_hi k hi \<Longrightarrow> within lo hi j" "within (Some k) hi j \<Longrightarrow> gt_lo lo k \<Longrightarrow> within lo hi j"
  using lt_hi_trans(2) [of k hi j] ge_lo_trans(1) [of lo k j] by (simp_all add: within_def bound_simps)

lemma ordered_keys:
  "ordered lo hi t \<Longrightarrow> increasing (keys_of (entries_of t)) \<and> (\<forall>k \<in> set (keys_of (entries_of t)). within lo hi k)"
  "ordereds lo hi ks cs \<Longrightarrow> increasing (keys_of (entries_all cs)) \<and> (\<forall>k \<in> set (keys_of (entries_all cs)). within lo hi k)"
proof (induction lo hi t and lo hi ks cs rule: ordered_ordereds.induct)
  case (4 lo hi ks c cs)
  show ?case
  proof (cases ks)
    case Nil
    then show ?thesis using 4 by simp
  next
    case (Cons k ks')
    have a: "increasing (keys_of (entries_of c))" "\<forall>j \<in> set (keys_of (entries_of c)). within lo (Some k) j" "gt_lo lo k" "lt_hi k hi"
        "increasing (keys_of (entries_all cs))" "\<forall>j \<in> set (keys_of (entries_all cs)). within (Some k) hi j"
      using 4(2) [OF Cons] 4(3) [OF Cons] 4(4) Cons by simp_all
    then have "\<forall>x \<in> set (keys_of (entries_of c)). \<forall>y \<in> set (keys_of (entries_all cs)). x < y"
      by (fastforce simp: within_def bound_simps)
    then have "increasing (keys_of (entries_all (c # cs)))" using a(1,5) by (simp add: sorted_wrt_append)
    moreover have "within lo hi j" if "j \<in> set (keys_of (entries_all (c # cs)))" for j
      using that a(2-4,6) within_mono(1) [of lo k j hi] within_mono(2) [of k hi j lo] by auto
    ultimately show ?thesis by blast
  qed
qed simp_all

lemma ordered_join:
  "length ts = length ks + 1 \<Longrightarrow> ordereds lo hi (ks @ k # ks') (ts @ cs) \<longleftrightarrow>
     ordereds lo (Some k) ks ts \<and> ordereds (Some k) hi ks' cs \<and> gt_lo lo k \<and> lt_hi k hi"
proof (induction ks arbitrary: lo ts)
  case Nil
  then obtain t where "ts = [t]" by (auto simp: length_Suc_conv)
  then show ?case by auto
next
  case (Cons j ks)
  then obtain t ts' where ts: "ts = t # ts'" "length ts' = length ks + 1" by (cases ts) auto
  show ?case using Cons.IH [OF ts(2), of "Some j"] ts(1) by (auto simp: bound_simps dest: ge_lo_trans lt_hi_trans)
qed

text \<open>
  The child that a key routes to: its place, its bounds, and what replacing it by a sequence of
  subtrees with the same bounds gives.
\<close>

definition routed :: "bytes option \<Rightarrow> bytes option \<Rightarrow> bytes \<Rightarrow> bytes list \<Rightarrow> shape list \<Rightarrow> bytes list \<Rightarrow> bytes list \<Rightarrow>
    shape list \<Rightarrow> shape \<Rightarrow> shape list \<Rightarrow> bytes option \<Rightarrow> bytes option \<Rightarrow> bool" where
  "routed lo hi key ks cs k1 k2 c1 c c2 lo' hi' \<longleftrightarrow> ks = k1 @ k2 \<and> cs = c1 @ c # c2 \<and> length c1 = length k1 \<and>
     (\<forall>k \<in> set k1. k \<le> key) \<and> (k2 = [] \<or> key < hd k2) \<and> ordered lo' hi' c \<and> within lo' hi' key \<and>
     (\<forall>e \<in> set (entries_all c1). fst e < key) \<and> (\<forall>e \<in> set (entries_all c2). key < fst e) \<and>
     (\<forall>ks' ts. ordereds lo' hi' ks' ts \<longrightarrow> ordereds lo hi (k1 @ ks' @ k2) (c1 @ ts @ c2)) \<and>
     (\<forall>k. gt_lo lo' k \<and> lt_hi k hi' \<longrightarrow> (\<forall>j \<in> set k1. j < k) \<and> (k2 = [] \<or> k < hd k2))"

lemma ordered_route:
  assumes "ordereds lo hi ks cs" and "within lo hi key"
  shows "\<exists>k1 k2 c1 c c2 lo' hi'. routed lo hi key ks cs k1 k2 c1 c c2 lo' hi'"
  using assms
proof (induction ks arbitrary: lo cs)
  case Nil
  then obtain c where "cs = [c]" by (cases cs) auto
  then have "routed lo hi key [] cs [] [] [] c [] lo hi" using Nil by (simp add: routed_def)
  then show ?case by blast
next
  case (Cons k ks)
  then obtain c cs' where cs: "cs = c # cs'" "gt_lo lo k" "lt_hi k hi" "ordered lo (Some k) c" "ordereds (Some k) hi ks cs'"
    by (cases cs) auto
  show ?case
  proof (cases "k \<le> key")
    case True
    then have "within (Some k) hi key" using Cons.prems(2) by (simp add: within_def bound_simps)
    then obtain k1 k2 c1 d c2 lo' hi' where r: "routed (Some k) hi key ks cs' k1 k2 c1 d c2 lo' hi'" using Cons.IH [OF cs(5)] by blast
    have c: "\<forall>e \<in> set (entries_of c). fst e < key"
      using ordered_keys(1) [OF cs(4)] True by (fastforce simp: within_def bound_simps keys_of_def)
    have pv: "k < j" if "gt_lo lo' j" "lt_hi j hi'" for j
    proof -
      have "ordereds lo' hi' [j] [SLeaf 0 [], SLeaf 0 []]" using that by simp
      then have "ordereds (Some k) hi (k1 @ [j] @ k2) (c1 @ [SLeaf 0 [], SLeaf 0 []] @ c2)" using r by (simp only: routed_def)
      then show ?thesis
      proof (cases k1)
        case (Cons j' k1')
        then have "k < j'" "j' < j"
          using \<open>ordereds (Some k) hi (k1 @ [j] @ k2) _\<close> r that by (cases c1; auto simp: bound_simps routed_def)+
        then show ?thesis by simp
      qed (use r in \<open>auto simp: bound_simps routed_def\<close>)
    qed
    have "routed lo hi key (k # ks) cs (k # k1) k2 (c # c1) d c2 lo' hi'"
      using r cs(1-4) True c pv by (auto simp: routed_def)
    then show ?thesis by blast
  next
    case False
    then have w: "within lo (Some k) key" using Cons.prems(2) by (simp add: within_def bound_simps)
    have rep: "ordereds lo hi (ks' @ k # ks) (ts @ cs')" if "ordereds lo (Some k) ks' ts" for ks' ts
      using ordered_join [OF ordereds_length [OF that]] that cs by simp
    have "\<forall>e \<in> set (entries_all cs'). key < fst e"
      using ordered_keys(2) [OF cs(5)] False by (fastforce simp: within_def bound_simps keys_of_def)
    then have "routed lo hi key (k # ks) cs [] (k # ks) [] c cs' lo (Some k)"
      using w rep False cs(1,4) by (auto simp: routed_def bound_simps)
    then show ?thesis by blast
  qed
qed

lemma routed_route:
  assumes "routed lo hi key ks cs k1 k2 c1 c c2 lo' hi'"
  shows "partition_point (\<lambda>k. k \<le> key) ks = length c1"
    and "route \<lparr>in_level = l, in_right_sibling = r, in_keys = ks, in_children = map root_of cs\<rparr> key = Some (root_of c)"
proof -
  show pp: "partition_point (\<lambda>k. k \<le> key) ks = length c1"
    using assms partition_split [of k1 "\<lambda>k. k \<le> key" k2] by (simp add: routed_def not_le)
  show "route \<lparr>in_level = l, in_right_sibling = r, in_keys = ks, in_children = map root_of cs\<rparr> key = Some (root_of c)"
    using assms pp by (simp add: route_def nth_exec_def routed_def nth_append)
qed

lemma routed_insert_child:
  assumes "routed lo hi key ks cs k1 k2 c1 c c2 lo' hi'" and "gt_lo lo' pivot" and "lt_hi pivot hi'"
  shows "insert_child pivot g \<lparr>in_level = l, in_right_sibling = r, in_keys = ks, in_children = map root_of cs\<rparr> =
    Some \<lparr>in_level = l, in_right_sibling = r, in_keys = k1 @ pivot # k2, in_children = map root_of c1 @ root_of c # g # map root_of c2\<rparr>"
proof -
  have pp: "partition_point (\<lambda>k. k < pivot) ks = length k1"
    using assms partition_split [of k1 "\<lambda>k. k < pivot" k2] less_imp_le [of pivot "hd k2"] by (simp add: routed_def not_less) blast
  then show ?thesis using assms(1) by (simp add: insert_child_def vec_insert_def routed_def)
qed

lemma routed_entries:
  assumes "routed lo hi key ks cs k1 k2 c1 c c2 lo' hi'" and "ordereds lo hi ks cs"
  shows "upsert (entries_all cs) key rid = entries_all c1 @ upsert (entries_of c) key rid @ entries_all c2"
    and "map_of (entries_all cs) key = map_of (entries_of c) key"
proof -
  have cs: "entries_all cs = entries_all c1 @ entries_of c @ entries_all c2" using assms(1) by (simp add: routed_def)
  have b: "\<forall>e \<in> set (entries_all c1). fst e < key" "\<forall>e \<in> set (entries_all c2). key < fst e" using assms(1) by (simp_all add: routed_def)
  show "upsert (entries_all cs) key rid = entries_all c1 @ upsert (entries_of c) key rid @ entries_all c2"
    using upsert_inside [OF _ b] ordered_keys(2) [OF assms(2)] cs by simp
  show "map_of (entries_all cs) key = map_of (entries_of c) key"
    using map_of_sorted(1) [OF b(1)] map_of_sorted(2) [OF b(2)] by (simp only: cs)
qed

end
