(* ===== verification/TreeInsert.thy ===== *)
theory TreeInsert
  imports TreeShape
begin

text \<open>
  Insertion into a B+tree: the nodes that a split writes fit their pages whenever keys have at
  most 256 bytes, and the recursive insertion replaces a subtree by one or two subtrees of the
  same height that hold the entries with the new one.
\<close>

section \<open>Splits fit\<close>

lemma sum_bounds:
  fixes w :: "'a \<Rightarrow> nat"
  assumes "\<forall>x \<in> set xs. a \<le> w x \<and> w x \<le> b"
  shows "a * length xs \<le> sum_list (map w xs)" and "sum_list (map w xs) \<le> b * length xs"
  using assms by (induction xs) auto

lemma leaf_weight_bounds:
  assumes "list_all short (keys_of es)"
  shows "14 * length es \<le> leaf_weight es" and "leaf_weight es \<le> 270 * length es"
proof -
  have "\<forall>e \<in> set es. 14 \<le> (case e of (k, _) \<Rightarrow> 4 + length k + 10) \<and> (case e of (k, _) \<Rightarrow> 4 + length k + 10) \<le> 270"
    using assms by (auto simp: list_all_iff short_def keys_of_def)
  from sum_bounds [OF this] show "14 * length es \<le> leaf_weight es" "leaf_weight es \<le> 270 * length es"
    by (simp_all add: leaf_weight_def)
qed

lemma key_weight_bounds:
  assumes "list_all short ks"
  shows "12 * length ks \<le> key_weight ks" and "key_weight ks \<le> 268 * length ks"
proof -
  have "\<forall>k \<in> set ks. 12 \<le> 12 + length k \<and> 12 + length k \<le> 268" using assms by (auto simp: list_all_iff short_def)
  from sum_bounds [OF this] show "12 * length ks \<le> key_weight ks" "key_weight ks \<le> 268 * length ks"
    by (simp_all add: key_weight_def)
qed

lemma weight_append [simp]:
  "leaf_weight (a @ b) = leaf_weight a + leaf_weight b" "key_weight (c @ d) = key_weight c + key_weight d"
  "leaf_weight ((k, r) # a) = 14 + length k + leaf_weight a" "key_weight (k # c) = 12 + length k + key_weight c"
  by (simp_all add: leaf_weight_def key_weight_def)

lemma keys_short_part:
  "list_all short (keys_of es) \<Longrightarrow> list_all short (keys_of (take n es))" "list_all short (keys_of es) \<Longrightarrow> list_all short (keys_of (drop n es))"
  by (auto simp: keys_of_drop list_all_iff dest: in_set_takeD in_set_dropD)

lemma leaf_halves:
  assumes "list_all short (keys_of es)" and "leaf_weight es \<le> 8418"
  shows "leaf_weight (take (length es div 2) es) \<le> 8148" and "leaf_weight (drop (length es div 2) es) \<le> 8148"
proof -
  let ?a = "take (length es div 2) es" and ?b = "drop (length es div 2) es"
  have s: "leaf_weight ?a + leaf_weight ?b = leaf_weight es" by (metis append_take_drop_id weight_append(1))
  note a = leaf_weight_bounds [OF keys_short_part(1) [OF assms(1)], of "length es div 2"]
    and b = leaf_weight_bounds [OF keys_short_part(2) [OF assms(1)], of "length es div 2"]
  have n: "length ?a = length es div 2" "length ?b = length es - length es div 2" by simp_all
  show "leaf_weight ?a \<le> 8148"
  proof (rule ccontr)
    assume big: "\<not> leaf_weight ?a \<le> 8148"
    then have "31 \<le> length ?a" using a(2) by linarith
    then have "31 \<le> length ?b" using n by linarith
    then show False using b(1) s assms(2) big by linarith
  qed
  show "leaf_weight ?b \<le> 8148"
  proof (rule ccontr)
    assume big: "\<not> leaf_weight ?b \<le> 8148"
    then have "31 \<le> length ?b" using b(2) by linarith
    then have "30 \<le> length ?a" using n by linarith
    then show False using a(1) s assms(2) big by linarith
  qed
qed

lemma key_halves:
  assumes "list_all short ks" and "key_weight ks \<le> 8406" and "ks \<noteq> []"
  shows "key_weight (take (length ks div 2) ks) \<le> 8138" and "key_weight (drop (length ks div 2 + 1) ks) \<le> 8138"
proof -
  let ?m = "length ks div 2"
  let ?a = "take ?m ks" and ?b = "drop (?m + 1) ks"
  have m: "?m < length ks" using assms(3) by (cases ks) auto
  have "key_weight ks = key_weight (?a @ ks ! ?m # ?b)" using id_take_nth_drop [OF m] by simp
  then have s: "key_weight ?a + 12 + length (ks ! ?m) + key_weight ?b = key_weight ks" by simp
  have "list_all short ?a" "list_all short ?b" using assms(1) by (auto simp: list_all_iff dest: in_set_takeD in_set_dropD)
  note a = key_weight_bounds [OF this(1)] and b = key_weight_bounds [OF this(2)]
  have n: "length ?a = ?m" "length ?b = length ks - ?m - 1" using m by simp_all
  show "key_weight ?a \<le> 8138"
  proof (rule ccontr)
    assume big: "\<not> key_weight ?a \<le> 8138"
    then have "31 \<le> length ?a" using a(2) by linarith
    then have "30 \<le> length ?b" using n by linarith
    then show False using b(1) s assms(2) big by linarith
  qed
  show "key_weight ?b \<le> 8138"
  proof (rule ccontr)
    assume big: "\<not> key_weight ?b \<le> 8138"
    then have "31 \<le> length ?b" using b(2) by linarith
    then have "31 \<le> length ?a" using n by linarith
    then show False using a(1) s assms(2) big by linarith
  qed
qed

lemma upsert_weight:
  assumes "increasing (keys_of es)" and "list_all short (keys_of es)" and "short key" and "leaf_weight es \<le> 8148"
  shows "leaf_weight (upsert es key rid) \<le> 8418" and "list_all short (keys_of (upsert es key rid))"
proof -
  obtain a b where ab: "upsert es key rid = a @ (key, rid) # b" "es = a @ b \<or> (\<exists>r. es = a @ (key, r) # b)"
    using upsert_split [OF assms(1)] by metis
  show "leaf_weight (upsert es key rid) \<le> 8418" using ab assms(3,4) by (auto simp: short_def)
  show "list_all short (keys_of (upsert es key rid))" using assms(2,3) upsert_increasing(2) [OF assms(1)] by (simp add: list_all_iff)
qed

section \<open>Storing a grown node\<close>

text \<open>
  The subtree \<open>t\<close> has been replaced by the subtrees \<open>ts\<close>, separated by \<open>ks\<close>: same root page, same
  first leaf, same successor, pages of \<open>t\<close> or fresh ones, and the entries \<open>es\<close>.
\<close>

definition grafted :: "BufferPool \<Rightarrow> BufferPool \<Rightarrow> nat \<Rightarrow> u64 option \<Rightarrow> bytes option \<Rightarrow> bytes option \<Rightarrow> shape \<Rightarrow>
    entry_list \<Rightarrow> bytes list \<Rightarrow> shape list \<Rightarrow> bool" where
  "grafted p p' h nxt lo hi t es ks ts \<longleftrightarrow> reprs p' h nxt ts \<and> ordereds lo hi ks ts \<and> list_all sized ts \<and> list_all short ks \<and>
     root_of (hd ts) = root_of t \<and> first_leaf (hd ts) = first_leaf t \<and> entries_all ts = es \<and>
     distinct (concat (map pages_of ts)) \<and>
     set (concat (map pages_of ts)) \<subseteq> set (pages_of t) \<union> {q. page_count (bp_disk p) \<le> unat q}"

definition split_result :: "(bytes \<times> u64) option \<Rightarrow> bytes list \<Rightarrow> shape list \<Rightarrow> bool" where
  "split_result r ks ts \<longleftrightarrow> (case r of
     None \<Rightarrow> ks = [] \<and> length ts = 1
   | Some (k, g) \<Rightarrow> ks = [k] \<and> length ts = 2 \<and> root_of (ts ! 1) = g)"

definition stores :: "((IndexError + (bytes \<times> u64) option) \<times> BufferPool) exec \<Rightarrow> nat \<Rightarrow> u64 set \<Rightarrow> BufferPool \<Rightarrow> nat \<Rightarrow> u64 option \<Rightarrow>
    bytes option \<Rightarrow> bytes option \<Rightarrow> shape \<Rightarrow> entry_list \<Rightarrow> bool" where
  "stores x n S p h nxt lo hi t es \<longleftrightarrow> (\<exists>r p' j ks ts. x = Some (Inr r, p') \<and> pool_more j p p' \<and> j \<le> n \<and>
     touches S p p' \<and> split_result r ks ts \<and> grafted p p' h nxt lo hi t es ks ts)"

lemma storesI:
  "x = Some (Inr r, p') \<Longrightarrow> pool_more j p p' \<Longrightarrow> j \<le> n \<Longrightarrow> touches S p p' \<Longrightarrow> split_result r ks ts \<Longrightarrow>
   grafted p p' h nxt lo hi t es ks ts \<Longrightarrow> stores x n S p h nxt lo hi t es"
  unfolding stores_def by blast

lemma ix_bind_simps:
  "m p = Some (Inr x, p') \<Longrightarrow> ix_bind m f p = f x p'" "m p = Some (Inl e, p') \<Longrightarrow> ix_bind m f p = Some (Inl e, p')"
  by (simp_all add: ix_bind_def)

lemma fresh_page:
  assumes "unat (g :: u64) < page_count d" and "unat q = page_count d"
  shows "q \<noteq> 0" and "q \<noteq> g"
proof -
  show "q \<noteq> 0" using assms by (metis unsigned_0 not_less_zero)
  show "q \<noteq> g" using assms by auto
qed

lemma store_leaf_spec:
  assumes fit: "pool_fit p" and at: "at_page p g m" and cnt: "page_count (bp_disk p) < 2 ^ 64" and nxt: "nxt \<noteq> Some 0" and ord: "2 \<le> order"
    and es: "increasing (keys_of es)" "\<forall>k \<in> set (keys_of es). within lo hi k" "list_all short (keys_of es)" "leaf_weight es \<le> 8418"
  shows "stores (store_leaf crc32 now order g \<lparr>lf_right_sibling = nxt, lf_entries = es\<rparr> p) 1 {g} p 0 nxt lo hi (SLeaf g fs) es"
proof (cases "length es \<le> order \<and> leaf_weight es \<le> 8148")
  case True
  let ?n = "\<lparr>lf_right_sibling = nxt, lf_entries = es\<rparr>"
  have "node_size (LeafNode ?n) \<le> 8160" "node_ok (LeafNode ?n)" using True nxt by (simp_all add: leaf_size_weight)
  then obtain p' where w: "write_node crc32 now g (LeafNode ?n) p = Some (Inr (), p')" "pool_more 0 p p'" "at_page p' g (LeafNode ?n)" "touches {g} p p'"
    using write_node_spec(1) [OF fit at] by blast
  have run: "store_leaf crc32 now order g ?n p = Some (Inr None, p')"
    using True w(1) by (simp add: store_leaf_def leaf_size_weight ix_bind_simps ix_ret_def)
  have "grafted p p' 0 nxt lo hi (SLeaf g fs) es [] [SLeaf g es]"
    using w(3) es True by (simp add: grafted_def)
  then show ?thesis by (rule storesI [OF run w(2), rotated 3]) (use w(4) in \<open>simp_all add: split_result_def\<close>)
next
  case False
  define m where "m = length es div 2"
  have len: "2 \<le> length es" using False ord leaf_weight_bounds(2) [OF es(3)] by (auto simp: not_le)
  then have m: "0 < m" "m < length es" unfolding m_def by linarith+
  obtain k0 r0 rest where right: "drop m es = (k0, r0) # rest" using m(2) by (cases "drop m es") auto
  have big: "\<not> (length es \<le> order \<and> 12 + leaf_weight es \<le> 8160)" using False by auto
  note half = leaf_halves [OF es(3,4), folded m_def]
  let ?r = "LeafNode \<lparr>lf_right_sibling = nxt, lf_entries = drop m es\<rparr>"
  obtain q p1 where a: "alloc_node crc32 now ?r p = Some (Inr q, p1)" "unat q = page_count (bp_disk p)" "pool_more 1 p p1" "at_page p1 q ?r" "touches {} p p1"
    using alloc_node_spec(1) [OF fit cnt, of ?r crc32 now] half(2) nxt by (auto simp: leaf_size_weight)
  have q: "q \<noteq> 0" "q \<noteq> g" using fresh_page [of g _ q] at a(2) by (auto simp: at_page_def)
  let ?l = "LeafNode \<lparr>lf_right_sibling = Some q, lf_entries = take m es\<rparr>"
  have "at_page p1 g m" if "at_page p g m" for m using touches_at [OF a(5) that] a(3) by (simp add: pool_more_def)
  then obtain p2 where w: "write_node crc32 now g ?l p1 = Some (Inr (), p2)" "pool_more 0 p1 p2" "at_page p2 g ?l" "touches {g} p1 p2"
    using write_node_spec(1) [OF pool_more_fit [OF a(3)], of g _ ?l] at half(1) q(1) by (fastforce simp: leaf_size_weight)
  have cnt2: "page_count (bp_disk p) \<le> page_count (bp_disk p1)" "page_count (bp_disk p1) \<le> page_count (bp_disk p2)" using a(3) w(2) by (simp_all add: pool_more_def)
  have run: "store_leaf crc32 now order g \<lparr>lf_right_sibling = nxt, lf_entries = es\<rparr> p = Some (Inr (Some (k0, q)), p2)"
    using big a(1) w(1) right m
    by (auto simp: store_leaf_def leaf_size_weight split_off_def m_def nth_exec_def ix_bind_simps ix_ret_def)
  have parts: "es = take m es @ drop m es" by simp
  have inc: "increasing (keys_of (take m es))" "increasing (keys_of (drop m es))" "\<forall>x \<in> set (keys_of (take m es)). x < k0"
      "\<forall>x \<in> set (keys_of (drop m es)). k0 \<le> x" and wi: "\<forall>k \<in> set (keys_of (take m es)) \<union> set (keys_of (drop m es)). within lo hi k"
    using es(1,2) right by (subst (asm) (1 2) parts; auto simp: sorted_wrt_append)+
  have "k0 \<in> set (keys_of (drop m es))" using right by simp
  then have k0: "within lo hi k0" "short k0" using wi keys_short_part(2) [OF es(3), of m] by (auto simp: list_all_iff)
  obtain e where "e \<in> set (keys_of (take m es))" using m by (cases "take m es") auto
  then have gt: "gt_lo lo k0" using inc(3) wi by (auto simp: within_def intro: ge_lo_trans(2))
  have "ordereds lo hi [k0] [SLeaf g (take m es), SLeaf q (drop m es)]"
    using inc wi k0(1) gt by (auto simp: within_def bound_simps)
  moreover have "at_page p2 q ?r" using touches_at [OF w(4) a(4) _ cnt2(2)] q(2) by simp
  moreover have "pages_of (SLeaf g fs) = [g]" by simp
  ultimately have "grafted p p2 0 nxt lo hi (SLeaf g fs) es [k0] [SLeaf g (take m es), SLeaf q (drop m es)]"
    using w(3) half keys_short_part [OF es(3)] k0(2) q(2) a(2) by (simp add: grafted_def link_def)
  moreover have "touches {g} p p2" using touches_trans [OF a(5) w(4) cnt2(1)] by simp
  ultimately show ?thesis
    by (intro storesI [OF run pool_more_trans [OF a(3) w(2)], of _ _ "[k0]" "[SLeaf g (take m es), SLeaf q (drop m es)]"]) (simp_all add: split_result_def)
qed

lemma concat_pages_split: "concat (map pages_of (take n cs)) @ concat (map pages_of (drop n cs)) = concat (map pages_of cs)"
  by (metis append_take_drop_id concat_append map_append)

lemma store_internal_spec:
  assumes fit: "pool_fit p" and at: "at_page p g old" and cnt: "page_count (bp_disk p) < 2 ^ 64" and r: "r \<noteq> Some 0" and ord: "2 \<le> order"
    and cs: "reprs p k nxt cs" "ordereds lo hi ks cs" "list_all sized cs" "distinct (g # concat (map pages_of cs))"
    and ks: "list_all short ks" "key_weight ks \<le> 8406" "ks \<noteq> []"
  shows "stores (store_internal crc32 now order g \<lparr>in_level = word_of_nat (Suc k), in_right_sibling = r, in_keys = ks, in_children = map root_of cs\<rparr> p)
    1 {g} p (Suc k) nxt lo hi (SNode g ks cs) (entries_all cs)"
proof (cases "length ks \<le> order \<and> key_weight ks \<le> 8138")
  case True
  let ?n = "\<lparr>in_level = word_of_nat (Suc k), in_right_sibling = r, in_keys = ks, in_children = map root_of cs\<rparr>"
  have len: "length cs = length ks + 1" by (rule ordereds_length [OF cs(2)])
  have "node_size (InternalNode ?n) \<le> 8160" "node_ok (InternalNode ?n)" using True r len by (simp_all add: internal_size_weight)
  then obtain p' where w: "write_node crc32 now g (InternalNode ?n) p = Some (Inr (), p')" "pool_more 0 p p'" "at_page p' g (InternalNode ?n)" "touches {g} p p'"
    using write_node_spec(1) [OF fit at] by blast
  have run: "store_internal crc32 now order g ?n p = Some (Inr None, p')"
    using True w(1) len by (simp add: store_internal_def internal_size_weight ix_bind_simps ix_ret_def)
  have "reprs p' k nxt cs" using repr_frame(2) [OF cs(1) w(4)] w(2) cs(4) by (auto simp: pool_more_def)
  then have "grafted p p' (Suc k) nxt lo hi (SNode g ks cs) (entries_all cs) [] [SNode g ks cs]"
    using w(3) cs len True ks r by (auto simp: grafted_def)
  then show ?thesis by (rule storesI [OF run w(2), rotated 3]) (use w(4) in \<open>simp_all add: split_result_def\<close>)
next
  case False
  define m where "m = length ks div 2"
  have len: "length cs = length ks + 1" by (rule ordereds_length [OF cs(2)])
  have "3 \<le> length ks" using False ord key_weight_bounds(2) [OF ks(1)] by (auto simp: not_le)
  then have m: "0 < m" "m + 1 < length ks" unfolding m_def by linarith+
  have big: "\<not> (length ks \<le> order \<and> 22 + key_weight ks \<le> 8160)" using False by auto
  define k1 k2 c1 c2 where parts: "k1 = take m ks" "k2 = drop (m + 1) ks" "c1 = take (m + 1) cs" "c2 = drop (m + 1) cs"
  have kc: "ks = k1 @ ks ! m # k2" "cs = c1 @ c2" "length c1 = length k1 + 1" "length c2 = length k2 + 1" "k1 \<noteq> []" "k2 \<noteq> []"
    using id_take_nth_drop [of m ks] m len by (auto simp: parts)
  note half = key_halves [OF ks, folded m_def, folded parts]
  have "list_all short (k1 @ ks ! m # k2)" using ks(1) kc(1) by simp
  then have sh: "list_all short k1" "list_all short k2" "short (ks ! m)" by simp_all
  have o: "ordereds lo (Some (ks ! m)) k1 c1" "ordereds (Some (ks ! m)) hi k2 c2" "gt_lo lo (ks ! m)" "lt_hi (ks ! m) hi"
    using cs(2) ordered_join [OF kc(3), of lo hi "ks ! m" k2 c2] kc(1,2) by simp_all
  let ?r = "InternalNode \<lparr>in_level = word_of_nat (Suc k), in_right_sibling = r, in_keys = k2, in_children = map root_of c2\<rparr>"
  have "node_size ?r \<le> 8160" "node_ok ?r" using half(2) r kc(4) by (simp_all add: internal_size_weight)
  then obtain q p1 where a: "alloc_node crc32 now ?r p = Some (Inr q, p1)" "unat q = page_count (bp_disk p)" "pool_more 1 p p1" "at_page p1 q ?r" "touches {} p p1"
    using alloc_node_spec(1) [OF fit cnt, of ?r crc32 now] by blast
  have q: "q \<noteq> 0" "q \<noteq> g" using fresh_page [of g _ q] at a(2) by (auto simp: at_page_def)
  have qf: "q \<notin> set (concat (map pages_of cs))" using repr_allocated(2) [OF cs(1)] a(2) by fastforce
  let ?l = "InternalNode \<lparr>in_level = word_of_nat (Suc k), in_right_sibling = Some q, in_keys = k1, in_children = map root_of c1\<rparr>"
  have nl: "node_size ?l \<le> 8160" "node_ok ?l" using half(1) q(1) kc(3) by (simp_all add: internal_size_weight)
  have "at_page p1 g old" using touches_at [OF a(5) at] a(3) by (simp add: pool_more_def)
  then obtain p2 where w: "write_node crc32 now g ?l p1 = Some (Inr (), p2)" "pool_more 0 p1 p2" "at_page p2 g ?l" "touches {g} p1 p2"
    using write_node_spec(1) [OF pool_more_fit [OF a(3)] _ nl] by blast
  have cnt2: "page_count (bp_disk p) \<le> page_count (bp_disk p1)" "page_count (bp_disk p1) \<le> page_count (bp_disk p2)" using a(3) w(2) by (simp_all add: pool_more_def)
  have tk: "take (m + 1) ks = k1 @ [ks ! m]" using m(2) by (simp add: parts take_Suc_conv_app_nth)
  have run: "store_internal crc32 now order g \<lparr>in_level = word_of_nat (Suc k), in_right_sibling = r, in_keys = ks, in_children = map root_of cs\<rparr> p
      = Some (Inr (Some (ks ! m, q)), p2)"
    using big a(1) w(1) m(2) len tk
    by (auto simp: store_internal_def internal_size_weight split_off_def m_def [symmetric] Let_def ix_bind_simps ix_ret_def parts take_map drop_map)
  have t: "touches {g} p p2" using touches_trans [OF a(5) w(4) cnt2(1)] by simp
  have rp: "reprs p2 k nxt cs" using repr_frame(2) [OF cs(1) t] cnt2 cs(4) by auto
  have "at_page p2 q ?r" using touches_at [OF w(4) a(4) _ cnt2(2)] q(2) by simp
  then have "reprs p2 (Suc k) nxt [SNode g k1 c1, SNode q k2 c2]"
    using w(3) rp kc r q(1) by (cases c2) (auto simp: reprs_append link_def)
  moreover have "set (concat (map pages_of c1)) \<union> set (concat (map pages_of c2)) = set (concat (map pages_of cs))"
      "distinct (concat (map pages_of c1) @ concat (map pages_of c2))"
    using cs(4) by (simp_all add: kc(2))
  ultimately have "grafted p p2 (Suc k) nxt lo hi (SNode g ks cs) (entries_all cs) [ks ! m] [SNode g k1 c1, SNode q k2 c2]"
    using o half sh cs(3,4) qf q(2) a(2) kc(2,3) by (cases c1) (auto simp: grafted_def)
  then show ?thesis using t
    by (intro storesI [OF run pool_more_trans [OF a(3) w(2)], of _ _ "[ks ! m]" "[SNode g k1 c1, SNode q k2 c2]"]) (simp_all add: split_result_def)
qed

section \<open>The recursive insertion\<close>

lemma stores_read:
  assumes "pool_more 0 p p1" and "pool_view p1 = pool_view p" and "stores x n S p1 h nxt lo hi t es"
  shows "stores x n S p h nxt lo hi t es"
proof -
  obtain r p' j ks ts where s: "x = Some (Inr r, p')" "pool_more j p1 p'" "j \<le> n" "touches S p1 p'" "split_result r ks ts"
      "grafted p1 p' h nxt lo hi t es ks ts"
    using assms(3) unfolding stores_def by blast
  have c: "page_count (bp_disk p1) = page_count (bp_disk p)" using assms(1) by (simp add: pool_more_def)
  have "touches S p p'" using s(4) assms(2) c by (simp add: touches_def)
  moreover have "grafted p p' h nxt lo hi t es ks ts" using s(6) c by (simp add: grafted_def)
  ultimately show ?thesis using storesI [OF s(1) _ s(3) _ s(5)] pool_more_trans [OF assms(1) s(2)] by simp
qed

text \<open>Replacing the child a key routes to.\<close>

lemma graft_children:
  assumes r: "routed lo hi key ks cs k1 k2 c1 c c2 lo' hi'" and rp: "reprs p h nxt cs" and sz: "list_all sized cs"
    and d: "distinct (g # concat (map pages_of cs))" and g: "unat g < page_count (bp_disk p)"
    and gr: "grafted p p' h (link nxt c2) lo' hi' c es ks' ts" and t: "touches (set (pages_of c)) p p'"
    and le: "page_count (bp_disk p) \<le> page_count (bp_disk p')"
  shows "reprs p' h nxt (c1 @ ts @ c2)" and "ordereds lo hi (k1 @ ks' @ k2) (c1 @ ts @ c2)" and "list_all sized (c1 @ ts @ c2)"
    and "distinct (g # concat (map pages_of (c1 @ ts @ c2)))"
    and "set (concat (map pages_of (c1 @ ts @ c2))) \<subseteq> set (concat (map pages_of cs)) \<union> {q. page_count (bp_disk p) \<le> unat q}"
    and "first_leaf (hd (c1 @ ts @ c2)) = first_leaf (hd cs)"
proof -
  have cs: "cs = c1 @ c # c2" using r by (simp add: routed_def)
  have ts: "reprs p' h (link nxt c2) ts" "ordereds lo' hi' ks' ts" "list_all sized ts" "first_leaf (hd ts) = first_leaf c"
      "distinct (concat (map pages_of ts))" "set (concat (map pages_of ts)) \<subseteq> set (pages_of c) \<union> {q. page_count (bp_disk p) \<le> unat q}"
    using gr by (simp_all add: grafted_def)
  obtain t1 ts' where ts1: "ts = t1 # ts'" using ordereds_length [OF ts(2)] by (cases ts) auto
  have a: "reprs p h (Some (first_leaf c)) c1" "repr p h (link nxt c2) c" "reprs p h nxt c2" using rp by (simp_all add: cs reprs_append link_def)
  have dj: "set (pages_of c) \<inter> (\<Union>x \<in> set c1. set (pages_of x)) = {}" "set (pages_of c) \<inter> (\<Union>x \<in> set c2. set (pages_of x)) = {}"
    using d by (auto simp: cs)
  have b: "reprs p' h (Some (first_leaf c)) c1" "reprs p' h nxt c2"
    using repr_frame(2) [OF a(1) t le dj(1)] repr_frame(2) [OF a(3) t le dj(2)] .
  have "link (link nxt c2) ts = Some (first_leaf c)" using ts(4) by (simp add: ts1 link_def)
  then show "reprs p' h nxt (c1 @ ts @ c2)" using b ts(1) by (simp add: reprs_append)
  show "ordereds lo hi (k1 @ ks' @ k2) (c1 @ ts @ c2)" using r ts(2) by (simp only: routed_def)
  show "list_all sized (c1 @ ts @ c2)" using sz ts(3) by (simp add: cs)
  have al: "unat q < page_count (bp_disk p)" if "q \<in> set (concat (map pages_of cs))" for q
    using that repr_allocated(2) [OF rp] by auto
  have "set (concat (map pages_of ts)) \<inter> (set (concat (map pages_of c1)) \<union> set (concat (map pages_of c2))) = {}"
  proof -
    have "q \<notin> set (concat (map pages_of c1)) \<union> set (concat (map pages_of c2))" if "q \<in> set (concat (map pages_of ts))" for q
      using that ts(6) dj al [of q] by (force simp: cs)
    then show ?thesis by blast
  qed
  moreover have "g \<notin> set (concat (map pages_of ts))"
  proof
    assume "g \<in> set (concat (map pages_of ts))"
    then have "g \<in> set (pages_of c)" using ts(6) g by (auto simp: not_le [symmetric])
    then show False using d by (simp add: cs)
  qed
  ultimately show "distinct (g # concat (map pages_of (c1 @ ts @ c2)))" using d ts(5) by (auto simp: cs)
  show "set (concat (map pages_of (c1 @ ts @ c2))) \<subseteq> set (concat (map pages_of cs)) \<union> {q. page_count (bp_disk p) \<le> unat q}"
    using ts(6) by (auto simp: cs)
  show "first_leaf (hd (c1 @ ts @ c2)) = first_leaf (hd cs)" using ts(4) by (cases c1) (simp_all add: cs ts1)
qed

lemma insert_leaf_case:
  assumes fit: "pool_fit p" and rp: "repr p 0 nxt (SLeaf g es)" and o: "ordered lo hi (SLeaf g es)" and sz: "sized (SLeaf g es)"
    and z: "nxt \<noteq> Some 0" and key: "within lo hi key" "short key" and ord: "2 \<le> order" and cnt: "page_count (bp_disk p) < 2 ^ 64"
  shows "stores (insert_into crc32 now order key rid g p) 1 {g} p 0 nxt lo hi (SLeaf g es) (upsert es key rid)"
proof -
  let ?leaf = "\<lparr>lf_right_sibling = nxt, lf_entries = es\<rparr>"
  have at: "at_page p g (LeafNode ?leaf)" using rp by simp
  obtain p1 where r: "read_node g p = Some (Inr (LeafNode ?leaf), p1)" "pool_more 0 p p1" "pool_view p1 = pool_view p"
    using read_node_spec [OF fit at] by blast
  have at1: "at_page p1 g (LeafNode ?leaf)" using at r(2,3) by (simp add: at_page_def nodes_def pool_more_def)
  have es: "increasing (keys_of es)" "\<forall>k \<in> set (keys_of es). within lo hi k" "list_all short (keys_of es)" "leaf_weight es \<le> 8148"
    using o sz by simp_all
  have run: "insert_into crc32 now order key rid g p = store_leaf crc32 now order g (?leaf\<lparr>lf_entries := upsert es key rid\<rparr>) p1"
    by (subst insert_into.simps) (simp add: r(1))
  have "\<forall>k \<in> set (keys_of (upsert es key rid)). within lo hi k" using es(2) key(1) upsert_increasing(2) [OF es(1)] by auto
  then have "stores (store_leaf crc32 now order g \<lparr>lf_right_sibling = nxt, lf_entries = upsert es key rid\<rparr> p1) 1 {g} p1 0 nxt lo hi (SLeaf g es) (upsert es key rid)"
    using store_leaf_spec [OF pool_more_fit [OF r(2)] at1 _ z ord upsert_increasing(1) [OF es(1)] _ upsert_weight(2,1) [OF es(1,3) key(2) es(4)]]
      cnt r(2) by (simp add: pool_more_def)
  then show ?thesis using stores_read [OF r(2,3)] run by simp
qed

lemma stores_mono: "stores x n S p h nxt lo hi t es \<Longrightarrow> n \<le> m \<Longrightarrow> stores x m S p h nxt lo hi t es"
  unfolding stores_def by (elim exE conjE) (blast intro: le_trans)

text \<open>What a routed child inherits from its parent.\<close>

lemma routed_child:
  assumes rt: "routed lo hi key ks cs k1 k2 c1 c c2 lo' hi'" and rp: "reprs p h nxt cs" and sz: "list_all sized cs"
    and d: "distinct (g # concat (map pages_of cs))" and z: "nxt \<noteq> Some 0"
  shows "repr p h (link nxt c2) c" and "ordered lo' hi' c" and "sized c" and "distinct (pages_of c)" and "within lo' hi' key"
    and "0 \<notin> set (pages_of (SNode g ks cs)) \<Longrightarrow> link nxt c2 \<noteq> Some 0 \<and> 0 \<notin> set (pages_of c)"
proof -
  have cc: "cs = c1 @ c # c2" "ordered lo' hi' c" "within lo' hi' key" using rt by (simp_all add: routed_def)
  show "repr p h (link nxt c2) c" using rp by (simp add: cc reprs_append)
  show "ordered lo' hi' c" "within lo' hi' key" using cc by simp_all
  show "sized c" "distinct (pages_of c)" using sz d by (simp_all add: cc)
  assume nz: "0 \<notin> set (pages_of (SNode g ks cs))"
  have "link nxt c2 \<noteq> Some 0"
  proof (cases c2)
    case (Cons e es)
    then have "first_leaf e \<in> set (pages_of e)" using rp first_leaf_in_pages by (auto simp: cc reprs_append)
    then show ?thesis using nz by (auto simp: Cons link_def cc)
  qed (use z in simp)
  then show "link nxt c2 \<noteq> Some 0 \<and> 0 \<notin> set (pages_of c)" using nz by (simp add: cc)
qed

lemma first_leaf_SNode: "cs \<noteq> [] \<Longrightarrow> first_leaf (SNode g ks cs) = first_leaf (hd cs)"
  by (cases cs) simp_all

declare first_leaf.simps(2) [simp del]

text \<open>The child did not split: the node itself stays as it is.\<close>

lemma graft_kept:
  assumes rt: "routed lo hi key ks cs k1 k2 c1 c c2 lo' hi'" and c: "root_of c' = root_of c"
    and at: "at_page p' g (InternalNode \<lparr>in_level = word_of_nat (Suc h), in_right_sibling = r, in_keys = ks, in_children = map root_of cs\<rparr>)"
    and r: "r \<noteq> Some 0" "ks \<noteq> []" and sz: "list_all short ks" "key_weight ks \<le> 8138"
    and cs': "reprs p' h nxt (c1 @ [c'] @ c2)" "ordereds lo hi ks (c1 @ [c'] @ c2)" "list_all sized (c1 @ [c'] @ c2)"
      "distinct (g # concat (map pages_of (c1 @ [c'] @ c2)))"
      "set (concat (map pages_of (c1 @ [c'] @ c2))) \<subseteq> set (concat (map pages_of cs)) \<union> {q. page_count (bp_disk p) \<le> unat q}"
      "first_leaf (hd (c1 @ [c'] @ c2)) = first_leaf (hd cs)"
  shows "grafted p p' (Suc h) nxt lo hi (SNode g ks cs) (entries_all (c1 @ [c'] @ c2)) [] [SNode g ks (c1 @ [c'] @ c2)]"
proof -
  have cc: "cs = c1 @ c # c2" using rt by (simp add: routed_def)
  then have roots: "map root_of (c1 @ [c'] @ c2) = map root_of cs" using c by simp
  have "repr p' (Suc h) nxt (SNode g ks (c1 @ [c'] @ c2))"
    using cs'(1) at r ordereds_length [OF cs'(2)] unfolding repr.simps roots by auto
  moreover have "first_leaf (SNode g ks (c1 @ [c'] @ c2)) = first_leaf (SNode g ks cs)"
    using cs'(6) by (simp add: first_leaf_SNode cc)
  ultimately show ?thesis using cs' sz by (simp add: grafted_def subset_insertI2)
qed

text \<open>The child did split, and the node has been stored with one more child.\<close>

lemma stores_regraft:
  assumes "stores x n {g} p' (Suc h) nxt lo hi (SNode g ks' cs') es" and "pool_more j p p'" and "touches S p p'" and "insert g S \<subseteq> T"
    and "set (concat (map pages_of cs')) \<subseteq> set (concat (map pages_of cs)) \<union> {q. page_count (bp_disk p) \<le> unat q}"
    and "first_leaf (hd cs') = first_leaf (hd cs)" and "cs' \<noteq> []" and "cs \<noteq> []"
  shows "stores x (j + n) T p (Suc h) nxt lo hi (SNode g ks cs) es"
proof -
  obtain r p2 i kss ts where s: "x = Some (Inr r, p2)" "pool_more i p' p2" "i \<le> n" "touches {g} p' p2" "split_result r kss ts"
      "grafted p' p2 (Suc h) nxt lo hi (SNode g ks' cs') es kss ts"
    using assms(1) unfolding stores_def by blast
  have pc: "page_count (bp_disk p) \<le> page_count (bp_disk p')" using assms(2) by (simp add: pool_more_def)
  have t: "touches T p p2" by (rule touches_mono [OF touches_trans [OF assms(3) s(4) pc]]) (use assms(4) in auto)
  have f: "first_leaf (SNode g ks' cs') = first_leaf (SNode g ks cs)" using assms(6-8) by (simp add: first_leaf_SNode)
  have "set (concat (map pages_of ts)) \<subseteq> set (pages_of (SNode g ks' cs')) \<union> {q. page_count (bp_disk p') \<le> unat q}"
    using s(6) by (simp only: grafted_def)
  also have "\<dots> \<subseteq> set (pages_of (SNode g ks cs)) \<union> {q. page_count (bp_disk p) \<le> unat q}" using assms(5) pc by auto
  finally have "grafted p p2 (Suc h) nxt lo hi (SNode g ks cs) es kss ts" using s(6) f by (simp add: grafted_def)
  then show ?thesis using storesI [OF s(1) pool_more_trans [OF assms(2) s(2)] _ t s(5)] s(3) by simp
qed

lemma insert_into_spec:
  assumes "pool_fit p" and "repr p h nxt t" and "ordered lo hi t" and "sized t" and "distinct (pages_of t)" and "nxt \<noteq> Some 0" and "0 \<notin> set (pages_of t)"
    and "within lo hi key" and "short key" and "2 \<le> order" and "page_count (bp_disk p) + h < 2 ^ 64"
  shows "stores (insert_into crc32 now order key rid (root_of t) p) (h + 1) (set (pages_of t)) p h nxt lo hi t (upsert (entries_of t) key rid)"
  using assms
proof (induction h arbitrary: t p nxt lo hi)
  case 0
  then obtain g es where t: "t = SLeaf g es" by (cases t) auto
  then show ?case using insert_leaf_case [OF 0(1) 0(2) [unfolded t] 0(3) [unfolded t] 0(4) [unfolded t] 0(6,8,9,10), of crc32 now rid] 0(11) by simp
next
  case (Suc h)
  obtain g ks cs where t: "t = SNode g ks cs" using Suc.prems(2) by (cases t) auto
  obtain r where tr: "r \<noteq> Some 0" "at_page p g (InternalNode \<lparr>in_level = word_of_nat (Suc h), in_right_sibling = r, in_keys = ks, in_children = map root_of cs\<rparr>)"
      "reprs p h nxt cs" "ks \<noteq> []" "length cs = length ks + 1"
    using Suc.prems(2) by (auto simp: t)
  then have ne: "cs \<noteq> []" by auto
  let ?n = "\<lparr>in_level = word_of_nat (Suc h), in_right_sibling = r, in_keys = ks, in_children = map root_of cs\<rparr>"
  have o: "ordereds lo hi ks cs" "list_all sized cs" "list_all short ks" "key_weight ks \<le> 8138" "distinct (g # concat (map pages_of cs))"
    using Suc.prems(3-5) by (simp_all add: t)
  obtain p1 where rd: "read_node g p = Some (Inr (InternalNode ?n), p1)" "pool_more 0 p p1" "pool_view p1 = pool_view p"
    using read_node_spec [OF Suc.prems(1) tr(2)] by blast
  have pc: "page_count (bp_disk p1) = page_count (bp_disk p)" using rd(2) by (simp add: pool_more_def)
  have at1: "at_page p1 g (InternalNode ?n)" "reprs p1 h nxt cs"
    using tr(2) rd(3) pc repr_frame(2) [OF tr(3) touches_view [OF rd(3), of "{}"]] by (simp_all add: at_page_def nodes_def)
  obtain k1 k2 c1 c c2 lo' hi' where rt: "routed lo hi key ks cs k1 k2 c1 c c2 lo' hi'" using ordered_route [OF o(1) Suc.prems(8)] by blast
  note ch = routed_child [OF rt at1(2) o(2,5) Suc.prems(6)] Suc.prems(7)
  have cc: "ks = k1 @ k2" "cs = c1 @ c # c2" using rt by (simp_all add: routed_def)
  obtain v p2 j ks' ts where s: "insert_into crc32 now order key rid (root_of c) p1 = Some (Inr v, p2)" "pool_more j p1 p2" "j \<le> h + 1"
      "touches (set (pages_of c)) p1 p2" "split_result v ks' ts" "grafted p1 p2 h (link nxt c2) lo' hi' c (upsert (entries_of c) key rid) ks' ts"
    using Suc.IH [OF pool_more_fit [OF rd(2)] ch(1-4) _ _ ch(5) Suc.prems(9,10)] ch(6,7) Suc.prems(11) pc unfolding stores_def
    by (fastforce simp: t)
  have pc2: "page_count (bp_disk p1) \<le> page_count (bp_disk p2)" using s(2) by (simp add: pool_more_def)
  have g1: "unat g < page_count (bp_disk p1)" using at1(1) by (simp add: at_page_def)
  note gc = graft_children [OF rt at1(2) o(2,5) g1 s(6,4) pc2]
  have "g \<notin> set (pages_of c)" using o(5) by (simp add: cc)
  then have at2: "at_page p2 g (InternalNode ?n)" using touches_at [OF s(4) at1(1) _ pc2] by simp
  have en: "entries_all (c1 @ ts @ c2) = upsert (entries_of t) key rid"
    using routed_entries(1) [OF rt o(1)] s(6) by (simp add: t grafted_def)
  have run: "insert_into crc32 now order key rid g p = (case v of None \<Rightarrow> Some (Inr None, p2)
      | Some (pivot, q) \<Rightarrow> do { n \<leftarrow> insert_child pivot q ?n; store_internal crc32 now order g n p2 })"
    by (subst insert_into.simps) (simp add: rd(1) routed_route(2) [OF rt] s(1) split: option.splits)
  have sub: "insert g (set (pages_of c)) \<subseteq> set (pages_of t)" by (auto simp: t cc)
  have "stores (insert_into crc32 now order key rid g p) (Suc h + 1) (set (pages_of t)) p1 (Suc h) nxt lo hi t (upsert (entries_of t) key rid)"
  proof (cases v)
    case None
    then obtain c' where ts: "ks' = []" "ts = [c']" using s(5) by (auto simp: split_result_def length_Suc_conv)
    have c': "root_of c' = root_of c" using s(6) by (simp add: grafted_def ts)
    have gr: "grafted p1 p2 (Suc h) nxt lo hi t (upsert (entries_of t) key rid) [] [SNode g ks (c1 @ [c'] @ c2)]"
      using graft_kept [OF rt c' at2 tr(1,4) o(3,4)] gc en by (simp add: t ts cc(1))
    have "split_result None [] [SNode g ks (c1 @ [c'] @ c2)]" by (simp add: split_result_def)
    from storesI [OF _ s(2) _ touches_mono [OF s(4)] this gr] show ?thesis using run None s(3) sub by simp
  next
    case (Some kg)
    obtain pivot q where kg: "kg = (pivot, q)" by fastforce
    then obtain t1 t2 where ts: "ks' = [pivot]" "ts = [t1, t2]" "root_of t2 = q"
      using s(5) Some by (auto simp: split_result_def length_Suc_conv numeral_2_eq_2)
    have t1: "root_of t1 = root_of c" "ordereds lo' hi' [pivot] [t1, t2]" "short pivot" using s(6) by (simp_all add: grafted_def ts)
    have ic: "insert_child pivot q ?n = Some \<lparr>in_level = word_of_nat (Suc h), in_right_sibling = r, in_keys = k1 @ ks' @ k2,
        in_children = map root_of (c1 @ ts @ c2)\<rparr>"
      using routed_insert_child [OF rt] t1(1,2) by (simp add: ts)
    have "page_count (bp_disk p2) < 2 ^ 64" using s(2,3) pc Suc.prems(11) by (simp add: pool_more_def)
    moreover have "list_all short (k1 @ ks' @ k2)" "key_weight (k1 @ ks' @ k2) \<le> 8406" "k1 @ ks' @ k2 \<noteq> []"
      using o(3,4) t1(3) by (simp_all add: cc ts short_def)
    ultimately have "stores (insert_into crc32 now order key rid g p) 1 {g} p2 (Suc h) nxt lo hi (SNode g (k1 @ ks' @ k2) (c1 @ ts @ c2)) (upsert (entries_of t) key rid)"
      using store_internal_spec [OF pool_more_fit [OF s(2)] at2 _ tr(1) Suc.prems(10) gc(1-4), of crc32 now] run Some kg ic en by simp
    from stores_regraft [OF this s(2,4) sub gc(5,6) _ ne] show ?thesis using s(3) stores_mono by (fastforce simp: t ts)
  qed
  then show ?case using stores_read [OF rd(2,3)] by (simp add: t)
qed

end
