(* ===== verification/TreeMap.thy ===== *)
theory TreeMap
  imports TreeInsert
begin

text \<open>
  The B+tree as a sorted map: the descent finds the leaf of a key, the sibling chain lists the
  leaves in order, and each operation of the tree acts on the sorted list of its entries as the
  corresponding operation of a sorted association list. An insertion with split root keeps the
  root page.
\<close>

section \<open>Finding the leaf of a key\<close>

definition ents :: "(u64 \<times> entry_list) list \<Rightarrow> entry_list" where
  "ents ls = concat (map snd ls)"

lemma ents_simps [simp]: "ents [] = []" "ents ((g, es) # ls) = es @ ents ls" "ents (ls @ ms) = ents ls @ ents ms"
  by (simp_all add: ents_def)

lemma ents_leaves: "ents (leaves_of t) = entries_of t" "ents (concat (map leaves_of cs)) = entries_all cs"
proof -
  show "ents (leaves_of t) = entries_of t" by (simp add: ents_def entries_of_def)
  then show "ents (concat (map leaves_of cs)) = entries_all cs" by (induction cs) (simp_all add: ents_def entries_of_def)
qed

text \<open>
  The leaf \<open>g\<close> is the one \<open>key\<close> belongs to: the leaves before it hold smaller keys, those after it
  greater ones, and rewriting it with fewer of its entries rewrites the tree.
\<close>

definition found :: "BufferPool \<Rightarrow> nat \<Rightarrow> u64 option \<Rightarrow> bytes option \<Rightarrow> bytes option \<Rightarrow> bytes \<Rightarrow> shape \<Rightarrow>
    u64 \<Rightarrow> u64 option \<Rightarrow> entry_list \<Rightarrow> (u64 \<times> entry_list) list \<Rightarrow> (u64 \<times> entry_list) list \<Rightarrow> bool" where
  "found p h nxt lo hi key t g nx es l1 l2 \<longleftrightarrow> leaves_of t = l1 @ (g, es) # l2 \<and>
     at_page p g (LeafNode \<lparr>lf_right_sibling = nx, lf_entries = es\<rparr>) \<and> g \<in> set (pages_of t) \<and> nx \<noteq> Some 0 \<and>
     increasing (keys_of es) \<and> leaf_weight es \<le> 8148 \<and>
     (\<forall>e \<in> set (ents l1). fst e < key) \<and> (\<forall>e \<in> set (ents l2). key < fst e) \<and>
     (\<forall>q es'. touches {g} p q \<and> page_count (bp_disk p) \<le> page_count (bp_disk q) \<and>
        at_page q g (LeafNode \<lparr>lf_right_sibling = nx, lf_entries = es'\<rparr>) \<and> increasing (keys_of es') \<and>
        set (keys_of es') \<subseteq> set (keys_of es) \<and> leaf_weight es' \<le> leaf_weight es \<longrightarrow>
        (\<exists>t'. grafted p q h nxt lo hi t (ents l1 @ es' @ ents l2) [] [t']))"

lemma found_replace:
  assumes "found p h nxt lo hi key t g nx es l1 l2" and "touches {g} p q" and "page_count (bp_disk p) \<le> page_count (bp_disk q)"
    and "at_page q g (LeafNode \<lparr>lf_right_sibling = nx, lf_entries = es'\<rparr>)" and "increasing (keys_of es')"
    and "set (keys_of es') \<subseteq> set (keys_of es)" and "leaf_weight es' \<le> leaf_weight es"
  obtains t' where "grafted p q h nxt lo hi t (ents l1 @ es' @ ents l2) [] [t']"
  using assms unfolding found_def by blast

lemma found_leaf:
  assumes "repr p 0 nxt (SLeaf g es)" and "ordered lo hi (SLeaf g es)" and "sized (SLeaf g es)" and "nxt \<noteq> Some 0"
  shows "found p 0 nxt lo hi key (SLeaf g es) g nxt es [] []"
proof -
  have "grafted p q 0 nxt lo hi (SLeaf g es) es' [] [SLeaf g es']"
    if "at_page q g (LeafNode \<lparr>lf_right_sibling = nxt, lf_entries = es'\<rparr>)" "increasing (keys_of es')"
      "set (keys_of es') \<subseteq> set (keys_of es)" "leaf_weight es' \<le> leaf_weight es" for q es'
    using that assms by (auto simp: grafted_def list_all_iff)
  then show ?thesis using assms unfolding found_def by auto
qed

lemma found_child:
  assumes rt: "routed lo hi key ks cs k1 k2 c1 c c2 lo' hi'" and rp: "reprs p h nxt cs" and o: "list_all sized cs" "list_all short ks" "key_weight ks \<le> 8138"
    and d: "distinct (g0 # concat (map pages_of cs))" and r: "r \<noteq> Some 0" "ks \<noteq> []"
    and at: "at_page p g0 (InternalNode \<lparr>in_level = word_of_nat (Suc h), in_right_sibling = r, in_keys = ks, in_children = map root_of cs\<rparr>)"
    and f: "found p h (link nxt c2) lo' hi' key c g nx es l1 l2"
  shows "found p (Suc h) nxt lo hi key (SNode g0 ks cs) g nx es (concat (map leaves_of c1) @ l1) (l2 @ concat (map leaves_of c2))"
proof -
  have cc: "cs = c1 @ c # c2" "ks = k1 @ k2" and bf: "\<forall>e \<in> set (entries_all c1). fst e < key" "\<forall>e \<in> set (entries_all c2). key < fst e"
    using rt by (simp_all add: routed_def)
  have g: "g \<in> set (pages_of c)" "g0 \<noteq> g" using f d by (auto simp: found_def cc)
  have g0: "unat g0 < page_count (bp_disk p)" using at by (simp add: at_page_def)
  have "\<exists>t'. grafted p q (Suc h) nxt lo hi (SNode g0 ks cs) (ents (concat (map leaves_of c1) @ l1) @ es' @ ents (l2 @ concat (map leaves_of c2))) [] [t']"
    if q: "touches {g} p q" "page_count (bp_disk p) \<le> page_count (bp_disk q)" "at_page q g (LeafNode \<lparr>lf_right_sibling = nx, lf_entries = es'\<rparr>)"
      "increasing (keys_of es')" "set (keys_of es') \<subseteq> set (keys_of es)" "leaf_weight es' \<le> leaf_weight es" for q es'
  proof -
    obtain c' where c': "grafted p q h (link nxt c2) lo' hi' c (ents l1 @ es' @ ents l2) [] [c']"
      using f q unfolding found_def by blast
    have "touches (set (pages_of c)) p q" by (rule touches_mono [OF q(1)]) (use g in auto)
    note gc = graft_children [OF rt rp o(1) d g0 c' this q(2)]
    have root: "root_of c' = root_of c" and en: "entries_of c' = ents l1 @ es' @ ents l2" using c' by (simp_all add: grafted_def)
    have at': "at_page q g0 (InternalNode \<lparr>in_level = word_of_nat (Suc h), in_right_sibling = r, in_keys = ks, in_children = map root_of cs\<rparr>)"
      using touches_at [OF q(1) at _ q(2)] g(2) by simp
    have "grafted p q (Suc h) nxt lo hi (SNode g0 ks cs) (entries_all (c1 @ [c'] @ c2)) [] [SNode g0 ks (c1 @ [c'] @ c2)]"
      by (rule graft_kept [OF rt root at' r o(2,3) gc(1) _ gc(3-6)]) (use gc(2) in \<open>simp add: cc(2)\<close>)
    moreover have "entries_all (c1 @ [c'] @ c2) = ents (concat (map leaves_of c1) @ l1) @ es' @ ents (l2 @ concat (map leaves_of c2))"
      by (simp add: en ents_leaves)
    ultimately show ?thesis by (simp only:) blast
  qed
  moreover have "leaves_of (SNode g0 ks cs) = (concat (map leaves_of c1) @ l1) @ (g, es) # l2 @ concat (map leaves_of c2)"
    using f by (simp add: found_def cc(1))
  moreover have "\<forall>e \<in> set (ents (concat (map leaves_of c1) @ l1)). fst e < key" "\<forall>e \<in> set (ents (l2 @ concat (map leaves_of c2))). key < fst e"
    using f bf by (auto simp: found_def ents_leaves)
  moreover have "g \<in> set (pages_of (SNode g0 ks cs))" using g(1) by (simp add: cc(1))
  moreover have "at_page p g (LeafNode \<lparr>lf_right_sibling = nx, lf_entries = es\<rparr>)" "nx \<noteq> Some 0" "increasing (keys_of es)" "leaf_weight es \<le> 8148"
    using f by (simp_all add: found_def)
  ultimately show ?thesis unfolding found_def by blast
qed

lemma descend_spec:
  assumes "pool_fit p" and "repr p h nxt t" and "ordered lo hi t" and "sized t" and "distinct (pages_of t)" and "nxt \<noteq> Some 0" and "0 \<notin> set (pages_of t)"
    and "within lo hi key"
  shows "\<exists>g nx es l1 l2 p'. descend key (root_of t) p = Some (Inr (g, \<lparr>lf_right_sibling = nx, lf_entries = es\<rparr>), p') \<and>
    pool_more 0 p p' \<and> pool_view p' = pool_view p \<and> found p h nxt lo hi key t g nx es l1 l2"
  using assms
proof (induction h arbitrary: t p nxt lo hi)
  case 0
  then obtain g es where t: "t = SLeaf g es" by (cases t) auto
  let ?leaf = "\<lparr>lf_right_sibling = nxt, lf_entries = es\<rparr>"
  have "at_page p g (LeafNode ?leaf)" using 0(2) by (simp add: t)
  then obtain p1 where r: "read_node g p = Some (Inr (LeafNode ?leaf), p1)" "pool_more 0 p p1" "pool_view p1 = pool_view p"
    using read_node_spec [OF 0(1)] by blast
  have "descend key g p = Some (Inr (g, ?leaf), p1)" by (subst descend.simps) (simp add: r(1))
  then show ?case using r(2,3) found_leaf 0 unfolding t root_of.simps by blast
next
  case (Suc h)
  obtain g0 ks cs where t: "t = SNode g0 ks cs" using Suc.prems(2) by (cases t) auto
  obtain r where tr: "r \<noteq> Some 0" "at_page p g0 (InternalNode \<lparr>in_level = word_of_nat (Suc h), in_right_sibling = r, in_keys = ks, in_children = map root_of cs\<rparr>)"
      "reprs p h nxt cs" "ks \<noteq> []"
    using Suc.prems(2) by (auto simp: t)
  let ?n = "\<lparr>in_level = word_of_nat (Suc h), in_right_sibling = r, in_keys = ks, in_children = map root_of cs\<rparr>"
  have o: "ordereds lo hi ks cs" "list_all sized cs" "list_all short ks" "key_weight ks \<le> 8138" "distinct (g0 # concat (map pages_of cs))"
    using Suc.prems(3-5) by (simp_all add: t)
  obtain p1 where rd: "read_node g0 p = Some (Inr (InternalNode ?n), p1)" "pool_more 0 p p1" "pool_view p1 = pool_view p"
    using read_node_spec [OF Suc.prems(1) tr(2)] by blast
  have pc: "page_count (bp_disk p1) = page_count (bp_disk p)" using rd(2) by (simp add: pool_more_def)
  have at1: "at_page p1 g0 (InternalNode ?n)" "reprs p1 h nxt cs"
    using tr(2) rd(3) pc repr_frame(2) [OF tr(3) touches_view [OF rd(3), of "{}"]] by (simp_all add: at_page_def nodes_def)
  obtain k1 k2 c1 c c2 lo' hi' where rt: "routed lo hi key ks cs k1 k2 c1 c c2 lo' hi'" using ordered_route [OF o(1) Suc.prems(8)] by blast
  note ch = routed_child [OF rt at1(2) o(2,5) Suc.prems(6)]
  obtain g nx es l1 l2 p2 where i: "descend key (root_of c) p1 = Some (Inr (g, \<lparr>lf_right_sibling = nx, lf_entries = es\<rparr>), p2)"
      "pool_more 0 p1 p2" "pool_view p2 = pool_view p1" "found p1 h (link nxt c2) lo' hi' key c g nx es l1 l2"
    using Suc.IH [OF pool_more_fit [OF rd(2)] ch(1-4) _ _ ch(5)] ch(6) Suc.prems(7) by (auto simp: t)
  have "found p h (link nxt c2) lo' hi' key c g nx es l1 l2"
    using i(4) pc rd(3) by (simp add: found_def touches_def at_page_def nodes_def grafted_def)
  then have "found p (Suc h) nxt lo hi key t g nx es (concat (map leaves_of c1) @ l1) (l2 @ concat (map leaves_of c2))"
    unfolding t by (rule found_child [OF rt tr(3) o(2,3,4,5) tr(1,4,2)])
  moreover have "descend key g0 p = Some (Inr (g, \<lparr>lf_right_sibling = nx, lf_entries = es\<rparr>), p2)"
    by (subst descend.simps) (simp add: rd(1) routed_route(2) [OF rt] i(1))
  ultimately show ?case using pool_more_trans [OF rd(2) i(2)] i(3) rd(3) unfolding t root_of.simps by fastforce
qed

section \<open>The chain of the leaves\<close>

definition chain_head :: "u64 option \<Rightarrow> (u64 \<times> entry_list) list \<Rightarrow> u64 option" where
  "chain_head nxt ls = (case ls of [] \<Rightarrow> nxt | (g, _) # _ \<Rightarrow> Some g)"

lemma chain_head_Cons: "chain_head nxt ((g, es) # ls) = Some g"
  by (simp add: chain_head_def)

fun linked :: "BufferPool \<Rightarrow> u64 option \<Rightarrow> (u64 \<times> entry_list) list \<Rightarrow> bool" where
  "linked p nxt [] \<longleftrightarrow> True"
| "linked p nxt ((g, es) # ls) \<longleftrightarrow>
     at_page p g (LeafNode \<lparr>lf_right_sibling = chain_head nxt ls, lf_entries = es\<rparr>) \<and> linked p nxt ls"

lemma linked_append: "linked p nxt (ls @ ms) \<longleftrightarrow> linked p (chain_head nxt ms) ls \<and> linked p nxt ms"
proof (induction ls)
  case (Cons l ls)
  have "chain_head nxt (ls @ ms) = chain_head (chain_head nxt ms) ls" by (cases ls) (auto simp: chain_head_def)
  then show ?case using Cons by (cases l) auto
qed simp

lemma repr_linked:
  "repr p h nxt t \<Longrightarrow> linked p nxt (leaves_of t) \<and> chain_head None (leaves_of t) = Some (first_leaf t)"
  "reprs p h nxt cs \<Longrightarrow> linked p nxt (concat (map leaves_of cs)) \<and> chain_head nxt (concat (map leaves_of cs)) = link nxt cs"
proof (induction p h nxt t and p h nxt cs rule: repr_reprs.induct)
  case (2 p h nxt g ks cs)
  then obtain c cs' where cs: "cs = c # cs'" by (cases cs) auto
  have "chain_head None ls = Some a" if "chain_head nxt ls = Some a" "ls \<noteq> []" for ls a using that by (auto simp: chain_head_def split: list.splits)
  moreover have "concat (map leaves_of cs) \<noteq> []"
  proof -
    have "leaves_of c \<noteq> []" if "repr p k x c" for k x using that
    proof (induction c arbitrary: k x)
      case (SNode g ks ds)
      then obtain d ds' where "ds = d # ds'" by (cases ds) auto
      then show ?case using SNode.IH [of d] SNode.prems by auto
    qed simp
    then show ?thesis using 2(2) by (auto simp: cs)
  qed
  moreover have "link nxt cs = Some (first_leaf c)" by (simp add: cs link_def)
  ultimately show ?case using 2 by (auto simp: cs first_leaf_SNode)
next
  case (4 p h nxt c cs)
  have a: "linked p (link nxt cs) (leaves_of c)" "chain_head None (leaves_of c) = Some (first_leaf c)"
      "linked p nxt (concat (map leaves_of cs))" "chain_head nxt (concat (map leaves_of cs)) = link nxt cs"
    using 4 by auto
  have "chain_head nxt (leaves_of c @ ms) = Some (first_leaf c)" for ms using a(2) by (auto simp: chain_head_def split: list.splits)
  then show ?case using a by (simp add: linked_append link_def)
qed (simp_all add: chain_head_def link_def)

definition in_range :: "bytes \<Rightarrow> bytes \<Rightarrow> entry_list \<Rightarrow> entry_list" where
  "in_range start stop es = filter (\<lambda>e. start \<le> fst e \<and> fst e < stop) es"

lemma in_range_simps [simp]:
  "in_range start stop [] = []" "in_range start stop (es @ fs) = in_range start stop es @ in_range start stop fs"
  by (simp_all add: in_range_def)

lemma in_range_above: "\<forall>e \<in> set es. stop \<le> fst e \<Longrightarrow> in_range start stop es = []"
  by (auto simp: in_range_def filter_empty_conv)

lemma in_range_below: "\<forall>e \<in> set es. fst e < start \<Longrightarrow> in_range start stop es = []"
  by (auto simp: in_range_def filter_empty_conv)

lemma collect_spec:
  assumes "increasing (keys_of es)"
  shows "collect start stop es out = (out @ in_range start stop es, \<exists>e \<in> set es. stop \<le> fst e)"
  using assms
proof (induction es arbitrary: out)
  case (Cons e es)
  obtain k rid where e: "e = (k, rid)" by fastforce
  show ?case
  proof (cases "stop \<le> k")
    case True
    then have "\<forall>x \<in> set (e # es). stop \<le> fst x" using Cons.prems by (auto simp: e keys_of_def dest: less_imp_le order_trans)
    then show ?thesis using True in_range_above [of "e # es"] by (simp add: e)
  next
    case False
    then show ?thesis using Cons by (auto simp: e in_range_def)
  qed
qed simp

lemma walk_spec:
  assumes "pool_fit p" and "linked p None ls" and "increasing (keys_of (ents ls))"
  shows "\<exists>p'. walk start stop (chain_head None ls) out p = Some (Inr (out @ in_range start stop (ents ls)), p') \<and> pool_more 0 p p' \<and> pool_view p' = pool_view p"
  using assms
proof (induction ls arbitrary: p out)
  case Nil
  then show ?case by (subst walk.simps) (simp add: chain_head_def pool_more_refl)
next
  case (Cons l ls)
  obtain g es where l: "l = (g, es)" by fastforce
  let ?leaf = "\<lparr>lf_right_sibling = chain_head None ls, lf_entries = es\<rparr>"
  have at: "at_page p g (LeafNode ?leaf)" "linked p None ls" using Cons.prems(2) by (simp_all add: l)
  obtain p1 where rd: "read_node g p = Some (Inr (LeafNode ?leaf), p1)" "pool_more 0 p p1" "pool_view p1 = pool_view p"
    using read_node_spec [OF Cons.prems(1) at(1)] by blast
  have inc: "increasing (keys_of es)" "increasing (keys_of (ents ls))" "\<forall>x \<in> set es. \<forall>y \<in> set (ents ls). fst x < fst y"
    using Cons.prems(3) by (auto simp: l sorted_wrt_append keys_of_def)
  have step: "walk start stop (chain_head None (l # ls)) out p = (if \<exists>e \<in> set es. stop \<le> fst e then Some (Inr (out @ in_range start stop es), p1)
      else walk start stop (chain_head None ls) (out @ in_range start stop es) p1)"
    by (subst walk.simps) (simp add: l chain_head_Cons rd(1) collect_spec [OF inc(1)])
  show ?case
  proof (cases "\<exists>e \<in> set es. stop \<le> fst e")
    case True
    then have "\<forall>y \<in> set (ents ls). stop \<le> fst y" using inc(3) by (meson less_imp_le order_trans)
    then show ?thesis using True step rd(2,3) in_range_above [of "ents ls"] by (simp add: l)
  next
    case False
    have "linked p1 None ms" if "linked p None ms" for ms
      using that rd(2,3) by (induction ms) (auto simp: at_page_def nodes_def pool_more_def)
    then obtain p2 where "walk start stop (chain_head None ls) (out @ in_range start stop es) p1 = Some (Inr ((out @ in_range start stop es) @ in_range start stop (ents ls)), p2)"
        "pool_more 0 p1 p2" "pool_view p2 = pool_view p1"
      using Cons.IH [OF pool_more_fit [OF rd(2)] _ inc(2)] at(2) by blast
    then show ?thesis using False step rd(3) pool_more_trans [OF rd(2)] by (fastforce simp: l)
  qed
qed

section \<open>The operations on the sorted entries\<close>

text \<open>The tree \<open>bt\<close> occupies the pages \<open>S\<close> and holds the sorted entries \<open>es\<close>.\<close>

definition index_at :: "BufferPool \<Rightarrow> BTree \<Rightarrow> u64 set \<Rightarrow> entry_list \<Rightarrow> bool" where
  "index_at p bt S es \<longleftrightarrow> 2 \<le> bt_order bt \<and> (\<exists>h t. bt_root bt = root_of t \<and> repr p h None t \<and> ordered None None t \<and> sized t \<and>
     distinct (pages_of t) \<and> 0 \<notin> set (pages_of t) \<and> S = set (pages_of t) \<and> es = entries_of t)"

lemma index_at_increasing: "index_at p bt S es \<Longrightarrow> increasing (keys_of es)"
  using ordered_keys(1) by (auto simp: index_at_def)

lemma index_at_frame:
  assumes "index_at p bt S es" and "touches T p p'" and "page_count (bp_disk p) \<le> page_count (bp_disk p')" and "S \<inter> T = {}"
  shows "index_at p' bt S es"
  using assms repr_frame(1) unfolding index_at_def by (metis inf_commute)

lemma index_at_view:
  "index_at p bt S es \<Longrightarrow> pool_view p' = pool_view p \<Longrightarrow> page_count (bp_disk p) \<le> page_count (bp_disk p') \<Longrightarrow> index_at p' bt S es"
  using index_at_frame [of p bt S es "{}" p'] by (simp add: touches_view)

lemma index_at_allocated: "index_at p bt S es \<Longrightarrow> g \<in> S \<Longrightarrow> unat g < page_count (bp_disk p)"
  using repr_allocated(1) by (auto simp: index_at_def)

lemma within_None [simp]: "within None None k"
  by (simp add: within_def bound_simps)

lemma bt_create_spec:
  assumes "pool_fit p" and "page_count (bp_disk p) < 2 ^ 64" and "0 < page_count (bp_disk p)"
  shows "\<exists>bt p' g. bt_create crc32 now order p = Some (Inr bt, p') \<and> pool_more 1 p p' \<and> touches {} p p' \<and>
    unat g = page_count (bp_disk p) \<and> index_at p' bt {g} []"
proof -
  let ?n = "LeafNode \<lparr>lf_right_sibling = None, lf_entries = []\<rparr>"
  obtain g p' where a: "alloc_node crc32 now ?n p = Some (Inr g, p')" "unat g = page_count (bp_disk p)" "pool_more 1 p p'" "at_page p' g ?n" "touches {} p p'"
    using alloc_node_spec(1) [OF assms(1,2), of ?n crc32 now] by (auto simp: leaf_size_def)
  have "g \<noteq> 0" using a(2) assms(3) by (metis unsigned_0 less_irrefl)
  then have "index_at p' \<lparr>bt_root = g, bt_order = max order 2\<rparr> {g} []"
    unfolding index_at_def using a(4) by (auto intro!: exI [of _ "SLeaf g []"] exI [of _ 0] simp: leaf_weight_def)
  then show ?thesis using a by (auto simp: bt_create_def ix_bind_simps ix_ret_def)
qed

lemma index_descend:
  assumes "pool_fit p" and "index_at p bt S es"
  obtains h t g nx fs l1 l2 p' where "descend key (bt_root bt) p = Some (Inr (g, \<lparr>lf_right_sibling = nx, lf_entries = fs\<rparr>), p')"
    and "pool_more 0 p p'" and "pool_view p' = pool_view p" and "found p h None None None key t g nx fs l1 l2"
    and "repr p h None t" and "bt_root bt = root_of t" and "S = set (pages_of t)" and "es = ents l1 @ fs @ ents l2"
proof -
  obtain h t where t: "bt_root bt = root_of t" "repr p h None t" "ordered None None t" "sized t" "distinct (pages_of t)" "0 \<notin> set (pages_of t)"
      "S = set (pages_of t)" "es = entries_of t"
    using assms(2) by (auto simp: index_at_def)
  obtain g nx fs l1 l2 p' where d: "descend key (root_of t) p = Some (Inr (g, \<lparr>lf_right_sibling = nx, lf_entries = fs\<rparr>), p')"
      "pool_more 0 p p'" "pool_view p' = pool_view p" "found p h None None None key t g nx fs l1 l2"
    using descend_spec [OF assms(1) t(2-5) _ t(6), of key] by auto
  have "es = ents l1 @ fs @ ents l2" using d(4) t(8) ents_leaves(1) [of t] by (simp add: found_def)
  then show thesis using that d t by metis
qed

lemma found_map_of:
  assumes "found p h nxt lo hi key t g nx fs l1 l2"
  shows "map_of (ents l1 @ fs @ ents l2) key = map_of fs key"
proof -
  have "\<forall>e \<in> set (ents l1). fst e < key" "\<forall>e \<in> set (ents l2). key < fst e" using assms by (simp_all add: found_def)
  then show ?thesis by (simp only: map_of_sorted)
qed

lemma bt_search_spec:
  assumes "pool_fit p" and "index_at p bt S es"
  shows "\<exists>p'. bt_search bt key p = Some (Inr (map_of es key), p') \<and> pool_more 0 p p' \<and> pool_view p' = pool_view p"
proof -
  obtain h t g nx fs l1 l2 p' where d: "descend key (bt_root bt) p = Some (Inr (g, \<lparr>lf_right_sibling = nx, lf_entries = fs\<rparr>), p')"
      "pool_more 0 p p'" "pool_view p' = pool_view p" "found p h None None None key t g nx fs l1 l2" "es = ents l1 @ fs @ ents l2"
    by (rule index_descend [OF assms]) blast
  have "increasing (keys_of fs)" using d(4) by (simp add: found_def)
  then have "entry_at fs key = map_of es key" using found_map_of [OF d(4)] d(5) by (simp only: entry_at_map_of)
  then show ?thesis using d(1-3) by (simp add: bt_search_def ix_bind_simps ix_ret_def)
qed

lemma bt_range_spec:
  assumes "pool_fit p" and "index_at p bt S es"
  shows "\<exists>p'. bt_range bt start stop p = Some (Inr (in_range start stop es), p') \<and> pool_more 0 p p' \<and> pool_view p' = pool_view p"
proof -
  obtain h t g nx fs l1 l2 p1 where d: "descend start (bt_root bt) p = Some (Inr (g, \<lparr>lf_right_sibling = nx, lf_entries = fs\<rparr>), p1)"
      "pool_more 0 p p1" "pool_view p1 = pool_view p" "found p h None None None start t g nx fs l1 l2" "repr p h None t" "es = ents l1 @ fs @ ents l2"
    by (rule index_descend [OF assms]) blast
  have "repr p1 h None t" using repr_frame(1) [OF d(5) touches_view [OF d(3), of "{}"]] d(2) by (simp add: pool_more_def)
  then have "linked p1 None (leaves_of t)" using repr_linked(1) by blast
  moreover have "leaves_of t = l1 @ (g, fs) # l2" using d(4) by (simp add: found_def)
  ultimately have "linked p1 None ((g, fs) # l2)" by (simp only: linked_append)
  moreover have "increasing (keys_of (ents ((g, fs) # l2)))"
    using index_at_increasing [OF assms(2)] d(6) by (simp add: sorted_wrt_append)
  ultimately obtain p2 where w: "walk start stop (Some g) [] p1 = Some (Inr (in_range start stop (fs @ ents l2)), p2)" "pool_more 0 p1 p2" "pool_view p2 = pool_view p1"
    using walk_spec [OF pool_more_fit [OF d(2)], of "(g, fs) # l2" start stop "[]"] by (auto simp: chain_head_Cons)
  have "in_range start stop (ents l1) = []" using in_range_below d(4) by (simp add: found_def)
  then show ?thesis using d(1,3,6) w pool_more_trans [OF d(2) w(2)] by (simp add: bt_range_def ix_bind_simps)
qed

definition without :: "bytes \<Rightarrow> entry_list \<Rightarrow> entry_list" where
  "without key es = filter (\<lambda>e. fst e \<noteq> key) es"

lemma without_simps [simp]: "without key (es @ fs) = without key es @ without key fs" "without key [] = []"
  by (simp_all add: without_def)

lemma without_other: "\<forall>e \<in> set es. fst e < key \<Longrightarrow> without key es = es" "\<forall>e \<in> set es. key < fst e \<Longrightarrow> without key es = es"
  by (auto simp: without_def filter_id_conv)

lemma map_of_without: "map_of (without key es) = (map_of es)(key := None)"
  by (induction es) (auto simp: without_def fun_eq_iff)

lemma grafted_index:
  assumes "grafted p p' h None None None t es [] [t']" and "bt_root bt = root_of t" and "2 \<le> bt_order bt" and "0 \<notin> set (pages_of t)"
    and "0 < page_count (bp_disk p)"
  shows "index_at p' bt (set (pages_of t')) es" and "set (pages_of t') \<subseteq> set (pages_of t) \<union> {q. page_count (bp_disk p) \<le> unat q}"
proof -
  show sub: "set (pages_of t') \<subseteq> set (pages_of t) \<union> {q. page_count (bp_disk p) \<le> unat q}" using assms(1) by (simp add: grafted_def)
  have "0 \<notin> set (pages_of t')" using sub assms(4,5) by auto
  then show "index_at p' bt (set (pages_of t')) es"
    unfolding index_at_def using assms(1-3) by (auto intro!: exI [of _ h] exI [of _ t'] simp: grafted_def)
qed

text \<open>An operation that turns the entries \<open>es\<close> into \<open>es'\<close> and touches only the pages of the tree.\<close>

definition index_step :: "nat \<Rightarrow> BufferPool \<Rightarrow> BufferPool \<Rightarrow> BTree \<Rightarrow> u64 set \<Rightarrow> entry_list \<Rightarrow> bool" where
  "index_step n p p' bt S es' \<longleftrightarrow> (\<exists>j \<le> n. pool_more j p p') \<and> touches S p p' \<and>
     (\<exists>S'. index_at p' bt S' es' \<and> S' \<subseteq> S \<union> {q. page_count (bp_disk p) \<le> unat q})"

lemma bt_delete_spec:
  assumes fit: "pool_fit p" and ix: "index_at p bt S es"
  shows "\<exists>p'. bt_delete crc32 now bt key p = Some (Inr (map_of es key \<noteq> None), p') \<and> index_step 0 p p' bt S (without key es)"
proof -
  obtain h t g nx fs l1 l2 p1 where d: "descend key (bt_root bt) p = Some (Inr (g, \<lparr>lf_right_sibling = nx, lf_entries = fs\<rparr>), p1)"
      "pool_more 0 p p1" "pool_view p1 = pool_view p" "found p h None None None key t g nx fs l1 l2" "repr p h None t"
      "bt_root bt = root_of t" "S = set (pages_of t)" "es = ents l1 @ fs @ ents l2"
    by (rule index_descend [OF fit ix]) blast
  have f: "increasing (keys_of fs)" "\<forall>e \<in> set (ents l1). fst e < key" "\<forall>e \<in> set (ents l2). key < fst e" "leaf_weight fs \<le> 8148" "nx \<noteq> Some 0"
      "at_page p g (LeafNode \<lparr>lf_right_sibling = nx, lf_entries = fs\<rparr>)" "g \<in> set (pages_of t)"
    using d(4) by (simp_all add: found_def)
  have out: "without key es = ents l1 @ without key fs @ ents l2" using f(2,3) by (simp add: d(8) without_other)
  have pc: "page_count (bp_disk p1) = page_count (bp_disk p)" using d(2) by (simp add: pool_more_def)
  show ?thesis
    using f(1)
  proof (cases rule: key_position [where key = key])
    case (absent a b)
    have "without key fs = fs" using absent(1-3) by (simp add: without_other)
    moreover have "map_of fs key = None" using absent(1-3) by (auto simp: map_of_eq_None_iff)
    moreover have "\<not> (length a < length fs \<and> fst (fs ! length a) = key)" using absent(1,3) by (cases b) (auto simp: nth_append)
    ultimately have "bt_delete crc32 now bt key p = Some (Inr (map_of es key \<noteq> None), p1)" "without key es = es"
      using d(1) absent(4) found_map_of [OF d(4)] out by (auto simp: bt_delete_def ix_bind_simps ix_ret_def Let_def d(8))
    moreover have "index_step 0 p p1 bt S es"
      unfolding index_step_def using d(2) touches_view [OF d(3)] index_at_view [OF ix d(3)] pc by auto
    ultimately show ?thesis by simp
  next
    case (found a r b)
    let ?leaf = "LeafNode \<lparr>lf_right_sibling = nx, lf_entries = a @ b\<rparr>"
    have fs': "without key fs = a @ b" using found(1) without_other(1) [OF found(2)] without_other(2) [OF found(3)] by (simp add: without_def)
    have wt: "leaf_weight (a @ b) \<le> leaf_weight fs" using found(1) by simp
    have at1: "at_page p1 g (LeafNode \<lparr>lf_right_sibling = nx, lf_entries = fs\<rparr>)" using f(6) d(3) pc by (simp add: at_page_def nodes_def)
    have "node_size ?leaf \<le> 8160" "node_ok ?leaf" using wt f(4,5) by (simp_all add: leaf_size_weight)
    then obtain p2 where w: "write_node crc32 now g ?leaf p1 = Some (Inr (), p2)" "pool_more 0 p1 p2" "at_page p2 g ?leaf" "touches {g} p1 p2"
      using write_node_spec(1) [OF pool_more_fit [OF d(2)] at1] by blast
    have run: "bt_delete crc32 now bt key p = Some (Inr True, p2)"
      using d(1) w(1) found(1,4) by (simp add: bt_delete_def ix_bind_simps ix_ret_def Let_def nth_append)
    have "map_of fs key = Some r" using found(1) map_of_sorted(1) [OF found(2), of "(key, r) # b"] by simp
    then have "map_of es key \<noteq> None" using found_map_of [OF d(4)] d(8) by simp
    have t: "touches {g} p p2" using w(4) d(3) pc by (simp add: touches_def)
    have inc: "increasing (keys_of (a @ b))" using f(1) found(1) by (auto simp: sorted_wrt_append)
    have pc2: "page_count (bp_disk p) \<le> page_count (bp_disk p2)" using pc w(2) by (simp add: pool_more_def)
    have sub: "set (keys_of (a @ b)) \<subseteq> set (keys_of fs)" by (auto simp: found(1))
    obtain t' where "grafted p p2 h None None None t (ents l1 @ (a @ b) @ ents l2) [] [t']"
      by (rule found_replace [OF d(4) t pc2 w(3) inc sub wt])
    then have g: "grafted p p2 h None None None t (without key es) [] [t']" by (simp only: out fs')
    have pos: "0 < page_count (bp_disk p)" using f(6) by (auto simp: at_page_def)
    have "2 \<le> bt_order bt" "0 \<notin> set (pages_of t)" using ix d(7) by (auto simp: index_at_def)
    from grafted_index [OF g d(6) this pos] have "index_step 0 p p2 bt S (without key es)"
      unfolding index_step_def using pool_more_trans [OF d(2) w(2)] touches_mono [OF t, of S] f(7) d(7) by auto
    then show ?thesis using run \<open>map_of es key \<noteq> None\<close> by auto
  qed
qed

text \<open>The old root moves to a fresh page; its page becomes the parent of the two halves.\<close>

fun moved :: "u64 \<Rightarrow> shape \<Rightarrow> shape" where
  "moved l (SLeaf g es) = SLeaf l es"
| "moved l (SNode g ks cs) = SNode l ks cs"

lemma moved_simps [simp]: "root_of (moved l t) = l" "entries_of (moved l t) = entries_of t" "sized (moved l t) = sized t" "ordered lo hi (moved l t) = ordered lo hi t"
  by (cases t; simp)+

lemma moved_pages: "pages_of (moved l t) = l # tl (pages_of t)" "pages_of t = root_of t # tl (pages_of t)"
  by (cases t; simp)+

lemma root_node:
  assumes "repr p h nxt t" and "sized t" and "nxt \<noteq> Some 0"
  shows "\<exists>n. at_page p (root_of t) n \<and> node_size n \<le> 8160 \<and> node_ok n \<and> (h \<le> 64 \<longrightarrow> root_level n = Some (word_of_nat (Suc h))) \<and>
    (\<forall>q l S. at_page q l n \<and> touches S p q \<and> page_count (bp_disk p) \<le> page_count (bp_disk q) \<and> S \<inter> set (tl (pages_of t)) = {} \<longrightarrow>
       repr q h nxt (moved l t))"
proof (cases t)
  case (SLeaf g es)
  then show ?thesis using assms by (intro exI [of _ "LeafNode \<lparr>lf_right_sibling = nxt, lf_entries = es\<rparr>"]) (simp add: leaf_size_weight root_level_def)
next
  case (SNode g ks cs)
  then obtain r where r: "r \<noteq> Some 0" "at_page p g (InternalNode \<lparr>in_level = word_of_nat h, in_right_sibling = r, in_keys = ks, in_children = map root_of cs\<rparr>)"
      "0 < h" "ks \<noteq> []" "length cs = length ks + 1" "reprs p (h - 1) nxt cs"
    using assms(1) by auto
  have "(word_of_nat h :: u16) \<noteq> 0xFFFF" if "h \<le> 64"
  proof
    assume "(word_of_nat h :: u16) = 0xFFFF"
    then have "unat (word_of_nat h :: u16) = 65535" by simp
    then show False using that by (simp add: unat_small_u16)
  qed
  then show ?thesis using r assms(2) repr_frame(2) [OF r(6)] SNode
    by (intro exI [of _ "InternalNode \<lparr>in_level = word_of_nat h, in_right_sibling = r, in_keys = ks, in_children = map root_of cs\<rparr>"])
      (auto simp: internal_size_weight root_level_def add.commute)
qed

lemma split_root_spec:
  assumes fit: "pool_fit p" and cnt: "page_count (bp_disk p) < 2 ^ 64" and h: "h \<le> 64"
    and ts: "reprs p h None [t1, t2]" "ordereds None None [pivot] [t1, t2]" "list_all sized [t1, t2]" "short pivot"
      "distinct (concat (map pages_of [t1, t2]))" "0 \<notin> set (concat (map pages_of [t1, t2]))"
    and bt: "bt_root bt = root_of t1" "2 \<le> bt_order bt"
  shows "\<exists>p' l. split_root crc32 now (root_of t1) pivot (root_of t2) p = Some (Inr (), p') \<and> pool_more 1 p p' \<and> touches {root_of t1} p p' \<and>
    unat l = page_count (bp_disk p) \<and> index_at p' bt (insert l (set (concat (map pages_of [t1, t2])))) (entries_all [t1, t2])"
proof -
  let ?g = "root_of t1" and ?nx = "Some (first_leaf t2)"
  have r: "repr p h ?nx t1" "repr p h None t2" "sized t1" using ts(1,3) by (simp_all add: link_def)
  have "first_leaf t2 \<noteq> 0" using first_leaf_in_pages [OF r(2)] ts(6) by auto
  then obtain n where n: "at_page p ?g n" "node_size n \<le> 8160" "node_ok n" "root_level n = Some (word_of_nat (Suc h))"
      "\<And>q l S. at_page q l n \<Longrightarrow> touches S p q \<Longrightarrow> page_count (bp_disk p) \<le> page_count (bp_disk q) \<Longrightarrow> S \<inter> set (tl (pages_of t1)) = {} \<Longrightarrow> repr q h ?nx (moved l t1)"
    using root_node [OF r(1,3)] h by blast
  obtain p1 where rd: "read_node ?g p = Some (Inr n, p1)" "pool_more 0 p p1" "pool_view p1 = pool_view p" using read_node_spec [OF fit n(1)] by blast
  have pc: "page_count (bp_disk p1) = page_count (bp_disk p)" using rd(2) by (simp add: pool_more_def)
  obtain l p2 where a: "alloc_node crc32 now n p1 = Some (Inr l, p2)" "unat l = page_count (bp_disk p)" "pool_more 1 p1 p2" "at_page p2 l n" "touches {} p1 p2"
    using alloc_node_spec(1) [OF pool_more_fit [OF rd(2)] _ n(2,3), of crc32 now] cnt pc by auto
  have pc2: "page_count (bp_disk p1) \<le> page_count (bp_disk p2)" using a(3) by (simp add: pool_more_def)
  have "at_page p1 ?g n" using n(1) rd(3) pc by (simp add: at_page_def nodes_def)
  then have g2: "at_page p2 ?g n" using touches_at [OF a(5) _ _ pc2] by simp
  let ?r = "InternalNode \<lparr>in_level = word_of_nat (Suc h), in_right_sibling = None, in_keys = [pivot], in_children = [l, root_of t2]\<rparr>"
  have "node_size ?r \<le> 8160" "node_ok ?r" using ts(4) by (simp_all add: internal_size_def short_def)
  then obtain p3 where w: "write_node crc32 now ?g ?r p2 = Some (Inr (), p3)" "pool_more 0 p2 p3" "at_page p3 ?g ?r" "touches {?g} p2 p3"
    using write_node_spec(1) [OF pool_more_fit [OF a(3)] g2] by blast
  have pc3: "page_count (bp_disk p) \<le> page_count (bp_disk p3)" "page_count (bp_disk p2) \<le> page_count (bp_disk p3)"
    using w(2) pc pc2 by (simp_all add: pool_more_def)
  have run: "split_root crc32 now ?g pivot (root_of t2) p = Some (Inr (), p3)"
    using rd(1) n(4) a(1) w(1) by (simp add: split_root_def ix_bind_simps)
  have "touches {?g} p1 p3" using touches_trans [OF a(5) w(4) pc2] by simp
  then have t: "touches {?g} p p3" using rd(3) pc by (simp add: touches_def)
  have "unat ?g < page_count (bp_disk p)" using n(1) by (simp add: at_page_def)
  then have lg: "l \<noteq> ?g" "l \<noteq> 0" using fresh_page a(2) by blast+
  have l3: "at_page p3 l n" using touches_at [OF w(4) a(4) _ pc3(2)] lg by simp
  let ?t = "SNode ?g [pivot] [moved l t1, t2]"
  have tl: "pages_of t1 = ?g # tl (pages_of t1)" by (rule moved_pages(2))
  have pages: "pages_of ?t = ?g # l # tl (pages_of t1) @ pages_of t2" by (simp add: moved_pages(1))
  have "distinct (pages_of t1 @ pages_of t2)" using ts(5) by simp
  then have dt: "distinct (?g # tl (pages_of t1) @ pages_of t2)" by (metis append_Cons tl)
  have "repr p3 h ?nx (moved l t1)" "repr p3 h None t2" using n(5) [OF l3 t pc3(1)] repr_frame(1) [OF r(2) t pc3(1)] dt by simp_all
  then have rp: "repr p3 (Suc h) None ?t" using w(3) by (auto simp: link_def intro!: exI [of _ None])
  have al: "l \<notin> set (pages_of t1)" "l \<notin> set (pages_of t2)" using repr_allocated(1) [OF r(1)] repr_allocated(1) [OF r(2)] a(2) by force+
  then have "distinct (pages_of ?t)" using dt lg(1) tl unfolding pages by (metis (no_types, lifting) Un_iff distinct.simps(2) list.set_intros(2) set_ConsD set_append)
  moreover have "sized ?t" "ordered None None ?t" using ts(2-4) by (simp_all add: key_weight_def short_def)
  moreover have "set (pages_of t1) = insert ?g (set (tl (pages_of t1)))" by (metis list.simps(15) tl)
  then have "set (pages_of ?t) = insert l (set (concat (map pages_of [t1, t2])))" unfolding pages by auto
  ultimately have "index_at p3 bt (insert l (set (concat (map pages_of [t1, t2])))) (entries_all [t1, t2])"
    unfolding index_at_def using rp bt ts(6) lg(2) by (intro conjI exI [of _ "Suc h"] exI [of _ ?t]) simp_all
  then show ?thesis using run t a(2) pool_more_trans [OF rd(2) pool_more_trans [OF a(3) w(2)]] by auto
qed

lemma bt_insert_spec:
  assumes fit: "pool_fit p" and ix: "index_at p bt S es" and key: "short key" and cnt: "page_count (bp_disk p) + 66 < 2 ^ 64"
  shows "\<exists>p'. bt_insert crc32 now bt key rid p = Some (Inr (), p') \<and> index_step 66 p p' bt S (upsert es key rid)"
proof -
  obtain h t where t: "bt_root bt = root_of t" "repr p h None t" "ordered None None t" "sized t" "distinct (pages_of t)" "0 \<notin> set (pages_of t)"
      "S = set (pages_of t)" "es = entries_of t" and bt: "2 \<le> bt_order bt"
    using ix by (auto simp: index_at_def)
  have h: "h \<le> 64" by (rule height_bound [OF t(2,5)])
  have pos: "0 < page_count (bp_disk p)" using repr_allocated(1) [OF t(2) root_in_pages] by simp
  obtain v p1 j ks ts where s: "insert_into crc32 now (bt_order bt) key rid (bt_root bt) p = Some (Inr v, p1)" "pool_more j p p1" "j \<le> h + 1"
      "touches S p p1" "split_result v ks ts" "grafted p p1 h None None None t (upsert es key rid) ks ts"
    using insert_into_spec [OF fit t(2-5) _ t(6) within_None key bt, of crc32 now rid] h cnt unfolding stores_def t(1,7,8) by auto
  show ?thesis
  proof (cases v)
    case None
    then obtain t' where ts: "ks = []" "ts = [t']" using s(5) by (auto simp: split_result_def length_Suc_conv)
    have "index_step 66 p p1 bt S (upsert es key rid)"
      using grafted_index [OF s(6) [unfolded ts] t(1) bt t(6) pos] s(2-4) h unfolding index_step_def t(7)
      by (intro conjI exI [of _ j] exI [of _ "set (pages_of t')"]) auto
    then show ?thesis using s(1) None by (simp add: bt_insert_def ix_bind_simps ix_ret_def)
  next
    case (Some kg)
    then obtain pivot t1 t2 where ts: "ks = [pivot]" "ts = [t1, t2]" "kg = (pivot, root_of t2)"
      using s(5) by (cases kg) (auto simp: split_result_def length_Suc_conv numeral_2_eq_2)
    have g: "reprs p1 h None [t1, t2]" "ordereds None None [pivot] [t1, t2]" "list_all sized [t1, t2]" "short pivot" "root_of t1 = root_of t"
        "distinct (concat (map pages_of [t1, t2]))" "entries_all [t1, t2] = upsert es key rid"
        "set (concat (map pages_of [t1, t2])) \<subseteq> set (pages_of t) \<union> {q. page_count (bp_disk p) \<le> unat q}"
      using s(6) by (simp_all add: grafted_def ts)
    have nz: "0 \<notin> set (concat (map pages_of [t1, t2]))" using g(8) t(6) pos by auto
    have "page_count (bp_disk p1) < 2 ^ 64" using s(2,3) h cnt by (simp add: pool_more_def)
    then obtain p2 l where u: "split_root crc32 now (root_of t1) pivot (root_of t2) p1 = Some (Inr (), p2)" "pool_more 1 p1 p2" "touches {root_of t1} p1 p2"
        "unat l = page_count (bp_disk p1)" "index_at p2 bt (insert l (set (concat (map pages_of [t1, t2])))) (entries_all [t1, t2])"
      using split_root_spec [OF pool_more_fit [OF s(2)] _ h g(1-4,6) nz _ bt, of crc32 now] g(5) t(1) by auto
    have pc: "page_count (bp_disk p) \<le> page_count (bp_disk p1)" using s(2) by (simp add: pool_more_def)
    have "touches S p p2" by (rule touches_mono [OF touches_trans [OF s(4) u(3) pc]]) (simp add: t(7) g(5))
    moreover have "insert l (set (concat (map pages_of [t1, t2]))) \<subseteq> S \<union> {q. page_count (bp_disk p) \<le> unat q}" using g(8) u(4) pc t(7) by auto
    ultimately have "index_step 66 p p2 bt S (upsert es key rid)"
      using pool_more_trans [OF s(2) u(2)] s(3) h u(5) unfolding index_step_def g(7) by (intro conjI exI [of _ "j + 1"]) auto
    then show ?thesis using s(1) Some ts(3) u(1) g(5) t(1) by (simp add: bt_insert_def ix_bind_simps)
  qed
qed

end
