(* ===== verification/TreeProps.thy ===== *)
theory TreeProps
  imports TreeMap
begin

text \<open>
  The properties of the B+tree: it implements a sorted map, its nodes survive encoding, and the
  two ways in which an insertion goes wrong (a split that stops half way, a key that fits but is
  refused).
\<close>

section \<open>Machines that follow a specification\<close>

fun run_ops :: "('op \<Rightarrow> 's \<Rightarrow> ('r \<times> 's) option) \<Rightarrow> 'op list \<Rightarrow> 's \<Rightarrow> ('r list \<times> 's) option" where
  "run_ops step [] s = Some ([], s)"
| "run_ops step (op # ops) s = do {
     (r, s) \<leftarrow> step op s;
     (rs, s) \<leftarrow> run_ops step ops s;
     Some (r # rs, s)
   }"

fun spec_ops :: "('op \<Rightarrow> 'a \<Rightarrow> 'r \<times> 'a) \<Rightarrow> 'op list \<Rightarrow> 'a \<Rightarrow> 'r list \<times> 'a" where
  "spec_ops spec [] a = ([], a)"
| "spec_ops spec (op # ops) a = (let (r, a) = spec op a; (rs, a) = spec_ops spec ops a in (r # rs, a))"

text \<open>
  A machine whose steps return what the specification says, as long as a budget lasts: \<open>rel n s a\<close>
  says that \<open>s\<close> implements \<open>a\<close> and that \<open>n\<close> more operations are in the budget.
\<close>

locale follows =
  fixes step :: "'op \<Rightarrow> 's \<Rightarrow> ('r \<times> 's) option"
    and spec :: "'op \<Rightarrow> 'a \<Rightarrow> 'r \<times> 'a"
    and rel :: "nat \<Rightarrow> 's \<Rightarrow> 'a \<Rightarrow> bool"
    and legal :: "'op \<Rightarrow> bool"
  assumes simulates: "legal op \<Longrightarrow> rel (Suc n) s a \<Longrightarrow> \<exists>s'. step op s = Some (fst (spec op a), s') \<and> rel n s' (snd (spec op a))"
begin

lemma runs:
  "list_all legal ops \<Longrightarrow> rel (length ops) s a \<Longrightarrow>
   \<exists>s'. run_ops step ops s = Some (fst (spec_ops spec ops a), s') \<and> rel 0 s' (snd (spec_ops spec ops a))"
proof (induction ops arbitrary: s a)
  case (Cons op ops)
  obtain s1 where s1: "step op s = Some (fst (spec op a), s1)" "rel (length ops) s1 (snd (spec op a))"
    using simulates Cons.prems by fastforce
  then obtain s2 where "run_ops step ops s1 = Some (fst (spec_ops spec ops (snd (spec op a))), s2)" "rel 0 s2 (snd (spec_ops spec ops (snd (spec op a))))"
    using Cons.IH Cons.prems(1) by fastforce
  then show ?case using s1 by (simp add: split_beta Let_def)
qed simp

end


section \<open>The tree as a machine\<close>

datatype tree_op = TInsert bytes RecordId | TDelete bytes | TSearch bytes | TRange bytes bytes

datatype tree_res = TError IndexError | TDone | TRemoved bool | TFound "RecordId option" | TRows "(bytes \<times> RecordId) list"

definition tree_out :: "('a \<Rightarrow> tree_res) \<Rightarrow> ((IndexError + 'a) \<times> BufferPool) exec \<Rightarrow> (tree_res \<times> BufferPool) option" where
  "tree_out f x = map_option (\<lambda>(r, p). (case r of Inl e \<Rightarrow> TError e | Inr v \<Rightarrow> f v, p)) x"

fun tree_exec :: "(bytes \<Rightarrow> u32) \<Rightarrow> u64 \<Rightarrow> BTree \<Rightarrow> tree_op \<Rightarrow> BufferPool \<Rightarrow> (tree_res \<times> BufferPool) option" where
  "tree_exec crc32 now bt (TInsert key rid) p = tree_out (\<lambda>_. TDone) (bt_insert crc32 now bt key rid p)"
| "tree_exec crc32 now bt (TDelete key) p = tree_out TRemoved (bt_delete crc32 now bt key p)"
| "tree_exec crc32 now bt (TSearch key) p = tree_out TFound (bt_search bt key p)"
| "tree_exec crc32 now bt (TRange start stop) p = tree_out TRows (bt_range bt start stop p)"

fun map_exec :: "tree_op \<Rightarrow> (bytes \<rightharpoonup> RecordId) \<Rightarrow> tree_res \<times> (bytes \<rightharpoonup> RecordId)" where
  "map_exec (TInsert key rid) m = (TDone, m(key \<mapsto> rid))"
| "map_exec (TDelete key) m = (TRemoved (m key \<noteq> None), m(key := None))"
| "map_exec (TSearch key) m = (TFound (m key), m)"
| "map_exec (TRange start stop) m =
     (TRows (map (\<lambda>k. (k, the (m k))) (sorted_list_of_set {k \<in> dom m. start \<le> k \<and> k < stop})), m)"

fun short_op :: "tree_op \<Rightarrow> bool" where
  "short_op (TInsert key rid) \<longleftrightarrow> short key"
| "short_op _ \<longleftrightarrow> True"

lemma range_of_map:
  assumes "increasing (keys_of es)"
  shows "in_range start stop es = map (\<lambda>k. (k, the (map_of es k))) (sorted_list_of_set {k \<in> dom (map_of es). start \<le> k \<and> k < stop})"
proof -
  let ?xs = "in_range start stop es"
  have d: "distinct (map fst es)" using assms by (simp add: keys_of_def strict_sorted_iff)
  have inc: "increasing (map fst ?xs)" using assms by (simp add: keys_of_def in_range_def sorted_wrt_map sorted_wrt_filter)
  then have "sorted_list_of_set (set (map fst ?xs)) = map fst ?xs" using sorted_list_of_set.idem_if_sorted_distinct [of "map fst ?xs"] by (simp add: strict_sorted_iff del: set_map)
  moreover have "set (map fst ?xs) = {k \<in> dom (map_of es). start \<le> k \<and> k < stop}" by (auto simp: in_range_def dom_map_of_conv_image_fst)
  moreover have "map (\<lambda>k. (k, the (map_of es k))) (map fst ?xs) = ?xs"
    using d by (auto simp: in_range_def intro!: map_idI)
  ultimately show ?thesis by simp
qed

text \<open>The tree \<open>bt\<close> implements \<open>m\<close> on pages above \<open>c\<close>, and leaves the pages that \<open>p0\<close> shows below \<open>c\<close> alone.\<close>

definition tree_rel :: "BufferPool \<Rightarrow> BTree \<Rightarrow> nat \<Rightarrow> BufferPool \<Rightarrow> (bytes \<rightharpoonup> RecordId) \<Rightarrow> bool" where
  "tree_rel p0 bt n p m \<longleftrightarrow> pool_fit p \<and> page_count (bp_disk p) + 66 * n < 2 ^ 64 \<and> page_count (bp_disk p0) \<le> page_count (bp_disk p) \<and>
     touches {} p0 p \<and> (\<exists>S es. index_at p bt S es \<and> m = map_of es \<and> (\<forall>g \<in> S. page_count (bp_disk p0) \<le> unat g))"

lemma tree_rel_step:
  assumes "tree_rel p0 bt (Suc n) p m" and "index_at p bt S es" and "m = map_of es" and "\<forall>g \<in> S. page_count (bp_disk p0) \<le> unat g"
    and "index_step 66 p p' bt S es'" and "m' = map_of es'"
  shows "tree_rel p0 bt n p' m'"
proof -
  obtain j S' where j: "j \<le> 66" "pool_more j p p'" "touches S p p'" "index_at p' bt S' es'" "S' \<subseteq> S \<union> {q. page_count (bp_disk p) \<le> unat q}"
    using assms(5) by (auto simp: index_step_def)
  have r: "page_count (bp_disk p) + 66 * Suc n < 2 ^ 64" "page_count (bp_disk p0) \<le> page_count (bp_disk p)" "touches {} p0 p"
    using assms(1) by (simp_all add: tree_rel_def)
  have "touches {} p0 p'" using r(2,3) j(3) assms(4) by (force simp: touches_def)
  moreover have "\<forall>g \<in> S'. page_count (bp_disk p0) \<le> unat g" using j(5) assms(4) r(2) by force
  ultimately show ?thesis unfolding tree_rel_def using j r(1,2) assms(6) by (auto simp: pool_more_def)
qed

interpretation tree_follows: follows "tree_exec crc32 now bt" map_exec "tree_rel p0 bt" short_op
  for crc32 now bt p0
proof
  fix op n p m assume legal: "short_op op" and rel: "tree_rel p0 bt (Suc n) p m"
  obtain S es where ix: "index_at p bt S es" "m = map_of es" "\<forall>g \<in> S. page_count (bp_disk p0) \<le> unat g" and fit: "pool_fit p"
      and cnt: "page_count (bp_disk p) + 66 < 2 ^ 64"
    using rel by (auto simp: tree_rel_def)
  have inc: "increasing (keys_of es)" by (rule index_at_increasing [OF ix(1)])
  have step0: "index_step 66 p p' bt S es" if "pool_more 0 p p'" "pool_view p' = pool_view p" for p'
    using that index_at_view [OF ix(1) that(2)] touches_view [OF that(2)] by (auto simp: index_step_def pool_more_def)
  show "\<exists>s'. tree_exec crc32 now bt op p = Some (fst (map_exec op m), s') \<and> tree_rel p0 bt n s' (snd (map_exec op m))"
  proof (cases op)
    case (TInsert key rid)
    obtain p' where "bt_insert crc32 now bt key rid p = Some (Inr (), p')" "index_step 66 p p' bt S (upsert es key rid)"
      using bt_insert_spec [OF fit ix(1) _ cnt] legal TInsert by fastforce
    then show ?thesis using tree_rel_step [OF rel ix _ upsert_increasing(3) [OF inc, symmetric]] ix(2) TInsert by (auto simp: tree_out_def)
  next
    case (TDelete key)
    obtain p' where d: "bt_delete crc32 now bt key p = Some (Inr (map_of es key \<noteq> None), p')" "index_step 0 p p' bt S (without key es)"
      using bt_delete_spec [OF fit ix(1)] by blast
    then have "index_step 66 p p' bt S (without key es)" by (force simp: index_step_def)
    then show ?thesis using tree_rel_step [OF rel ix _ map_of_without [symmetric]] d(1) ix(2) TDelete by (auto simp: tree_out_def)
  next
    case (TSearch key)
    obtain p' where s: "bt_search bt key p = Some (Inr (map_of es key), p')" "pool_more 0 p p'" "pool_view p' = pool_view p"
      using bt_search_spec [OF fit ix(1)] by blast
    then show ?thesis using tree_rel_step [OF rel ix step0 [OF s(2,3)] ix(2)] ix(2) TSearch by (auto simp: tree_out_def)
  next
    case (TRange start stop)
    obtain p' where s: "bt_range bt start stop p = Some (Inr (in_range start stop es), p')" "pool_more 0 p p'" "pool_view p' = pool_view p"
      using bt_range_spec [OF fit ix(1)] by blast
    then show ?thesis using tree_rel_step [OF rel ix step0 [OF s(2,3)] ix(2)] ix(2) TRange range_of_map [OF inc, of start stop]
      by (auto simp: tree_out_def)
  qed
qed

text \<open>
  C32: The B+tree implements a sorted map. On a pool with a free frame and a log segment that holds
  a page image, creating a tree and running any sequence of insertions (keys of at most 256 bytes),
  deletions, searches and range scans succeeds and returns exactly what the sequence returns on a
  map from keys to record ids, range scans in key order; pages that existed before keep their
  content. The bound on the page count is 66 pages per operation: one per level of a tree of height
  at most 64, and the new root's.
\<close>

theorem btree_implements_sorted_map:
  assumes "pool_fit p" and "0 < page_count (bp_disk p)" and "page_count (bp_disk p) + 66 * (length ops + 1) < 2 ^ 64" and "list_all short_op ops"
  shows "\<exists>bt p1 p2. bt_create crc32 now order p = Some (Inr bt, p1) \<and>
    run_ops (tree_exec crc32 now bt) ops p1 = Some (fst (spec_ops map_exec ops Map.empty), p2) \<and>
    (\<forall>q c. unat q < page_count (bp_disk p) \<and> pool_view p q = Some c \<longrightarrow> pool_view p2 q = Some c)"
proof -
  have "page_count (bp_disk p) < 2 ^ 64" using assms(3) by linarith
  then obtain bt p1 g where c: "bt_create crc32 now order p = Some (Inr bt, p1)" "pool_more 1 p p1" "touches {} p p1"
      "unat g = page_count (bp_disk p)" "index_at p1 bt {g} []"
    using bt_create_spec [OF assms(1) _ assms(2)] by blast
  then have "tree_rel p bt (length ops) p1 Map.empty"
    using assms(3) by (auto simp: tree_rel_def pool_more_def intro!: exI [of _ "{g}"] exI [of _ "[]"])
  from tree_follows.runs [OF assms(4) this] obtain p2 where
    "run_ops (tree_exec crc32 now bt) ops p1 = Some (fst (spec_ops map_exec ops Map.empty), p2)" "tree_rel p bt 0 p2 (snd (spec_ops map_exec ops Map.empty))"
    by blast
  then show ?thesis using c(1) by (auto simp: tree_rel_def touches_def)
qed

section \<open>A small pool\<close>

lemma pool_new_inv: "0 < n \<Longrightarrow> pool_inv (pool_new d w n)"
  by (auto simp: pool_inv_def pool_new_def frame_empty_def frame_ok_def Let_def)

lemma fit_pool: "\<exists>p. pool_fit p \<and> page_count (bp_disk p) = 1"
proof -
  obtain w where w: "wal_segment_size w = 20000" "wal_top w" using wide_wal by blast
  let ?p = "pool_new zero_disk w 2"
  have "pool_inv ?p" by (rule pool_new_inv) simp
  moreover have "bp_wal ?p = w" "bp_table ?p = Map.empty" "page_count (bp_disk ?p) = 1" "0 \<in> set (pins ?p)"
    by (simp_all add: pool_new_def Let_def zero_disk_def disk_open_def page_count_def pins_def frame_empty_def)
  ultimately have "pool_fit ?p" using w by (simp add: pool_fit_def pool_up_def starved_def alloc_ok_def)
  then show ?thesis using \<open>page_count (bp_disk ?p) = 1\<close> by blast
qed

theorem btree_implements_sorted_map_witness:
  "\<exists>p bt p1 p2. bt_create (\<lambda>_. 3) 0 2 p = Some (Inr bt, p1) \<and>
     run_ops (tree_exec (\<lambda>_. 3) 0 bt) [TInsert [1] (rid_new 5 0), TSearch [1], TDelete [2]] p1 = Some ([TDone, TFound (Some (rid_new 5 0)), TRemoved False], p2)"
proof -
  obtain p where p: "pool_fit p" "page_count (bp_disk p) = 1" using fit_pool by blast
  from btree_implements_sorted_map [OF p(1), of "[TInsert [1] (rid_new 5 0), TSearch [1], TDelete [2]]" "\<lambda>_. 3" 0 2] show ?thesis
    using p(2) by (simp add: short_def) blast
qed

text \<open>
  Node encoding. A node whose encoding fits its page is read back from the page it is written
  to, whatever the page held before and whatever LSN is stamped on it; the page passes its checksum,
  and the size that the tree computes to decide on a split is the length of the encoding.
\<close>

theorem node_page_roundtrip:
  assumes "length b = PAGE_SIZE" and "length (snd (encode_node n)) \<le> MAX_BODY" and "node_ok n"
  shows "decode_node (set_page_lsn (node_page crc32 n b) l) = Inr n \<and> verify_checksum crc32 (set_page_lsn (node_page crc32 n b) l) \<and>
    length (snd (encode_node n)) = (case n of LeafNode leaf \<Rightarrow> leaf_size leaf | InternalNode m \<Rightarrow> internal_size m)"
proof -
  have a: "length b = 8192" "node_size n \<le> 8160" using assms(1,2) by (simp_all add: length_encode_node)
  obtain t body where e: "encode_node n = (t, body)" by fastforce
  note f = node_page_fields [OF a e, of crc32]
  have "node_size n = (case n of LeafNode leaf \<Rightarrow> leaf_size leaf | InternalNode m \<Rightarrow> internal_size m)" by (cases n) simp_all
  then show ?thesis using decode_node_page(1) [OF a assms(3), of crc32 l] f(4) set_page_lsn_frame(4) [OF f(1)] by (simp add: length_encode_node)
qed

theorem node_page_roundtrip_witness:
  "decode_node (set_page_lsn (node_page (\<lambda>_. 3) (InternalNode \<lparr>in_level = 1, in_right_sibling = None, in_keys = [[7]], in_children = [2, 3]\<rparr>)
     (replicate 8192 0)) 9) = Inr (InternalNode \<lparr>in_level = 1, in_right_sibling = None, in_keys = [[7]], in_children = [2, 3]\<rparr>)"
proof -
  let ?n = "InternalNode \<lparr>in_level = 1, in_right_sibling = None, in_keys = [[7]], in_children = [2, 3]\<rparr>"
  have "length (replicate 8192 (0 :: u8)) = PAGE_SIZE" "length (snd (encode_node ?n)) \<le> MAX_BODY" "node_ok ?n"
    by (simp_all add: put_bytes_u32_def)
  from node_page_roundtrip [OF this] show ?thesis by blast
qed

section \<open>Insertions that go wrong\<close>

lemma ordered_unbounded:
  "ordered lo hi t \<Longrightarrow> ordered None None t"
  "ordereds lo hi ks cs \<Longrightarrow> ordereds None None ks cs"
proof -
  have "(ordered lo hi t \<longrightarrow> (\<forall>lo' hi'. (lo' = lo \<or> lo' = None) \<and> (hi' = hi \<or> hi' = None) \<longrightarrow> ordered lo' hi' t))"
    and "(ordereds lo hi ks cs \<longrightarrow> (\<forall>lo' hi'. (lo' = lo \<or> lo' = None) \<and> (hi' = hi \<or> hi' = None) \<longrightarrow> ordereds lo' hi' ks cs))"
    by (induction lo hi t and lo hi ks cs rule: ordered_ordereds.induct) (auto simp: within_def bound_simps split: list.splits)
  then show "ordered lo hi t \<Longrightarrow> ordered None None t" "ordereds lo hi ks cs \<Longrightarrow> ordereds None None ks cs" by blast+
qed

text \<open>A search below a node whose keys are all smaller finds nothing.\<close>

lemma descend_above:
  assumes "pool_fit p" and "repr p h nxt t" and "ordered lo (Some pivot) t" and "sized t" and "distinct (pages_of t)" and "nxt \<noteq> Some 0" and "0 \<notin> set (pages_of t)"
    and "pivot \<le> k"
  obtains g leaf p' where "descend k (root_of t) p = Some (Inr (g, leaf), p')" and "entry_at (lf_entries leaf) k = None"
proof -
  obtain g nx fs l1 l2 p' where d: "descend k (root_of t) p = Some (Inr (g, \<lparr>lf_right_sibling = nx, lf_entries = fs\<rparr>), p')"
      "found p h nxt None None k t g nx fs l1 l2"
    using descend_spec [OF assms(1,2) ordered_unbounded(1) [OF assms(3)] assms(4-7) within_None] by blast
  have "entries_of t = ents l1 @ fs @ ents l2" using d(2) ents_leaves(1) [of t] by (simp add: found_def)
  then have "\<forall>e \<in> set fs. fst e < pivot" using ordered_keys(1) [OF assms(3)] by (auto simp: within_def bound_simps keys_of_def)
  then have "map_of fs k = None" using assms(8) by (force simp: map_of_eq_None_iff)
  moreover have "increasing (keys_of fs)" using d(2) by (simp add: found_def)
  ultimately have "entry_at fs k = None" by (simp add: entry_at_map_of)
  then show thesis using that d(1) by fastforce
qed

lemma interrupted_split:
  assumes fit: "pool_fit p" and ix: "index_at p bt S es" and key: "short key" and cnt: "page_count (bp_disk p) + 66 < 2 ^ 64"
    and at: "at_page p (bt_root bt) (InternalNode n)" and rt: "route n key = Some c" "route n k = Some c"
    and ins: "insert_into crc32 now (bt_order bt) key rid c p = Some (Inr (Some (pivot, q)), p1)" and k: "pivot \<le> k"
  shows "\<exists>p2. bt_search bt k p1 = Some (Inr None, p2)"
proof -
  obtain h t where t: "bt_root bt = root_of t" "repr p h None t" "ordered None None t" "sized t" "distinct (pages_of t)" "0 \<notin> set (pages_of t)" and ord: "2 \<le> bt_order bt"
    using ix by (auto simp: index_at_def)
  have h: "h \<le> 64" by (rule height_bound [OF t(2,5)])
  obtain g ks cs where sh: "t = SNode g ks cs" using t(1,2) at by (cases t) (auto simp: at_page_def)
  obtain r where r: "at_page p g (InternalNode \<lparr>in_level = word_of_nat h, in_right_sibling = r, in_keys = ks, in_children = map root_of cs\<rparr>)"
      "reprs p (h - 1) None cs" "0 < h"
    using t(2) by (auto simp: sh)
  then have n: "n = \<lparr>in_level = word_of_nat h, in_right_sibling = r, in_keys = ks, in_children = map root_of cs\<rparr>" using at t(1) by (simp add: sh at_page_def)
  have o: "ordereds None None ks cs" "list_all sized cs" "distinct (g # concat (map pages_of cs))" using t(3-5) by (simp_all add: sh)
  obtain k1 k2 c1 d c2 lo hi where ro: "routed None None key ks cs k1 k2 c1 d c2 lo hi" using ordered_route [OF o(1) within_None] by blast
  have c: "c = root_of d" using routed_route(2) [OF ro] rt(1) n by simp
  note ch = routed_child [OF ro r(2) o(2,3)]
  have ch6: "link None c2 \<noteq> Some 0" "0 \<notin> set (pages_of d)" using ch(6) t(6) by (simp_all add: sh)
  have lt: "page_count (bp_disk p) + (h - 1) < 2 ^ 64" using cnt h by linarith
  obtain v p' j kss ts where s: "insert_into crc32 now (bt_order bt) key rid c p = Some (Inr v, p')" "pool_more j p p'" "touches (set (pages_of d)) p p'"
      "split_result v kss ts" "grafted p p' (h - 1) (link None c2) lo hi d (upsert (entries_of d) key rid) kss ts"
    using insert_into_spec [OF fit ch(1-4) ch6 ch(5) key ord lt, of crc32 now rid] unfolding stores_def c by blast
  then obtain t1 t2 where ts: "kss = [pivot]" "ts = [t1, t2]" "p' = p1" using ins by (auto simp: split_result_def length_Suc_conv numeral_2_eq_2)
  have g: "repr p1 (h - 1) (link (link None c2) [t2]) t1" "ordered lo (Some pivot) t1" "sized t1" "root_of t1 = c" "distinct (pages_of t1)"
      "repr p1 (h - 1) (link None c2) t2" "set (pages_of t1) \<union> set (pages_of t2) \<subseteq> set (pages_of d) \<union> {q. page_count (bp_disk p) \<le> unat q}"
    using s(5) c by (simp_all add: grafted_def ts)
  have pos: "0 < page_count (bp_disk p)" using r(1) by (auto simp: at_page_def)
  then have nz: "0 \<notin> set (pages_of t1)" "0 \<notin> set (pages_of t2)" using g(7) ch6(2) by auto
  then have lk: "link (link None c2) [t2] \<noteq> Some 0" using first_leaf_in_pages [OF g(6)] by (auto simp: link_def)
  have pc: "page_count (bp_disk p) \<le> page_count (bp_disk p1)" using s(2) ts(3) by (simp add: pool_more_def)
  have "g \<notin> set (pages_of d)" using ro o(3) by (auto simp: routed_def)
  then have "at_page p1 g (InternalNode n)" using touches_at [OF s(3) r(1)] n pc ts(3) by blast
  then obtain p2 where rd: "read_node g p1 = Some (Inr (InternalNode n), p2)" "pool_more 0 p1 p2" "pool_view p2 = pool_view p1"
    using read_node_spec [OF pool_more_fit [OF s(2)]] ts(3) by blast
  have "repr p2 (h - 1) (link (link None c2) [t2]) t1"
    using repr_frame(1) [OF g(1) touches_view [OF rd(3), of "{}"]] rd(2) by (simp add: pool_more_def)
  then obtain l leaf p3 where "descend k c p2 = Some (Inr (l, leaf), p3)" "entry_at (lf_entries leaf) k = None"
    using descend_above [OF pool_more_fit [OF rd(2)] _ g(2,3,5) lk nz(1) k] g(4) by metis
  moreover have "descend k g p1 = descend k c p2" by (subst descend.simps) (simp add: rd(1) rt(2))
  ultimately show ?thesis using t(1) by (simp add: bt_search_def ix_bind_simps ix_ret_def sh)
qed

text \<open>
  C33: A split that stops half way loses keys. When the child of the root that a key routes to has
  split (its two halves are written and logged) and the separator has not yet been written to the
  root, because the next page write fails or the log ends there in a crash, a search finds none of
  the keys that moved to the right half, although it found them before.
\<close>

theorem interrupted_split_loses_keys:
  assumes "pool_fit p" and "index_at p bt S es" and "short key" and "page_count (bp_disk p) + 66 < 2 ^ 64"
    and "at_page p (bt_root bt) (InternalNode n)" and "route n key = Some c" and "route n k = Some c"
    and "insert_into crc32 now (bt_order bt) key rid c p = Some (Inr (Some (pivot, q)), p1)" and "pivot \<le> k"
  shows "\<exists>p2 p3. bt_search bt k p = Some (Inr (map_of es k), p2) \<and> bt_search bt k p1 = Some (Inr None, p3)"
  using interrupted_split [OF assms] bt_search_spec [OF assms(1,2), of k] by blast

definition demo_root :: "u64 \<Rightarrow> u64 \<Rightarrow> Internal" where
  "demo_root a b = \<lparr>in_level = 1, in_right_sibling = None, in_keys = [[3]], in_children = [a, b]\<rparr>"

definition demo_right :: entry_list where
  "demo_right = [([3], rid_new 9 3), ([4], rid_new 9 4)]"

lemma two_level_tree:
  "\<exists>p bt S a b. pool_fit p \<and> page_count (bp_disk p) = 4 \<and> bt_order bt = 2 \<and> index_at p bt S (([1], rid_new 9 1) # demo_right) \<and>
     at_page p (bt_root bt) (InternalNode (demo_root a b)) \<and> at_page p b (LeafNode \<lparr>lf_right_sibling = None, lf_entries = demo_right\<rparr>)"
proof -
  let ?B = "LeafNode \<lparr>lf_right_sibling = None, lf_entries = demo_right\<rparr>"
  obtain p where p: "pool_fit p" "page_count (bp_disk p) = 1" using fit_pool by blast
  obtain b p1 where b: "unat b = 1" "pool_more 1 p p1" "at_page p1 b ?B"
    using alloc_node_spec(1) [OF p(1), of ?B "\<lambda>_. 3" 0] p(2) by (auto simp: leaf_size_def demo_right_def)
  let ?A = "LeafNode \<lparr>lf_right_sibling = Some b, lf_entries = [([1], rid_new 9 1)]\<rparr>"
  have b0: "b \<noteq> 0" and c1: "page_count (bp_disk p1) = 2" using b(1,2) p(2) by (auto simp: pool_more_def)
  obtain a p2 where a: "unat a = 2" "pool_more 1 p1 p2" "at_page p2 a ?A" "touches {} p1 p2"
    using alloc_node_spec(1) [OF pool_more_fit [OF b(2)], of ?A "\<lambda>_. 3" 0] b0 c1 by (auto simp: leaf_size_def)
  then have c2: "page_count (bp_disk p2) = 3" using c1 by (simp add: pool_more_def)
  let ?R = "InternalNode (demo_root a b)"
  obtain r p3 where r: "unat r = 3" "pool_more 1 p2 p3" "at_page p3 r ?R" "touches {} p2 p3"
    using alloc_node_spec(1) [OF pool_more_fit [OF a(2)], of ?R "\<lambda>_. 3" 0] c2 by (auto simp: internal_size_def demo_root_def)
  have cnt: "page_count (bp_disk p1) = 2" "page_count (bp_disk p2) = 3" "page_count (bp_disk p3) = 4" using c1 c2 r(2) by (simp_all add: pool_more_def)
  have at: "at_page p3 a ?A" "at_page p3 b ?B"
    using touches_at [OF r(4) a(3)] touches_at [OF r(4) touches_at [OF a(4) b(3)]] cnt by simp_all
  let ?t = "SNode r [[3]] [SLeaf a [([1], rid_new 9 1)], SLeaf b demo_right]"
  have "repr p3 1 None ?t" using at r(3) by (auto simp: link_def demo_root_def intro!: exI [of _ None])
  moreover have "ordered None None ?t" "sized ?t" by (simp_all add: within_def bound_simps demo_right_def short_def leaf_weight_def key_weight_def)
  moreover have "distinct (pages_of ?t)" "0 \<notin> set (pages_of ?t)" using a(1) b(1) r(1) by auto
  ultimately have "index_at p3 \<lparr>bt_root = r, bt_order = 2\<rparr> (set (pages_of ?t)) (([1], rid_new 9 1) # demo_right)"
    unfolding index_at_def by (intro conjI exI [of _ 1] exI [of _ ?t]) simp_all
  then show ?thesis using r(2,3) at(2) cnt(3)
    by (intro exI [of _ p3] exI [of _ "\<lparr>bt_root = r, bt_order = 2\<rparr>"]) (auto simp: pool_more_def)
qed

lemma right_leaf_splits:
  assumes "pool_fit p" and "page_count (bp_disk p) = 4" and "at_page p b (LeafNode \<lparr>lf_right_sibling = None, lf_entries = demo_right\<rparr>)"
  shows "\<exists>q p1. insert_into crc32 now 2 [5] (rid_new 9 5) b p = Some (Inr (Some ([4], q)), p1)"
proof -
  let ?l = "\<lparr>lf_right_sibling = None, lf_entries = demo_right\<rparr>"
  obtain p1 where rd: "read_node b p = Some (Inr (LeafNode ?l), p1)" "pool_more 0 p p1" "pool_view p1 = pool_view p"
    using read_node_spec [OF assms(1,3)] by blast
  have up: "upsert demo_right [5] (rid_new 9 5) = demo_right @ [([5], rid_new 9 5)]"
    by (simp add: upsert_def demo_right_def partition_point_def)
  let ?R = "LeafNode \<lparr>lf_right_sibling = None, lf_entries = [([4], rid_new 9 4), ([5], rid_new 9 5)]\<rparr>"
  obtain q p2 where a: "alloc_node crc32 now ?R p1 = Some (Inr q, p2)" "unat q = 4" "pool_more 1 p1 p2" "touches {} p1 p2"
    using alloc_node_spec(1) [OF pool_more_fit [OF rd(2)], of ?R crc32 now] rd(2) assms(2) by (auto simp: leaf_size_def pool_more_def)
  let ?L = "LeafNode \<lparr>lf_right_sibling = Some q, lf_entries = [([3], rid_new 9 3)]\<rparr>"
  have "at_page p1 b (LeafNode ?l)" using assms(3) rd(2,3) by (simp add: at_page_def nodes_def pool_more_def)
  then have b2: "at_page p2 b (LeafNode ?l)" using touches_at [OF a(4)] a(3) by (simp add: pool_more_def)
  have "q \<noteq> 0" using a(2) by auto
  then obtain p3 where "write_node crc32 now b ?L p2 = Some (Inr (), p3)"
    using write_node_spec(1) [OF pool_more_fit [OF a(3)] b2, of ?L crc32 now] by (auto simp: leaf_size_def)
  then have "store_leaf crc32 now 2 b \<lparr>lf_right_sibling = None, lf_entries = demo_right @ [([5], rid_new 9 5)]\<rparr> p1 = Some (Inr (Some ([4], q)), p3)"
    using a(1) by (simp add: store_leaf_def demo_right_def split_off_def nth_exec_def ix_bind_simps ix_ret_def)
  then show ?thesis using rd(1) up by (subst insert_into.simps) simp
qed

theorem interrupted_split_loses_keys_witness:
  "\<exists>p bt c p1 q p2 p3. insert_into (\<lambda>_. 3) 0 2 [5] (rid_new 9 5) c p = Some (Inr (Some ([4], q)), p1) \<and>
     bt_search bt [4] p = Some (Inr (Some (rid_new 9 4)), p2) \<and> bt_search bt [4] p1 = Some (Inr None, p3)"
proof -
  obtain p bt S a b where t: "pool_fit p" "page_count (bp_disk p) = 4" "bt_order bt = 2" "index_at p bt S (([1], rid_new 9 1) # demo_right)"
      "at_page p (bt_root bt) (InternalNode (demo_root a b))" "at_page p b (LeafNode \<lparr>lf_right_sibling = None, lf_entries = demo_right\<rparr>)"
    using two_level_tree by blast
  obtain q p1 where i: "insert_into (\<lambda>_. 3) 0 (bt_order bt) [5] (rid_new 9 5) b p = Some (Inr (Some ([4], q)), p1)"
    using right_leaf_splits [OF t(1,2,6), of "\<lambda>_. 3" 0] t(3) by auto
  have r: "route (demo_root a b) [5] = Some b" "route (demo_root a b) [4] = Some b" "short [5]" "[4] \<le> ([4] :: bytes)"
    by (simp_all add: route_def demo_root_def partition_point_def nth_exec_def short_def)
  have "page_count (bp_disk p) + 66 < 2 ^ 64" using t(2) by simp
  from interrupted_split_loses_keys [OF t(1,4) r(3) this t(5) r(1,2) i r(4)]
  have "\<exists>p2 p3. bt_search bt [4] p = Some (Inr (Some (rid_new 9 4)), p2) \<and> bt_search bt [4] p1 = Some (Inr None, p3)" by (simp add: demo_right_def)
  then show ?thesis using i [unfolded t(3)] by blast
qed

text \<open>
  C34: A key that fits can be refused. A full leaf is split at its middle entry, not at its middle
  byte. When the left half with the new entry is larger than a page, the insertion fails with
  \<open>EntryTooLarge\<close>, which stands for a single entry that is too large for a node; the leaf keeps its
  content, and the page allocated for the right half is lost.
\<close>

theorem fitting_key_refused:
  assumes "pool_fit p" and "at_page p g (LeafNode leaf)" and "page_count (bp_disk p) < 2 ^ 64" and "lf_right_sibling leaf \<noteq> Some 0"
    and "upsert (lf_entries leaf) key rid = left @ right" and "length left = length right \<or> length left + 1 = length right" and "right \<noteq> []"
    and "leaf_size (leaf\<lparr>lf_entries := right\<rparr>) \<le> MAX_BODY" and "leaf_size (leaf\<lparr>lf_entries := left\<rparr>) > MAX_BODY"
  shows "\<exists>p'. insert_into crc32 now order key rid g p = Some (Inl EntryTooLarge, p') \<and> at_page p' g (LeafNode leaf) \<and>
    page_count (bp_disk p') = page_count (bp_disk p) + 1"
proof -
  obtain p1 where rd: "read_node g p = Some (Inr (LeafNode leaf), p1)" "pool_more 0 p p1" "pool_view p1 = pool_view p"
    using read_node_spec [OF assms(1,2)] by blast
  have pc: "page_count (bp_disk p1) = page_count (bp_disk p)" using rd(2) by (simp add: pool_more_def)
  have at1: "at_page p1 g (LeafNode leaf)" using assms(2) rd(3) pc by (simp add: at_page_def nodes_def)
  have m: "length (left @ right) div 2 = length left" using assms(6) by auto
  let ?leaf = "leaf\<lparr>lf_entries := left @ right\<rparr>"
  let ?R = "LeafNode \<lparr>lf_right_sibling = lf_right_sibling leaf, lf_entries = right\<rparr>"
  obtain q p2 where a: "alloc_node crc32 now ?R p1 = Some (Inr q, p2)" "unat q = page_count (bp_disk p1)" "pool_more 1 p1 p2" "touches {} p1 p2"
    using alloc_node_spec(1) [OF pool_more_fit [OF rd(2)], of ?R crc32 now] assms(3,4,8) pc by (auto simp: leaf_size_def)
  have at2: "at_page p2 g (LeafNode leaf)" using touches_at [OF a(4) at1] a(3) by (simp add: pool_more_def)
  let ?L = "LeafNode \<lparr>lf_right_sibling = Some q, lf_entries = left\<rparr>"
  have "8160 < node_size ?L" using assms(9) by (simp add: leaf_size_def)
  then obtain p3 where w: "write_node crc32 now g ?L p2 = Some (Inl EntryTooLarge, p3)" "pool_more 0 p2 p3" "pool_view p3 = pool_view p2"
    using write_node_spec(2) [OF pool_more_fit [OF a(3)] at2] by blast
  obtain k0 r0 rest where right: "right = (k0, r0) # rest" using assms(7) by (cases right) auto
  have "leaf_size ?leaf > MAX_BODY" using assms(9) by (simp add: leaf_size_def)
  then have "store_leaf crc32 now order g ?leaf p1 = Some (Inl EntryTooLarge, p3)"
    using a(1) w(1) m by (simp add: store_leaf_def split_off_def nth_exec_def right ix_bind_simps)
  then have "insert_into crc32 now order key rid g p = Some (Inl EntryTooLarge, p3)"
    by (subst insert_into.simps) (simp add: rd(1) assms(5))
  moreover have "at_page p3 g (LeafNode leaf)" using at2 w(2,3) by (simp add: at_page_def nodes_def pool_more_def)
  moreover have "page_count (bp_disk p3) = page_count (bp_disk p) + 1" using w(2) a(3) pc by (simp add: pool_more_def)
  ultimately show ?thesis by blast
qed

definition crowded :: Leaf where
  "crowded = \<lparr>lf_right_sibling = None, lf_entries = [(replicate 4000 1, rid_new 9 1), (replicate 4000 3, rid_new 9 2),
     ([4], rid_new 9 3), ([5], rid_new 9 4), ([6], rid_new 9 5)]\<rparr>"

lemma replicate_less: "x < y \<Longrightarrow> 0 < n \<Longrightarrow> 0 < m \<Longrightarrow> replicate n x < (replicate m y :: bytes)"
  by (cases n; cases m) simp_all

lemma replicate_less_single: "x < y \<Longrightarrow> 0 < n \<Longrightarrow> replicate n x < ([y] :: bytes)"
  by (cases n) simp_all

lemma crowded_upsert:
  "upsert (lf_entries crowded) (replicate 2000 2) (rid_new 9 9) =
     [(replicate 4000 1, rid_new 9 1), (replicate 2000 2, rid_new 9 9), (replicate 4000 3, rid_new 9 2)] @ [([4], rid_new 9 3), ([5], rid_new 9 4), ([6], rid_new 9 5)]"
proof -
  let ?a = "[(replicate 4000 1, rid_new 9 1)] :: entry_list"
  let ?b = "[(replicate 4000 3, rid_new 9 2), ([4], rid_new 9 3), ([5], rid_new 9 4), ([6], rid_new 9 5)] :: entry_list"
  have "increasing (keys_of (lf_entries crowded))" by (simp add: crowded_def replicate_less replicate_less_single)
  moreover have "\<forall>e \<in> set ?a. fst e < replicate 2000 2" "\<forall>e \<in> set ?b. replicate 2000 2 < fst e"
    by (simp_all add: replicate_less replicate_less_single)
  ultimately show ?thesis using upsert_unique [of "lf_entries crowded" ?a "replicate 2000 2" ?b "rid_new 9 9"] by (simp add: crowded_def)
qed

theorem fitting_key_refused_witness:
  "\<exists>p g p'. leaf_size crowded \<le> MAX_BODY \<and> at_page p g (LeafNode crowded) \<and>
     insert_into (\<lambda>_. 3) 0 1000 (replicate 2000 2) (rid_new 9 9) g p = Some (Inl EntryTooLarge, p')"
proof -
  obtain p0 where p0: "pool_fit p0" "page_count (bp_disk p0) = 1" using fit_pool by blast
  have fits: "leaf_size crowded \<le> MAX_BODY" by (simp add: leaf_size_def crowded_def)
  then obtain g p where p: "pool_more 1 p0 p" "at_page p g (LeafNode crowded)"
    using alloc_node_spec(1) [OF p0(1), of "LeafNode crowded" "\<lambda>_. 3" 0] p0(2) by (auto simp: crowded_def)
  have cnt: "page_count (bp_disk p) < 2 ^ 64" using p(1) p0(2) by (simp add: pool_more_def)
  have "lf_right_sibling crowded \<noteq> Some 0" by (simp add: crowded_def)
  from fitting_key_refused [OF pool_more_fit [OF p(1)] p(2) cnt this crowded_upsert, of "\<lambda>_. 3" 0 1000] fits p(2)
  show ?thesis by (auto simp: leaf_size_def)
qed

end
