(* ===== verification/Engine.thy ===== *)
theory Engine
  imports VersionProps TreeProps
begin

text \<open>
  What an engine on top of the record store builds on: actions over the record store and an index
  tree in the same buffer pool, and how the two keep out of each other's way. The operations of
  the record store leave the pages of a tree alone, the operations of a tree leave the versions
  alone, and both leave the pool usable.

  \<open>store_read\<close> is \<open>RecordStore::read\<close> without a bound on the version chain: it does not
  return, as \<open>None\<close>, on a cyclic chain, and agrees with \<open>read_chain\<close> whenever that ends.
\<close>

section \<open>Actions of an engine\<close>

datatype ('e, 'a) EngOut = Done 'a | Fail 'e | Blocked

type_synonym ('e, 'a) eng = "RecordStore \<times> TxnHandle \<Rightarrow> (('e, 'a) EngOut \<times> RecordStore \<times> TxnHandle) exec"

definition eng_ret :: "'a \<Rightarrow> ('e, 'a) eng" where
  "eng_ret x s = Some (Done x, s)"

definition eng_fail :: "'e \<Rightarrow> ('e, 'a) eng" where
  "eng_fail e s = Some (Fail e, s)"

definition eng_bind :: "('e, 'a) eng \<Rightarrow> ('a \<Rightarrow> ('e, 'b) eng) \<Rightarrow> ('e, 'b) eng" where
  "eng_bind m f s = do {
     (res, s') \<leftarrow> m s;
     case res of Done x \<Rightarrow> f x s' | Fail e \<Rightarrow> Some (Fail e, s') | Blocked \<Rightarrow> Some (Blocked, s')
   }"

text \<open>A call of the record store and a call of an index, with the conversion of its errors.\<close>

definition on_store :: "(CoreError \<Rightarrow> 'e) \<Rightarrow> 'a act \<Rightarrow> ('e, 'a) eng" where
  "on_store conv m s = do {
     (res, s') \<leftarrow> m s;
     Some (case res of Ret x \<Rightarrow> Done x | Err e \<Rightarrow> Fail (conv e) | Waits \<Rightarrow> Blocked, s')
   }"

definition on_index :: "(IndexError \<Rightarrow> 'e) \<Rightarrow> 'a ix \<Rightarrow> ('e, 'a) eng" where
  "on_index conv m s = (case s of (st, h) \<Rightarrow> do {
     (res, p) \<leftarrow> m (st_pool st);
     Some (case res of Inr x \<Rightarrow> Done x | Inl e \<Rightarrow> Fail (conv e), put_pool p st, h)
   })"

partial_function (option) store_read :: "RecordId \<Rightarrow> RecordStore \<times> TxnHandle \<Rightarrow> (bytes option Outcome \<times> RecordStore \<times> TxnHandle) option" where
  "store_read r s = do {
     (res, s') \<leftarrow> read_step r s;
     case res of
       Ret x \<Rightarrow> (case x of Inl v \<Rightarrow> Some (Ret v, s') | Inr r' \<Rightarrow> store_read r' s')
     | Err e \<Rightarrow> Some (Err e, s')
     | Waits \<Rightarrow> Some (Waits, s')
   }"

lemma eng_simps [simp]:
  "eng_bind (eng_ret x) f = f x" "eng_ret x s = Some (Done x, s)" "eng_fail e s = Some (Fail e, s)"
  by (auto simp: eng_bind_def eng_ret_def eng_fail_def fun_eq_iff)

lemma eng_bind_cases:
  "m s = Some (Done x, s') \<Longrightarrow> eng_bind m f s = f x s'"
  "m s = Some (Fail e, s') \<Longrightarrow> eng_bind m f s = Some (Fail e, s')"
  "m s = Some (Blocked, s') \<Longrightarrow> eng_bind m f s = Some (Blocked, s')"
  by (simp_all add: eng_bind_def)

lemma on_store_simps [simp]:
  "m s = Some (Ret x, s') \<Longrightarrow> on_store conv m s = Some (Done x, s')"
  "m s = Some (Err e, s') \<Longrightarrow> on_store conv m s = Some (Fail (conv e), s')"
  "m s = Some (Waits, s') \<Longrightarrow> on_store conv m s = Some (Blocked, s')"
  by (simp_all add: on_store_def)

lemma on_index_simps [simp]:
  "m (st_pool st) = Some (Inr x, p) \<Longrightarrow> on_index conv m (st, h) = Some (Done x, put_pool p st, h)"
  "m (st_pool st) = Some (Inl e, p) \<Longrightarrow> on_index conv m (st, h) = Some (Fail (conv e), put_pool p st, h)"
  by (simp_all add: on_index_def)

lemma read_chain_store_read: "read_chain n r s = Some x \<Longrightarrow> store_read r s = Some x"
proof (induction n arbitrary: r s)
  case (Suc n)
  then show ?case
    by (subst store_read.simps) (auto simp: bindA_def ret_def split: Option.bind_splits Outcome.splits sum.splits)
qed simp


section \<open>A store that serves an engine\<close>

definition ready :: "RecordStore \<Rightarrow> bool" where
  "ready st \<longleftrightarrow> store_good st \<and> \<not> strained st"

definition active :: "TxnHandle \<Rightarrow> bool" where
  "active h \<longleftrightarrow> snap_txn_id (th_snapshot h) = th_id h \<and> th_id h \<noteq> NO_TXN"

lemma active_same: "same_txn h h' \<Longrightarrow> active h \<Longrightarrow> active h'"
  by (simp add: active_def same_txnD)

text \<open>The tree \<open>bt\<close> lies on the pages \<open>S\<close>, none of which is a heap page.\<close>

definition has_index :: "RecordStore \<Rightarrow> BTree \<Rightarrow> u64 set \<Rightarrow> entry_list \<Rightarrow> bool" where
  "has_index st bt S es \<longleftrightarrow> index_at (st_pool st) bt S es \<and> (\<forall>g \<in> S. st_page_heap st g = None)"

text \<open>What an engine may rely on after a call: the same transactions, and the other pages as they were.\<close>

definition calls :: "RecordStore \<Rightarrow> TxnHandle \<Rightarrow> RecordStore \<Rightarrow> TxnHandle \<Rightarrow> bool" where
  "calls st h st' h' \<longleftrightarrow> ready st' \<and> cl_kept st st' \<and> same_txn h h' \<and> aside st st' \<and> (locks_calm st h \<longrightarrow> locks_calm st' h')"

lemma calls_trans: "calls st h st1 h1 \<Longrightarrow> calls st1 h1 st2 h2 \<Longrightarrow> calls st h st2 h2"
  unfolding calls_def using cl_kept_trans same_txn_trans aside_trans by blast

lemma callsD:
  assumes "calls st h st' h'"
  shows "ready st'" "cl_kept st st'" "same_txn h h'" "aside st st'" "locks_calm st h \<Longrightarrow> locks_calm st' h'"
  using assms by (simp_all add: calls_def)

lemma calls_sees: "calls st h st' h' \<Longrightarrow> sees st' h' = sees st h" "calls st h st' h' \<Longrightarrow> sees st' g = sees st g"
  using sees_cl same_txnD(2) unfolding calls_def by blast+

lemma calls_refl: "ready st \<Longrightarrow> calls st h st h"
  by (simp add: calls_def)

lemma lock_free_same: "same_txn h h' \<Longrightarrow> lock_free st h' r = lock_free st h r"
  by (simp add: lock_free_def same_txnD)

lemma has_index_aside:
  assumes "has_index st bt S es" and "aside st st'"
  shows "has_index st' bt S es"
proof -
  have ix: "index_at (st_pool st) bt S es" and off: "\<And>g. g \<in> S \<Longrightarrow> st_page_heap st g = None" using assms(1) by (simp_all add: has_index_def)
  have al: "\<And>g. g \<in> S \<Longrightarrow> unat g < page_count (bp_disk (st_pool st))" using index_at_allocated [OF ix] .
  have "touches (- S) (st_pool st) (st_pool st')" using assms(2) off by (auto simp: touches_def aside_def)
  then have "index_at (st_pool st') bt S es" using index_at_frame [OF ix] assms(2) by (simp add: aside_def)
  then show ?thesis using assms(2) off al by (auto simp: has_index_def aside_def)
qed

lemma ready_fit: "ready st \<Longrightarrow> pool_fit (st_pool st)"
  by (auto simp: ready_def store_good_def store_ok_def pool_fit_def starved_def strained_def tight_def)

text \<open>A step of a tree in the pool of a store.\<close>

lemma index_put:
  assumes rd: "ready st" and off: "\<forall>g \<in> S. st_page_heap st g = None" and step: "index_step k (st_pool st) p' bt S es'"
  shows "\<exists>S'. ready (put_pool p' st) \<and> versions (put_pool p' st) = versions st \<and> has_index (put_pool p' st) bt S' es' \<and>
    txns_kept st (put_pool p' st) \<and> page_count (bp_disk p') \<le> page_count (bp_disk (st_pool st)) + k"
proof -
  let ?st = "put_pool p' st"
  obtain j S' where j: "j \<le> k" "pool_more j (st_pool st) p'" "touches S (st_pool st) p'" "index_at p' bt S' es'"
      "S' \<subseteq> S \<union> {q. page_count (bp_disk (st_pool st)) \<le> unat q}" using step by (auto simp: index_step_def)
  have ok: "store_ok st" using rd by (simp add: ready_def store_good_def)
  have up: "pool_up p'" using j(2) by (simp add: pool_more_def pool_fit_def)
  have same: "view ?st page = view st page" if "st_page_heap st page \<noteq> None" for page
  proof -
    have "heap_page_ok st page" using ok that unfolding store_ok_def by blast
    moreover have "page \<notin> S" using off that by auto
    ultimately show ?thesis using j(3) by (auto simp: heap_page_ok_def touches_def)
  qed
  have v: "versions ?st = versions st" using same by (simp add: versions_def fun_eq_iff)
  have "heap_page_ok ?st page" if hp: "st_page_heap st page \<noteq> None" for page
  proof -
    have "heap_page_ok st page" using ok hp unfolding store_ok_def by blast
    then show ?thesis using same [OF hp] j(2) by (auto simp: heap_page_ok_def pool_more_def)
  qed
  then have "store_ok ?st" using ok up by (simp add: store_ok_def tables_ok_def)
  then have good: "store_good ?st" using rd v by (simp add: ready_def store_good_def)
  have str: "strained ?st = strained st" using j(2) by (simp add: strained_def tight_def pool_more_def)
  have "\<forall>g \<in> S'. st_page_heap st g = None" using j(5) off store_ok_fresh [OF ok] by auto
  then show ?thesis using good str rd v j by (auto simp: ready_def has_index_def txns_kept_def pool_more_def put_pool_def)
qed

lemma txns_kept_calls:
  assumes "ready st'" and "txns_kept st st'" and "same_txn h h'" and "aside st st'"
  shows "calls st h st' h'"
  using assms txns_kept_cl txns_kept_calm by (simp add: calls_def)

text \<open>The calls that an engine makes, in a ready store.\<close>

lemma index_search:
  assumes rd: "ready st" and ix: "has_index st bt S es"
  obtains st' where "on_index conv (bt_search bt key) (st, h) = Some (Done (map_of es key), st', h)" "calls st h st' h"
    "versions st' = versions st" "has_index st' bt S es" "page_count (bp_disk (st_pool st')) = page_count (bp_disk (st_pool st))"
proof -
  have i: "index_at (st_pool st) bt S es" using ix by (simp add: has_index_def)
  obtain p' where p: "bt_search bt key (st_pool st) = Some (Inr (map_of es key), p')" "pool_more 0 (st_pool st) p'" "pool_view p' = view st"
    using bt_search_spec [OF ready_fit [OF rd] i] by blast
  have "index_at p' bt S es" using index_at_view [OF i p(3)] p(2) by (simp add: pool_more_def)
  then have "index_step 0 (st_pool st) p' bt S es" using p(2) touches_view [OF p(3)] by (auto simp: index_step_def)
  then obtain S' where k: "ready (put_pool p' st)" "versions (put_pool p' st) = versions st" "txns_kept st (put_pool p' st)"
    using index_put [OF rd] ix unfolding has_index_def by blast
  have a: "aside st (put_pool p' st)" using p(2,3) by (simp add: aside_def pool_more_def)
  have pc: "page_count (bp_disk (st_pool (put_pool p' st))) = page_count (bp_disk (st_pool st))" using p(2) by (simp add: pool_more_def)
  show ?thesis
    by (rule that [OF on_index_simps(1) [where m = "bt_search bt key", OF p(1)] txns_kept_calls [OF k(1,3) same_txn_refl a] k(2) has_index_aside [OF ix a] pc])
qed

lemma index_insert:
  assumes rd: "ready st" and ix: "has_index st bt S es" and key: "short key" and cnt: "page_count (bp_disk (st_pool st)) + 66 < 2 ^ 64"
  obtains st' S' where "on_index conv (bt_insert crc32 now bt key rid) (st, h) = Some (Done (), st', h)" "ready st'" "txns_kept st st'"
    "versions st' = versions st" "has_index st' bt S' (upsert es key rid)" "page_count (bp_disk (st_pool st')) \<le> page_count (bp_disk (st_pool st)) + 66"
proof -
  have i: "index_at (st_pool st) bt S es" using ix by (simp add: has_index_def)
  obtain p' where p: "bt_insert crc32 now bt key rid (st_pool st) = Some (Inr (), p')" "index_step 66 (st_pool st) p' bt S (upsert es key rid)"
    using bt_insert_spec [OF ready_fit [OF rd] i key cnt] by blast
  obtain S' where k: "ready (put_pool p' st)" "versions (put_pool p' st) = versions st" "has_index (put_pool p' st) bt S' (upsert es key rid)"
      "txns_kept st (put_pool p' st)" "page_count (bp_disk p') \<le> page_count (bp_disk (st_pool st)) + 66"
    using index_put [OF rd _ p(2)] ix unfolding has_index_def by blast
  show ?thesis by (rule that [OF on_index_simps(1) [where m = "bt_insert crc32 now bt key rid", OF p(1)] k(1,4,2,3)]) (use k(5) in simp)
qed

lemma index_create:
  assumes rd: "ready st" and cnt: "page_count (bp_disk (st_pool st)) < 2 ^ 64" "0 < page_count (bp_disk (st_pool st))"
  obtains bt st' S where "on_index conv (bt_create crc32 now order) (st, h) = Some (Done bt, st', h)" "ready st'" "txns_kept st st'"
    "versions st' = versions st" "has_index st' bt S []" "st_page_heap st' = st_page_heap st"
    "page_count (bp_disk (st_pool st')) \<le> page_count (bp_disk (st_pool st)) + 1"
proof -
  obtain bt p' g where p: "bt_create crc32 now order (st_pool st) = Some (Inr bt, p')" "pool_more 1 (st_pool st) p'" "touches {} (st_pool st) p'"
      "unat g = page_count (bp_disk (st_pool st))" "index_at p' bt {g} []"
    using bt_create_spec [OF ready_fit [OF rd] cnt] by blast
  have "index_step 1 (st_pool st) p' bt {} []" using p by (auto simp: index_step_def)
  then obtain S where k: "ready (put_pool p' st)" "versions (put_pool p' st) = versions st" "has_index (put_pool p' st) bt S []"
      "txns_kept st (put_pool p' st)" "page_count (bp_disk p') \<le> page_count (bp_disk (st_pool st)) + 1"
    using index_put [OF rd, of "{}"] by blast
  show ?thesis by (rule that [OF on_index_simps(1) [where m = "bt_create crc32 now order", OF p(1)] k(1,4,2,3)]) (use k(5) in simp_all)
qed

lemma ready_read:
  assumes rd: "ready st" and r: "versions st r \<noteq> None"
  obtains v n st' where "store_read r (st, h) = Some (Ret v, st', h)" "chain_read n (versions st) (sees st h) r = Some v" "calls st h st' h"
    "versions st' = versions st" "page_count (bp_disk (st_pool st')) = page_count (bp_disk (st_pool st))"
proof -
  obtain rs where rs: "store_ok st" "chain_ok (versions st) rs" using rd by (auto simp: ready_def store_good_def)
  have "r \<in> set (take (length rs) rs)" using rs(2) r by (auto simp: chain_ok_def)
  then obtain v where v: "chain_read (length rs) (versions st) (sees st h) r = Some v" using chain_read_ends [OF rs(2)] by blast
  obtain st' where st': "read_chain (length rs) r (st, h) = Some (Ret v, st', h)"
    using read_chain_Ret(2) [OF rs(2,1) r v] rd by (auto simp: ready_def)
  have e: "evolves st st'" "store_ok st'" "versions st' = versions st" "view st' = view st"
    using read_chain_spec [OF rs(2,1) r, of "length rs" h] st' by (simp_all add: read_result_def)
  have "ready st'" using e rd rs(2) strained_evolves [OF e(1)] by (auto simp: ready_def store_good_def)
  then have "calls st h st' h" using txns_kept_calls [OF _ evolves_kept [OF e(1)] same_txn_refl evolves_aside(1) [OF e(1,4)]] by blast
  then show ?thesis using that read_chain_store_read [OF st'] v e(1,3) by (auto simp: evolves_defs)
qed

lemma ready_vsteps:
  assumes "ready st" and "store_ok st'" and "cl_kept st st'" and "(vstep t)\<^sup>*\<^sup>* (versions st) (versions st')"
  shows "ready st'"
  using assms vsteps_chain_ok by (auto simp: ready_def store_good_def cl_kept_def)

lemma ready_insert:
  assumes rd: "ready st" and cnt: "page_count (bp_disk (st_pool st)) < 2 ^ 64" and len: "length payload \<le> 8132"
  obtains rid st' h' where "store_insert crc32 now heap payload (st, h) = Some (Ret rid, st', h')" "calls st h st' h'"
    "versions st rid = None" "versions st' = (versions st)(rid \<mapsto> version_bytes (th_id h) None payload)"
    "st_page_heap st' (rid_page rid) = Some heap" "page_count (bp_disk (st_pool st')) \<le> page_count (bp_disk (st_pool st)) + 1"
proof -
  have ok: "store_ok st" using rd by (simp add: ready_def store_good_def)
  obtain res st' h' where i: "store_insert crc32 now heap payload (st, h) = Some (res, st', h')" "store_ok st'" "txns_kept st st'"
      "same_txn h h'" "insert_result heap (version_bytes (th_id h) None payload) st res st'"
      "page_count (bp_disk (st_pool st')) \<le> page_count (bp_disk (st_pool st)) + 1"
    using store_insert_spec [OF ok cnt] by blast
  obtain rid where rid: "res = Ret rid" "versions st rid = None" "versions st' = (versions st)(rid \<mapsto> version_bytes (th_id h) None payload)"
      "st_page_heap st' (rid_page rid) = Some heap"
    using i(5) rd len by (auto simp: ready_def insert_result_def added_version_def length_version_bytes split: Outcome.splits CoreError.splits BufferError.splits)
  have vs: "(vstep (th_id h))\<^sup>*\<^sup>* (versions st) (versions st')" using vstep_insert_result [OF i(5)] by simp
  have "ready st'" using ready_vsteps [OF rd i(2) txns_kept_cl [OF i(3)] vs] .
  moreover have "aside st st'" using i(5) by (simp add: insert_result_def)
  ultimately show ?thesis using that i(1,6) rid txns_kept_calls [OF _ i(3,4)] by blast
qed

lemma ready_update:
  assumes rd: "ready st" and cnt: "page_count (bp_disk (st_pool st)) < 2 ^ 64" and len: "length payload \<le> 8132" and r6: "rid6_ok rid"
    and rec: "versions st rid = Some rec" "writable st h rec" and lock: "lock_free st h rid"
  obtains new st' h' where "store_update crc32 now expired rid payload (st, h) = Some (Ret new, st', h')" "calls st h st' h'"
    "versions st new = None" "versions st' = (versions st)(new \<mapsto> version_bytes (th_id h) (Some rid) payload, rid \<mapsto> stamp_bytes (th_id h) rec)"
    "page_count (bp_disk (st_pool st')) \<le> page_count (bp_disk (st_pool st)) + 1"
    "st_page_heap st' (rid_page new) = st_page_heap st (rid_page rid)"
proof -
  have ok: "store_ok st" using rd by (simp add: ready_def store_good_def)
  obtain res st' h' where u: "store_update crc32 now expired rid payload (st, h) = Some (res, st', h')" "store_ok st'" "cl_kept st st'"
      "same_txn h h'" "update_result rid payload h st res st'" "\<exists>new. res = Ret new"
    using store_update_spec [OF ok cnt r6, of crc32 now expired payload h] rd rec lock len by (auto simp: ready_def)
  then obtain new where new: "res = Ret new" by blast
  have r: "aside st st'" "page_count (bp_disk (st_pool st')) \<le> page_count (bp_disk (st_pool st)) + 1" "locks_calm st h \<longrightarrow> locks_calm st' h"
      "versions st new = None" "st_page_heap st' (rid_page new) = st_page_heap st (rid_page rid)" "versions st' = (versions st)(new \<mapsto> version_bytes (th_id h) (Some rid) payload, rid \<mapsto> stamp_bytes (th_id h) rec)"
    using u(5) new rec(1) by (simp_all add: update_result_def)
  have vs: "(vstep (th_id h))\<^sup>*\<^sup>* (versions st) (versions st')" using u(5) unfolding update_result_def by blast
  have "calls st h st' h'" using ready_vsteps [OF rd u(2,3) vs] u(3,4) r(1,3) by (auto simp: calls_def locks_calm_def lock_free_def same_txnD)
  then show ?thesis using that u(1) new r by blast
qed

lemma ready_delete:
  assumes rd: "ready st" and rec: "versions st rid = Some rec" "writable st h rec" and lock: "lock_free st h rid"
  obtains st' h' where "store_delete crc32 now expired rid (st, h) = Some (Ret (), st', h')" "calls st h st' h'"
    "versions st' = (versions st)(rid \<mapsto> stamp_bytes (th_id h) rec)"
    "page_count (bp_disk (st_pool st')) \<le> page_count (bp_disk (st_pool st)) + 1"
proof -
  have ok: "store_ok st" using rd by (simp add: ready_def store_good_def)
  obtain heap where hp: "st_page_heap st (rid_page rid) = Some heap" using rec(1) by (auto simp: versions_def split: if_splits)
  obtain st' h' where u: "store_delete crc32 now expired rid (st, h) = Some (Ret (), st', h')" "store_ok st'" "cl_kept st st'"
      "same_txn h h'" "delete_result rid h st (Ret ()) st'"
    using store_delete_spec [OF ok hp, of crc32 now expired h] rd rec lock by (auto simp: ready_def)
  have r: "aside st st'" "page_count (bp_disk (st_pool st')) \<le> page_count (bp_disk (st_pool st)) + 1" "locks_calm st h \<longrightarrow> locks_calm st' h"
      "versions st' = (versions st)(rid \<mapsto> stamp_bytes (th_id h) rec)"
    using u(5) rec(1) by (simp_all add: delete_result_def)
  have vs: "(vstep (th_id h))\<^sup>*\<^sup>* (versions st) (versions st')" using u(5) unfolding delete_result_def by blast
  have "calls st h st' h'" using ready_vsteps [OF rd u(2,3) vs] u(3,4) r(1,3) by (auto simp: calls_def locks_calm_def lock_free_def same_txnD)
  then show ?thesis using that u(1) r by blast
qed

end
