(* ===== verification/Kv.thy ===== *)
theory Kv
  imports Engine "HOL-Library.Multiset"
begin

text \<open>
  The key-value engine (\<open>prism-kv/src/lib.rs\<close>): a namespace is a heap of records, each holding
  a key and a value, and a B+tree from keys to the newest record of each key. Every operation is
  a sequence of calls of the index and of the record store.

  A transaction that meets no other writer sees the namespace as a map. The last two properties
  are about other writers: a writer that aborts leaves its keys unwritable, and storing a deleted
  key anew takes the old value away from the snapshots that still had it.
\<close>

section \<open>Operations\<close>

definition MAX_KEY_SIZE :: nat where [simp]: "MAX_KEY_SIZE = 1024"

datatype KvError = KvCore CoreError | KvIndex IndexError | KeyTooLarge nat | RangeNotSupported

definition kv_encode :: "bytes \<Rightarrow> bytes \<Rightarrow> bytes" where
  "kv_encode key val = to_le_bytes (word_of_nat (length key) :: u16) @ key @ val"

text \<open>\<open>u16::from_le_bytes([payload[0], payload[1]])\<close> of a payload of two bytes or more.\<close>

definition kv_key_len :: "bytes \<Rightarrow> nat" where
  "kv_key_len payload = unat (from_le_bytes (take 2 payload) :: u16)"

definition kv_decode_value :: "bytes \<Rightarrow> bytes" where
  "kv_decode_value payload =
     (if length payload < 2 then []
      else let key_len = kv_key_len payload in
        if 2 + key_len \<le> length payload then drop (2 + key_len) payload else [])"

record KvNamespace =
  kv_heap :: u64
  kv_index :: BTree

definition kv_create :: "(bytes \<Rightarrow> u32) \<Rightarrow> u64 \<Rightarrow> u64 \<Rightarrow> (KvError, KvNamespace) eng" where
  "kv_create crc32 now heap =
     eng_bind (on_index KvIndex (bt_create crc32 now (2 ^ 64 - 1))) (\<lambda>index. eng_ret \<lparr>kv_heap = heap, kv_index = index\<rparr>)"

definition kv_open :: "u64 \<Rightarrow> u64 \<Rightarrow> KvNamespace" where
  "kv_open heap index_root = \<lparr>kv_heap = heap, kv_index = bt_open index_root (2 ^ 64 - 1)\<rparr>"

definition kv_index_root :: "KvNamespace \<Rightarrow> u64" where
  "kv_index_root ns = bt_root (kv_index ns)"

definition kv_entry :: "bytes \<Rightarrow> (bytes \<times> bytes) option" where
  "kv_entry payload =
     (if length payload < 2 then None
      else let key_len = kv_key_len payload in
        Some (if 2 + key_len \<le> length payload then slice 2 key_len payload else [],
              if 2 + key_len \<le> length payload then drop (2 + key_len) payload else []))"

definition kv_entries :: "KvNamespace \<Rightarrow> (KvError, (bytes \<times> bytes) list) eng" where
  "kv_entries ns = eng_bind (on_store KvCore (store_scan (kv_heap ns))) (\<lambda>rows.
     eng_ret (List.map_filter (\<lambda>(_, payload). kv_entry payload) rows))"

definition kv_lookup :: "KvNamespace \<Rightarrow> bytes \<Rightarrow> (KvError, RecordId option) eng" where
  "kv_lookup ns key = on_index KvIndex (bt_search (kv_index ns) key)"

definition kv_get :: "KvNamespace \<Rightarrow> bytes \<Rightarrow> (KvError, bytes option) eng" where
  "kv_get ns key = eng_bind (kv_lookup ns key) (\<lambda>hit.
     case hit of
       None \<Rightarrow> eng_ret None
     | Some rid \<Rightarrow> eng_bind (on_store KvCore (store_read rid)) (\<lambda>payload. eng_ret (map_option kv_decode_value payload)))"

text \<open>The record that a put updates: the indexed one, if the transaction reads a value through it.\<close>

definition kv_target :: "RecordId option \<Rightarrow> (KvError, RecordId option) eng" where
  "kv_target hit = (case hit of
       None \<Rightarrow> eng_ret None
     | Some rid \<Rightarrow> eng_bind (on_store KvCore (store_read rid)) (\<lambda>payload. eng_ret (if payload \<noteq> None then Some rid else None)))"

definition kv_write :: "(bytes \<Rightarrow> u32) \<Rightarrow> u64 \<Rightarrow> bool \<Rightarrow> KvNamespace \<Rightarrow> bytes \<Rightarrow> RecordId option \<Rightarrow> (KvError, RecordId) eng" where
  "kv_write crc32 now expired ns payload target = (case target of
       Some rid \<Rightarrow> on_store KvCore (store_update crc32 now expired rid payload)
     | None \<Rightarrow> on_store KvCore (store_insert crc32 now (kv_heap ns) payload))"

definition kv_put :: "(bytes \<Rightarrow> u32) \<Rightarrow> u64 \<Rightarrow> bool \<Rightarrow> KvNamespace \<Rightarrow> bytes \<Rightarrow> bytes \<Rightarrow> (KvError, unit) eng" where
  "kv_put crc32 now expired ns key val =
     (if length key > MAX_KEY_SIZE then eng_fail (KeyTooLarge (length key))
      else
        eng_bind (kv_lookup ns key) (\<lambda>hit.
        eng_bind (kv_target hit) (\<lambda>target.
        eng_bind (kv_write crc32 now expired ns (kv_encode key val) target) (\<lambda>new_rid.
        on_index KvIndex (bt_insert crc32 now (kv_index ns) key new_rid)))))"

definition kv_delete :: "(bytes \<Rightarrow> u32) \<Rightarrow> u64 \<Rightarrow> bool \<Rightarrow> KvNamespace \<Rightarrow> bytes \<Rightarrow> (KvError, bool) eng" where
  "kv_delete crc32 now expired ns key =
     eng_bind (kv_lookup ns key) (\<lambda>hit.
       case hit of
         None \<Rightarrow> eng_ret False
       | Some rid \<Rightarrow> eng_bind (on_store KvCore (store_read rid)) (\<lambda>payload.
           if payload = None then eng_ret False
           else eng_bind (on_store KvCore (store_delete crc32 now expired rid)) (\<lambda>_. eng_ret True)))"

definition kv_put_if_absent :: "(bytes \<Rightarrow> u32) \<Rightarrow> u64 \<Rightarrow> bool \<Rightarrow> KvNamespace \<Rightarrow> bytes \<Rightarrow> bytes \<Rightarrow> (KvError, bool) eng" where
  "kv_put_if_absent crc32 now expired ns key val =
     eng_bind (kv_get ns key) (\<lambda>current.
       if current \<noteq> None then eng_ret False
       else eng_bind (kv_put crc32 now expired ns key val) (\<lambda>_. eng_ret True))"

definition kv_compare_and_set :: "(bytes \<Rightarrow> u32) \<Rightarrow> u64 \<Rightarrow> bool \<Rightarrow> KvNamespace \<Rightarrow> bytes \<Rightarrow> bytes \<Rightarrow> bytes \<Rightarrow> (KvError, bool) eng" where
  "kv_compare_and_set crc32 now expired ns key expected new =
     eng_bind (kv_get ns key) (\<lambda>current.
       if current = Some expected then eng_bind (kv_put crc32 now expired ns key new) (\<lambda>_. eng_ret True)
       else eng_ret False)"

lemma kv_payload:
  assumes "length key < 65536"
  shows "kv_entry (kv_encode key val) = Some (key, val)" and "kv_decode_value (kv_encode key val) = val"
    and "length (kv_encode key val) = 2 + length key + length val"
  using assms by (simp_all add: kv_entry_def kv_decode_value_def kv_key_len_def kv_encode_def slice_def unat_small_u16)

section \<open>A heap without other writers\<close>

text \<open>The versions of one heap, and the row that a version holds for everyone who sees its writers.\<close>

definition heap_rows :: "RecordStore \<Rightarrow> u64 \<Rightarrow> version_map" where
  "heap_rows st heap = (\<lambda>rid. if st_page_heap st (rid_page rid) = Some heap then versions st rid else None)"

definition row :: "version_map \<Rightarrow> RecordId \<Rightarrow> bytes option" where
  "row hv rid = visible_row (\<lambda>header. xmax header = NO_TXN) (hv rid)"

definition superseded :: "version_map \<Rightarrow> RecordId \<Rightarrow> bool" where
  "superseded hv r \<longleftrightarrow> (\<exists>rec header. hv r = Some rec \<and> header_decode rec = Some header \<and> xmax header \<noteq> NO_TXN)"

text \<open>Every writer is seen, and a version with a newer one is stamped.\<close>

definition clean :: "version_map \<Rightarrow> (txn_id \<Rightarrow> bool) \<Rightarrow> bool" where
  "clean hv vis \<longleftrightarrow> (\<forall>r rec. hv r = Some rec \<longrightarrow> (\<exists>header. header_decode rec = Some header \<and> vis (xmin header) \<and>
     (xmax header = NO_TXN \<or> vis (xmax header)) \<and> (\<forall>r'. prev_version header = Some r' \<longrightarrow> superseded hv r')))"

definition sight :: "RecordStore \<Rightarrow> TxnHandle \<Rightarrow> txn_id \<Rightarrow> bool" where
  "sight st h t = effect_visible t (th_snapshot h) (tm_commit_log (st_txns st))"

lemma sight_own: "active h \<Longrightarrow> sight st h (th_id h)"
  by (simp add: sight_def active_def own_effect_visible)

lemma sight_cl: "cl_kept st st' \<Longrightarrow> same_txn h h' \<Longrightarrow> sight st' h' = sight st h"
  by (rule ext) (simp add: sight_def cl_kept_def same_txnD)

lemma clean_mono: "clean hv vis \<Longrightarrow> (\<And>t. vis t \<Longrightarrow> vis' t) \<Longrightarrow> clean hv vis'"
  unfolding clean_def by meson

lemma cleanD:
  assumes "clean hv vis" and "hv r = Some rec"
  obtains header where "header_decode rec = Some header" "24 \<le> length rec" "vis (xmin header)" "xmax header = NO_TXN \<or> vis (xmax header)"
    "\<And>r'. prev_version header = Some r' \<Longrightarrow> superseded hv r'"
  using assms decode_length unfolding clean_def by metis

lemma superseded_stamp: "hv r = Some rec \<Longrightarrow> 24 \<le> length rec \<Longrightarrow> t \<noteq> NO_TXN \<Longrightarrow> superseded (hv(r \<mapsto> stamp_bytes t rec)) r"
  using stamp_bytes_decode(2) [of rec t] by (cases "header_decode rec") (auto simp: superseded_def)

lemma superseded_kept:
  assumes "superseded hv q" and "hv r = Some rec" and "24 \<le> length rec" and "t \<noteq> NO_TXN"
  shows "superseded (hv(r \<mapsto> stamp_bytes t rec)) q"
  using assms superseded_stamp [where hv = hv and r = r, OF assms(2-4)] by (cases "q = r") (auto simp: superseded_def)

lemma clean_stamp:
  assumes c: "clean hv vis" and r: "hv r = Some rec" and t: "vis t" "t \<noteq> NO_TXN"
  shows "clean (hv(r \<mapsto> stamp_bytes t rec)) vis"
proof -
  obtain hdr where hdr: "header_decode rec = Some hdr" "24 \<le> length rec" "vis (xmin hdr)"
      "\<And>r'. prev_version hdr = Some r' \<Longrightarrow> superseded hv r'" by (rule cleanD [OF c r]) blast
  have kept: "superseded (hv(r \<mapsto> stamp_bytes t rec)) q" if "superseded hv q" for q
    using superseded_kept [OF that r hdr(2) t(2)] .
  have "header_decode (stamp_bytes t rec) = Some (hdr\<lparr>xmax := t\<rparr>)" using stamp_bytes_decode(2) [OF hdr(2)] hdr(1) by simp
  then have "\<exists>header. header_decode (stamp_bytes t rec) = Some header \<and> vis (xmin header) \<and> (xmax header = NO_TXN \<or> vis (xmax header)) \<and>
      (\<forall>r'. prev_version header = Some r' \<longrightarrow> superseded (hv(r \<mapsto> stamp_bytes t rec)) r')"
    using hdr(3,4) kept t(1) by (intro exI [of _ "hdr\<lparr>xmax := t\<rparr>"]) simp
  then show ?thesis using c kept unfolding clean_def by (metis fun_upd_other fun_upd_same option.inject)
qed

lemma clean_add:
  assumes c: "clean hv vis" and r: "hv r = None" and t: "vis t" and prev: "\<And>q. prev = Some q \<Longrightarrow> rid6_ok q \<and> superseded hv q"
  shows "clean (hv(r \<mapsto> version_bytes t prev payload)) vis"
proof -
  have kept: "superseded (hv(r \<mapsto> version_bytes t prev payload)) q" if "superseded hv q" for q
    using that r by (auto simp: superseded_def)
  obtain header where "header_decode (version_bytes t prev payload) = Some header" "xmin header = t" "xmax header = 0" "prev_version header = prev"
    using version_bytes_decode(1) [of prev t payload] prev by blast
  then have "\<exists>header. header_decode (version_bytes t prev payload) = Some header \<and> vis (xmin header) \<and> (xmax header = NO_TXN \<or> vis (xmax header)) \<and>
      (\<forall>r'. prev_version header = Some r' \<longrightarrow> superseded (hv(r \<mapsto> version_bytes t prev payload)) r')"
    using t prev kept by auto
  then show ?thesis using c kept unfolding clean_def by (metis fun_upd_other fun_upd_same option.inject)
qed

lemma row_new:
  assumes "\<And>q. prev = Some q \<Longrightarrow> rid6_ok q"
  shows "row (hv(r \<mapsto> version_bytes t prev payload)) r = Some payload"
  using version_bytes_decode [of prev t payload] assms by (auto simp: row_def visible_row_def)

lemma row_superseded: "superseded hv r \<Longrightarrow> row hv r = None"
  by (auto simp: superseded_def row_def visible_row_def)

lemma row_other [simp]: "q \<noteq> r \<Longrightarrow> row (hv(r \<mapsto> x)) q = row hv q"
  by (simp add: row_def)

lemma row_Some:
  assumes "row hv r = Some p"
  obtains rec header where "hv r = Some rec" "header_decode rec = Some header" "xmax header = NO_TXN" "p = drop 24 rec"
  using assms by (auto simp: row_def visible_row_def bind_eq_Some_conv split: option.splits if_splits)

text \<open>With no other writers, a read needs only the newest version.\<close>

lemma clean_read:
  assumes c: "clean hv vis" and sub: "\<And>r rec. hv r = Some rec \<Longrightarrow> vs r = Some rec"
    and see: "\<And>header. see header \<longleftrightarrow> vis (xmin header) \<and> \<not> vis (xmax header)" and z: "\<not> vis NO_TXN"
  shows "hv r \<noteq> None \<Longrightarrow> chain_read n vs see r = Some v \<Longrightarrow> v = row hv r"
proof (induction n arbitrary: r)
  case (Suc n)
  obtain rec where rec: "hv r = Some rec" using Suc.prems(1) by blast
  obtain header where hd': "header_decode rec = Some header" "vis (xmin header)" "xmax header = NO_TXN \<or> vis (xmax header)"
      "\<And>r'. prev_version header = Some r' \<Longrightarrow> superseded hv r'" by (rule cleanD [OF c rec]) blast
  have s: "see header \<longleftrightarrow> xmax header = NO_TXN" using see hd'(2,3) z by metis
  show ?case
  proof (cases "see header")
    case True
    then show ?thesis using Suc.prems(2) hd'(1) rec sub [OF rec] s by (auto simp: chain_step_def row_def visible_row_def)
  next
    case False
    then have none: "row hv r = None" using s rec hd'(1) by (simp add: row_def visible_row_def)
    show ?thesis
    proof (cases "prev_version header")
      case None
      then show ?thesis using Suc.prems(2) hd'(1) sub [OF rec] False none by (simp add: chain_step_def)
    next
      case (Some q)
      have "superseded hv q" using hd'(4) [OF Some] .
      then have "row hv q = None" "hv q \<noteq> None" using row_superseded by (auto simp: superseded_def)
      then show ?thesis using Suc.IH [of q] Suc.prems(2) hd'(1) sub [OF rec] False Some none by (simp add: chain_step_def)
    qed
  qed
qed simp

lemma clean_writable:
  assumes "clean hv (sight st h)" and "row hv r = Some p" and "hv r = Some rec"
  shows "writable st h rec"
proof -
  obtain header where hd': "header_decode rec = Some header" "xmax header = NO_TXN" using assms(2,3) by (auto elim: row_Some)
  moreover have "sight st h (xmin header)" using assms(1,3) hd'(1) unfolding clean_def by force
  ultimately show ?thesis by (simp add: writable_def sees_iff sight_def is_deleted_def)
qed

section \<open>A namespace in a transaction\<close>

definition filed :: "entry_list \<Rightarrow> version_map \<Rightarrow> bool" where
  "filed es hv \<longleftrightarrow>
     (\<forall>k rid. map_of es k = Some rid \<longrightarrow> length k < 65536 \<and> (\<exists>rec v. hv rid = Some rec \<and> drop 24 rec = kv_encode k v)) \<and>
     (\<forall>rid p. row hv rid = Some p \<longrightarrow> (\<exists>k. map_of es k = Some rid))"

definition kv_map :: "entry_list \<Rightarrow> version_map \<Rightarrow> bytes \<rightharpoonup> bytes" where
  "kv_map es hv k = Option.bind (map_of es k) (\<lambda>rid. map_option kv_decode_value (row hv rid))"

definition kv_state :: "KvNamespace \<Rightarrow> RecordStore \<Rightarrow> TxnHandle \<Rightarrow> entry_list \<Rightarrow> bool" where
  "kv_state ns st h es \<longleftrightarrow> ready st \<and> active h \<and> locks_calm st h \<and> (\<exists>S. has_index st (kv_index ns) S es) \<and>
     clean (heap_rows st (kv_heap ns)) (sight st h) \<and> filed es (heap_rows st (kv_heap ns))"

lemma filedD:
  assumes "filed es hv" and "map_of es k = Some rid"
  obtains rec v where "hv rid = Some rec" "drop 24 rec = kv_encode k v" "length k < 65536"
  using assms unfolding filed_def by blast

lemma kv_encode_inj:
  assumes e: "kv_encode k v = kv_encode k' v'" and k: "length k < 65536" and k': "length k' < 65536"
  shows "k = k'"
proof -
  have "kv_entry (kv_encode k v) = Some (k', v')" unfolding e by (rule kv_payload(1) [OF k'])
  then show ?thesis unfolding kv_payload(1) [OF k] by blast
qed

lemma filed_inj:
  assumes f: "filed es hv" and a: "map_of es k = Some rid" and b: "map_of es k' = Some rid"
  shows "k = k'"
proof -
  obtain rec v where r: "hv rid = Some rec" "drop 24 rec = kv_encode k v" "length k < 65536" by (rule filedD [OF f a])
  obtain rec' v' where r': "hv rid = Some rec'" "drop 24 rec' = kv_encode k' v'" "length k' < 65536" by (rule filedD [OF f b])
  have "kv_encode k v = kv_encode k' v'" unfolding r(2) [symmetric] r'(2) [symmetric] using r(1) r'(1) by simp
  then show ?thesis by (rule kv_encode_inj [OF _ r(3) r'(3)])
qed

lemma filed_row:
  assumes "filed es hv" and "map_of es k = Some rid" and "row hv rid = Some p"
  obtains v where "p = kv_encode k v" "kv_map es hv k = Some v" "length k < 65536"
proof -
  obtain rec v where r: "hv rid = Some rec" "drop 24 rec = kv_encode k v" "length k < 65536" by (rule filedD [OF assms(1,2)])
  have "p = kv_encode k v" using assms(3) r(1,2) by (auto elim: row_Some)
  then show ?thesis using that assms(2,3) r(3) kv_payload(2) [OF r(3)] by (simp add: kv_map_def)
qed

text \<open>Storing a value: the old version is stamped, if the key had a value, and the index points to the new one.\<close>

lemma filed_put:
  assumes f: "filed es hv" and k: "length k < 65536" and m: "map_of es' = (map_of es)(k \<mapsto> new)" and new: "hv new = None"
    and prev: "\<And>q. prev = Some q \<Longrightarrow> rid6_ok q"
    and hv': "hv' = hv(new \<mapsto> version_bytes t prev (kv_encode k v)) \<or>
      (\<exists>rid rec. map_of es k = Some rid \<and> hv rid = Some rec \<and> t \<noteq> NO_TXN \<and>
         hv' = hv(new \<mapsto> version_bytes t prev (kv_encode k v), rid \<mapsto> stamp_bytes t rec))"
    and gone: "\<And>rid. map_of es k = Some rid \<Longrightarrow> row hv' rid = None"
  shows "filed es' hv'" and "kv_map es' hv' = (kv_map es hv)(k \<mapsto> v)"
proof -
  have row_new': "row hv' new = Some (kv_encode k v)" and at_new: "\<exists>rec. hv' new = Some rec \<and> drop 24 rec = kv_encode k v"
  proof -
    have rn: "row (hv(new \<mapsto> version_bytes t prev (kv_encode k v))) new = Some (kv_encode k v)" by (rule row_new [OF prev])
    have ne: "new \<noteq> rid" if "hv rid = Some rec" for rid rec using new that by auto
    show "row hv' new = Some (kv_encode k v)" using hv' rn ne by (elim disjE exE conjE) simp_all
    show "\<exists>rec. hv' new = Some rec \<and> drop 24 rec = kv_encode k v"
      using hv' ne version_bytes_decode(2) [of prev t "kv_encode k v", OF prev] by (elim disjE exE conjE) simp_all
  qed
  have old: "row hv' r = row hv r" if "r \<noteq> new" "map_of es k \<noteq> Some r" for r using hv' that by auto
  have some: "\<exists>rec'. hv' r = Some rec' \<and> drop 24 rec' = drop 24 rec" if "hv r = Some rec" "r \<noteq> new" "map_of es k \<noteq> Some r" for r rec
    using hv' that by auto
  have keep: "r \<noteq> new" "map_of es k \<noteq> Some r" if e: "map_of es k' = Some r" and n: "k' \<noteq> k" for k' r
  proof -
    obtain rec where "hv r = Some rec" by (rule filedD [OF f e])
    then show "r \<noteq> new" using new by auto
    show "map_of es k \<noteq> Some r" using filed_inj [OF f e] n by blast
  qed
  show "filed es' hv'" unfolding filed_def
  proof (intro conjI allI impI)
    fix k' rid assume a: "map_of es' k' = Some rid"
    show "length k' < 65536" using a m k f by (auto simp: filed_def split: if_splits)
    show "\<exists>rec v. hv' rid = Some rec \<and> drop 24 rec = kv_encode k' v"
    proof (cases "k' = k")
      case True
      then show ?thesis using a m at_new by auto
    next
      case False
      then have e: "map_of es k' = Some rid" using a m by simp
      obtain rec v' where "hv rid = Some rec" "drop 24 rec = kv_encode k' v'" by (rule filedD [OF f e])
      then show ?thesis using some [OF _ keep [OF e False]] by force
    qed
  next
    fix rid p assume r: "row hv' rid = Some p"
    show "\<exists>k'. map_of es' k' = Some rid"
    proof (cases "rid = new")
      case False
      have ne: "map_of es k \<noteq> Some rid" using gone r by force
      then have "row hv rid = Some p" using old [OF False] r by simp
      then obtain k' where "map_of es k' = Some rid" using f by (auto simp: filed_def)
      then show ?thesis using ne m by (auto intro!: exI [of _ k'])
    qed (use m in auto)
  qed
  show "kv_map es' hv' = (kv_map es hv)(k \<mapsto> v)"
  proof
    fix k'
    show "kv_map es' hv' k' = ((kv_map es hv)(k \<mapsto> v)) k'"
      using m row_new' kv_payload(2) [OF k, of v] keep [of k'] old by (cases "k' = k"; cases "map_of es k'") (simp_all add: kv_map_def)
  qed
qed

lemma filed_remove:
  assumes f: "filed es hv" and e: "map_of es k = Some rid" and rec: "hv rid = Some rec" "24 \<le> length rec" and t: "t \<noteq> NO_TXN"
  defines "hv' \<equiv> hv(rid \<mapsto> stamp_bytes t rec)"
  shows "filed es hv'" and "kv_map es hv' = (kv_map es hv)(k := None)"
proof -
  have gone: "row hv' rid = None" unfolding hv'_def by (rule row_superseded [OF superseded_stamp [where hv = hv and r = rid, OF rec t]])
  have row': "row hv' r = Some p \<longleftrightarrow> r \<noteq> rid \<and> row hv r = Some p" for r p using gone by (cases "r = rid") (auto simp: hv'_def)
  have same: "\<exists>rec'. hv' r = Some rec' \<and> drop 24 rec' = drop 24 q" if "hv r = Some q" for r q
    using that rec stamp_bytes_decode(3) [OF rec(2)] by (auto simp: hv'_def)
  show "filed es hv'" unfolding filed_def
  proof (intro conjI allI impI)
    fix k' r assume a: "map_of es k' = Some r"
    obtain q v where "hv r = Some q" "drop 24 q = kv_encode k' v" "length k' < 65536" by (rule filedD [OF f a])
    then show "length k' < 65536" "\<exists>rec v. hv' r = Some rec \<and> drop 24 rec = kv_encode k' v" using same by force+
  qed (use f row' in \<open>auto simp: filed_def\<close>)
  show "kv_map es hv' = (kv_map es hv)(k := None)"
  proof
    fix k'
    have "r \<noteq> rid" if "map_of es k' = Some r" "k' \<noteq> k" for r using filed_inj [OF f _ e] that by blast
    then show "kv_map es hv' k' = ((kv_map es hv)(k := None)) k'"
      using e gone by (cases "k' = k"; cases "map_of es k'") (auto simp: kv_map_def hv'_def)
  qed
qed

lemma heap_rows_kept:
  assumes "cl_kept st st'" and "versions st' = versions st"
  shows "heap_rows st' heap = heap_rows st heap"
proof
  fix r
  have hp: "st_page_heap st (rid_page r) \<noteq> None" if "versions st r \<noteq> None" using that by (auto simp: versions_def split: if_splits)
  show "heap_rows st' heap r = heap_rows st heap r"
    using hp assms by (cases "versions st r") (auto simp: heap_rows_def cl_kept_def)
qed

lemma heap_rows_sub: "heap_rows st heap r = Some rec \<Longrightarrow> versions st r = Some rec"
  by (simp add: heap_rows_def split: if_splits)

lemma heap_rows_insert:
  assumes "cl_kept st st'" and "versions st' = (versions st)(rid \<mapsto> x)" and "st_page_heap st' (rid_page rid) = Some heap"
  shows "heap_rows st' heap = (heap_rows st heap)(rid \<mapsto> x)"
proof
  fix r
  have "st_page_heap st (rid_page r) \<noteq> None" if "versions st r \<noteq> None" using that by (auto simp: versions_def split: if_splits)
  then show "heap_rows st' heap r = ((heap_rows st heap)(rid \<mapsto> x)) r"
    using assms by (cases "r = rid"; cases "versions st r") (auto simp: heap_rows_def cl_kept_def)
qed

lemma heap_rows_page:
  assumes "ready st" and "heap_rows st heap r = Some rec" and "page_count (bp_disk (st_pool st)) < 2 ^ 32"
  shows "rid6_ok r" and "st_page_heap st (rid_page r) = Some heap"
proof -
  show hp: "st_page_heap st (rid_page r) = Some heap" using assms(2) by (simp add: heap_rows_def split: if_splits)
  have "store_ok st" using assms(1) by (simp add: ready_def store_good_def)
  then have "unat (rid_page r) < page_count (bp_disk (st_pool st))" by (rule heap_page_versions [OF _ hp])
  then show "rid6_ok r" using assms(3) by (simp add: rid6_ok_def)
qed

text \<open>Calls that keep the versions keep the state of the namespace.\<close>

definition kv_kept :: "KvNamespace \<Rightarrow> RecordStore \<Rightarrow> TxnHandle \<Rightarrow> RecordStore \<Rightarrow> entry_list \<Rightarrow> bool" where
  "kv_kept ns st h st' es \<longleftrightarrow> kv_state ns st' h es \<and> cl_kept st st' \<and> heap_rows st' (kv_heap ns) = heap_rows st (kv_heap ns) \<and>
     page_count (bp_disk (st_pool st')) = page_count (bp_disk (st_pool st))"

lemma kv_keptI:
  assumes s: "kv_state ns st h es" and c: "calls st h st' h" and v: "versions st' = versions st"
    and "page_count (bp_disk (st_pool st')) = page_count (bp_disk (st_pool st))"
  shows "kv_kept ns st h st' es"
proof -
  have rows: "heap_rows st' (kv_heap ns) = heap_rows st (kv_heap ns)" by (rule heap_rows_kept [OF callsD(2) [OF c] v])
  have "sight st' h = sight st h" using sight_cl [OF callsD(2) [OF c] same_txn_refl] .
  then show ?thesis using s assms(4) callsD [OF c] rows has_index_aside [OF _ callsD(4) [OF c]] by (auto simp: kv_kept_def kv_state_def)
qed

lemma kv_kept_trans: "kv_kept ns st h st1 es \<Longrightarrow> kv_kept ns st1 h st2 es \<Longrightarrow> kv_kept ns st h st2 es"
  using cl_kept_trans by (auto simp: kv_kept_def)

lemma kv_lookup_spec:
  assumes s: "kv_state ns st h es"
  obtains st' where "kv_lookup ns key (st, h) = Some (Done (map_of es key), st', h)" "kv_kept ns st h st' es"
proof -
  obtain S where S: "ready st" "has_index st (kv_index ns) S es" using s by (auto simp: kv_state_def)
  obtain st' where st': "on_index KvIndex (bt_search (kv_index ns) key) (st, h) = Some (Done (map_of es key), st', h)" "calls st h st' h"
      "versions st' = versions st" "page_count (bp_disk (st_pool st')) = page_count (bp_disk (st_pool st))" by (rule index_search [OF S])
  show ?thesis using that st'(1) kv_keptI [OF s st'(2-4)] by (simp add: kv_lookup_def)
qed

lemma kv_read_spec:
  assumes s: "kv_state ns st h es" and e: "map_of es key = Some rid"
  obtains st' where "on_store KvCore (store_read rid) (st, h) = Some (Done (row (heap_rows st (kv_heap ns)) rid), st', h)" "kv_kept ns st h st' es"
proof -
  let ?hv = "heap_rows st (kv_heap ns)"
  have c: "clean ?hv (sight st h)" and f: "filed es ?hv" and rd: "ready st" using s by (simp_all add: kv_state_def)
  obtain rec where rec: "?hv rid = Some rec" by (rule filedD [OF f e])
  then have "versions st rid \<noteq> None" using heap_rows_sub by blast
  then obtain v n st' where r: "store_read rid (st, h) = Some (Ret v, st', h)" "chain_read n (versions st) (sees st h) rid = Some v" "calls st h st' h"
      "versions st' = versions st" "page_count (bp_disk (st_pool st')) = page_count (bp_disk (st_pool st))" by (rule ready_read [OF rd])
  have "v = row ?hv rid"
    by (rule clean_read [OF c heap_rows_sub _ _ _ r(2)]) (use rec in \<open>simp_all add: sees_iff sight_def\<close>)
  then show ?thesis using that on_store_simps(1) [where m = "store_read rid", OF r(1)] kv_keptI [OF s r(3-5)] by metis
qed

lemma kv_get_spec:
  assumes s: "kv_state ns st h es"
  obtains st' where "kv_get ns key (st, h) = Some (Done (kv_map es (heap_rows st (kv_heap ns)) key), st', h)" "kv_kept ns st h st' es"
proof -
  obtain st1 where 1: "kv_lookup ns key (st, h) = Some (Done (map_of es key), st1, h)" "kv_kept ns st h st1 es" by (rule kv_lookup_spec [OF s])
  show ?thesis
  proof (cases "map_of es key")
    case None
    then show ?thesis using that [OF _ 1(2)] 1(1) by (simp add: kv_get_def eng_bind_cases(1) kv_map_def)
  next
    case (Some rid)
    have s1: "kv_state ns st1 h es" and rows: "heap_rows st1 (kv_heap ns) = heap_rows st (kv_heap ns)" using 1(2) by (simp_all add: kv_kept_def)
    obtain st2 where 2: "on_store KvCore (store_read rid) (st1, h) = Some (Done (row (heap_rows st1 (kv_heap ns)) rid), st2, h)" "kv_kept ns st1 h st2 es"
      by (rule kv_read_spec [OF s1 Some])
    have "kv_kept ns st h st2 es" by (rule kv_kept_trans [OF 1(2) 2(2)])
    then show ?thesis using that 1(1) 2(1) Some rows by (simp add: kv_get_def eng_bind_cases(1) kv_map_def)
  qed
qed

text \<open>What an operation leaves: the namespace as the map \<open>m\<close>, with at most \<open>k\<close> new pages.\<close>

definition kv_step :: "nat \<Rightarrow> KvNamespace \<Rightarrow> RecordStore \<Rightarrow> TxnHandle \<Rightarrow> RecordStore \<Rightarrow> TxnHandle \<Rightarrow> (bytes \<rightharpoonup> bytes) \<Rightarrow> bool" where
  "kv_step k ns st h st' h' m \<longleftrightarrow> (\<exists>es. kv_state ns st' h' es \<and> kv_map es (heap_rows st' (kv_heap ns)) = m) \<and> cl_kept st st' \<and> same_txn h h' \<and>
     page_count (bp_disk (st_pool st')) \<le> page_count (bp_disk (st_pool st)) + k"

lemma kv_kept_step: "kv_kept ns st h st' es \<Longrightarrow> kv_step k ns st h st' h (kv_map es (heap_rows st (kv_heap ns)))"
  by (auto simp: kv_kept_def kv_step_def)

lemma kv_kept_then_step:
  assumes "kv_kept ns st h st1 es" and "kv_step k ns st1 h st2 h2 m"
  shows "kv_step k ns st h st2 h2 m"
  using assms cl_kept_trans [of st st1 st2] by (auto simp: kv_kept_def kv_step_def)

text \<open>
  The versions after a put: a key without a value gets a version of its own, chained to nothing;
  otherwise the new version is chained to the old one, which is stamped.
\<close>

definition put_effect :: "KvNamespace \<Rightarrow> bytes \<Rightarrow> bytes \<Rightarrow> entry_list \<Rightarrow> version_map \<Rightarrow> RecordStore \<Rightarrow> TxnHandle \<Rightarrow> bool" where
  "put_effect ns key val es hv st h \<longleftrightarrow> (\<exists>new es'. kv_state ns st h es' \<and> map_of es' key = Some new \<and> hv new = None \<and>
     (if kv_map es hv key = None
      then heap_rows st (kv_heap ns) = hv(new \<mapsto> version_bytes (th_id h) None (kv_encode key val))
      else \<exists>rid rec. map_of es key = Some rid \<and> row hv rid \<noteq> None \<and> hv rid = Some rec \<and> rid6_ok rid \<and>
        heap_rows st (kv_heap ns) = hv(new \<mapsto> version_bytes (th_id h) (Some rid) (kv_encode key val), rid \<mapsto> stamp_bytes (th_id h) rec)))"

text \<open>The index is pointed to the new version.\<close>

lemma kv_point:
  assumes ix: "ready st" "has_index st (kv_index ns) S es" and a: "active h" "locks_calm st h" "clean (heap_rows st (kv_heap ns)) (sight st h)"
    and f: "filed (upsert es key new) (heap_rows st (kv_heap ns))" and key: "short key" "page_count (bp_disk (st_pool st)) + 66 < 2 ^ 64"
  obtains st' where "on_index KvIndex (bt_insert crc32 now (kv_index ns) key new) (st, h) = Some (Done (), st', h)"
    "kv_step 66 ns st h st' h (kv_map (upsert es key new) (heap_rows st (kv_heap ns)))"
    "kv_state ns st' h (upsert es key new)" "heap_rows st' (kv_heap ns) = heap_rows st (kv_heap ns)"
proof -
  obtain st' S' where i: "on_index KvIndex (bt_insert crc32 now (kv_index ns) key new) (st, h) = Some (Done (), st', h)" "ready st'" "txns_kept st st'"
    "versions st' = versions st" "has_index st' (kv_index ns) S' (upsert es key new)" "page_count (bp_disk (st_pool st')) \<le> page_count (bp_disk (st_pool st)) + 66"
    by (rule index_insert [OF ix key])
  have cl: "cl_kept st st'" by (rule txns_kept_cl [OF i(3)])
  have "kv_state ns st' h (upsert es key new)" "heap_rows st' (kv_heap ns) = heap_rows st (kv_heap ns)"
    using i(2,5) a f heap_rows_kept [OF cl i(4)] sight_cl [OF cl same_txn_refl] txns_kept_calm [OF i(3) same_txn_refl] by (auto simp: kv_state_def)
  then show ?thesis using that [OF i(1)] cl i(6) by (auto simp: kv_step_def)
qed

lemma kv_stateD:
  assumes "kv_state ns st h es"
  obtains S where "ready st" "active h" "locks_calm st h" "has_index st (kv_index ns) S es" "clean (heap_rows st (kv_heap ns)) (sight st h)"
    "filed es (heap_rows st (kv_heap ns))" "\<And>k r. map_of (upsert es k r) = (map_of es)(k \<mapsto> r)"
  using assms index_at_increasing upsert_increasing(3) unfolding kv_state_def has_index_def by metis

lemma short_length: "short key \<Longrightarrow> length key < 65536"
  by (simp add: short_def)

lemma kv_put_new:
  assumes s: "kv_state ns st h es" and key: "short key" and len: "length key + length val \<le> 8130"
    and cnt: "page_count (bp_disk (st_pool st)) + 67 < 2 ^ 64" and gone: "\<And>rid. map_of es key = Some rid \<Longrightarrow> row (heap_rows st (kv_heap ns)) rid = None"
  obtains st' h' where "eng_bind (kv_write crc32 now expired ns (kv_encode key val) None)
      (\<lambda>new. on_index KvIndex (bt_insert crc32 now (kv_index ns) key new)) (st, h) = Some (Done (), st', h')"
    "kv_step 67 ns st h st' h' ((kv_map es (heap_rows st (kv_heap ns)))(key \<mapsto> val))" "put_effect ns key val es (heap_rows st (kv_heap ns)) st' h'"
proof -
  let ?hv = "heap_rows st (kv_heap ns)"
  obtain S where S: "ready st" "active h" "locks_calm st h" "has_index st (kv_index ns) S es" "clean ?hv (sight st h)" "filed es ?hv"
    "\<And>k r. map_of (upsert es k r) = (map_of es)(k \<mapsto> r)" by (rule kv_stateD [OF s]) blast
  have pl: "length (kv_encode key val) \<le> 8132" using len kv_payload(3) [OF short_length [OF key], of val] by simp
  have c64: "page_count (bp_disk (st_pool st)) < 2 ^ 64" using cnt by simp
  obtain new st1 h1 where i: "store_insert crc32 now (kv_heap ns) (kv_encode key val) (st, h) = Some (Ret new, st1, h1)" "calls st h st1 h1"
    "versions st new = None" "versions st1 = (versions st)(new \<mapsto> version_bytes (th_id h) None (kv_encode key val))"
    "st_page_heap st1 (rid_page new) = Some (kv_heap ns)" "page_count (bp_disk (st_pool st1)) \<le> page_count (bp_disk (st_pool st)) + 1"
    by (rule ready_insert [OF S(1) c64 pl])
  let ?hv1 = "?hv(new \<mapsto> version_bytes (th_id h) None (kv_encode key val))"
  have rows: "heap_rows st1 (kv_heap ns) = ?hv1" by (rule heap_rows_insert [OF callsD(2) [OF i(2)] i(4,5)])
  have fresh: "?hv new = None" using i(3) by (simp add: heap_rows_def)
  have sg: "sight st1 h1 = sight st h" by (rule sight_cl [OF callsD(2,3) [OF i(2)]])
  have cl: "clean ?hv1 (sight st h)" by (rule clean_add [OF S(5) fresh sight_own [OF S(2)]]) simp
  have out: "row ?hv1 rid = None" if "map_of es key = Some rid" for rid
  proof -
    have "?hv rid \<noteq> None" using filedD [OF S(6) \<open>map_of es key = Some rid\<close>] by (metis option.distinct(1))
    then have "rid \<noteq> new" using fresh by auto
    then show ?thesis using gone [OF \<open>map_of es key = Some rid\<close>] by simp
  qed
  have f: "filed (upsert es key new) ?hv1" "kv_map (upsert es key new) ?hv1 = (kv_map es ?hv)(key \<mapsto> val)"
    by (rule filed_put [OF S(6) short_length [OF key] S(7) fresh, where prev = None]; use out in blast)+
  have pc: "page_count (bp_disk (st_pool st1)) + 66 < 2 ^ 64" using i(6) cnt by simp
  obtain st2 where 2: "on_index KvIndex (bt_insert crc32 now (kv_index ns) key new) (st1, h1) = Some (Done (), st2, h1)"
    "kv_step 66 ns st1 h1 st2 h1 (kv_map (upsert es key new) (heap_rows st1 (kv_heap ns)))" "kv_state ns st2 h1 (upsert es key new)"
    "heap_rows st2 (kv_heap ns) = heap_rows st1 (kv_heap ns)"
    by (rule kv_point [where new = new, OF callsD(1) [OF i(2)] has_index_aside [OF S(4) callsD(4) [OF i(2)]] active_same [OF callsD(3) [OF i(2)] S(2)]
          callsD(5) [OF i(2) S(3)] _ _ key pc]) (use rows sg cl f(1) in simp_all)
  have "kv_step 67 ns st h st2 h1 ((kv_map es ?hv)(key \<mapsto> val))"
    using 2(2) i(6) callsD(2,3) [OF i(2)] cl_kept_trans [of st st1 st2] rows f(2) by (auto simp: kv_step_def)
  moreover have "kv_map es ?hv key = None" using gone by (cases "map_of es key") (simp_all add: kv_map_def)
  then have "put_effect ns key val es ?hv st2 h1"
    using 2(3,4) rows fresh same_txnD(1) [OF callsD(3) [OF i(2)]] S(7) unfolding put_effect_def by (intro exI [of _ new] exI [of _ "upsert es key new"]) simp
  ultimately show ?thesis using that 2(1) on_store_simps(1) [where m = "store_insert crc32 now (kv_heap ns) (kv_encode key val)" and conv = KvCore, OF i(1)]
    by (simp add: kv_write_def eng_bind_cases(1))
qed

lemma heap_rows_update:
  assumes "cl_kept st st'" and "versions st' = (versions st)(new \<mapsto> x, rid \<mapsto> y)" and "st_page_heap st' (rid_page new) = Some heap"
    and "st_page_heap st (rid_page rid) = Some heap"
  shows "heap_rows st' heap = (heap_rows st heap)(new \<mapsto> x, rid \<mapsto> y)"
proof
  fix q
  have "st_page_heap st (rid_page q) \<noteq> None" if "versions st q \<noteq> None" using that by (auto simp: versions_def split: if_splits)
  then show "heap_rows st' heap q = ((heap_rows st heap)(new \<mapsto> x, rid \<mapsto> y)) q"
    using assms by (cases "q = new"; cases "q = rid"; cases "versions st q") (auto simp: heap_rows_def cl_kept_def)
qed

lemma clean_update:
  fixes payload :: bytes
  assumes c: "clean hv vis" and r: "hv r = Some rec" "24 \<le> length rec" "rid6_ok r" and t: "vis t" "t \<noteq> NO_TXN" and new: "hv new = None"
  defines "hv' \<equiv> hv(new \<mapsto> version_bytes t (Some r) payload, r \<mapsto> stamp_bytes t rec)"
  shows "clean hv' vis" and "row hv' r = None"
proof -
  have ne: "new \<noteq> r" using r(1) new by auto
  have "clean (hv(r \<mapsto> stamp_bytes t rec)) vis" by (rule clean_stamp [where hv = hv and r = r, OF c r(1) t])
  then have "clean (hv(r \<mapsto> stamp_bytes t rec, new \<mapsto> version_bytes t (Some r) payload)) vis"
    by (rule clean_add) (use ne new t r(3) superseded_stamp [where hv = hv and r = r, OF r(1,2) t(2)] in auto)
  then show "clean hv' vis" by (simp add: hv'_def fun_upd_twist [OF ne])
  have "superseded hv' r" unfolding hv'_def by (rule superseded_stamp) (use r(1,2) t(2) ne in auto)
  then show "row hv' r = None" by (rule row_superseded)
qed

lemma kv_live:
  assumes s: "kv_state ns st h es" and e: "map_of es key = Some rid" and r: "row (heap_rows st (kv_heap ns)) rid = Some p"
    and cnt: "page_count (bp_disk (st_pool st)) < 2 ^ 32"
  obtains rec where "heap_rows st (kv_heap ns) rid = Some rec" "24 \<le> length rec" "versions st rid = Some rec" "writable st h rec" "lock_free st h rid"
    "rid6_ok rid" "st_page_heap st (rid_page rid) = Some (kv_heap ns)"
proof -
  have rd: "ready st" and c: "clean (heap_rows st (kv_heap ns)) (sight st h)" and l: "lock_free st h rid" using s by (simp_all add: kv_state_def locks_calm_def)
  obtain rec header where rec: "heap_rows st (kv_heap ns) rid = Some rec" "header_decode rec = Some header" by (rule row_Some [OF r])
  show ?thesis
    by (rule that [OF rec(1) decode_length [OF rec(2)] heap_rows_sub [OF rec(1)] clean_writable [OF c r rec(1)] l heap_rows_page [OF rd rec(1) cnt]])
qed

lemma kv_put_old:
  assumes s: "kv_state ns st h es" and key: "short key" and len: "length key + length val \<le> 8130"
    and cnt: "page_count (bp_disk (st_pool st)) + 67 < 2 ^ 32" and e: "map_of es key = Some rid" and r: "row (heap_rows st (kv_heap ns)) rid = Some p"
  obtains st' h' where "eng_bind (kv_write crc32 now expired ns (kv_encode key val) (Some rid))
      (\<lambda>new. on_index KvIndex (bt_insert crc32 now (kv_index ns) key new)) (st, h) = Some (Done (), st', h')"
    "kv_step 67 ns st h st' h' ((kv_map es (heap_rows st (kv_heap ns)))(key \<mapsto> val))" "put_effect ns key val es (heap_rows st (kv_heap ns)) st' h'"
proof -
  let ?hv = "heap_rows st (kv_heap ns)"
  obtain S where S: "ready st" "active h" "locks_calm st h" "has_index st (kv_index ns) S es" "clean ?hv (sight st h)" "filed es ?hv"
    "\<And>k r. map_of (upsert es k r) = (map_of es)(k \<mapsto> r)" by (rule kv_stateD [OF s]) blast
  have pl: "length (kv_encode key val) \<le> 8132" using len kv_payload(3) [OF short_length [OF key], of val] by simp
  have c32: "page_count (bp_disk (st_pool st)) < 2 ^ 32" and c64: "page_count (bp_disk (st_pool st)) < 2 ^ 64" using cnt by simp_all
  obtain rec where rec: "?hv rid = Some rec" "24 \<le> length rec" "versions st rid = Some rec" "writable st h rec" "lock_free st h rid"
    "rid6_ok rid" "st_page_heap st (rid_page rid) = Some (kv_heap ns)" by (rule kv_live [OF s e r c32])
  obtain new st1 h1 where i: "store_update crc32 now expired rid (kv_encode key val) (st, h) = Some (Ret new, st1, h1)" "calls st h st1 h1"
    "versions st new = None" "versions st1 = (versions st)(new \<mapsto> version_bytes (th_id h) (Some rid) (kv_encode key val), rid \<mapsto> stamp_bytes (th_id h) rec)"
    "page_count (bp_disk (st_pool st1)) \<le> page_count (bp_disk (st_pool st)) + 1" "st_page_heap st1 (rid_page new) = st_page_heap st (rid_page rid)"
    by (rule ready_update [OF S(1) c64 pl rec(6,3,4,5)])
  have t: "th_id h \<noteq> NO_TXN" "sight st h (th_id h)" using S(2) sight_own by (auto simp: active_def)
  let ?hv1 = "?hv(new \<mapsto> version_bytes (th_id h) (Some rid) (kv_encode key val), rid \<mapsto> stamp_bytes (th_id h) rec)"
  have fresh: "?hv new = None" using i(3) by (simp add: heap_rows_def)
  have rows: "heap_rows st1 (kv_heap ns) = ?hv1" using heap_rows_update [OF callsD(2) [OF i(2)] i(4)] i(6) rec(7) by simp
  note u = clean_update [where hv = ?hv and r = rid, OF S(5) rec(1,2,6) t(2,1) fresh]
  have sg: "sight st1 h1 = sight st h" by (rule sight_cl [OF callsD(2,3) [OF i(2)]])
  have out: "row ?hv1 q = None" if "map_of es key = Some q" for q using that e u(2) by simp
  have hv: "?hv1 = ?hv(new \<mapsto> version_bytes (th_id h) (Some rid) (kv_encode key val)) \<or>
      (\<exists>rid' rec. map_of es key = Some rid' \<and> ?hv rid' = Some rec \<and> th_id h \<noteq> NO_TXN \<and>
         ?hv1 = ?hv(new \<mapsto> version_bytes (th_id h) (Some rid) (kv_encode key val), rid' \<mapsto> stamp_bytes (th_id h) rec))" using e rec(1) t(1) by blast
  have r6: "rid6_ok q" if "Some rid = Some q" for q using that rec(6) by simp
  note f = filed_put [OF S(6) short_length [OF key] S(7) fresh r6 hv out]
  have pc: "page_count (bp_disk (st_pool st1)) + 66 < 2 ^ 64" using i(5) cnt by simp
  obtain st2 where 2: "on_index KvIndex (bt_insert crc32 now (kv_index ns) key new) (st1, h1) = Some (Done (), st2, h1)"
    "kv_step 66 ns st1 h1 st2 h1 (kv_map (upsert es key new) (heap_rows st1 (kv_heap ns)))" "kv_state ns st2 h1 (upsert es key new)"
    "heap_rows st2 (kv_heap ns) = heap_rows st1 (kv_heap ns)"
    by (rule kv_point [where new = new, OF callsD(1) [OF i(2)] has_index_aside [OF S(4) callsD(4) [OF i(2)]] active_same [OF callsD(3) [OF i(2)] S(2)]
          callsD(5) [OF i(2) S(3)] _ _ key pc]) (use rows sg u(1) f(1) in simp_all)
  have "kv_step 67 ns st h st2 h1 ((kv_map es ?hv)(key \<mapsto> val))"
    using 2(2) i(5) callsD(2,3) [OF i(2)] cl_kept_trans [of st st1 st2] rows f(2) by (auto simp: kv_step_def)
  moreover have "kv_map es ?hv key \<noteq> None" using e r by (simp add: kv_map_def)
  then have "put_effect ns key val es ?hv st2 h1"
    using 2(3,4) rows fresh same_txnD(1) [OF callsD(3) [OF i(2)]] S(7) e rec(1,6) r unfolding put_effect_def
    by (intro exI [of _ new] exI [of _ "upsert es key new"]) auto
  ultimately show ?thesis using that 2(1) on_store_simps(1) [where m = "store_update crc32 now expired rid (kv_encode key val)" and conv = KvCore, OF i(1)]
    by (simp add: kv_write_def eng_bind_cases(1))
qed

lemma kv_put_spec:
  assumes s: "kv_state ns st h es" and key: "short key" and len: "length key + length val \<le> 8130"
    and cnt: "page_count (bp_disk (st_pool st)) + 67 < 2 ^ 32"
  obtains st' h' where "kv_put crc32 now expired ns key val (st, h) = Some (Done (), st', h')"
    "kv_step 67 ns st h st' h' ((kv_map es (heap_rows st (kv_heap ns)))(key \<mapsto> val))" "put_effect ns key val es (heap_rows st (kv_heap ns)) st' h'"
proof -
  let ?go = "\<lambda>target. eng_bind (kv_write crc32 now expired ns (kv_encode key val) target) (\<lambda>new. on_index KvIndex (bt_insert crc32 now (kv_index ns) key new))"
  have unf: "kv_put crc32 now expired ns key val = eng_bind (kv_lookup ns key) (\<lambda>hit. eng_bind (kv_target hit) ?go)"
    using key by (simp add: kv_put_def short_def)
  obtain st1 where 1: "kv_lookup ns key (st, h) = Some (Done (map_of es key), st1, h)" "kv_kept ns st h st1 es" by (rule kv_lookup_spec [OF s])
  obtain st2 target where 2: "kv_target (map_of es key) (st1, h) = Some (Done target, st2, h)" "kv_kept ns st h st2 es"
    "case target of None \<Rightarrow> (\<forall>rid. map_of es key = Some rid \<longrightarrow> row (heap_rows st (kv_heap ns)) rid = None)
       | Some rid \<Rightarrow> map_of es key = Some rid \<and> row (heap_rows st (kv_heap ns)) rid \<noteq> None"
  proof (cases "map_of es key")
    case None
    then show ?thesis using that [of None st1] 1(2) by (simp add: kv_target_def)
  next
    case (Some rid)
    have s1: "kv_state ns st1 h es" and rows: "heap_rows st1 (kv_heap ns) = heap_rows st (kv_heap ns)" using 1(2) by (simp_all add: kv_kept_def)
    obtain st2 where 2: "on_store KvCore (store_read rid) (st1, h) = Some (Done (row (heap_rows st1 (kv_heap ns)) rid), st2, h)" "kv_kept ns st1 h st2 es"
      by (rule kv_read_spec [OF s1 Some])
    have k: "kv_kept ns st h st2 es" by (rule kv_kept_trans [OF 1(2) 2(2)])
    show ?thesis
      using that [OF _ k, of "if row (heap_rows st (kv_heap ns)) rid \<noteq> None then Some rid else None"] 2(1) Some rows
      by (simp add: kv_target_def eng_bind_cases(1))
  qed
  have s2: "kv_state ns st2 h es" "heap_rows st2 (kv_heap ns) = heap_rows st (kv_heap ns)" "page_count (bp_disk (st_pool st2)) + 67 < 2 ^ 32"
    using 2(2) cnt by (simp_all add: kv_kept_def)
  obtain st3 h3 where 3: "?go target (st2, h) = Some (Done (), st3, h3)" "kv_step 67 ns st2 h st3 h3 ((kv_map es (heap_rows st2 (kv_heap ns)))(key \<mapsto> val))"
      "put_effect ns key val es (heap_rows st2 (kv_heap ns)) st3 h3"
  proof (cases target)
    case None
    have pc: "page_count (bp_disk (st_pool st2)) + 67 < 2 ^ 64" using s2(3) by simp
    have gone: "row (heap_rows st2 (kv_heap ns)) rid = None" if "map_of es key = Some rid" for rid using 2(3) None s2(2) that by simp
    show ?thesis by (rule kv_put_new [OF s2(1) key len pc gone]) (assumption, rule that, simp_all add: None)
  next
    case (Some rid)
    then obtain p where t: "map_of es key = Some rid" "row (heap_rows st2 (kv_heap ns)) rid = Some p" using 2(3) s2(2) by auto
    show ?thesis by (rule kv_put_old [OF s2(1) key len s2(3) t]) (rule that, simp_all add: Some)
  qed
  have "kv_put crc32 now expired ns key val (st, h) = Some (Done (), st3, h3)"
    unfolding unf using 1(1) 2(1) 3(1) by (simp add: eng_bind_cases(1))
  then show ?thesis using that kv_kept_then_step [OF 2(2) 3(2)] 3(3) s2(2) by metis
qed

lemma kv_stamp:
  assumes s: "kv_state ns st h es" and e: "map_of es key = Some rid" and r: "row (heap_rows st (kv_heap ns)) rid = Some p"
    and cnt: "page_count (bp_disk (st_pool st)) < 2 ^ 32"
  obtains st' h' where "store_delete crc32 now expired rid (st, h) = Some (Ret (), st', h')"
    "kv_step 1 ns st h st' h' ((kv_map es (heap_rows st (kv_heap ns)))(key := None))"
proof -
  let ?hv = "heap_rows st (kv_heap ns)"
  obtain S where S: "ready st" "active h" "locks_calm st h" "has_index st (kv_index ns) S es" "clean ?hv (sight st h)" "filed es ?hv"
    "\<And>k r. map_of (upsert es k r) = (map_of es)(k \<mapsto> r)" by (rule kv_stateD [OF s]) blast
  obtain rec where rec: "?hv rid = Some rec" "24 \<le> length rec" "versions st rid = Some rec" "writable st h rec" "lock_free st h rid"
    "st_page_heap st (rid_page rid) = Some (kv_heap ns)" by (rule kv_live [OF s e r cnt])
  obtain st' h' where d: "store_delete crc32 now expired rid (st, h) = Some (Ret (), st', h')" "calls st h st' h'"
    "versions st' = (versions st)(rid \<mapsto> stamp_bytes (th_id h) rec)" "page_count (bp_disk (st_pool st')) \<le> page_count (bp_disk (st_pool st)) + 1"
    by (rule ready_delete [OF S(1) rec(3-5)])
  have t: "th_id h \<noteq> NO_TXN" "sight st h (th_id h)" using S(2) sight_own by (auto simp: active_def)
  have "st_page_heap st' (rid_page rid) = Some (kv_heap ns)" using callsD(2) [OF d(2)] rec(6) by (simp add: cl_kept_def)
  then have rows: "heap_rows st' (kv_heap ns) = ?hv(rid \<mapsto> stamp_bytes (th_id h) rec)" by (rule heap_rows_insert [OF callsD(2) [OF d(2)] d(3)])
  have sg: "sight st' h' = sight st h" by (rule sight_cl [OF callsD(2,3) [OF d(2)]])
  have cl: "clean (?hv(rid \<mapsto> stamp_bytes (th_id h) rec)) (sight st h)" by (rule clean_stamp [where hv = ?hv and r = rid, OF S(5) rec(1) t(2,1)])
  note f = filed_remove [where hv = ?hv, OF S(6) e rec(1,2) t(1)]
  have "kv_state ns st' h' es" using callsD(1) [OF d(2)] callsD(5) [OF d(2) S(3)] active_same [OF callsD(3) [OF d(2)] S(2)]
      has_index_aside [OF S(4) callsD(4) [OF d(2)]] sg cl f(1) rows by (auto simp: kv_state_def)
  then show ?thesis using that [OF d(1)] callsD(2,3) [OF d(2)] d(4) f(2) rows by (auto simp: kv_step_def)
qed

lemma kv_delete_spec:
  assumes s: "kv_state ns st h es" and cnt: "page_count (bp_disk (st_pool st)) + 1 < 2 ^ 32"
  defines "m \<equiv> kv_map es (heap_rows st (kv_heap ns))"
  obtains st' h' where "kv_delete crc32 now expired ns key (st, h) = Some (Done (m key \<noteq> None), st', h')" "kv_step 1 ns st h st' h' (m(key := None))"
proof -
  let ?hv = "heap_rows st (kv_heap ns)"
  obtain st1 where 1: "kv_lookup ns key (st, h) = Some (Done (map_of es key), st1, h)" "kv_kept ns st h st1 es" by (rule kv_lookup_spec [OF s])
  show ?thesis
  proof (cases "map_of es key")
    case None
    then have "m key = None" "m(key := None) = m" by (auto simp: m_def kv_map_def)
    then show ?thesis using that 1(1) kv_kept_step [OF 1(2)] None by (simp add: kv_delete_def eng_bind_cases(1) m_def)
  next
    case (Some rid)
    have s1: "kv_state ns st1 h es" "heap_rows st1 (kv_heap ns) = ?hv" using 1(2) by (simp_all add: kv_kept_def)
    obtain st2 where 2: "on_store KvCore (store_read rid) (st1, h) = Some (Done (row ?hv rid), st2, h)" "kv_kept ns st1 h st2 es"
      using kv_read_spec [OF s1(1) Some] s1(2) by metis
    have k: "kv_kept ns st h st2 es" by (rule kv_kept_trans [OF 1(2) 2(2)])
    have mk: "m key = map_option kv_decode_value (row ?hv rid)" by (simp add: m_def kv_map_def Some)
    show ?thesis
    proof (cases "row ?hv rid")
      case None
      then have "m(key := None) = m" using mk by auto
      then show ?thesis using that 1(1) 2(1) None Some mk kv_kept_step [OF k] by (simp add: kv_delete_def eng_bind_cases(1) m_def)
    next
      case r: (Some p)
      have s2: "kv_state ns st2 h es" "heap_rows st2 (kv_heap ns) = ?hv" "page_count (bp_disk (st_pool st2)) < 2 ^ 32" using k cnt by (simp_all add: kv_kept_def)
      have r2: "row (heap_rows st2 (kv_heap ns)) rid = Some p" using r s2(2) by simp
      obtain st3 h3 where 3: "store_delete crc32 now expired rid (st2, h) = Some (Ret (), st3, h3)" "kv_step 1 ns st2 h st3 h3 (m(key := None))"
        using kv_stamp [OF s2(1) Some r2 s2(3)] s2(2) unfolding m_def by metis
      show ?thesis
        using that [OF _ kv_kept_then_step [OF k 3(2)]] 1(1) 2(1) r Some mk on_store_simps(1) [where conv = KvCore and m = "store_delete crc32 now expired rid", OF 3(1)]
        by (simp add: kv_delete_def eng_bind_cases(1))
    qed
  qed
qed

lemma ready_scan:
  assumes rd: "ready st"
  obtains rows st' where "store_scan heap (st, h) = Some (Ret rows, st', h)" "distinct (map fst rows)"
    "set rows = rows_of (versions st) (sees st h) {page. st_page_heap st page = Some heap}" "calls st h st' h"
    "versions st' = versions st" "page_count (bp_disk (st_pool st')) = page_count (bp_disk (st_pool st))"
proof -
  have ok: "store_ok st" using rd by (simp add: ready_def store_good_def)
  obtain rows st' where s: "store_scan heap (st, h) = Some (Ret rows, st', h)" "evolves st st'" "store_ok st'" "versions st' = versions st" "view st' = view st"
      "distinct (map fst rows)" "set rows = rows_of (versions st) (sees st h) {page. st_page_heap st page = Some heap}"
    using store_scan_spec [OF ok, of heap h] rd by (auto simp: ready_def)
  have "ready st'" using s(2-4) rd strained_evolves [OF s(2)] by (auto simp: ready_def store_good_def)
  then have "calls st h st' h" using txns_kept_calls [OF _ evolves_kept [OF s(2)] same_txn_refl evolves_aside(1) [OF s(2,5)]] by blast
  then show ?thesis using that s by (auto simp: evolves_defs)
qed

lemma clean_rows:
  assumes c: "clean (heap_rows st heap) (sight st h)"
  shows "rows_of (versions st) (sees st h) {page. st_page_heap st page = Some heap} = {(r, p). row (heap_rows st heap) r = Some p}"
proof -
  have "(rid_page r \<in> {page. st_page_heap st page = Some heap} \<and> visible_row (sees st h) (versions st r) = Some p) \<longleftrightarrow> row (heap_rows st heap) r = Some p" for r p
  proof (cases "heap_rows st heap r")
    case None
    then show ?thesis by (auto simp: row_def heap_rows_def visible_row_def split: if_splits)
  next
    case (Some rec)
    obtain header where hd': "header_decode rec = Some header" "sight st h (xmin header)" "xmax header = NO_TXN \<or> sight st h (xmax header)"
      by (rule cleanD [OF c Some])
    then have "sees st h header \<longleftrightarrow> xmax header = NO_TXN" by (auto simp: sees_iff sight_def)
    then show ?thesis using Some hd'(1) heap_rows_sub [OF Some] by (auto simp: row_def visible_row_def heap_rows_def split: if_splits)
  qed
  then show ?thesis by (auto simp: rows_of_def)
qed

text \<open>Every key of the map appears once among the entries.\<close>

lemma entries_of_rows:
  assumes f: "filed es hv" and d: "distinct (map fst rows)" and rows: "set rows = {(r, p). row hv r = Some p}"
  shows "mset (List.map_filter (\<lambda>(_, payload). kv_entry payload) rows) = mset_set (Map.graph (kv_map es hv))"
proof -
  let ?e = "\<lambda>x. the (kv_entry (snd x))"
  have at: "\<exists>k v. kv_entry p = Some (k, v) \<and> map_of es k = Some r \<and> kv_map es hv k = Some v" if rp: "(r, p) \<in> set rows" for r p
  proof -
    obtain k where k: "map_of es k = Some r" "row hv r = Some p" using rp rows f by (auto simp: filed_def)
    obtain v where "p = kv_encode k v" "kv_map es hv k = Some v" "length k < 65536" by (rule filed_row [OF f k])
    then show ?thesis using k(1) kv_payload(1) by blast
  qed
  have "List.map_filter (\<lambda>(_, payload). kv_entry payload) rows = map ?e rows"
    using at unfolding List.map_filter_def by (intro map_cong filter_True [THEN trans]) force+
  moreover have "inj_on ?e (set rows)"
  proof (rule inj_onI)
    fix x y assume x: "x \<in> set rows" and y: "y \<in> set rows" and e: "?e x = ?e y"
    obtain k v where a: "kv_entry (snd x) = Some (k, v)" "map_of es k = Some (fst x)" using at [of "fst x" "snd x"] x by auto
    obtain k' v' where b: "kv_entry (snd y) = Some (k', v')" "map_of es k' = Some (fst y)" using at [of "fst y" "snd y"] y by auto
    have "fst x = fst y" using a b e by simp
    then show "x = y" using d x y by (metis distinct_map inj_on_def)
  qed
  moreover have "distinct rows" using d by (metis distinct_map)
  moreover have "set (map ?e rows) = Map.graph (kv_map es hv)"
  proof (intro equalityI subsetI)
    fix x assume "x \<in> set (map ?e rows)"
    then show "x \<in> Map.graph (kv_map es hv)" using at by (fastforce simp: graph_def)
  next
    fix x assume "x \<in> Map.graph (kv_map es hv)"
    then obtain k v where x: "x = (k, v)" "kv_map es hv k = Some v" by (auto simp: graph_def)
    then obtain r p where r: "map_of es k = Some r" "row hv r = Some p" by (auto simp: kv_map_def bind_eq_Some_conv)
    then have "(r, p) \<in> set rows" using rows by auto
    moreover obtain v' where "p = kv_encode k v'" "kv_map es hv k = Some v'" "length k < 65536" by (rule filed_row [OF f r])
    then have "?e (r, p) = x" using x kv_payload(1) by simp
    ultimately show "x \<in> set (map ?e rows)" by force
  qed
  ultimately show ?thesis using mset_set_set [of "map ?e rows"] by (simp add: distinct_map)
qed

lemma kv_entries_spec:
  assumes s: "kv_state ns st h es"
  obtains xs st' where "kv_entries ns (st, h) = Some (Done xs, st', h)" "kv_kept ns st h st' es"
    "mset xs = mset_set (Map.graph (kv_map es (heap_rows st (kv_heap ns))))"
proof -
  have rd: "ready st" and c: "clean (heap_rows st (kv_heap ns)) (sight st h)" and f: "filed es (heap_rows st (kv_heap ns))" using s by (simp_all add: kv_state_def)
  obtain rows st' where r: "store_scan (kv_heap ns) (st, h) = Some (Ret rows, st', h)" "distinct (map fst rows)"
    "set rows = rows_of (versions st) (sees st h) {page. st_page_heap st page = Some (kv_heap ns)}" "calls st h st' h"
    "versions st' = versions st" "page_count (bp_disk (st_pool st')) = page_count (bp_disk (st_pool st))" by (rule ready_scan [OF rd])
  have "on_store KvCore (store_scan (kv_heap ns)) (st, h) = Some (Done rows, st', h)" by (rule on_store_simps(1) [where m = "store_scan (kv_heap ns)", OF r(1)])
  then have "kv_entries ns (st, h) = Some (Done (List.map_filter (\<lambda>(_, payload). kv_entry payload) rows), st', h)"
    by (simp add: kv_entries_def eng_bind_cases(1))
  moreover have "mset (List.map_filter (\<lambda>(_, payload). kv_entry payload) rows) = mset_set (Map.graph (kv_map es (heap_rows st (kv_heap ns))))"
    by (rule entries_of_rows [OF f r(2)]) (use r(3) clean_rows [OF c] in simp)
  ultimately show ?thesis using that kv_keptI [OF s r(4-6)] by blast
qed

section \<open>A namespace as a machine\<close>

datatype kv_op = KGet bytes | KPut bytes bytes | KDelete bytes | KPutIfAbsent bytes bytes | KCompareAndSet bytes bytes bytes | KEntries

datatype kv_res = KError KvError | KBlocked | KValue "bytes option" | KDone | KBool bool | KRows "(bytes \<times> bytes) multiset"

definition kv_out :: "('a \<Rightarrow> kv_res) \<Rightarrow> ((KvError, 'a) EngOut \<times> RecordStore \<times> TxnHandle) exec \<Rightarrow> (kv_res \<times> RecordStore \<times> TxnHandle) option" where
  "kv_out f x = map_option (\<lambda>(r, s). (case r of Done v \<Rightarrow> f v | Fail e \<Rightarrow> KError e | Blocked \<Rightarrow> KBlocked, s)) x"

fun kv_exec :: "(bytes \<Rightarrow> u32) \<Rightarrow> u64 \<Rightarrow> bool \<Rightarrow> KvNamespace \<Rightarrow> kv_op \<Rightarrow> RecordStore \<times> TxnHandle \<Rightarrow> (kv_res \<times> RecordStore \<times> TxnHandle) option" where
  "kv_exec crc32 now expired ns (KGet key) s = kv_out KValue (kv_get ns key s)"
| "kv_exec crc32 now expired ns (KPut key val) s = kv_out (\<lambda>_. KDone) (kv_put crc32 now expired ns key val s)"
| "kv_exec crc32 now expired ns (KDelete key) s = kv_out KBool (kv_delete crc32 now expired ns key s)"
| "kv_exec crc32 now expired ns (KPutIfAbsent key val) s = kv_out KBool (kv_put_if_absent crc32 now expired ns key val s)"
| "kv_exec crc32 now expired ns (KCompareAndSet key expected val) s = kv_out KBool (kv_compare_and_set crc32 now expired ns key expected val s)"
| "kv_exec crc32 now expired ns KEntries s = kv_out (\<lambda>xs. KRows (mset xs)) (kv_entries ns s)"

fun kv_spec :: "kv_op \<Rightarrow> (bytes \<rightharpoonup> bytes) \<Rightarrow> kv_res \<times> (bytes \<rightharpoonup> bytes)" where
  "kv_spec (KGet key) m = (KValue (m key), m)"
| "kv_spec (KPut key val) m = (KDone, m(key \<mapsto> val))"
| "kv_spec (KDelete key) m = (KBool (m key \<noteq> None), m(key := None))"
| "kv_spec (KPutIfAbsent key val) m = (KBool (m key = None), if m key = None then m(key \<mapsto> val) else m)"
| "kv_spec (KCompareAndSet key expected val) m = (KBool (m key = Some expected), if m key = Some expected then m(key \<mapsto> val) else m)"
| "kv_spec KEntries m = (KRows (mset_set (Map.graph m)), m)"

fun kv_legal :: "kv_op \<Rightarrow> bool" where
  "kv_legal (KPut key val) \<longleftrightarrow> short key \<and> length key + length val \<le> 8130"
| "kv_legal (KPutIfAbsent key val) \<longleftrightarrow> short key \<and> length key + length val \<le> 8130"
| "kv_legal (KCompareAndSet key expected val) \<longleftrightarrow> short key \<and> length key + length val \<le> 8130"
| "kv_legal _ \<longleftrightarrow> True"

text \<open>An operation takes at most 67 pages; \<open>room\<close> pages are kept for later transactions.\<close>

definition kv_rel :: "KvNamespace \<Rightarrow> RecordStore \<Rightarrow> TxnHandle \<Rightarrow> nat \<Rightarrow> nat \<Rightarrow> RecordStore \<times> TxnHandle \<Rightarrow> (bytes \<rightharpoonup> bytes) \<Rightarrow> bool" where
  "kv_rel ns st0 h0 room n s m \<longleftrightarrow> (case s of (st, h) \<Rightarrow> (\<exists>es. kv_state ns st h es \<and> kv_map es (heap_rows st (kv_heap ns)) = m) \<and>
     cl_kept st0 st \<and> same_txn h0 h \<and>
     page_count (bp_disk (st_pool st)) + 67 * n + room < 2 ^ 32)"

lemma kv_rel_step:
  assumes "kv_rel ns st0 h0 room (Suc n) (st, h) m" and "kv_step 67 ns st h st' h' m'"
  shows "kv_rel ns st0 h0 room n (st', h') m'"
  using assms cl_kept_trans [of st0 st st'] same_txn_trans [of h0 h h'] by (auto simp: kv_rel_def kv_step_def)

lemma kv_step_mono: "kv_step k ns st h st' h' m \<Longrightarrow> k \<le> l \<Longrightarrow> kv_step l ns st h st' h' m"
  by (auto simp: kv_step_def)

lemma kv_put_after:
  assumes s: "kv_state ns st h es" and k: "kv_kept ns st h st1 es" and key: "short key" "length key + length val \<le> 8130"
    and cnt: "page_count (bp_disk (st_pool st)) + 67 < 2 ^ 32"
  obtains st' h' where "kv_put crc32 now expired ns key val (st1, h) = Some (Done (), st', h')"
    "kv_step 67 ns st h st' h' ((kv_map es (heap_rows st (kv_heap ns)))(key \<mapsto> val))"
proof -
  have s1: "kv_state ns st1 h es" "heap_rows st1 (kv_heap ns) = heap_rows st (kv_heap ns)" "page_count (bp_disk (st_pool st1)) + 67 < 2 ^ 32"
    using k cnt by (simp_all add: kv_kept_def)
  obtain st' h' where "kv_put crc32 now expired ns key val (st1, h) = Some (Done (), st', h')"
      "kv_step 67 ns st1 h st' h' ((kv_map es (heap_rows st (kv_heap ns)))(key \<mapsto> val))"
    using kv_put_spec [OF s1(1) key s1(3)] s1(2) by metis
  then show ?thesis using that kv_kept_then_step [OF k] by blast
qed

interpretation kv_follows: follows "kv_exec crc32 now expired ns" kv_spec "kv_rel ns st0 h0 room" kv_legal
  for crc32 now expired ns st0 h0 room
proof
  fix op n s m assume legal: "kv_legal op" and rel: "kv_rel ns st0 h0 room (Suc n) s m"
  obtain st h es where s: "s = (st, h)" "kv_state ns st h es" and m: "m = kv_map es (heap_rows st (kv_heap ns))"
      and cnt: "page_count (bp_disk (st_pool st)) + 67 < 2 ^ 32"
    using rel by (cases s) (auto simp: kv_rel_def)
  have go: "kv_rel ns st0 h0 room n (st', h') m'" if "kv_step 67 ns st h st' h' m'" for st' h' m'
    using that kv_rel_step [OF rel [unfolded s(1)]] by blast
  have cnt1: "page_count (bp_disk (st_pool st)) + 1 < 2 ^ 32" using cnt by simp
  show "\<exists>s'. kv_exec crc32 now expired ns op s = Some (fst (kv_spec op m), s') \<and> kv_rel ns st0 h0 room n s' (snd (kv_spec op m))"
  proof (cases op)
    case (KGet key)
    obtain st' where g: "kv_get ns key (st, h) = Some (Done (m key), st', h)" "kv_kept ns st h st' es" using kv_get_spec [OF s(2)] m by metis
    then show ?thesis using go [OF kv_kept_step [OF g(2), folded m]] KGet s(1) by (simp add: kv_out_def)
  next
    case (KPut key val)
    then obtain st' h' where "kv_put crc32 now expired ns key val (st, h) = Some (Done (), st', h')" "kv_step 67 ns st h st' h' (m(key \<mapsto> val))"
      using kv_put_spec [OF s(2) _ _ cnt] legal m by (metis kv_legal.simps(1))
    then show ?thesis using go KPut s(1) by (simp add: kv_out_def)
  next
    case (KDelete key)
    obtain st' h' where d: "kv_delete crc32 now expired ns key (st, h) = Some (Done (m key \<noteq> None), st', h')" "kv_step 1 ns st h st' h' (m(key := None))"
      using kv_delete_spec [OF s(2) cnt1] m by metis
    then show ?thesis using go [OF kv_step_mono [OF d(2)]] KDelete s(1) by (simp add: kv_out_def)
  next
    case (KPutIfAbsent key val)
    obtain st1 where g: "kv_get ns key (st, h) = Some (Done (m key), st1, h)" "kv_kept ns st h st1 es" using kv_get_spec [OF s(2)] m by metis
    show ?thesis
    proof (cases "m key = None")
      case True
      then obtain st' h' where p: "kv_put crc32 now expired ns key val (st1, h) = Some (Done (), st', h')" "kv_step 67 ns st h st' h' (m(key \<mapsto> val))"
        using kv_put_after [OF s(2) g(2) _ _ cnt] legal KPutIfAbsent m by (metis kv_legal.simps(2))
      then show ?thesis using go KPutIfAbsent s(1) g(1) True by (simp add: kv_out_def kv_put_if_absent_def eng_bind_cases(1))
    qed (use go [OF kv_kept_step [OF g(2), folded m]] g(1) KPutIfAbsent s(1) in \<open>auto simp: kv_out_def kv_put_if_absent_def eng_bind_cases(1)\<close>)
  next
    case (KCompareAndSet key expected val)
    obtain st1 where g: "kv_get ns key (st, h) = Some (Done (m key), st1, h)" "kv_kept ns st h st1 es" using kv_get_spec [OF s(2)] m by metis
    show ?thesis
    proof (cases "m key = Some expected")
      case True
      then obtain st' h' where p: "kv_put crc32 now expired ns key val (st1, h) = Some (Done (), st', h')" "kv_step 67 ns st h st' h' (m(key \<mapsto> val))"
        using kv_put_after [OF s(2) g(2) _ _ cnt] legal KCompareAndSet m by (metis kv_legal.simps(3))
      then show ?thesis using go KCompareAndSet s(1) g(1) True by (simp add: kv_out_def kv_compare_and_set_def eng_bind_cases(1))
    qed (use go [OF kv_kept_step [OF g(2), folded m]] g(1) KCompareAndSet s(1) in \<open>auto simp: kv_out_def kv_compare_and_set_def eng_bind_cases(1)\<close>)
  next
    case KEntries
    obtain xs st' where e: "kv_entries ns (st, h) = Some (Done xs, st', h)" "kv_kept ns st h st' es" "mset xs = mset_set (Map.graph m)"
      using kv_entries_spec [OF s(2)] m by metis
    then show ?thesis using go [OF kv_kept_step [OF e(2), folded m]] KEntries s(1) by (simp add: kv_out_def)
  qed
qed

end
