(* ===== verification/KvProps.thy ===== *)
theory KvProps
  imports Kv
begin

text \<open>
  The properties of the key-value engine: transactions that run one after the other see a
  namespace as a map, and what other writers do to it.
\<close>

section \<open>Transactions on a namespace\<close>

text \<open>A transaction that begins, runs its operations and commits, with nobody else about.\<close>

definition kv_txn :: "(bytes \<Rightarrow> u32) \<Rightarrow> u64 \<Rightarrow> u64 \<Rightarrow> bool \<Rightarrow> KvNamespace \<Rightarrow> kv_op list \<Rightarrow> RecordStore \<Rightarrow>
    ((kv_res list \<times> (CoreError + unit)) \<times> RecordStore) option" where
  "kv_txn crc32 now seg_now expired ns ops st = (let (h, m) = begin_txn ReadWrite (st_txns st) in do {
     (rs, st2, h2) \<leftarrow> run_ops (kv_exec crc32 now expired ns) ops (put_txns m st, h);
     (m2, res) \<leftarrow> commit_internal crc32 now seg_now (th_id h2) (th_mode h2) (th_last_lsn h2) (st_txns st2);
     Some ((rs, res), put_txns m2 st2)
   })"

definition kv_txn_spec :: "kv_op list \<Rightarrow> (bytes \<rightharpoonup> bytes) \<Rightarrow> (kv_res list \<times> (CoreError + unit)) \<times> (bytes \<rightharpoonup> bytes)" where
  "kv_txn_spec ops m = (let (rs, m') = spec_ops kv_spec ops m in ((rs, Inr ()), m'))"

definition kv_txn_legal :: "nat \<Rightarrow> kv_op list \<Rightarrow> bool" where
  "kv_txn_legal k ops \<longleftrightarrow> length ops \<le> k \<and> list_all kv_legal ops"

definition outcome :: "RecordStore \<Rightarrow> txn_id \<Rightarrow> bool" where
  "outcome st t \<longleftrightarrow> t \<noteq> NO_TXN \<and> is_committed (status (tm_commit_log (st_txns st)) t)"

text \<open>No transaction is running and no lock is held.\<close>

definition idle :: "RecordStore \<Rightarrow> bool" where
  "idle st \<longleftrightarrow> ready st \<and> tm_active (st_txns st) = {} \<and> tm_inv (st_txns st) \<and> tm_next_txn (st_txns st) \<noteq> NO_TXN \<and>
     lk_inv (tm_locks (st_txns st)) \<and> (\<forall>r. holder_of (tm_locks (st_txns st)) r = None)"

definition kv_idle :: "KvNamespace \<Rightarrow> nat \<Rightarrow> nat \<Rightarrow> RecordStore \<Rightarrow> (bytes \<rightharpoonup> bytes) \<Rightarrow> bool" where
  "kv_idle ns k n st m \<longleftrightarrow> idle st \<and> unat (tm_next_txn (st_txns st)) + n < 2 ^ 64 \<and> page_count (bp_disk (st_pool st)) + 67 * k * n < 2 ^ 32 \<and>
     (\<exists>S es. has_index st (kv_index ns) S es \<and> clean (heap_rows st (kv_heap ns)) (outcome st) \<and> filed es (heap_rows st (kv_heap ns)) \<and>
        m = kv_map es (heap_rows st (kv_heap ns)))"

lemma put_txns_ready:
  assumes rd: "ready st" and w: "wal_segment_size (tm_wal m) = wal_segment_size (tm_wal (st_txns st))" "wal_top (tm_wal m)"
  shows "ready (put_txns m st)" and "heap_rows (put_txns m st) heap = heap_rows st heap"
    and "has_index st bt S es \<Longrightarrow> has_index (put_txns m st) bt S es"
    and "page_count (bp_disk (st_pool (put_txns m st))) = page_count (bp_disk (st_pool st))" and "st_txns (put_txns m st) = m"
proof -
  have good: "store_good st" and wal: "tm_wal (st_txns st) = bp_wal (st_pool st)" using rd by (simp_all add: ready_def store_good_def store_ok_def)
  have g: "store_good (put_txns m st)" "versions (put_txns m st) = versions st" using put_txns_good [OF good w] by simp_all
  show "ready (put_txns m st)" using g rd w wal by (simp add: ready_def strained_def tight_def put_txns_def pins_def)
  have "st_page_heap (put_txns m st) = st_page_heap st" by (simp add: put_txns_def)
  then show "heap_rows (put_txns m st) heap = heap_rows st heap" by (simp add: heap_rows_def g(2) cong: if_cong)
  show "has_index (put_txns m st) bt S es" if "has_index st bt S es"
    using that index_at_view [of "st_pool st" bt S es "st_pool (put_txns m st)"] by (simp add: has_index_def put_txns_def)
qed (simp_all add: put_txns_def)

lemma ready_log: "ready st \<Longrightarrow> 20000 \<le> wal_segment_size (tm_wal (st_txns st)) \<and> wal_top (tm_wal (st_txns st))"
  by (auto simp: ready_def store_good_def store_ok_def strained_def tight_def pool_up_def)

lemma ready_commit:
  assumes rd: "ready st"
  obtains w l where "commit_internal crc32 now seg_now t ReadWrite last_lsn (st_txns st) =
      Some (txn_finish t ((st_txns st)\<lparr>tm_wal := w, tm_commit_log := record_commit t l (tm_commit_log (st_txns st))\<rparr>), Inr ())"
    "wal_segment_size w = wal_segment_size (tm_wal (st_txns st))" "wal_top w"
proof -
  let ?w = "tm_wal (st_txns st)" and ?r = "log_txn t last_lsn (Commit now 0)"
  have big: "20000 \<le> wal_segment_size ?w" "wal_top ?w" using ready_log [OF rd] by simp_all
  obtain w1 res where a: "wal_append crc32 seg_now ?w ?r = Some (w1, res)" using wal_append_runs [of ?w] big(1) by fastforce
  have "length (snd (encode_body (Commit now 0))) \<le> 100" by simp
  then have "\<not> wal_segment_size ?w < 64 + frame_len ?r" using big(1) by (simp add: frame_len_def log_txn_def split_beta)
  then obtain l where l: "res = Inr l" using wal_append_top(2) [OF big(2) a] by (cases res) auto
  have c: "commit_internal crc32 now seg_now t ReadWrite last_lsn (st_txns st) =
      Some (txn_finish t ((st_txns st)\<lparr>tm_wal := flush_through l w1, tm_commit_log := record_commit t l (tm_commit_log (st_txns st))\<rparr>), Inr ())"
    using a l by (simp add: commit_internal_def)
  show ?thesis using that [OF c] commit_internal_log [OF disjI1 [OF c] big(2)] by simp
qed

lemma outcome_commit: "status (record_commit t l cl) u = (if u = t then Committed l else status cl u)"
  by (simp add: record_commit_def status_def)

lemma begin_state:
  assumes i: "idle st" and nxt: "unat (tm_next_txn (st_txns st)) + 1 < 2 ^ 64" and b: "begin_txn ReadWrite (st_txns st) = (h, m)"
    and ix: "has_index st (kv_index ns) S es" and cl: "clean (heap_rows st (kv_heap ns)) (outcome st)" and f: "filed es (heap_rows st (kv_heap ns))"
  shows "kv_state ns (put_txns m st) h es" and "\<And>t. sight (put_txns m st) h t \<longleftrightarrow> t = th_id h \<or> outcome st t"
    and "heap_rows (put_txns m st) heap = heap_rows st heap" and "page_count (bp_disk (st_pool (put_txns m st))) = page_count (bp_disk (st_pool st))"
    and "th_id h = tm_next_txn (st_txns st)" and "th_mode h = ReadWrite" and "tm_active (st_txns (put_txns m st)) = {th_id h}"
    and "tm_next_txn (st_txns (put_txns m st)) = th_id h + 1" and "tm_commit_log (st_txns (put_txns m st)) = tm_commit_log (st_txns st)"
proof -
  let ?m0 = "st_txns st"
  have h: "h = fst (begin_txn ReadWrite ?m0)" and m: "m = snd (begin_txn ReadWrite ?m0)" using b by simp_all
  have rd: "ready st" and z: "tm_next_txn ?m0 \<noteq> NO_TXN" and inv: "tm_inv ?m0" and none: "tm_active ?m0 = {}" using i by (simp_all add: idle_def)
  have lk: "tm_locks m = tm_locks ?m0" "tm_wal m = tm_wal ?m0" by (simp_all add: m begin_txn_def begin_alloc_def begin_snapshot_def Let_def)
  note p = put_txns_ready [OF rd, of m, unfolded lk(2), OF refl conjunct2 [OF ready_log [OF rd]]]
  show id: "th_id h = tm_next_txn ?m0" by (simp add: h)
  show "th_mode h = ReadWrite" by (simp add: h begin_txn_def begin_alloc_def begin_snapshot_def Let_def)
  show "tm_active (st_txns (put_txns m st)) = {th_id h}" "tm_next_txn (st_txns (put_txns m st)) = th_id h + 1"
    and cl': "tm_commit_log (st_txns (put_txns m st)) = tm_commit_log ?m0" using none unfolding p(5) by (simp_all add: m h)
  show rows: "heap_rows (put_txns m st) heap = heap_rows st heap" for heap by (rule p(2))
  show "page_count (bp_disk (st_pool (put_txns m st))) = page_count (bp_disk (st_pool st))" by (rule p(4))
  have lt: "t < tm_next_txn ?m0 + 1" if "is_committed (status (tm_commit_log ?m0) t)" for t
  proof -
    have "t < tm_next_txn ?m0" using inv that by (auto simp: tm_inv_def status_def split: option.splits)
    moreover have "tm_next_txn ?m0 < tm_next_txn ?m0 + 1" using nxt by (simp add: word_less_nat_alt unat_word_ariths)
    ultimately show ?thesis by (rule less_trans)
  qed
  show sg: "sight (put_txns m st) h t \<longleftrightarrow> t = th_id h \<or> outcome st t" for t
    using z lt [of t] none by (auto simp: sight_def effect_visible_iff cl' outcome_def) (simp_all add: h)
  have act: "active h" using z by (simp add: active_def h)
  have calm: "locks_calm (put_txns m st) h" using i by (simp add: locks_calm_def lock_free_def p(5) lk(1) idle_def)
  have "clean (heap_rows (put_txns m st) (kv_heap ns)) (sight (put_txns m st) h)" unfolding rows by (rule clean_mono [OF cl]) (simp add: sg)
  then show "kv_state ns (put_txns m st) h es" using p(1) act calm p(3) [OF ix] f rows by (auto simp: kv_state_def)
qed

lemma release_calm:
  assumes "locks_calm st h"
  shows "lk_inv (release_all (th_id h) (tm_locks (st_txns st)))" and "holder_of (release_all (th_id h) (tm_locks (st_txns st))) r = None"
proof -
  have inv: "lk_inv (tm_locks (st_txns st))" and own: "holder_of (tm_locks (st_txns st)) r \<in> {None, Some (th_id h)}"
    using assms by (simp_all add: locks_calm_def lock_free_def)
  show "lk_inv (release_all (th_id h) (tm_locks (st_txns st)))" using lk_inv_apply [OF inv, of "OpRelease (th_id h)"] by simp
  show "holder_of (release_all (th_id h) (tm_locks (st_txns st))) r = None" using release_all_spec(1) [OF inv] own by auto
qed

lemma commit_state:
  assumes s: "kv_state ns st h es" and act: "tm_active (st_txns st) = {th_id h}" and nxt: "tm_next_txn (st_txns st) = th_id h + 1"
    and wrap: "unat (th_id h) + 1 < 2 ^ 64" and old: "\<And>t. tm_commit_log (st_txns st) t \<noteq> None \<Longrightarrow> t < th_id h"
    and sg: "\<And>t. sight st h t \<Longrightarrow> t = th_id h \<or> outcome st t"
  obtains m S where "commit_internal crc32 now seg_now (th_id h) ReadWrite last_lsn (st_txns st) = Some (m, Inr ())" "idle (put_txns m st)"
    "tm_next_txn (st_txns (put_txns m st)) = th_id h + 1" "has_index (put_txns m st) (kv_index ns) S es"
    "clean (heap_rows st (kv_heap ns)) (outcome (put_txns m st))" "heap_rows (put_txns m st) (kv_heap ns) = heap_rows st (kv_heap ns)"
    "page_count (bp_disk (st_pool (put_txns m st))) = page_count (bp_disk (st_pool st))"
proof -
  obtain S where S: "ready st" "active h" "locks_calm st h" "has_index st (kv_index ns) S es" "clean (heap_rows st (kv_heap ns)) (sight st h)"
    using s by (auto simp: kv_state_def)
  obtain w l where c: "commit_internal crc32 now seg_now (th_id h) ReadWrite last_lsn (st_txns st) =
      Some (txn_finish (th_id h) ((st_txns st)\<lparr>tm_wal := w, tm_commit_log := record_commit (th_id h) l (tm_commit_log (st_txns st))\<rparr>), Inr ())"
    "wal_segment_size w = wal_segment_size (tm_wal (st_txns st))" "wal_top w" by (rule ready_commit [OF S(1)])
  let ?m = "txn_finish (th_id h) ((st_txns st)\<lparr>tm_wal := w, tm_commit_log := record_commit (th_id h) l (tm_commit_log (st_txns st))\<rparr>)"
  have p: "ready (put_txns ?m st)" "\<And>heap. heap_rows (put_txns ?m st) heap = heap_rows st heap" "has_index (put_txns ?m st) (kv_index ns) S es"
    "page_count (bp_disk (st_pool (put_txns ?m st))) = page_count (bp_disk (st_pool st))" "st_txns (put_txns ?m st) = ?m"
    using put_txns_ready [OF S(1), of ?m] c(2,3) S(4) by auto
  have free: "lk_inv (tm_locks ?m)" "\<And>r. holder_of (tm_locks ?m) r = None" using release_calm [OF S(3)] by (simp_all add: txn_finish_def)
  have up: "th_id h < th_id h + 1" using wrap by (simp add: word_less_nat_alt unat_word_ariths)
  have nz: "th_id h + 1 \<noteq> NO_TXN" "th_id h \<noteq> NO_TXN" using up S(2) by (auto simp: active_def)
  have "tm_inv ?m" using act nxt old up by (auto simp: tm_inv_def record_commit_def split: if_splits intro: less_trans)
  then have idle: "idle (put_txns ?m st)" using p(1) free nz act nxt unfolding idle_def p(5) by simp
  have oc: "outcome (put_txns ?m st) t" if "sight st h t" for t
    using sg [OF that] nz(2) unfolding outcome_def p(5) by (auto simp: outcome_commit)
  have cl: "clean (heap_rows st (kv_heap ns)) (outcome (put_txns ?m st))" by (rule clean_mono [OF S(5) oc])
  have "tm_next_txn (st_txns (put_txns ?m st)) = th_id h + 1" using nxt unfolding p(5) by simp
  then show ?thesis using that [OF c(1) idle _ p(3) cl p(2,4)] by blast
qed

interpretation txn_follows: follows "kv_txn crc32 now seg_now expired ns" kv_txn_spec "kv_idle ns k" "kv_txn_legal k"
  for crc32 now seg_now expired ns k
proof
  fix ops n st m assume legal: "kv_txn_legal k ops" and rel: "kv_idle ns k (Suc n) st m"
  obtain S es where i: "idle st" "has_index st (kv_index ns) S es" "clean (heap_rows st (kv_heap ns)) (outcome st)" "filed es (heap_rows st (kv_heap ns))"
      "m = kv_map es (heap_rows st (kv_heap ns))" "unat (tm_next_txn (st_txns st)) + Suc n < 2 ^ 64" "page_count (bp_disk (st_pool st)) + 67 * k * Suc n < 2 ^ 32"
    using rel by (auto simp: kv_idle_def)
  obtain h m1 where b: "begin_txn ReadWrite (st_txns st) = (h, m1)" by fastforce
  let ?st1 = "put_txns m1 st"
  have nx: "unat (tm_next_txn (st_txns st)) + 1 < 2 ^ 64" using i(6) by simp
  note bs = begin_state [OF i(1) nx b i(2-4)]
  have len: "length ops \<le> k" "list_all kv_legal ops" using legal by (simp_all add: kv_txn_legal_def)
  have cnt: "page_count (bp_disk (st_pool st)) + 67 * length ops + 67 * k * n < 2 ^ 32" using i(7) len(1) by (simp add: algebra_simps)
  have "kv_rel ns ?st1 h (67 * k * n) (length ops) (?st1, h) m" using bs(1,3,4) i(5) cnt by (auto simp: kv_rel_def)
  then obtain st2 h2 where r: "run_ops (kv_exec crc32 now expired ns) ops (?st1, h) = Some (fst (spec_ops kv_spec ops m), st2, h2)"
      "kv_rel ns ?st1 h (67 * k * n) 0 (st2, h2) (snd (spec_ops kv_spec ops m))"
    using kv_follows.runs [OF len(2), of ns ?st1 h "67 * k * n" "(?st1, h)" m crc32 now expired] by auto
  obtain es2 where s2: "kv_state ns st2 h2 es2" "kv_map es2 (heap_rows st2 (kv_heap ns)) = snd (spec_ops kv_spec ops m)" "cl_kept ?st1 st2" "same_txn h h2"
      "page_count (bp_disk (st_pool st2)) + 67 * k * n < 2 ^ 32" using r(2) by (auto simp: kv_rel_def)
  have id: "th_id h2 = th_id h" "th_mode h2 = ReadWrite" using s2(4) bs(6) by (auto simp: same_txn_def)
  have old: "t < th_id h2" if "tm_commit_log (st_txns st2) t \<noteq> None" for t
    using that s2(3) bs(5,9) id(1) i(1) by (auto simp: cl_kept_def idle_def tm_inv_def)
  have sg: "t = th_id h2 \<or> outcome st2 t" if "sight st2 h2 t" for t
    using that bs(2) [of t] bs(9) s2(3) sight_cl [OF s2(3,4)] id(1) by (auto simp: outcome_def cl_kept_def)
  obtain m3 S3 where c: "commit_internal crc32 now seg_now (th_id h2) ReadWrite (th_last_lsn h2) (st_txns st2) = Some (m3, Inr ())" "idle (put_txns m3 st2)"
    "tm_next_txn (st_txns (put_txns m3 st2)) = th_id h2 + 1" "has_index (put_txns m3 st2) (kv_index ns) S3 es2"
    "clean (heap_rows st2 (kv_heap ns)) (outcome (put_txns m3 st2))" "heap_rows (put_txns m3 st2) (kv_heap ns) = heap_rows st2 (kv_heap ns)"
    "page_count (bp_disk (st_pool (put_txns m3 st2))) = page_count (bp_disk (st_pool st2))"
    by (rule commit_state [OF s2(1) _ _ _ old sg]) (use bs(5,7,8) s2(3) id(1) nx in \<open>auto simp: cl_kept_def\<close>)
  have "unat (th_id h2 + 1) + n < 2 ^ 64" using i(6) id(1) bs(5) by (simp add: unat_word_ariths)
  moreover have "filed es2 (heap_rows st2 (kv_heap ns))" using s2(1) by (simp add: kv_state_def)
  ultimately have "kv_idle ns k n (put_txns m3 st2) (snd (spec_ops kv_spec ops m))"
    using c s2(2,5) unfolding kv_idle_def by (intro conjI exI [of _ S3] exI [of _ es2]) simp_all
  moreover have "kv_txn crc32 now seg_now expired ns ops st = Some ((fst (spec_ops kv_spec ops m), Inr ()), put_txns m3 st2)"
    using b r(1) c(1) id(2) by (simp add: kv_txn_def)
  ultimately show "\<exists>s'. kv_txn crc32 now seg_now expired ns ops st = Some (fst (kv_txn_spec ops m), s') \<and> kv_idle ns k n s' (snd (kv_txn_spec ops m))"
    by (simp add: kv_txn_spec_def split_beta Let_def)
qed

section \<open>Readers and writers of other transactions\<close>

text \<open>The lookup and the read that start the operations, by a transaction \<open>g\<close> that need not see the newest version.\<close>

lemma kv_probe:
  assumes rd: "ready st" and ix: "has_index st (kv_index ns) S es" and e: "map_of es key = Some rid" and v: "versions st rid \<noteq> None"
    and c: "chain_read n (versions st) (sees st g) rid = Some x"
  obtains st1 st2 where "kv_lookup ns key (st, g) = Some (Done (Some rid), st1, g)" "on_store KvCore (store_read rid) (st1, g) = Some (Done x, st2, g)"
    "calls st g st2 g" "versions st2 = versions st"
proof -
  obtain st1 where 1: "on_index KvIndex (bt_search (kv_index ns) key) (st, g) = Some (Done (map_of es key), st1, g)" "calls st g st1 g"
    "versions st1 = versions st" by (rule index_search [OF rd ix])
  have rd1: "ready st1" and v1: "versions st1 rid \<noteq> None" using callsD(1) [OF 1(2)] v 1(3) by simp_all
  obtain y m st2 where 2: "store_read rid (st1, g) = Some (Ret y, st2, g)" "chain_read m (versions st1) (sees st1 g) rid = Some y" "calls st1 g st2 g"
    "versions st2 = versions st1" by (rule ready_read [OF rd1 v1])
  have "chain_read m (versions st) (sees st g) rid = Some y" using 2(2) 1(3) calls_sees(1) [OF 1(2)] by simp
  then have "chain_read (max n m) (versions st) (sees st g) rid = Some y" "chain_read (max n m) (versions st) (sees st g) rid = Some x"
    using c chain_read_mono by (metis max.cobounded1 max.cobounded2)+
  then have "y = x" by simp
  then show ?thesis
    using that [of st1 st2] 1(1,3) e on_store_simps(1) [where m = "store_read rid" and conv = KvCore, OF 2(1)] calls_trans [OF 1(2) 2(3)] 2(4)
    by (simp add: kv_lookup_def)
qed

lemma kv_get_by:
  assumes "ready st" "has_index st (kv_index ns) S es" "map_of es key = Some rid" "versions st rid \<noteq> None"
    and "chain_read n (versions st) (sees st g) rid = Some x"
  shows "\<exists>s. kv_get ns key (st, g) = Some (Done (map_option kv_decode_value x), s)"
proof -
  obtain st1 st2 where "kv_lookup ns key (st, g) = Some (Done (Some rid), st1, g)" "on_store KvCore (store_read rid) (st1, g) = Some (Done x, st2, g)"
    by (rule kv_probe [OF assms])
  then show ?thesis by (simp add: kv_get_def eng_bind_cases(1))
qed

text \<open>An update of a version that the transaction does not see is refused.\<close>

lemma update_refused:
  assumes rd: "ready st" and r: "versions st rid = Some rec" and w: "\<not> writable st g rec" and l: "lock_free st g rid"
  shows "\<exists>st'. store_update crc32 now expired rid payload (st, g) = Some (Err SerializationFailure, st', g)"
    and "\<exists>st'. store_delete crc32 now expired rid (st, g) = Some (Err SerializationFailure, st', g)"
proof -
  obtain heap where hp: "st_page_heap st (rid_page rid) = Some heap" using r by (auto simp: versions_def split: if_splits)
  have ok: "store_ok st" using rd by (simp add: ready_def store_good_def)
  obtain st1 where a: "acquire_lock expired rid (st, g) = Some (Ret (), st1, g)" "store_ok st1" "versions st1 = versions st" "cl_kept st st1"
      "st_page_heap st1 = st_page_heap st"
    using acquire_lock_spec [OF ok, of expired rid g] l by auto
  have hp1: "st_page_heap st1 (rid_page rid) = Some heap" using hp a(5) by simp
  have "\<not> writable st1 g rec" "\<not> strained st1" using w writable_cl [OF a(4) same_txn_refl] rd a(4) by (simp_all add: ready_def cl_kept_def)
  then obtain st2 where v: "validate_target rid (st1, g) = Some (Err SerializationFailure, st2, g)"
    using validate_target_spec [OF a(2) hp1, of g] r a(3) by auto
  show "\<exists>st'. store_update crc32 now expired rid payload (st, g) = Some (Err SerializationFailure, st', g)"
    using hp a(1) v by (simp add: store_update_def heap_of_def bindA_cases)
  show "\<exists>st'. store_delete crc32 now expired rid (st, g) = Some (Err SerializationFailure, st', g)"
    using a(1) v by (simp add: store_delete_def bindA_cases)
qed

text \<open>A write of \<open>g\<close> to a key whose indexed version it does not see, though it reads an older one.\<close>

lemma kv_write_refused:
  assumes rd: "ready st" and ix: "has_index st (kv_index ns) S es" and e: "map_of es key = Some rid" and r: "versions st rid = Some rec"
    and w: "\<not> writable st g rec" and l: "locks_calm st g" and c: "chain_read n (versions st) (sees st g) rid = Some (Some p)"
    and key: "length key \<le> MAX_KEY_SIZE"
  shows "\<exists>s. kv_put crc32 now expired ns key val (st, g) = Some (Fail (KvCore SerializationFailure), s)"
    and "\<exists>s. kv_delete crc32 now expired ns key (st, g) = Some (Fail (KvCore SerializationFailure), s)"
proof -
  have v: "versions st rid \<noteq> None" using r by simp
  obtain st1 st2 where p: "kv_lookup ns key (st, g) = Some (Done (Some rid), st1, g)" "on_store KvCore (store_read rid) (st1, g) = Some (Done (Some p), st2, g)"
    "calls st g st2 g" "versions st2 = versions st" by (rule kv_probe [OF rd ix e v c])
  have r2: "versions st2 rid = Some rec" using r p(4) by simp
  have w2: "\<not> writable st2 g rec" using w writable_cl [OF callsD(2,3) [OF p(3)]] by simp
  have l2: "lock_free st2 g rid" using callsD(5) [OF p(3) l] by (simp add: locks_calm_def)
  obtain st3 st4 where u: "store_update crc32 now expired rid (kv_encode key val) (st2, g) = Some (Err SerializationFailure, st3, g)"
      "store_delete crc32 now expired rid (st2, g) = Some (Err SerializationFailure, st4, g)"
    using update_refused [OF callsD(1) [OF p(3)] r2 w2 l2] by metis
  show "\<exists>s. kv_put crc32 now expired ns key val (st, g) = Some (Fail (KvCore SerializationFailure), s)"
    using key p(1,2) on_store_simps(2) [where m = "store_update crc32 now expired rid (kv_encode key val)" and conv = KvCore, OF u(1)]
    by (simp add: kv_put_def kv_target_def kv_write_def eng_bind_cases)
  show "\<exists>s. kv_delete crc32 now expired ns key (st, g) = Some (Fail (KvCore SerializationFailure), s)"
    using p(1,2) on_store_simps(2) [where m = "store_delete crc32 now expired rid" and conv = KvCore, OF u(2)]
    by (simp add: kv_delete_def eng_bind_cases)
qed

text \<open>A version written by a transaction that \<open>g\<close> does not see.\<close>

lemma unseen_version:
  assumes "\<not> sight st g t" and "\<And>q. prev = Some q \<Longrightarrow> rid6_ok q"
  obtains header where "header_decode (version_bytes t prev payload) = Some header" "\<not> sees st g header" "prev_version header = prev"
  using version_bytes_decode(1) [of prev t payload] assms by (auto simp: sees_iff sight_def)

lemma seen_version:
  assumes c: "clean hv (sight st g)" and r: "row hv rid = Some p" and rec: "hv rid = Some rec" and t: "\<not> sight st g t" and x: "x = rec \<or> x = stamp_bytes t rec"
  obtains header where "header_decode x = Some header" "sees st g header" "drop 24 x = p"
proof -
  obtain hdr where h: "header_decode rec = Some hdr" "xmax hdr = NO_TXN" "p = drop 24 rec" using r rec by (auto elim: row_Some)
  have len: "24 \<le> length rec" by (rule decode_length [OF h(1)])
  have vis: "sight st g (xmin hdr)" using c rec h(1) unfolding clean_def by force
  show ?thesis
  proof (cases "x = rec")
    case True
    then show ?thesis using that h vis by (simp add: sees_iff sight_def)
  next
    case False
    then have "x = stamp_bytes t rec" using x by simp
    then show ?thesis using that [of "hdr\<lparr>xmax := t\<rparr>"] h vis t stamp_bytes_decode(2,3) [OF len, of t] by (simp add: sees_iff sight_def)
  qed
qed

lemma ready_abort:
  assumes rd: "ready st"
  obtains w where "abort_internal crc32 seg_now t ReadWrite last_lsn (st_txns st) =
      Some (txn_finish t ((st_txns st)\<lparr>tm_wal := w, tm_commit_log := record_abort t (tm_commit_log (st_txns st))\<rparr>), Inr ())"
    "wal_segment_size w = wal_segment_size (tm_wal (st_txns st))" "wal_top w"
proof -
  let ?w = "tm_wal (st_txns st)" and ?r = "log_txn t last_lsn Abort"
  have big: "20000 \<le> wal_segment_size ?w" "wal_top ?w" using ready_log [OF rd] by simp_all
  obtain w1 res where a: "wal_append crc32 seg_now ?w ?r = Some (w1, res)" using wal_append_runs [of ?w] big(1) by fastforce
  have "\<not> wal_segment_size ?w < 64 + frame_len ?r" using big(1) by (simp add: frame_len_def log_txn_def)
  then obtain l where l: "res = Inr l" using wal_append_top(2) [OF big(2) a] by (cases res) auto
  have c: "abort_internal crc32 seg_now t ReadWrite last_lsn (st_txns st) =
      Some (txn_finish t ((st_txns st)\<lparr>tm_wal := flush_through l w1, tm_commit_log := record_abort t (tm_commit_log (st_txns st))\<rparr>), Inr ())"
    using a l by (simp add: abort_internal_def)
  show ?thesis using that [OF c] commit_internal_log [OF disjI2 [OF c] big(2)] by simp
qed

lemma abort_state:
  assumes s: "kv_state ns st h es"
  obtains m S where "abort_internal crc32 seg_now (th_id h) ReadWrite last_lsn (st_txns st) = Some (m, Inr ())" "ready (put_txns m st)"
    "has_index (put_txns m st) (kv_index ns) S es" "heap_rows (put_txns m st) (kv_heap ns) = heap_rows st (kv_heap ns)"
    "\<And>g. locks_calm (put_txns m st) g"
    "\<And>g t. snap_txn_id (th_snapshot g) \<noteq> th_id h \<Longrightarrow> sight (put_txns m st) g t \<longleftrightarrow> t \<noteq> th_id h \<and> sight st g t"
proof -
  have rd: "ready st" and lc: "locks_calm st h" and ix: "\<exists>S. has_index st (kv_index ns) S es" using s by (simp_all add: kv_state_def)
  obtain w where c: "abort_internal crc32 seg_now (th_id h) ReadWrite last_lsn (st_txns st) =
      Some (txn_finish (th_id h) ((st_txns st)\<lparr>tm_wal := w, tm_commit_log := record_abort (th_id h) (tm_commit_log (st_txns st))\<rparr>), Inr ())"
    "wal_segment_size w = wal_segment_size (tm_wal (st_txns st))" "wal_top w" by (rule ready_abort [OF rd])
  let ?m = "txn_finish (th_id h) ((st_txns st)\<lparr>tm_wal := w, tm_commit_log := record_abort (th_id h) (tm_commit_log (st_txns st))\<rparr>)"
  obtain S where S: "has_index st (kv_index ns) S es" using ix by blast
  have p: "ready (put_txns ?m st)" "heap_rows (put_txns ?m st) (kv_heap ns) = heap_rows st (kv_heap ns)" "has_index (put_txns ?m st) (kv_index ns) S es"
    "st_txns (put_txns ?m st) = ?m" using put_txns_ready [OF rd, of ?m] c(2,3) S by auto
  have calm: "locks_calm (put_txns ?m st) g" for g using release_calm [OF lc] unfolding locks_calm_def lock_free_def p(4) by (simp add: txn_finish_def)
  have sg: "sight (put_txns ?m st) g t \<longleftrightarrow> t \<noteq> th_id h \<and> sight st g t" if "snap_txn_id (th_snapshot g) \<noteq> th_id h" for g t
    using that unfolding sight_def p(4) by (auto simp: effect_visible_iff status_def record_abort_def split: if_splits)
  show ?thesis by (rule that [OF c(1) p(1,3,2) calm sg])
qed

section \<open>A namespace with one key\<close>

lemma demo_idle_store:
  "\<exists>st. idle st \<and> st_page_heap st = Map.empty \<and> page_count (bp_disk (st_pool st)) = 1 \<and> tm_next_txn (st_txns st) = 2"
proof -
  obtain w where w: "wal_segment_size w = 20000" "wal_top w" using wide_wal by blast
  let ?d = "disk_open (replicate 8192 0)"
  let ?st = "record_store_new (pool_new ?d w 2) (txn_manager_new w)"
  have "store_start ?st" unfolding store_start_def using w by (intro exI [of _ ?d] exI [of _ w] exI [of _ 2]) simp
  then have "store_good ?st" by (rule store_start_good)
  moreover have "\<not> strained ?st"
    using w by (simp add: strained_def tight_def record_store_new_def pool_new_def pins_def frame_empty_def Let_def)
  ultimately have rd: "ready ?st" by (simp add: ready_def)
  have m: "st_txns ?st = txn_manager_new w" by (simp add: record_store_new_def)
  have lk: "lk_inv (tm_locks (txn_manager_new w))" by (simp add: txn_manager_new_def lk_inv_new)
  have "holder_of (tm_locks (txn_manager_new w)) r = None" for r
    by (simp add: txn_manager_new_def lock_manager_new_def holder_of_def shard_index_def)
  then have "idle ?st" using rd lk tm_inv_new [of w] unfolding idle_def m by (simp add: txn_manager_new_def)
  moreover have "page_count (bp_disk (st_pool ?st)) = 1" by (simp add: record_store_new_def pool_new_def Let_def page_count_def disk_open_def)
  ultimately show ?thesis by (intro exI [of _ ?st]) (simp add: record_store_new_def txn_manager_new_def)
qed

text \<open>A namespace in a heap without pages is empty.\<close>

lemma kv_create_idle:
  assumes i: "idle st" and heap: "\<forall>page. st_page_heap st page \<noteq> Some heap" and cnt: "0 < page_count (bp_disk (st_pool st))"
    "page_count (bp_disk (st_pool st)) + 1 + 67 * k * n < 2 ^ 32" "unat (tm_next_txn (st_txns st)) + n < 2 ^ 64"
  obtains ns st' where "kv_create crc32 now heap (st, h) = Some (Done ns, st', h)" "kv_idle ns k n st' Map.empty" "kv_heap ns = heap"
    "tm_next_txn (st_txns st') = tm_next_txn (st_txns st)" "page_count (bp_disk (st_pool st')) \<le> page_count (bp_disk (st_pool st)) + 1"
proof -
  have rd: "ready st" and c64: "page_count (bp_disk (st_pool st)) < 2 ^ 64" using i cnt(2) by (simp_all add: idle_def)
  obtain bt st' S where c: "on_index KvIndex (bt_create crc32 now (2 ^ 64 - 1)) (st, h) = Some (Done bt, st', h)" "ready st'" "txns_kept st st'"
    "versions st' = versions st" "has_index st' bt S []" "st_page_heap st' = st_page_heap st"
    "page_count (bp_disk (st_pool st')) \<le> page_count (bp_disk (st_pool st)) + 1" by (rule index_create [OF rd c64 cnt(1)])
  let ?ns = "\<lparr>kv_heap = heap, kv_index = bt\<rparr>"
  have rows: "heap_rows st' heap = Map.empty" using heap c(6) by (simp add: heap_rows_def fun_eq_iff)
  obtain w where w: "st_txns st' = (st_txns st)\<lparr>tm_wal := w\<rparr>" using c(3) by (auto simp: txns_kept_def)
  have "idle st'" using i c(2) w by (simp add: idle_def tm_inv_def)
  moreover have "clean Map.empty vis" "filed [] Map.empty" "kv_map [] Map.empty = Map.empty" for vis
    by (auto simp: clean_def filed_def kv_map_def row_def visible_row_def fun_eq_iff)
  ultimately have "kv_idle ?ns k n st' Map.empty" using c(5,7) cnt(2,3) rows w unfolding kv_idle_def
    by (intro conjI exI [of _ S] exI [of _ "[]"]) simp_all
  moreover have "kv_create crc32 now heap (st, h) = Some (Done ?ns, st', h)" using c(1) by (simp add: kv_create_def eng_bind_cases(1))
  ultimately show ?thesis using that c(7) w by simp
qed

text \<open>A namespace that holds the value 7 for the key 1, a transaction \<open>h\<close> on it, and a reader \<open>g\<close> that does not see \<open>h\<close>.\<close>

lemma demo_namespace:
  "\<exists>ns st h es g. kv_state ns st h es \<and> kv_map es (heap_rows st (kv_heap ns)) [1] = Some [7] \<and> page_count (bp_disk (st_pool st)) + 68 < 2 ^ 32 \<and>
     clean (heap_rows st (kv_heap ns)) (sight st g) \<and> \<not> sight st g (th_id h) \<and> snap_txn_id (th_snapshot g) \<noteq> th_id h"
proof -
  obtain st0 where st0: "idle st0" "st_page_heap st0 = Map.empty" "page_count (bp_disk (st_pool st0)) = 1" "tm_next_txn (st_txns st0) = 2"
    using demo_idle_store by blast
  obtain ns st1 where c: "kv_idle ns 1 (Suc 2) st1 Map.empty" "tm_next_txn (st_txns st1) = tm_next_txn (st_txns st0)"
  proof -
    have "\<forall>page. st_page_heap st0 page \<noteq> Some 1" "0 < page_count (bp_disk (st_pool st0))" "page_count (bp_disk (st_pool st0)) + 1 + 67 * 1 * Suc 2 < 2 ^ 32"
      "unat (tm_next_txn (st_txns st0)) + Suc 2 < 2 ^ 64" using st0(2-4) by simp_all
    from kv_create_idle [OF st0(1) this] show ?thesis using that by blast
  qed
  have legal: "kv_txn_legal 1 [KPut [1] [7]]" by (simp add: kv_txn_legal_def short_def)
  have spec: "snd (kv_txn_spec [KPut [1] [7]] Map.empty) = [[1] \<mapsto> [7]]" by (simp add: kv_txn_spec_def)
  obtain st2 where "kv_idle ns 1 2 st2 [[1] \<mapsto> [7]]"
    using txn_follows.simulates [OF legal c(1), of "\<lambda>_. 3" 0 0 False] unfolding spec by blast
  then obtain S es where i: "idle st2" "has_index st2 (kv_index ns) S es" "clean (heap_rows st2 (kv_heap ns)) (outcome st2)" "filed es (heap_rows st2 (kv_heap ns))"
      "[[1] \<mapsto> [7]] = kv_map es (heap_rows st2 (kv_heap ns))" "unat (tm_next_txn (st_txns st2)) + 2 < 2 ^ 64" "page_count (bp_disk (st_pool st2)) + 134 < 2 ^ 32"
    by (auto simp: kv_idle_def)
  obtain h m where b: "begin_txn ReadWrite (st_txns st2) = (h, m)" by fastforce
  have nx: "unat (tm_next_txn (st_txns st2)) + 1 < 2 ^ 64" using i(6) by simp
  note bs = begin_state [OF i(1) nx b i(2-4)]
  let ?g = "h\<lparr>th_snapshot := \<lparr>snap_txn_id = th_id h + 1, snap_xmin = 0, snap_xmax = th_id h, snap_active = {}\<rparr>\<rparr>"
  have ne: "th_id h + 1 \<noteq> th_id h" by simp
  have "sight (put_txns m st2) ?g t" if "outcome st2 t" for t
  proof -
    have "t < th_id h" using that i(1) bs(5) by (auto simp: outcome_def idle_def tm_inv_def status_def split: option.splits)
    then show ?thesis using that bs(9) by (simp add: sight_def effect_visible_iff outcome_def)
  qed
  then have "clean (heap_rows (put_txns m st2) (kv_heap ns)) (sight (put_txns m st2) ?g)" unfolding bs(3) using clean_mono [OF i(3)] by blast
  moreover have "\<not> sight (put_txns m st2) ?g (th_id h)" using ne by (simp add: sight_def effect_visible_iff)
  ultimately show ?thesis using bs(1,3,4) i(7) ne i(5) [symmetric]
    by (intro exI [of _ ns] exI [of _ "put_txns m st2"] exI [of _ h] exI [of _ es] exI [of _ ?g]) simp
qed

section \<open>Properties of namespaces\<close>

text \<open>
  C1: A namespace is a map. On a store that no transaction uses, creating a namespace in an unused
  heap and then running transactions one after the other (each begins, performs any gets, puts,
  deletes, conditional puts and listings of the entries, and commits) returns exactly what a map
  that starts empty would return: no operation fails or waits, every commit succeeds, each
  transaction finds what the earlier ones left, and a listing has every key once. The bounds are
  keys of 256 bytes, records that fit a page, and 67 pages per operation.
\<close>

theorem kv_transactions_are_map_operations:
  assumes "idle st" and "\<forall>page. st_page_heap st page \<noteq> Some heap" and "0 < page_count (bp_disk (st_pool st))"
    and "page_count (bp_disk (st_pool st)) + 1 + 67 * k * length txns < 2 ^ 32" and "unat (tm_next_txn (st_txns st)) + length txns < 2 ^ 64"
    and "list_all (kv_txn_legal k) txns"
  shows "\<exists>ns st1 st2. kv_create crc32 now heap (st, h) = Some (Done ns, st1, h) \<and>
    run_ops (kv_txn crc32 now seg_now expired ns) txns st1 = Some (fst (spec_ops kv_txn_spec txns Map.empty), st2)"
proof -
  obtain ns st1 where c: "kv_create crc32 now heap (st, h) = Some (Done ns, st1, h)" "kv_idle ns k (length txns) st1 Map.empty"
    using kv_create_idle [OF assms(1-5)] by metis
  from txn_follows.runs [OF assms(6) c(2)] c(1) show ?thesis by blast
qed

theorem kv_transactions_are_map_operations_witness:
  "\<exists>st ns st1 st2. kv_create (\<lambda>_. 3) 0 1 (st, demo_handle) = Some (Done ns, st1, demo_handle) \<and>
     run_ops (kv_txn (\<lambda>_. 3) 0 0 False ns) [[KPut [1] [7], KPut [2] [8]], [KDelete [2], KGet [1], KEntries]] st1 =
       Some ([([KDone, KDone], Inr ()), ([KBool True, KValue (Some [7]), KRows {#([1], [7])#}], Inr ())], st2)"
proof -
  let ?txns = "[[KPut [1] [7], KPut [2] [8]], [KDelete [2], KGet [1], KEntries]]"
  obtain st where st: "idle st" "st_page_heap st = Map.empty" "page_count (bp_disk (st_pool st)) = 1" "tm_next_txn (st_txns st) = 2"
    using demo_idle_store by blast
  have pre: "\<forall>page. st_page_heap st page \<noteq> Some 1" "0 < page_count (bp_disk (st_pool st))"
      "page_count (bp_disk (st_pool st)) + 1 + 67 * 3 * length ?txns < 2 ^ 32" "unat (tm_next_txn (st_txns st)) + length ?txns < 2 ^ 64"
      "list_all (kv_txn_legal 3) ?txns" using st(2-4) by (simp_all add: kv_txn_legal_def short_def)
  have "Map.graph [[1] \<mapsto> [7 :: u8]] = {([1 :: u8], [7])}" by (auto simp: graph_def split: if_splits)
  moreover have "[[1 :: u8] \<mapsto> [7 :: u8], [2] \<mapsto> [8]]([2] := None) = [[1] \<mapsto> [7]]" by (simp add: fun_eq_iff)
  ultimately have "fst (spec_ops kv_txn_spec ?txns Map.empty) = [([KDone, KDone], Inr ()), ([KBool True, KValue (Some [7]), KRows {#([1], [7])#}], Inr ())]"
    by (simp add: kv_txn_spec_def)
  moreover obtain ns st1 st2 where "kv_create (\<lambda>_. 3) 0 1 (st, demo_handle) = Some (Done ns, st1, demo_handle)"
      "run_ops (kv_txn (\<lambda>_. 3) 0 0 False ns) ?txns st1 = Some (fst (spec_ops kv_txn_spec ?txns Map.empty), st2)"
    using kv_transactions_are_map_operations [OF st(1) pre, of "\<lambda>_. 3" 0 demo_handle 0 False] by blast
  ultimately show ?thesis by (intro exI [of _ st] exI [of _ ns] exI [of _ st1] exI [of _ st2]) simp
qed

text \<open>
  C35: Storing a deleted key anew takes its value away from older snapshots. If a key has a value
  and a transaction deletes the key and stores it again, a reader whose snapshot does not contain
  that transaction, and which read the value before, finds no value any more: the new record is not
  chained to the old one, and the index has only the new one.
\<close>

theorem kv_reinsert_hides_old_value:
  assumes "kv_state ns st h es" and "kv_map es (heap_rows st (kv_heap ns)) key = Some v" and "short key" and "length key + length val \<le> 8130"
    and "page_count (bp_disk (st_pool st)) + 68 < 2 ^ 32" and "clean (heap_rows st (kv_heap ns)) (sight st g)" and "\<not> sight st g (th_id h)"
  shows "\<exists>st1 h1 st2 h2. (\<exists>s. kv_get ns key (st, g) = Some (Done (Some v), s)) \<and>
    kv_delete crc32 now expired ns key (st, h) = Some (Done True, st1, h1) \<and> kv_put crc32 now expired ns key val (st1, h1) = Some (Done (), st2, h2) \<and>
    (\<exists>s. kv_get ns key (st2, g) = Some (Done None, s))"
proof -
  let ?hv = "heap_rows st (kv_heap ns)"
  have pc: "page_count (bp_disk (st_pool st)) + 1 < 2 ^ 32" using assms(5) by simp
  obtain S rid p where S: "ready st" "has_index st (kv_index ns) S es" "map_of es key = Some rid" "row ?hv rid = Some p" "kv_decode_value p = v"
    using assms(1,2) by (auto simp: kv_state_def kv_map_def bind_eq_Some_conv)
  obtain rec where rec: "?hv rid = Some rec" using S(4) by (auto elim: row_Some)
  obtain hdr where hdr: "header_decode rec = Some hdr" "sees st g hdr" "drop 24 rec = p"
    by (rule seen_version [OF assms(6) S(4) rec assms(7), of rec]) auto
  have "versions st rid = Some rec" by (rule heap_rows_sub [OF rec])
  then have before: "\<exists>s. kv_get ns key (st, g) = Some (Done (Some v), s)"
    using kv_get_by [OF S(1-3), of 1 g "Some p"] hdr S(5) by (simp add: chain_step_def)
  have some: "(kv_map es ?hv key \<noteq> None) = True" using assms(2) by simp
  obtain st1 h1 where d: "kv_delete crc32 now expired ns key (st, h) = Some (Done True, st1, h1)"
      "kv_step 1 ns st h st1 h1 ((kv_map es ?hv)(key := None))" by (rule kv_delete_spec [OF assms(1) pc, where key = key, unfolded some])
  obtain es1 where s1: "kv_state ns st1 h1 es1" "kv_map es1 (heap_rows st1 (kv_heap ns)) = (kv_map es ?hv)(key := None)" "cl_kept st st1" "same_txn h h1"
    using d(2) unfolding kv_step_def by blast
  have pc1: "page_count (bp_disk (st_pool st1)) + 67 < 2 ^ 32" using d(2) assms(5) by (simp add: kv_step_def)
  have none: "kv_map es1 (heap_rows st1 (kv_heap ns)) key = None" using s1(2) by simp
  obtain st2 h2 where w: "kv_put crc32 now expired ns key val (st1, h1) = Some (Done (), st2, h2)"
      "kv_step 67 ns st1 h1 st2 h2 ((kv_map es1 (heap_rows st1 (kv_heap ns)))(key \<mapsto> val))" "put_effect ns key val es1 (heap_rows st1 (kv_heap ns)) st2 h2"
    by (rule kv_put_spec [OF s1(1) assms(3,4) pc1])
  obtain new es2 where n: "kv_state ns st2 h2 es2" "map_of es2 key = Some new"
      "heap_rows st2 (kv_heap ns) = (heap_rows st1 (kv_heap ns))(new \<mapsto> version_bytes (th_id h2) None (kv_encode key val))"
    using w(3) none unfolding put_effect_def by auto
  obtain S2 where e: "ready st2" "has_index st2 (kv_index ns) S2 es2" using n(1) by (auto simp: kv_state_def)
  have at: "versions st2 new = Some (version_bytes (th_id h2) None (kv_encode key val))" by (rule heap_rows_sub [of _ "kv_heap ns"]) (simp add: n(3))
  have cl: "cl_kept st st2" "same_txn h h2" using s1(3,4) w(2) cl_kept_trans same_txn_trans unfolding kv_step_def by blast+
  have "\<not> sight st2 g (th_id h2)" using assms(7) sight_cl [OF cl(1) same_txn_refl] same_txnD(1) [OF cl(2)] by simp
  then obtain hdr2 where "header_decode (version_bytes (th_id h2) None (kv_encode key val)) = Some hdr2" "\<not> sees st2 g hdr2" "prev_version hdr2 = None"
    by (rule unseen_version) auto
  then have "\<exists>s. kv_get ns key (st2, g) = Some (Done None, s)"
    using kv_get_by [OF e n(2), of 1 g None] at by (simp add: chain_step_def)
  then show ?thesis using before d(1) w(1) by blast
qed

theorem kv_reinsert_hides_old_value_witness:
  "\<exists>ns st h g st1 h1 st2 h2. (\<exists>s. kv_get ns [1] (st, g) = Some (Done (Some [7]), s)) \<and>
     kv_delete (\<lambda>_. 3) 0 False ns [1] (st, h) = Some (Done True, st1, h1) \<and> kv_put (\<lambda>_. 3) 0 False ns [1] [8] (st1, h1) = Some (Done (), st2, h2) \<and>
     (\<exists>s. kv_get ns [1] (st2, g) = Some (Done None, s))"
proof -
  obtain ns st h es g where d: "kv_state ns st h es" "kv_map es (heap_rows st (kv_heap ns)) [1] = Some [7]" "page_count (bp_disk (st_pool st)) + 68 < 2 ^ 32"
      "clean (heap_rows st (kv_heap ns)) (sight st g)" "\<not> sight st g (th_id h)" using demo_namespace by blast
  have k: "short [1]" "length [1 :: u8] + length [8 :: u8] \<le> 8130" by (simp_all add: short_def)
  from kv_reinsert_hides_old_value [OF d(1,2) k d(3-5), of "\<lambda>_. 3" 0 False] show ?thesis by blast
qed

text \<open>
  C36: An aborted put makes its key unwritable. If a transaction stores a key that has a value and
  then aborts, every other transaction still reads the old value, but its puts and deletes of the
  key fail with a serialization failure, although no lock is held and no other transaction runs: the
  index keeps pointing at the aborted version, and nothing repoints it.
\<close>

theorem kv_aborted_put_blocks_key:
  assumes "kv_state ns st h es" and "kv_map es (heap_rows st (kv_heap ns)) key = Some v" and "short key" and "length key + length val \<le> 8130"
    and "page_count (bp_disk (st_pool st)) + 67 < 2 ^ 32" and "clean (heap_rows st (kv_heap ns)) (sight st g)" and "\<not> sight st g (th_id h)"
    and "snap_txn_id (th_snapshot g) \<noteq> th_id h"
  shows "\<exists>st1 h1 m. kv_put crc32 now expired ns key val (st, h) = Some (Done (), st1, h1) \<and>
    abort_internal crc32 seg_now (th_id h1) ReadWrite (th_last_lsn h1) (st_txns st1) = Some (m, Inr ()) \<and>
    (\<exists>s. kv_get ns key (put_txns m st1, g) = Some (Done (Some v), s)) \<and>
    (\<exists>s. kv_put crc32 now expired ns key val' (put_txns m st1, g) = Some (Fail (KvCore SerializationFailure), s)) \<and>
    (\<exists>s. kv_delete crc32 now expired ns key (put_txns m st1, g) = Some (Fail (KvCore SerializationFailure), s))"
proof -
  let ?hv = "heap_rows st (kv_heap ns)"
  obtain st1 h1 where w: "kv_put crc32 now expired ns key val (st, h) = Some (Done (), st1, h1)"
      "kv_step 67 ns st h st1 h1 ((kv_map es ?hv)(key \<mapsto> val))" "put_effect ns key val es ?hv st1 h1" by (rule kv_put_spec [OF assms(1,3-5)])
  have h1: "th_id h1 = th_id h" and cl: "cl_kept st st1" using w(2) same_txnD(1) by (auto simp: kv_step_def)
  have some: "kv_map es ?hv key \<noteq> None" using assms(2) by simp
  obtain new es1 rid rec where n: "kv_state ns st1 h1 es1" "map_of es1 key = Some new" "?hv new = None" "map_of es key = Some rid" "?hv rid = Some rec" "rid6_ok rid"
      "heap_rows st1 (kv_heap ns) = ?hv(new \<mapsto> version_bytes (th_id h1) (Some rid) (kv_encode key val), rid \<mapsto> stamp_bytes (th_id h1) rec)"
    using w(3) some unfolding put_effect_def by auto
  obtain p where p: "row ?hv rid = Some p" "kv_decode_value p = v" using assms(2) n(4) by (auto simp: kv_map_def)
  obtain m S where a: "abort_internal crc32 seg_now (th_id h1) ReadWrite (th_last_lsn h1) (st_txns st1) = Some (m, Inr ())" "ready (put_txns m st1)"
    "has_index (put_txns m st1) (kv_index ns) S es1" "heap_rows (put_txns m st1) (kv_heap ns) = heap_rows st1 (kv_heap ns)"
    "\<And>g. locks_calm (put_txns m st1) g"
    "\<And>g t. snap_txn_id (th_snapshot g) \<noteq> th_id h1 \<Longrightarrow> sight (put_txns m st1) g t \<longleftrightarrow> t \<noteq> th_id h1 \<and> sight st1 g t" by (rule abort_state [OF n(1)]) blast
  let ?st = "put_txns m st1"
  have sg: "sight ?st g t \<longleftrightarrow> sight st g t" for t
    using a(6) [of g t] assms(7,8) h1 sight_cl [OF cl same_txn_refl, of g] by auto
  have un: "\<not> sight ?st g (th_id h1)" and cln: "clean ?hv (sight ?st g)" using sg assms(6,7) h1 clean_mono by simp_all
  have ne: "new \<noteq> rid" using n(3,5) by auto
  have at: "versions ?st new = Some (version_bytes (th_id h1) (Some rid) (kv_encode key val))" "versions ?st rid = Some (stamp_bytes (th_id h1) rec)"
    by (rule heap_rows_sub [of _ "kv_heap ns"], simp add: a(4) n(7) ne)+
  obtain hdr where hdr: "header_decode (version_bytes (th_id h1) (Some rid) (kv_encode key val)) = Some hdr" "\<not> sees ?st g hdr" "prev_version hdr = Some rid"
    by (rule unseen_version [OF un, of "Some rid"]) (use n(6) in auto)
  obtain hdr2 where hdr2: "header_decode (stamp_bytes (th_id h1) rec) = Some hdr2" "sees ?st g hdr2" "drop 24 (stamp_bytes (th_id h1) rec) = p"
    by (rule seen_version [OF cln p(1) n(5) un, of "stamp_bytes (th_id h1) rec"]) auto
  have walk: "chain_read 2 (versions ?st) (sees ?st g) new = Some (Some p)" using at hdr hdr2 by (simp add: numeral_2_eq_2 chain_step_def)
  have "\<exists>s. kv_get ns key (?st, g) = Some (Done (Some v), s)" using kv_get_by [OF a(2,3) n(2) _ walk] at(1) p(2) by simp
  moreover have "\<not> writable ?st g (version_bytes (th_id h1) (Some rid) (kv_encode key val))" using hdr by (simp add: writable_def)
  moreover have "length key \<le> MAX_KEY_SIZE" using assms(3) by (simp add: short_def)
  ultimately show ?thesis using w(1) a(1) kv_write_refused [OF a(2,3) n(2) at(1) _ a(5) walk] by blast
qed

theorem kv_aborted_put_blocks_key_witness:
  "\<exists>ns st h g st1 h1 m. kv_put (\<lambda>_. 3) 0 False ns [1] [8] (st, h) = Some (Done (), st1, h1) \<and>
     abort_internal (\<lambda>_. 3) 0 (th_id h1) ReadWrite (th_last_lsn h1) (st_txns st1) = Some (m, Inr ()) \<and>
     (\<exists>s. kv_get ns [1] (put_txns m st1, g) = Some (Done (Some [7]), s)) \<and>
     (\<exists>s. kv_put (\<lambda>_. 3) 0 False ns [1] [9] (put_txns m st1, g) = Some (Fail (KvCore SerializationFailure), s)) \<and>
     (\<exists>s. kv_delete (\<lambda>_. 3) 0 False ns [1] (put_txns m st1, g) = Some (Fail (KvCore SerializationFailure), s))"
proof -
  obtain ns st h es g where d: "kv_state ns st h es" "kv_map es (heap_rows st (kv_heap ns)) [1] = Some [7]" "page_count (bp_disk (st_pool st)) + 68 < 2 ^ 32"
      "clean (heap_rows st (kv_heap ns)) (sight st g)" "\<not> sight st g (th_id h)" "snap_txn_id (th_snapshot g) \<noteq> th_id h" using demo_namespace by blast
  have k: "short [1]" "length [1 :: u8] + length [8 :: u8] \<le> 8130" "page_count (bp_disk (st_pool st)) + 67 < 2 ^ 32" using d(3) by (simp_all add: short_def)
  from kv_aborted_put_blocks_key [OF d(1,2) k d(4-6), of "\<lambda>_. 3" 0 False 0 "[9]"] show ?thesis by blast
qed

end
