(* ===== verification/Wire.thy ===== *)
theory Wire
  imports Prelude
begin

text \<open>
  The primitives of the wire protocol (\<open>prism-protocol/src/codec.rs\<close>, \<open>error.rs\<close>, \<open>frame.rs\<close>):
  the writer, whose operations fail when a length does not fit its prefix; the bounds-checked
  reader; UTF-8 validation; length-prefixed frames. The locale \<open>wire_codec\<close> is the contract of
  every encoder and decoder pair of the protocol: what is sent is read back, and whatever is read
  is a well-formed value.

  A string is its UTF-8 bytes; that they are valid UTF-8 is part of well-formedness, as it is part
  of the type \<open>String\<close>. A double is its 64 bits.
\<close>

section \<open>Errors\<close>

datatype ProtocolError =
    Truncated string
  | BadUtf8 string
  | UnknownMessageType u8
  | UnknownValueType u8
  | UnknownOpType string u8
  | BadEnum string u8
  | FrameTooLarge nat
  | TrailingBytes nat
  | ValueTooLarge string

section \<open>The writer\<close>

text \<open>What a sequence of writes appends, or the error of the first one that fails.\<close>

type_synonym wout = "ProtocolError + bytes"

definition put_word :: "'a::len word \<Rightarrow> wout" where
  "put_word v = Inr (to_le_bytes v)"

definition put_raw :: "bytes \<Rightarrow> wout" where
  "put_raw bs = Inr bs"

definition put_zeros :: "nat \<Rightarrow> wout" where
  "put_zeros n = Inr (replicate n 0)"

definition put_bool :: "bool \<Rightarrow> wout" where
  "put_bool b = put_word (if b then 1 else 0 :: u8)"

definition w_bytes_u16 :: "string \<Rightarrow> bytes \<Rightarrow> wout" where
  "w_bytes_u16 field bs = (if length bs < 2 ^ 16 then Inr (put_bytes_u16 bs) else Inl (ValueTooLarge field))"

definition w_bytes_u32 :: "string \<Rightarrow> bytes \<Rightarrow> wout" where
  "w_bytes_u32 field bs = (if length bs < 2 ^ 32 then Inr (put_bytes_u32 bs) else Inl (ValueTooLarge field))"

text \<open>A count that is written before a sequence.\<close>

definition w_count_u16 :: "string \<Rightarrow> 'a list \<Rightarrow> wout" where
  "w_count_u16 field xs = (if length xs < 2 ^ 16 then put_word (word_of_nat (length xs) :: u16) else Inl (ValueTooLarge field))"

definition w_count_u32 :: "string \<Rightarrow> 'a list \<Rightarrow> wout" where
  "w_count_u32 field xs = (if length xs < 2 ^ 32 then put_word (word_of_nat (length xs) :: u32) else Inl (ValueTooLarge field))"

fun wcat :: "wout list \<Rightarrow> wout" where
  "wcat [] = Inr []"
| "wcat (x # xs) = bindE x (\<lambda>a. bindE (wcat xs) (\<lambda>b. Inr (a @ b)))"


section \<open>The reader\<close>

text \<open>\<open>std::str::from_utf8\<close>: the well-formed byte sequences of the Unicode standard.\<close>

definition is_cont :: "u8 \<Rightarrow> bool" where
  "is_cont b \<longleftrightarrow> 0x80 \<le> b \<and> b \<le> 0xBF"

fun utf8_ok :: "bytes \<Rightarrow> bool" where
  "utf8_ok [] = True"
| "utf8_ok (a # bs) =
     (if a \<le> 0x7F then utf8_ok bs
      else if 0xC2 \<le> a \<and> a \<le> 0xDF then
        (case bs of b # cs \<Rightarrow> is_cont b \<and> utf8_ok cs | _ \<Rightarrow> False)
      else if 0xE0 \<le> a \<and> a \<le> 0xEF then
        (case bs of b # c # cs \<Rightarrow> is_cont b \<and> is_cont c \<and> (a = 0xE0 \<longrightarrow> 0xA0 \<le> b) \<and> (a = 0xED \<longrightarrow> b \<le> 0x9F) \<and> utf8_ok cs | _ \<Rightarrow> False)
      else if 0xF0 \<le> a \<and> a \<le> 0xF4 then
        (case bs of b # c # d # cs \<Rightarrow> is_cont b \<and> is_cont c \<and> is_cont d \<and> (a = 0xF0 \<longrightarrow> 0x90 \<le> b) \<and> (a = 0xF4 \<longrightarrow> b \<le> 0x8F) \<and> utf8_ok cs | _ \<Rightarrow> False)
      else False)"

type_synonym 'a wreader = "(ProtocolError, 'a) reader"

definition get_word :: "string \<Rightarrow> 'a::len word wreader" where
  "get_word needed = wordR (Truncated needed)"

definition get_raw :: "nat \<Rightarrow> string \<Rightarrow> bytes wreader" where
  "get_raw n needed = takeR (Truncated needed) n"

definition get_bool :: "string \<Rightarrow> bool wreader" where
  "get_bool needed = bindR (get_word needed) (\<lambda>b :: u8. retR (b \<noteq> 0))"

definition skip :: "nat \<Rightarrow> string \<Rightarrow> unit wreader" where
  "skip n needed = bindR (takeR (Truncated needed) n) (\<lambda>_. retR ())"

definition get_bytes_u16 :: "string \<Rightarrow> bytes wreader" where
  "get_bytes_u16 needed = bytes_u16R (Truncated needed)"

definition get_bytes_u32 :: "string \<Rightarrow> bytes wreader" where
  "get_bytes_u32 needed = bytes_u32R (Truncated needed)"

definition utf8R :: "string \<Rightarrow> bytes \<Rightarrow> bytes wreader" where
  "utf8R field bs = (if utf8_ok bs then retR bs else failR (BadUtf8 field))"

definition get_str_u16 :: "string \<Rightarrow> bytes wreader" where
  "get_str_u16 field = bindR (get_bytes_u16 field) (utf8R field)"

definition get_str_u32 :: "string \<Rightarrow> bytes wreader" where
  "get_str_u32 field = bindR (get_bytes_u32 field) (utf8R field)"

text \<open>Running a reader over a whole buffer, with \<open>expect_end\<close>.\<close>

definition read_all :: "'a wreader \<Rightarrow> bytes \<Rightarrow> ProtocolError + 'a" where
  "read_all r b = bindE (r b) (\<lambda>(x, rest). if rest = [] then Inr x else Inl (TrailingBytes (length rest)))"


section \<open>Frames\<close>

definition LENGTH_PREFIX :: nat where [simp]: "LENGTH_PREFIX = 4"
definition MAX_FRAME_SIZE :: nat where [simp]: "MAX_FRAME_SIZE = 64 * 1024 * 1024"

definition frame_encode :: "bytes \<Rightarrow> bytes" where
  "frame_encode payload = to_le_bytes (word_of_nat (length payload) :: u32) @ payload"

definition frame_parse :: "bytes \<Rightarrow> ProtocolError + (bytes \<times> nat) option" where
  "frame_parse buf =
     (if length buf < LENGTH_PREFIX then Inr None
      else
        let len = unat (from_le_bytes (take 4 buf) :: u32) in
        if len > MAX_FRAME_SIZE then Inl (FrameTooLarge len)
        else
          let end' = LENGTH_PREFIX + len in
          if length buf < end' then Inr None
          else Inr (Some (slice LENGTH_PREFIX len buf, end')))"


section \<open>The contract of a codec\<close>

definition sendable :: "wout \<Rightarrow> bool" where
  "sendable w \<longleftrightarrow> (\<exists>b. w = Inr b)"

definition sent :: "wout \<Rightarrow> bytes" where
  "sent w = (case w of Inr b \<Rightarrow> b | Inl _ \<Rightarrow> [])"

named_theorems wire_simps \<open>what the writers send and what the readers read of it\<close>

lemma sendable_simps [wire_simps]:
  "sendable (Inr b)" "\<not> sendable (Inl e)" "sendable (wcat [])" "sendable (wcat (x # xs)) \<longleftrightarrow> sendable x \<and> sendable (wcat xs)"
  by (auto simp: sendable_def bindE_def split: sum.splits)

lemma sent_simps [wire_simps]:
  "sent (Inr b) = b" "sent (wcat []) = []"
  "sendable x \<Longrightarrow> sendable (wcat xs) \<Longrightarrow> sent (wcat (x # xs)) = sent x @ sent (wcat xs)"
  by (auto simp: sendable_def sent_def)

lemma sent_Inr: "w = Inr b \<Longrightarrow> sendable w \<and> b = sent w"
  by (simp add: sendable_def sent_def)

declare wcat.simps [simp del]

lemma sendable_prims [wire_simps]:
  "sendable (put_word v)" "sendable (put_raw bs)" "sendable (put_zeros n)" "sendable (put_bool c)"
  "sendable (w_bytes_u16 f bs) \<longleftrightarrow> length bs < 65536" "sendable (w_bytes_u32 f bs) \<longleftrightarrow> length bs < 4294967296"
  "sendable (w_count_u16 f xs) \<longleftrightarrow> length xs < 65536" "sendable (w_count_u32 f xs) \<longleftrightarrow> length xs < 4294967296"
  by (simp_all add: put_word_def put_raw_def put_zeros_def put_bool_def w_bytes_u16_def w_bytes_u32_def w_count_u16_def w_count_u32_def sendable_simps)

lemma sent_prims [wire_simps]:
  "sent (put_word v) = to_le_bytes v" "sent (put_raw bs) = bs" "sent (put_zeros n) = replicate n 0"
  "sent (put_bool c) = [if c then 1 else 0]"
  "length bs < 65536 \<Longrightarrow> sent (w_bytes_u16 f bs) = put_bytes_u16 bs" "length bs < 4294967296 \<Longrightarrow> sent (w_bytes_u32 f bs) = put_bytes_u32 bs"
  "length xs < 65536 \<Longrightarrow> sent (w_count_u16 f xs) = to_le_bytes (word_of_nat (length xs) :: u16)"
  "length xs < 4294967296 \<Longrightarrow> sent (w_count_u32 f xs) = to_le_bytes (word_of_nat (length xs) :: u32)"
  by (simp_all add: put_word_def put_raw_def put_zeros_def put_bool_def w_bytes_u16_def w_bytes_u32_def w_count_u16_def w_count_u32_def sent_simps to_le_bytes_u8)

lemma read_prims [wire_simps]:
  "get_word n (to_le_bytes (a :: u8) @ rest) = Inr (a, rest)" "get_word n (to_le_bytes (b :: u16) @ rest) = Inr (b, rest)"
  "get_word n (to_le_bytes (c :: u32) @ rest) = Inr (c, rest)" "get_word n (to_le_bytes (d :: u64) @ rest) = Inr (d, rest)"
  "get_word n (to_le_bytes (e :: 128 word) @ rest) = Inr (e, rest)"
  "get_word n ((a :: u8) # rest) = Inr (a, rest)" "get_bool n (a # rest) = Inr (a \<noteq> 0, rest)"
  "get_bool n (to_le_bytes a @ rest) = Inr (a \<noteq> 0, rest)"
  "k = length v \<Longrightarrow> get_raw k n (v @ rest) = Inr (v, rest)"
  "k = length v \<Longrightarrow> skip k n (v @ rest) = Inr ((), rest)"
  "length v < 65536 \<Longrightarrow> get_bytes_u16 n (put_bytes_u16 v @ rest) = Inr (v, rest)"
  "length v < 4294967296 \<Longrightarrow> get_bytes_u32 n (put_bytes_u32 v @ rest) = Inr (v, rest)"
  by (simp_all add: get_word_def get_bool_def get_raw_def skip_def get_bytes_u16_def get_bytes_u32_def reader_simps wordR_append)

lemma read_str [wire_simps]:
  "utf8_ok v \<Longrightarrow> length v < 65536 \<Longrightarrow> get_str_u16 n (put_bytes_u16 v @ rest) = Inr (v, rest)"
  "utf8_ok v \<Longrightarrow> length v < 4294967296 \<Longrightarrow> get_str_u32 n (put_bytes_u32 v @ rest) = Inr (v, rest)"
  by (simp_all add: get_str_u16_def get_str_u32_def utf8R_def reader_simps read_prims)

lemma bindR_Inr_iff: "bindR r f b = Inr y \<longleftrightarrow> (\<exists>x b'. r b = Inr (x, b') \<and> f x b' = Inr y)"
  by (auto simp: bindR_def bindE_Inr_iff split: sum.splits)

lemma get_str_ok: "get_str_u16 f b = Inr (v, r) \<Longrightarrow> utf8_ok v" "get_str_u32 f b = Inr (v, r) \<Longrightarrow> utf8_ok v"
  by (auto simp: get_str_u16_def get_str_u32_def utf8R_def bindR_Inr_iff reader_simps split: if_splits)

lemma get_raw_ok: "get_raw n f b = Inr (v, r) \<Longrightarrow> length v = n"
  by (auto simp: get_raw_def takeR_def split: if_splits)

lemma repR_ok: "repR n r b = Inr (xs, rest) \<Longrightarrow> (\<And>c x c'. r c = Inr (x, c') \<Longrightarrow> ok x) \<Longrightarrow> list_all ok xs \<and> length xs = n"
  by (induction n arbitrary: b xs) (fastforce simp: bindR_Inr_iff reader_simps)+

text \<open>A sequence of writes in which one may panic; an error or a panic ends it.\<close>

fun xcat :: "wout exec list \<Rightarrow> wout exec" where
  "xcat [] = Some (Inr [])"
| "xcat (None # xs) = None"
| "xcat (Some (Inl e) # xs) = Some (Inl e)"
| "xcat (Some (Inr a) # xs) = map_option (\<lambda>w. bindE w (\<lambda>b. Inr (a @ b))) (xcat xs)"

lemma xcat_Some: "list_all (\<lambda>x. x \<noteq> None) xs \<Longrightarrow> xcat xs = Some (wcat (map the xs))"
  by (induction xs rule: xcat.induct) (auto simp: wcat.simps bindE_def)

locale wire_codec =
  fixes enc :: "'a \<Rightarrow> wout"
    and dec :: "'a wreader"
    and ok :: "'a \<Rightarrow> bool"
  assumes dec_sent: "ok x \<Longrightarrow> sendable (enc x) \<Longrightarrow> dec (sent (enc x) @ rest) = Inr (x, rest)"
    and dec_ok: "dec b = Inr (x, rest) \<Longrightarrow> ok x"
begin

lemma rep_sent:
  "list_all ok xs \<Longrightarrow> sendable (wcat (map enc xs)) \<Longrightarrow> n = length xs \<Longrightarrow> repR n dec (sent (wcat (map enc xs)) @ rest) = Inr (xs, rest)"
proof (induction xs arbitrary: n)
  case (Cons x xs)
  have s: "sendable (enc x)" "sendable (wcat (map enc xs))" using Cons.prems(2) by (simp_all add: sendable_simps)
  have "dec (sent (enc x) @ sent (wcat (map enc xs)) @ rest) = Inr (x, sent (wcat (map enc xs)) @ rest)" using Cons.prems(1) s by (simp add: dec_sent)
  moreover have "repR (length xs) dec (sent (wcat (map enc xs)) @ rest) = Inr (xs, rest)" using Cons s by simp
  ultimately show ?case using Cons.prems(3) s by (simp add: sent_simps reader_simps)
qed (simp add: wire_simps reader_simps)

lemma rep_ok: "repR n dec b = Inr (xs, rest) \<Longrightarrow> list_all ok xs \<and> length xs = n"
  by (rule repR_ok) (auto dest: dec_ok)

lemma all_sent:
  "ok x \<Longrightarrow> enc x = Inr b \<Longrightarrow> read_all dec b = Inr x"
  using dec_sent [of x "[]"] sent_Inr [of "enc x" b] by (auto simp: read_all_def)

lemma all_ok: "read_all dec b = Inr x \<Longrightarrow> ok x"
  by (auto simp: read_all_def bindE_Inr_iff split: if_splits dest: dec_ok)

end

interpretation w_str16: wire_codec "w_bytes_u16 f" "get_str_u16 g" utf8_ok for f g
  by unfold_locales (auto simp: wire_simps dest: get_str_ok)

interpretation w_str32: wire_codec "w_bytes_u32 f" "get_str_u32 g" utf8_ok for f g
  by unfold_locales (auto simp: wire_simps dest: get_str_ok)

interpretation w_blob32: wire_codec "w_bytes_u32 f" "get_bytes_u32 g" "\<lambda>_. True" for f g
  by unfold_locales (auto simp: wire_simps)

end
