(* ===== verification/WireData.thy ===== *)
theory WireData
  imports Wire
begin

text \<open>
  The data-plane payloads of the wire protocol (\<open>prism-protocol/src/data.rs\<close>): tagged values,
  result columns and rows with their null bitmaps, the bodies of document and key-value
  operations, document queries and updates. For each payload the file has its encoder, its
  decoder with every error branch, its well-formedness predicate, and the interpretation of
  \<open>wire_codec\<close> that relates them.

  The decoder of queries recurses without a bound in the source; here it takes fuel, running out
  of fuel is the error \<open>None\<close>, and the length of the input plus one is always enough.
\<close>

section \<open>Values\<close>

definition T_NULL :: u8 where [simp]: "T_NULL = 0x00"
definition T_BOOL :: u8 where [simp]: "T_BOOL = 0x01"
definition T_INT32 :: u8 where [simp]: "T_INT32 = 0x02"
definition T_INT64 :: u8 where [simp]: "T_INT64 = 0x03"
definition T_DOUBLE :: u8 where [simp]: "T_DOUBLE = 0x04"
definition T_STRING :: u8 where [simp]: "T_STRING = 0x05"
definition T_BINARY :: u8 where [simp]: "T_BINARY = 0x06"
definition T_TIMESTAMP :: u8 where [simp]: "T_TIMESTAMP = 0x09"
definition T_OBJECTID :: u8 where [simp]: "T_OBJECTID = 0x0A"

datatype Value =
    VNull
  | VBool bool
  | VInt32 u32
  | VInt64 u64
  | VDouble u64
  | VStr bytes
  | VBinary u8 bytes
  | VTimestamp u64
  | VObjectId bytes

fun type_tag :: "Value \<Rightarrow> u8" where
  "type_tag VNull = T_NULL"
| "type_tag (VBool _) = T_BOOL"
| "type_tag (VInt32 _) = T_INT32"
| "type_tag (VInt64 _) = T_INT64"
| "type_tag (VDouble _) = T_DOUBLE"
| "type_tag (VStr _) = T_STRING"
| "type_tag (VBinary _ _) = T_BINARY"
| "type_tag (VTimestamp _) = T_TIMESTAMP"
| "type_tag (VObjectId _) = T_OBJECTID"

fun encode_value :: "Value \<Rightarrow> wout" where
  "encode_value VNull = wcat []"
| "encode_value (VBool b) = put_bool b"
| "encode_value (VInt32 n) = put_word n"
| "encode_value (VInt64 n) = put_word n"
| "encode_value (VDouble d) = put_word d"
| "encode_value (VStr s) = w_bytes_u32 ''value.str'' s"
| "encode_value (VBinary subtype bs) = wcat [w_count_u32 ''value.binary'' bs, put_word subtype, put_raw bs]"
| "encode_value (VTimestamp t) = put_word t"
| "encode_value (VObjectId i) = put_raw i"

definition decode_value :: "u8 \<Rightarrow> Value wreader" where
  "decode_value tag =
     (if tag = T_NULL then retR VNull
      else if tag = T_BOOL then bindR (get_bool ''value.bool'') (\<lambda>b. retR (VBool b))
      else if tag = T_INT32 then bindR (get_word ''value.int32'') (\<lambda>n. retR (VInt32 n))
      else if tag = T_INT64 then bindR (get_word ''value.int64'') (\<lambda>n. retR (VInt64 n))
      else if tag = T_DOUBLE then bindR (get_word ''value.double'') (\<lambda>d. retR (VDouble d))
      else if tag = T_STRING then bindR (get_str_u32 ''value.str'') (\<lambda>s. retR (VStr s))
      else if tag = T_BINARY then
        bindR (get_word ''value.binary_len'') (\<lambda>len :: u32. bindR (get_word ''value.binary_subtype'') (\<lambda>subtype.
        bindR (get_raw (unat len) ''value.binary'') (\<lambda>bs. retR (VBinary subtype bs))))
      else if tag = T_TIMESTAMP then bindR (get_word ''value.timestamp'') (\<lambda>t. retR (VTimestamp t))
      else if tag = T_OBJECTID then bindR (get_raw 12 ''value.objectid'') (\<lambda>i. retR (VObjectId i))
      else failR (UnknownValueType tag))"

definition encode_tagged :: "Value \<Rightarrow> wout" where
  "encode_tagged v = wcat [put_word (type_tag v), encode_value v]"

definition decode_tagged :: "Value wreader" where
  "decode_tagged = bindR (get_word ''value.type_tag'') (\<lambda>tag. decode_value tag)"

fun value_ok :: "Value \<Rightarrow> bool" where
  "value_ok (VStr s) \<longleftrightarrow> utf8_ok s"
| "value_ok (VObjectId i) \<longleftrightarrow> length i = 12"
| "value_ok _ \<longleftrightarrow> True"

lemma decode_value_sent:
  "value_ok v \<Longrightarrow> sendable (encode_value v) \<Longrightarrow> decode_value (type_tag v) (sent (encode_value v) @ rest) = Inr (v, rest)"
  by (cases v) (simp_all add: decode_value_def wire_simps reader_simps unat_small_u32)

lemma decode_value_ok: "decode_value tag b = Inr (v, rest) \<Longrightarrow> value_ok v \<and> type_tag v = tag"
  by (auto simp: decode_value_def bindR_Inr_iff reader_simps dest: get_str_ok get_raw_ok split: if_splits)

interpretation w_value: wire_codec encode_tagged decode_tagged value_ok
proof
  show "decode_tagged (sent (encode_tagged x) @ rest) = Inr (x, rest)" if "value_ok x" "sendable (encode_tagged x)" for x rest
    using that decode_value_sent [of x rest] by (simp add: encode_tagged_def decode_tagged_def wire_simps reader_simps)
  show "value_ok x" if "decode_tagged b = Inr (x, rest)" for b x rest
    using that decode_value_ok by (auto simp: decode_tagged_def bindR_Inr_iff)
qed


section \<open>Columns and rows\<close>

record ColumnDesc =
  cd_name :: bytes
  cd_type_tag :: u8
  cd_nullable :: bool

definition encode_column :: "ColumnDesc \<Rightarrow> wout" where
  "encode_column c = wcat [w_bytes_u16 ''column.name'' (cd_name c), put_word (cd_type_tag c), put_bool (cd_nullable c)]"

definition decode_column :: "ColumnDesc wreader" where
  "decode_column = bindR (get_str_u16 ''column.name'') (\<lambda>name. bindR (get_word ''column.type_tag'') (\<lambda>tag.
     bindR (get_bool ''column.nullable'') (\<lambda>nullable. retR \<lparr>cd_name = name, cd_type_tag = tag, cd_nullable = nullable\<rparr>)))"

interpretation w_column: wire_codec encode_column decode_column "\<lambda>c. utf8_ok (cd_name c)"
  by unfold_locales (auto simp: encode_column_def decode_column_def wire_simps reader_simps bindR_Inr_iff dest: get_str_ok)

type_synonym Row = "Value option list"

definition bitmap_bytes :: "ColumnDesc list \<Rightarrow> nat" where
  "bitmap_bytes columns = (length columns + 7) div 8"

text \<open>\<open>bitmap[i / 8] |= 1 << (i % 8)\<close> for every null cell \<open>i\<close>; the indexing panics past the bitmap.\<close>

definition null_bitmap :: "nat \<Rightarrow> Row \<Rightarrow> bytes" where
  "null_bitmap nb row = fold (\<lambda>(i, cell) bm. if cell = None then bm[i div 8 := bm ! (i div 8) OR push_bit (i mod 8) 1] else bm)
     (enumerate 0 row) (replicate nb 0)"

definition row_panics :: "nat \<Rightarrow> Row \<Rightarrow> bool" where
  "row_panics nb row \<longleftrightarrow> list_ex (\<lambda>(i, cell). cell = None \<and> nb \<le> i div 8) (enumerate 0 row)"

definition encode_row :: "ColumnDesc list \<Rightarrow> Row \<Rightarrow> wout" where
  "encode_row columns row = wcat [put_raw (null_bitmap (bitmap_bytes columns) row), wcat (map encode_value (List.map_filter (\<lambda>c. c) row))]"

definition encode_rows :: "ColumnDesc list \<Rightarrow> Row list \<Rightarrow> wout exec" where
  "encode_rows columns rows =
     xcat (map (\<lambda>row. if row_panics (bitmap_bytes columns) row then None else Some (encode_row columns row)) rows)"

fun decode_cells :: "bytes \<Rightarrow> nat \<Rightarrow> ColumnDesc list \<Rightarrow> Row wreader" where
  "decode_cells bitmap i [] = retR []"
| "decode_cells bitmap i (col # cols) =
     bindR (if bit (bitmap ! (i div 8)) (i mod 8) then retR None else bindR (decode_value (cd_type_tag col)) (\<lambda>v. retR (Some v))) (\<lambda>cell.
     bindR (decode_cells bitmap (i + 1) cols) (\<lambda>cells. retR (cell # cells)))"

definition decode_row :: "ColumnDesc list \<Rightarrow> Row wreader" where
  "decode_row columns = bindR (get_raw (bitmap_bytes columns) ''row.null_bitmap'') (\<lambda>bitmap. decode_cells bitmap 0 columns)"

definition decode_rows :: "ColumnDesc list \<Rightarrow> nat \<Rightarrow> Row list wreader" where
  "decode_rows columns row_count = repR row_count (decode_row columns)"

definition cell_ok :: "ColumnDesc \<Rightarrow> Value option \<Rightarrow> bool" where
  "cell_ok col cell \<longleftrightarrow> (case cell of None \<Rightarrow> True | Some v \<Rightarrow> type_tag v = cd_type_tag col \<and> value_ok v)"

definition row_ok :: "ColumnDesc list \<Rightarrow> Row \<Rightarrow> bool" where
  "row_ok columns row \<longleftrightarrow> list_all2 cell_ok columns row"

lemma length_null_bitmap [simp]: "length (null_bitmap nb row) = nb"
proof -
  have "length (fold (\<lambda>(i, cell) bm. if cell = None then bm[i div 8 := bm ! (i div 8) OR push_bit (i mod 8) 1] else bm) xs b) = length b" for xs :: "(nat \<times> Value option) list" and b :: bytes
    by (induction xs arbitrary: b) (auto split: prod.splits)
  then show ?thesis by (simp add: null_bitmap_def)
qed

lemma null_bitmap_snoc:
  "null_bitmap nb (row @ [cell]) = (let bm = null_bitmap nb row; i = length row in
     if cell = None then bm[i div 8 := bm ! (i div 8) OR push_bit (i mod 8) 1] else bm)"
  by (simp add: null_bitmap_def enumerate_append_eq Let_def)

lemma null_bitmap_bit:
  assumes "length row \<le> 8 * nb" and "j < 8 * nb"
  shows "bit (null_bitmap nb row ! (j div 8)) (j mod 8) \<longleftrightarrow> j < length row \<and> row ! j = None"
  using assms(1)
proof (induction row rule: rev_induct)
  case Nil
  then show ?case using assms(2) by (simp add: null_bitmap_def less_mult_imp_div_less mult.commute)
next
  case (snoc cell row)
  let ?i = "length row"
  have IH: "bit (null_bitmap nb row ! (j div 8)) (j mod 8) \<longleftrightarrow> j < ?i \<and> row ! j = None" using snoc by simp
  have i: "?i div 8 < nb" using snoc.prems by (simp add: less_mult_imp_div_less mult.commute)
  show ?case
  proof (cases "cell = None")
    case True
    have "bit (push_bit (?i mod 8) (1 :: u8)) (j mod 8) \<longleftrightarrow> ?i mod 8 = j mod 8" by (auto simp: bit_simps)
    moreover have "?i div 8 = j div 8 \<and> ?i mod 8 = j mod 8 \<longleftrightarrow> ?i = j" by (metis div_mult_mod_eq)
    ultimately have "bit (null_bitmap nb (row @ [cell]) ! (j div 8)) (j mod 8) \<longleftrightarrow> bit (null_bitmap nb row ! (j div 8)) (j mod 8) \<or> ?i = j"
      using i True by (cases "?i div 8 = j div 8") (auto simp: null_bitmap_snoc Let_def bit_or_iff)
    then show ?thesis using IH True by (auto simp: nth_append)
  next
    case False
    then show ?thesis using IH by (auto simp: null_bitmap_snoc Let_def nth_append less_Suc_eq)
  qed
qed

lemma decode_cells_sent:
  assumes "list_all2 cell_ok cols cells" and "sendable (wcat (map encode_value (List.map_filter (\<lambda>c. c) cells)))"
    and "\<And>k. k < length cells \<Longrightarrow> bit (bm ! ((i + k) div 8)) ((i + k) mod 8) \<longleftrightarrow> cells ! k = None"
  shows "decode_cells bm i cols (sent (wcat (map encode_value (List.map_filter (\<lambda>c. c) cells))) @ rest) = Inr (cells, rest)"
  using assms
proof (induction cols cells arbitrary: i rule: list_all2_induct)
  case (Cons col cols cell cells)
  have b0: "bit (bm ! (i div 8)) (i mod 8) \<longleftrightarrow> cell = None" using Cons.prems(2) [of 0] by simp
  have bs: "bit (bm ! ((i + 1 + k) div 8)) ((i + 1 + k) mod 8) \<longleftrightarrow> cells ! k = None" if "k < length cells" for k
    using Cons.prems(2) [of "Suc k"] that by simp
  show ?case
  proof (cases cell)
    case None
    then have "decode_cells bm (i + 1) cols (sent (wcat (map encode_value (List.map_filter (\<lambda>c. c) cells))) @ rest) = Inr (cells, rest)"
      using Cons.IH [OF _ bs] Cons.prems(1) by (simp add: map_filter_simps)
    then show ?thesis using b0 None by (simp add: map_filter_simps reader_simps)
  next
    case (Some v)
    let ?s = "sent (wcat (map encode_value (List.map_filter (\<lambda>c. c) cells)))"
    have s: "sendable (encode_value v)" "sendable (wcat (map encode_value (List.map_filter (\<lambda>c. c) cells)))"
      using Cons.prems(1) Some by (simp_all add: map_filter_simps wire_simps)
    have v: "value_ok v" "type_tag v = cd_type_tag col" using Cons.hyps(1) Some by (simp_all add: cell_ok_def)
    have "decode_value (cd_type_tag col) (sent (encode_value v) @ ?s @ rest) = Inr (v, ?s @ rest)"
      using decode_value_sent [OF v(1) s(1)] v(2) by simp
    moreover have "decode_cells bm (i + 1) cols (?s @ rest) = Inr (cells, rest)" using Cons.IH [OF s(2) bs] .
    ultimately show ?thesis using b0 Some s by (simp add: map_filter_simps reader_simps wire_simps)
  qed
qed (simp add: map_filter_simps wire_simps reader_simps)

lemma decode_cells_ok: "decode_cells bm i cols b = Inr (cells, rest) \<Longrightarrow> list_all2 cell_ok cols cells"
proof (induction cols arbitrary: i b cells rest)
  case (Cons col cols)
  then obtain cell cs b1 b2 where c: "cells = cell # cs" "decode_cells bm (i + 1) cols b1 = Inr (cs, b2)" "cell_ok col cell"
    by (fastforce simp: bindR_Inr_iff reader_simps cell_ok_def split: if_splits option.splits dest: decode_value_ok)
  then show ?case using Cons.IH by simp
qed (simp add: reader_simps)

interpretation w_row: wire_codec "encode_row columns" "decode_row columns" "row_ok columns" for columns
proof
  fix row rest assume ok: "row_ok columns row" and s: "sendable (encode_row columns row)"
  have len: "length row = length columns" using ok by (auto simp: row_ok_def dest: list_all2_lengthD)
  have nb: "length row \<le> 8 * bitmap_bytes columns" using len by (simp add: bitmap_bytes_def)
  have "bit (null_bitmap (bitmap_bytes columns) row ! ((0 + k) div 8)) ((0 + k) mod 8) \<longleftrightarrow> row ! k = None" if "k < length row" for k
    using null_bitmap_bit [OF nb, of k] that nb by simp
  from decode_cells_sent [OF ok [unfolded row_ok_def] _ this, of rest] show "decode_row columns (sent (encode_row columns row) @ rest) = Inr (row, rest)"
    using s by (simp add: encode_row_def decode_row_def wire_simps reader_simps)
next
  show "row_ok columns row" if "decode_row columns b = Inr (row, rest)" for b row rest
    using that decode_cells_ok by (auto simp: decode_row_def bindR_Inr_iff row_ok_def)
qed
lemma row_ok_no_panic: "row_ok columns row \<Longrightarrow> \<not> row_panics (bitmap_bytes columns) row"
proof -
  assume "row_ok columns row"
  then have len: "length row = length columns" by (auto simp: row_ok_def dest: list_all2_lengthD)
  have "i div 8 < bitmap_bytes columns" if "i < length row" for i
    using that len by (simp add: bitmap_bytes_def)
  then show ?thesis by (fastforce simp: row_panics_def list_ex_iff in_set_enumerate_eq dest: leD)
qed

lemma encode_rows_ok: "list_all (row_ok columns) rows \<Longrightarrow> encode_rows columns rows = Some (wcat (map (encode_row columns) rows))"
  by (auto simp: encode_rows_def xcat_Some list_all_iff row_ok_no_panic o_def intro!: arg_cong [where f = wcat])


section \<open>Document operations\<close>

datatype DocCommand =
    DocInsertOne bytes
  | DocInsertMany "bytes list"
  | DocFind bytes bytes
  | DocFindOne bytes bytes
  | DocUpdateOne bytes bytes bytes
  | DocUpdateMany bytes bytes bytes
  | DocDeleteOne bytes bytes
  | DocDeleteMany bytes bytes
  | DocCount bytes bytes

fun doc_op_type :: "DocCommand \<Rightarrow> u8" where
  "doc_op_type (DocInsertOne _) = 1"
| "doc_op_type (DocInsertMany _) = 2"
| "doc_op_type (DocFind _ _) = 3"
| "doc_op_type (DocFindOne _ _) = 4"
| "doc_op_type (DocUpdateOne _ _ _) = 5"
| "doc_op_type (DocUpdateMany _ _ _) = 6"
| "doc_op_type (DocDeleteOne _ _) = 7"
| "doc_op_type (DocDeleteMany _ _) = 8"
| "doc_op_type (DocCount _ _) = 9"

definition put_query_options :: "bytes \<Rightarrow> bytes \<Rightarrow> wout" where
  "put_query_options query options = wcat [w_bytes_u32 ''doc.query'' query, w_bytes_u32 ''doc.options'' options]"

definition put_query_update_options :: "bytes \<Rightarrow> bytes \<Rightarrow> bytes \<Rightarrow> wout" where
  "put_query_update_options query update options =
     wcat [w_bytes_u32 ''doc.query'' query, w_bytes_u32 ''doc.update'' update, w_bytes_u32 ''doc.options'' options]"

fun doc_encode_body :: "DocCommand \<Rightarrow> wout" where
  "doc_encode_body (DocInsertOne doc) = w_bytes_u32 ''doc.document'' doc"
| "doc_encode_body (DocInsertMany docs) = wcat [w_count_u32 ''doc.count'' docs, wcat (map (w_bytes_u32 ''doc.document'') docs)]"
| "doc_encode_body (DocFind query options) = put_query_options query options"
| "doc_encode_body (DocFindOne query options) = put_query_options query options"
| "doc_encode_body (DocUpdateOne query update options) = put_query_update_options query update options"
| "doc_encode_body (DocUpdateMany query update options) = put_query_update_options query update options"
| "doc_encode_body (DocDeleteOne query options) = put_query_options query options"
| "doc_encode_body (DocDeleteMany query options) = put_query_options query options"
| "doc_encode_body (DocCount query options) = put_query_options query options"

definition get_query_options :: "(bytes \<Rightarrow> bytes \<Rightarrow> DocCommand) \<Rightarrow> DocCommand wreader" where
  "get_query_options mk = bindR (get_bytes_u32 ''doc.query'') (\<lambda>query. bindR (get_bytes_u32 ''doc.options'') (\<lambda>options. retR (mk query options)))"

definition get_query_update_options :: "(bytes \<Rightarrow> bytes \<Rightarrow> bytes \<Rightarrow> DocCommand) \<Rightarrow> DocCommand wreader" where
  "get_query_update_options mk = bindR (get_bytes_u32 ''doc.query'') (\<lambda>query. bindR (get_bytes_u32 ''doc.update'') (\<lambda>update.
     bindR (get_bytes_u32 ''doc.options'') (\<lambda>options. retR (mk query update options))))"

definition doc_decode_body :: "u8 \<Rightarrow> DocCommand wreader" where
  "doc_decode_body op =
     (if op = 1 then bindR (get_bytes_u32 ''doc.document'') (\<lambda>doc. retR (DocInsertOne doc))
      else if op = 2 then bindR (get_word ''doc.count'') (\<lambda>count :: u32.
        bindR (repR (unat count) (get_bytes_u32 ''doc.document'')) (\<lambda>docs. retR (DocInsertMany docs)))
      else if op = 3 then get_query_options DocFind
      else if op = 4 then get_query_options DocFindOne
      else if op = 5 then get_query_update_options DocUpdateOne
      else if op = 6 then get_query_update_options DocUpdateMany
      else if op = 7 then get_query_options DocDeleteOne
      else if op = 8 then get_query_options DocDeleteMany
      else if op = 9 then get_query_options DocCount
      else failR (UnknownOpType ''document'' op))"

lemma doc_decode_sent:
  "sendable (doc_encode_body c) \<Longrightarrow> doc_decode_body (doc_op_type c) (sent (doc_encode_body c) @ rest) = Inr (c, rest)"
  by (cases c) (auto simp: doc_decode_body_def put_query_options_def put_query_update_options_def get_query_options_def
      get_query_update_options_def wire_simps reader_simps unat_small_u32 w_blob32.rep_sent list_all_iff)


section \<open>Document queries\<close>

datatype DocQuery =
    QAll
  | QEq bytes Value
  | QNe bytes Value
  | QGt bytes Value
  | QLt bytes Value
  | QGte bytes Value
  | QLte bytes Value
  | QIn bytes "Value list"
  | QNin bytes "Value list"
  | QExists bytes bool
  | QAnd "DocQuery list"
  | QOr "DocQuery list"
  | QNot DocQuery

definition field_op :: "u8 \<Rightarrow> bytes \<Rightarrow> Value \<Rightarrow> wout" where
  "field_op tag field v = wcat [put_word tag, w_bytes_u16 ''query.field'' field, encode_tagged v]"

definition field_set :: "u8 \<Rightarrow> bytes \<Rightarrow> Value list \<Rightarrow> wout" where
  "field_set tag field vs = wcat [put_word tag, w_bytes_u16 ''query.field'' field, w_count_u32 ''query.set'' vs, wcat (map encode_tagged vs)]"

fun encode_query :: "DocQuery \<Rightarrow> wout" where
  "encode_query QAll = put_word (0 :: u8)"
| "encode_query (QEq f v) = field_op 1 f v"
| "encode_query (QNe f v) = field_op 2 f v"
| "encode_query (QGt f v) = field_op 3 f v"
| "encode_query (QLt f v) = field_op 4 f v"
| "encode_query (QGte f v) = field_op 5 f v"
| "encode_query (QLte f v) = field_op 6 f v"
| "encode_query (QIn f vs) = field_set 7 f vs"
| "encode_query (QNin f vs) = field_set 8 f vs"
| "encode_query (QExists f want) = wcat [put_word (9 :: u8), w_bytes_u16 ''query.field'' f, put_bool want]"
| "encode_query (QAnd subs) = wcat [put_word (10 :: u8), w_count_u32 ''query.group'' subs, wcat (map encode_query subs)]"
| "encode_query (QOr subs) = wcat [put_word (11 :: u8), w_count_u32 ''query.group'' subs, wcat (map encode_query subs)]"
| "encode_query (QNot inner) = wcat [put_word (12 :: u8), encode_query inner]"

text \<open>Errors of the query decoder: \<open>Some e\<close> is the error of the code, \<open>None\<close> is missing fuel.\<close>

type_synonym 'a qreader = "(ProtocolError option, 'a) reader"

definition liftR :: "'a wreader \<Rightarrow> 'a qreader" where
  "liftR r b = map_sum Some id (r b)"

definition read_field :: "bytes qreader" where
  "read_field = liftR (get_str_u16 ''query.field'')"

definition decode_field_op :: "(bytes \<Rightarrow> Value \<Rightarrow> DocQuery) \<Rightarrow> DocQuery qreader" where
  "decode_field_op mk = bindR read_field (\<lambda>f. bindR (liftR decode_tagged) (\<lambda>v. retR (mk f v)))"

definition decode_set :: "Value list wreader" where
  "decode_set = bindR (get_word ''query.set_count'') (\<lambda>count :: u32. repR (unat count) decode_tagged)"

definition decode_field_set :: "(bytes \<Rightarrow> Value list \<Rightarrow> DocQuery) \<Rightarrow> DocQuery qreader" where
  "decode_field_set mk = bindR read_field (\<lambda>f. bindR (liftR decode_set) (\<lambda>vs. retR (mk f vs)))"

definition decode_group :: "DocQuery qreader \<Rightarrow> (DocQuery list \<Rightarrow> DocQuery) \<Rightarrow> DocQuery qreader" where
  "decode_group decode mk = bindR (liftR (get_word ''query.group_count'')) (\<lambda>count :: u32.
     bindR (repR (unat count) decode) (\<lambda>subs. retR (mk subs)))"

fun decode_query :: "nat \<Rightarrow> DocQuery qreader" where
  "decode_query 0 = failR None"
| "decode_query (Suc fuel) = bindR (liftR (get_word ''query.tag'')) (\<lambda>tag :: u8.
     if tag = 0 then retR QAll
     else if tag = 1 then decode_field_op QEq
     else if tag = 2 then decode_field_op QNe
     else if tag = 3 then decode_field_op QGt
     else if tag = 4 then decode_field_op QLt
     else if tag = 5 then decode_field_op QGte
     else if tag = 6 then decode_field_op QLte
     else if tag = 7 then decode_field_set QIn
     else if tag = 8 then decode_field_set QNin
     else if tag = 9 then bindR read_field (\<lambda>f. bindR (liftR (get_bool ''query.exists'')) (\<lambda>want. retR (QExists f want)))
     else if tag = 10 then decode_group (decode_query fuel) QAnd
     else if tag = 11 then decode_group (decode_query fuel) QOr
     else if tag = 12 then bindR (decode_query fuel) (\<lambda>q. retR (QNot q))
     else failR (Some (BadEnum ''query.tag'' tag)))"

definition query_to_bytes :: "DocQuery \<Rightarrow> wout" where
  "query_to_bytes q = encode_query q"

definition query_from_bytes :: "bytes \<Rightarrow> (ProtocolError + DocQuery) option" where
  "query_from_bytes b = (case decode_query (length b + 1) b of
       Inl None \<Rightarrow> None
     | Inl (Some e) \<Rightarrow> Some (Inl e)
     | Inr (q, rest) \<Rightarrow> Some (if rest = [] then Inr q else Inl (TrailingBytes (length rest))))"

fun query_ok :: "DocQuery \<Rightarrow> bool" where
  "query_ok QAll \<longleftrightarrow> True"
| "query_ok (QEq f v) \<longleftrightarrow> utf8_ok f \<and> value_ok v"
| "query_ok (QNe f v) \<longleftrightarrow> utf8_ok f \<and> value_ok v"
| "query_ok (QGt f v) \<longleftrightarrow> utf8_ok f \<and> value_ok v"
| "query_ok (QLt f v) \<longleftrightarrow> utf8_ok f \<and> value_ok v"
| "query_ok (QGte f v) \<longleftrightarrow> utf8_ok f \<and> value_ok v"
| "query_ok (QLte f v) \<longleftrightarrow> utf8_ok f \<and> value_ok v"
| "query_ok (QIn f vs) \<longleftrightarrow> utf8_ok f \<and> list_all value_ok vs"
| "query_ok (QNin f vs) \<longleftrightarrow> utf8_ok f \<and> list_all value_ok vs"
| "query_ok (QExists f _) \<longleftrightarrow> utf8_ok f"
| "query_ok (QAnd subs) \<longleftrightarrow> list_all query_ok subs"
| "query_ok (QOr subs) \<longleftrightarrow> list_all query_ok subs"
| "query_ok (QNot q) \<longleftrightarrow> query_ok q"

text \<open>A reader never gives back more than it was given; a fuelled one ends on inputs shorter than its fuel.\<close>

definition reads :: "('e, 'a) reader \<Rightarrow> bool" where
  "reads r \<longleftrightarrow> (\<forall>b x rest. r b = Inr (x, rest) \<longrightarrow> length rest \<le> length b)"

definition fuelled :: "nat \<Rightarrow> 'a qreader \<Rightarrow> bool" where
  "fuelled n r \<longleftrightarrow> (\<forall>b. length b < n \<longrightarrow> r b \<noteq> Inl None)"

named_theorems reads_intros \<open>the readers that consume a prefix of their input\<close>

lemma reads_ret [reads_intros]: "reads (retR x)" "reads (failR e)" "reads (takeR e n)"
  by (auto simp: reads_def reader_simps takeR_def failR_def split: if_splits)

lemma reads_bind [reads_intros]: "reads r \<Longrightarrow> (\<And>x. reads (f x)) \<Longrightarrow> reads (bindR r f)"
  unfolding reads_def bindR_Inr_iff by (meson le_trans)

lemma reads_rep [reads_intros]: "reads r \<Longrightarrow> reads (repR n r)"
  by (induction n) (auto intro!: reads_intros)

lemma liftR_Inr_iff [simp]: "liftR r b = Inr y \<longleftrightarrow> r b = Inr y"
  by (cases "r b") (auto simp: liftR_def)

lemma reads_lift [reads_intros]: "reads r \<Longrightarrow> reads (liftR r)"
  by (simp add: reads_def)

lemma reads_prims [reads_intros]:
  "reads (get_word n)" "reads (get_raw k n)" "reads (get_bool n)" "reads (get_str_u16 n)" "reads (get_str_u32 n)"
  by (auto simp: get_word_def wordR_def get_raw_def get_bool_def get_str_u16_def get_str_u32_def get_bytes_u16_def get_bytes_u32_def
      bytes_u16R_def bytes_u32R_def utf8R_def intro!: reads_intros)

lemma reads_tagged [reads_intros]: "reads decode_tagged" "reads decode_set" "reads read_field"
  unfolding decode_tagged_def decode_value_def decode_set_def read_field_def by (auto intro!: reads_intros)

lemma reads_query [reads_intros]: "reads (decode_query n)"
  by (induction n) (auto simp: decode_field_op_def decode_field_set_def decode_group_def intro!: reads_intros)

named_theorems fuelled_intros \<open>the readers that end within their fuel\<close>

lemma fuelled_lift [fuelled_intros]: "fuelled n (liftR r)" "fuelled n (retR x)" "fuelled n (failR (Some e))"
  by (auto simp: fuelled_def liftR_def retR_def failR_def map_sum_def split: sum.splits)

lemma fuelled_bind [fuelled_intros]: "fuelled n r \<Longrightarrow> reads r \<Longrightarrow> (\<And>x. fuelled n (f x)) \<Longrightarrow> fuelled n (bindR r f)"
  unfolding fuelled_def reads_def bindR_def bindE_def by (fastforce split: sum.splits prod.splits)

lemma fuelled_rep [fuelled_intros]: "fuelled n r \<Longrightarrow> reads r \<Longrightarrow> fuelled n (repR k r)"
  by (induction k) (auto intro!: fuelled_intros reads_intros)

lemma fuelled_read_field [fuelled_intros]: "fuelled n read_field"
  by (simp add: read_field_def fuelled_lift)

lemma fuelled_tag: "(\<And>x. fuelled n (f x)) \<Longrightarrow> fuelled (Suc n) (bindR (liftR (get_word t)) (\<lambda>x :: u8. f x))"
proof -
  assume f: "\<And>x. fuelled n (f x)"
  have "length rest < length b" if "get_word t b = Inr (x :: u8, rest)" for b x rest
    using that by (auto simp: get_word_def wordR_def bindR_Inr_iff takeR_def reader_simps split: if_splits)
  then show ?thesis using f fuelled_lift(1) [of "Suc n" "get_word t"]
    unfolding fuelled_def bindR_def bindE_def by (fastforce split: sum.splits prod.splits)
qed

lemma fuelled_query: "fuelled n (decode_query n)"
proof (induction n)
  case (Suc n)
  then show ?case
    unfolding decode_query.simps decode_field_op_def decode_field_set_def decode_group_def
    by (intro fuelled_tag) (auto intro!: fuelled_intros reads_intros)
qed (simp add: fuelled_def)

lemma query_from_bytes_ends: "query_from_bytes b \<noteq> None"
  using fuelled_query [of "length b + 1"] by (auto simp: query_from_bytes_def fuelled_def split: sum.splits option.splits)

lemma decode_query_ok: "decode_query n b = Inr (q, rest) \<Longrightarrow> query_ok q"
proof (induction n arbitrary: b q rest)
  case (Suc n)
  have group: "list_all query_ok subs" if "repR k (decode_query n) c = Inr (subs, c')" for k c subs c'
    using repR_ok [OF that, of query_ok] Suc.IH by blast
  show ?case using Suc.prems
    by (auto simp: bindR_Inr_iff decode_field_op_def decode_field_set_def decode_group_def decode_set_def read_field_def reader_simps failR_def
        split: if_splits dest: get_str_ok w_value.dec_ok w_value.rep_ok group Suc.IH)
qed (simp add: failR_def)

lemma liftR_bind: "r b = Inr (x, b') \<Longrightarrow> bindR (liftR r) f b = f x b'"
  by (simp add: bindR_def liftR_def bindE_def)

lemma decode_group_sent:
  assumes "\<And>q rest. q \<in> set qs \<Longrightarrow> dec (sent (encode_query q) @ rest) = Inr (q, rest)" and "sendable (wcat (map encode_query qs))"
  shows "repR (length qs) dec (sent (wcat (map encode_query qs)) @ rest) = Inr (qs, rest)"
  using assms
proof (induction qs)
  case (Cons q qs)
  then have s: "sendable (encode_query q)" "sendable (wcat (map encode_query qs))" by (simp_all add: wire_simps)
  then show ?case using Cons by (simp add: wire_simps reader_simps)
qed (simp add: wire_simps reader_simps)

lemma member_sent_le:
  "q \<in> set qs \<Longrightarrow> sendable (wcat (map encode_query qs)) \<Longrightarrow>
   sendable (encode_query q) \<and> length (sent (encode_query q)) \<le> length (sent (wcat (map encode_query qs)))"
  by (induction qs) (auto simp: wire_simps)

lemma decode_query_sent:
  "query_ok q \<Longrightarrow> sendable (encode_query q) \<Longrightarrow> length (sent (encode_query q)) \<le> n \<Longrightarrow>
   decode_query n (sent (encode_query q) @ rest) = Inr (q, rest)"
proof (induction q arbitrary: n rest)
  case QAll
  then show ?case by (cases n) (simp_all add: wire_simps liftR_bind reader_simps)
next
  case (QExists f w)
  then show ?case by (cases n) (simp_all add: wire_simps liftR_bind reader_simps read_field_def)
next
  case (QAnd qs)
  obtain k where n: "n = Suc k" using QAnd.prems by (cases n) (auto simp: wire_simps)
  have "decode_query k (sent (encode_query q) @ r) = Inr (q, r)" if "q \<in> set qs" for q r
    using QAnd.IH [OF that, of k r] QAnd.prems member_sent_le [OF that] that n by (simp add: wire_simps list_all_iff)
  then show ?case using QAnd.prems n decode_group_sent [of qs "decode_query k" rest]
    by (simp add: wire_simps liftR_bind decode_group_def unat_small_u32 reader_simps)
next
  case (QOr qs)
  obtain k where n: "n = Suc k" using QOr.prems by (cases n) (auto simp: wire_simps)
  have "decode_query k (sent (encode_query q) @ r) = Inr (q, r)" if "q \<in> set qs" for q r
    using QOr.IH [OF that, of k r] QOr.prems member_sent_le [OF that] that n by (simp add: wire_simps list_all_iff)
  then show ?case using QOr.prems n decode_group_sent [of qs "decode_query k" rest]
    by (simp add: wire_simps liftR_bind decode_group_def unat_small_u32 reader_simps)
next
  case (QNot q)
  then show ?case by (cases n) (simp_all add: wire_simps liftR_bind reader_simps)
next
  case (QIn f vs)
  then show ?case by (cases n) (simp_all add: field_set_def decode_field_set_def decode_set_def read_field_def wire_simps liftR_bind
      reader_simps unat_small_u32 w_value.rep_sent)
next
  case (QNin f vs)
  then show ?case by (cases n) (simp_all add: field_set_def decode_field_set_def decode_set_def read_field_def wire_simps liftR_bind
      reader_simps unat_small_u32 w_value.rep_sent)
qed (case_tac n; simp add: field_op_def decode_field_op_def read_field_def wire_simps liftR_bind reader_simps w_value.dec_sent)+

lemma query_roundtrip: "query_ok q \<Longrightarrow> query_to_bytes q = Inr b \<Longrightarrow> query_from_bytes b = Some (Inr q)"
  using decode_query_sent [of q "length b + 1" "[]"] sent_Inr [of "encode_query q" b] by (auto simp: query_to_bytes_def query_from_bytes_def)


section \<open>Document updates\<close>

datatype DocUpdateOp = USet bytes Value | UUnset bytes | UInc bytes u64

fun encode_update_op :: "DocUpdateOp \<Rightarrow> wout" where
  "encode_update_op (USet field v) = wcat [put_word (1 :: u8), w_bytes_u16 ''update.field'' field, encode_tagged v]"
| "encode_update_op (UUnset field) = wcat [put_word (2 :: u8), w_bytes_u16 ''update.field'' field]"
| "encode_update_op (UInc field delta) = wcat [put_word (3 :: u8), w_bytes_u16 ''update.field'' field, put_word delta]"

definition decode_update_op :: "DocUpdateOp wreader" where
  "decode_update_op = bindR (get_word ''update.tag'') (\<lambda>tag :: u8.
     if tag = 1 then bindR (get_str_u16 ''query.field'') (\<lambda>f. bindR decode_tagged (\<lambda>v. retR (USet f v)))
     else if tag = 2 then bindR (get_str_u16 ''query.field'') (\<lambda>f. retR (UUnset f))
     else if tag = 3 then bindR (get_str_u16 ''query.field'') (\<lambda>f. bindR (get_word ''update.delta'') (\<lambda>d. retR (UInc f d)))
     else failR (BadEnum ''update.tag'' tag))"

definition update_to_bytes :: "DocUpdateOp list \<Rightarrow> wout" where
  "update_to_bytes ops = wcat [w_count_u32 ''update.ops'' ops, wcat (map encode_update_op ops)]"

definition update_from_bytes :: "bytes \<Rightarrow> ProtocolError + DocUpdateOp list" where
  "update_from_bytes = read_all (bindR (get_word ''update.op_count'') (\<lambda>count :: u32. repR (unat count) decode_update_op))"

fun update_op_ok :: "DocUpdateOp \<Rightarrow> bool" where
  "update_op_ok (USet f v) \<longleftrightarrow> utf8_ok f \<and> value_ok v"
| "update_op_ok (UUnset f) \<longleftrightarrow> utf8_ok f"
| "update_op_ok (UInc f _) \<longleftrightarrow> utf8_ok f"

interpretation w_update: wire_codec encode_update_op decode_update_op update_op_ok
proof
  show "decode_update_op (sent (encode_update_op x) @ rest) = Inr (x, rest)" if "update_op_ok x" "sendable (encode_update_op x)" for x rest
    using that by (cases x) (simp_all add: decode_update_op_def wire_simps reader_simps w_value.dec_sent)
  show "update_op_ok x" if "decode_update_op b = Inr (x, rest)" for b x rest
    using that by (auto simp: decode_update_op_def bindR_Inr_iff reader_simps failR_def split: if_splits dest: get_str_ok w_value.dec_ok)
qed

lemma update_roundtrip: "list_all update_op_ok ops \<Longrightarrow> update_to_bytes ops = Inr b \<Longrightarrow> update_from_bytes b = Inr ops"
proof -
  assume ok: "list_all update_op_ok ops" and b: "update_to_bytes ops = Inr b"
  have s: "sendable (update_to_bytes ops)" "b = sent (update_to_bytes ops)" using sent_Inr [OF b] by auto
  show "update_from_bytes b = Inr ops"
    using s(1) w_update.rep_sent [OF ok, of "length ops" "[]"] unfolding s(2)
    by (simp add: update_to_bytes_def update_from_bytes_def read_all_def wire_simps reader_simps unat_small_u32)
qed


section \<open>Key-value operations\<close>

datatype KvCommand =
    KvGet bytes
  | KvPut bytes bytes
  | KvDelete bytes
  | KvRange bytes bytes u32
  | KvScan bytes u32

fun kv_op_type :: "KvCommand \<Rightarrow> u8" where
  "kv_op_type (KvGet _) = 1"
| "kv_op_type (KvPut _ _) = 2"
| "kv_op_type (KvDelete _) = 3"
| "kv_op_type (KvRange _ _ _) = 4"
| "kv_op_type (KvScan _ _) = 5"

fun kv_encode_body :: "KvCommand \<Rightarrow> wout" where
  "kv_encode_body (KvGet key) = w_bytes_u16 ''kv.key'' key"
| "kv_encode_body (KvPut key val) = wcat [w_bytes_u16 ''kv.key'' key, w_bytes_u32 ''kv.value'' val]"
| "kv_encode_body (KvDelete key) = w_bytes_u16 ''kv.key'' key"
| "kv_encode_body (KvRange start end' max_results) =
     wcat [w_bytes_u16 ''kv.start'' start, w_bytes_u16 ''kv.end'' end', put_word max_results]"
| "kv_encode_body (KvScan prefix max_results) = wcat [w_bytes_u16 ''kv.prefix'' prefix, put_word max_results]"

definition kv_decode_body :: "u8 \<Rightarrow> KvCommand wreader" where
  "kv_decode_body op =
     (if op = 1 then bindR (get_bytes_u16 ''kv.key'') (\<lambda>k. retR (KvGet k))
      else if op = 2 then bindR (get_bytes_u16 ''kv.key'') (\<lambda>k. bindR (get_bytes_u32 ''kv.value'') (\<lambda>v. retR (KvPut k v)))
      else if op = 3 then bindR (get_bytes_u16 ''kv.key'') (\<lambda>k. retR (KvDelete k))
      else if op = 4 then bindR (get_bytes_u16 ''kv.start'') (\<lambda>s. bindR (get_bytes_u16 ''kv.end'') (\<lambda>e.
        bindR (get_word ''kv.max_results'') (\<lambda>m. retR (KvRange s e m))))
      else if op = 5 then bindR (get_bytes_u16 ''kv.prefix'') (\<lambda>p. bindR (get_word ''kv.max_results'') (\<lambda>m. retR (KvScan p m)))
      else failR (UnknownOpType ''kv'' op))"

lemma kv_decode_sent:
  "sendable (kv_encode_body c) \<Longrightarrow> kv_decode_body (kv_op_type c) (sent (kv_encode_body c) @ rest) = Inr (c, rest)"
  by (cases c) (simp_all add: kv_decode_body_def wire_simps reader_simps)

datatype KvResultBody =
    KvGot "bytes option"
  | KvPutDone
  | KvDeleteDone
  | KvRangeEntries "(bytes \<times> bytes) list" bool
  | KvScanEntries "(bytes \<times> bytes) list" bool

fun kvr_op_type :: "KvResultBody \<Rightarrow> u8" where
  "kvr_op_type (KvGot _) = 1"
| "kvr_op_type KvPutDone = 2"
| "kvr_op_type KvDeleteDone = 3"
| "kvr_op_type (KvRangeEntries _ _) = 4"
| "kvr_op_type (KvScanEntries _ _) = 5"

fun encode_entry :: "bytes \<times> bytes \<Rightarrow> wout" where
  "encode_entry (k, v) = wcat [w_bytes_u16 ''kv.entry_key'' k, w_bytes_u32 ''kv.entry_value'' v]"

definition encode_entries :: "(bytes \<times> bytes) list \<Rightarrow> wout" where
  "encode_entries entries = wcat [w_count_u32 ''kv.entry_count'' entries, wcat (map encode_entry entries)]"

definition decode_entry :: "(bytes \<times> bytes) wreader" where
  "decode_entry = bindR (get_bytes_u16 ''kv.entry_key'') (\<lambda>k. bindR (get_bytes_u32 ''kv.entry_value'') (\<lambda>v. retR (k, v)))"

definition decode_entries :: "(bytes \<times> bytes) list wreader" where
  "decode_entries = bindR (get_word ''kv.entry_count'') (\<lambda>count :: u32. repR (unat count) decode_entry)"

interpretation w_entry: wire_codec encode_entry decode_entry "\<lambda>_. True"
  by unfold_locales (auto simp: decode_entry_def wire_simps reader_simps)

interpretation w_entries: wire_codec encode_entries decode_entries "\<lambda>_. True"
  by unfold_locales (simp_all add: encode_entries_def decode_entries_def wire_simps reader_simps unat_small_u32 w_entry.rep_sent list_all_iff)

fun kvr_encode_body :: "KvResultBody \<Rightarrow> wout" where
  "kvr_encode_body (KvGot (Some v)) = wcat [put_word (1 :: u8), w_bytes_u32 ''kv.value'' v]"
| "kvr_encode_body (KvGot None) = put_word (0 :: u8)"
| "kvr_encode_body KvPutDone = wcat []"
| "kvr_encode_body KvDeleteDone = wcat []"
| "kvr_encode_body (KvRangeEntries entries more_frames) = wcat [encode_entries entries, put_bool more_frames]"
| "kvr_encode_body (KvScanEntries entries more_frames) = wcat [encode_entries entries, put_bool more_frames]"

definition kvr_decode_body :: "u8 \<Rightarrow> KvResultBody wreader" where
  "kvr_decode_body op =
     (if op = 1 then bindR (get_bool ''kv.found'') (\<lambda>found.
        if found then bindR (get_bytes_u32 ''kv.value'') (\<lambda>v. retR (KvGot (Some v))) else retR (KvGot None))
      else if op = 2 then retR KvPutDone
      else if op = 3 then retR KvDeleteDone
      else if op = 4 then bindR decode_entries (\<lambda>es. bindR (get_bool ''kv.more_frames'') (\<lambda>m. retR (KvRangeEntries es m)))
      else if op = 5 then bindR decode_entries (\<lambda>es. bindR (get_bool ''kv.more_frames'') (\<lambda>m. retR (KvScanEntries es m)))
      else failR (UnknownOpType ''kv-result'' op))"

lemma kvr_decode_sent:
  "sendable (kvr_encode_body c) \<Longrightarrow> kvr_decode_body (kvr_op_type c) (sent (kvr_encode_body c) @ rest) = Inr (c, rest)"
  by (cases c rule: kvr_encode_body.cases) (simp_all add: kvr_decode_body_def wire_simps reader_simps w_entries.dec_sent bindR_def bindE_def)

end
