(* ===== verification/WireMsg.thy ===== *)
theory WireMsg
  imports WireData
begin

text \<open>
  The messages of the wire protocol and the packet codec (\<open>prism-protocol/src/message.rs\<close>):
  message types, the error trailer, every message body with its encoder and decoder, the 12-byte
  payload header, and the length-prefixed frame around it. The properties say that a packet
  survives the trip through a frame, that what the decoder accepts is well formed, and that the
  decoder of the queries a packet carries ends on every input, at a nesting nothing bounds.
\<close>

section \<open>Message types and enumerations\<close>

datatype MessageType =
    THello | THelloAck | TAuth | TAuthAck | TBegin | TCommit | TAbort | TTxnAck | TSqlExecute | TSqlResult
  | TDocOp | TDocResult | TKvOp | TKvResult | TCancel | TNotice | TPing | TPong

fun message_type_code :: "MessageType \<Rightarrow> u8" where
  "message_type_code THello = 0x01"
| "message_type_code THelloAck = 0x02"
| "message_type_code TAuth = 0x03"
| "message_type_code TAuthAck = 0x04"
| "message_type_code TBegin = 0x10"
| "message_type_code TCommit = 0x11"
| "message_type_code TAbort = 0x12"
| "message_type_code TTxnAck = 0x13"
| "message_type_code TSqlExecute = 0x20"
| "message_type_code TSqlResult = 0x21"
| "message_type_code TDocOp = 0x30"
| "message_type_code TDocResult = 0x31"
| "message_type_code TKvOp = 0x40"
| "message_type_code TKvResult = 0x41"
| "message_type_code TCancel = 0x50"
| "message_type_code TNotice = 0x60"
| "message_type_code TPing = 0x70"
| "message_type_code TPong = 0x71"

definition message_type_try_from :: "u8 \<Rightarrow> MessageType wreader" where
  "message_type_try_from v =
     (if v = 0x01 then retR THello
      else if v = 0x02 then retR THelloAck
      else if v = 0x03 then retR TAuth
      else if v = 0x04 then retR TAuthAck
      else if v = 0x10 then retR TBegin
      else if v = 0x11 then retR TCommit
      else if v = 0x12 then retR TAbort
      else if v = 0x13 then retR TTxnAck
      else if v = 0x20 then retR TSqlExecute
      else if v = 0x21 then retR TSqlResult
      else if v = 0x30 then retR TDocOp
      else if v = 0x31 then retR TDocResult
      else if v = 0x40 then retR TKvOp
      else if v = 0x41 then retR TKvResult
      else if v = 0x50 then retR TCancel
      else if v = 0x60 then retR TNotice
      else if v = 0x70 then retR TPing
      else if v = 0x71 then retR TPong
      else failR (UnknownMessageType v))"

datatype AuthMechanism = AuthPassword | AuthMtls

fun auth_code :: "AuthMechanism \<Rightarrow> u8" where
  "auth_code AuthPassword = 1"
| "auth_code AuthMtls = 2"

definition auth_from_code :: "u8 \<Rightarrow> AuthMechanism wreader" where
  "auth_from_code v = (if v = 1 then retR AuthPassword else if v = 2 then retR AuthMtls else failR (BadEnum ''auth.mechanism'' v))"

datatype WireTxnMode = WireReadWrite | WireReadOnly

fun mode_code :: "WireTxnMode \<Rightarrow> u8" where
  "mode_code WireReadWrite = 0"
| "mode_code WireReadOnly = 1"

definition mode_from_code :: "u8 \<Rightarrow> WireTxnMode wreader" where
  "mode_from_code v = (if v = 0 then retR WireReadWrite else if v = 1 then retR WireReadOnly else failR (BadEnum ''begin.mode'' v))"

datatype NoticeSeverity = SevInfo | SevWarning | SevError

fun severity_code :: "NoticeSeverity \<Rightarrow> u8" where
  "severity_code SevInfo = 0"
| "severity_code SevWarning = 1"
| "severity_code SevError = 2"

definition severity_from_code :: "u8 \<Rightarrow> NoticeSeverity wreader" where
  "severity_from_code v =
     (if v = 0 then retR SevInfo else if v = 1 then retR SevWarning else if v = 2 then retR SevError
      else failR (BadEnum ''notice.severity'' v))"

lemma codes_read [wire_simps]:
  "message_type_try_from (message_type_code t) = retR t" "auth_from_code (auth_code a) = retR a"
  "mode_from_code (mode_code m) = retR m" "severity_from_code (severity_code s) = retR s"
  subgoal by (cases t) (simp_all add: message_type_try_from_def)
  subgoal by (cases a) (simp_all add: auth_from_code_def)
  subgoal by (cases m) (simp_all add: mode_from_code_def)
  subgoal by (cases s) (simp_all add: severity_from_code_def)
  done


section \<open>The error trailer\<close>

record ErrorInfo =
  ei_error_code :: u32
  ei_message :: bytes
  ei_sqlstate :: bytes
  ei_detail :: bytes
  ei_position :: u32

definition error_default :: ErrorInfo where
  "error_default = \<lparr>ei_error_code = 0, ei_message = [], ei_sqlstate = replicate 5 0x30, ei_detail = [], ei_position = 0\<rparr>"

definition encode_error :: "ErrorInfo \<Rightarrow> wout" where
  "encode_error e = wcat [put_word (ei_error_code e), w_bytes_u16 ''error.message'' (ei_message e), put_raw (ei_sqlstate e),
     w_bytes_u16 ''error.detail'' (ei_detail e), put_word (ei_position e)]"

definition decode_error :: "ErrorInfo wreader" where
  "decode_error = bindR (get_word ''error.error_code'') (\<lambda>c. bindR (get_str_u16 ''error.message'') (\<lambda>m.
     bindR (get_raw 5 ''error.sqlstate'') (\<lambda>s. bindR (get_str_u16 ''error.detail'') (\<lambda>d. bindR (get_word ''error.position'') (\<lambda>p.
     retR \<lparr>ei_error_code = c, ei_message = m, ei_sqlstate = s, ei_detail = d, ei_position = p\<rparr>)))))"

definition put_trailer :: "u8 \<Rightarrow> ErrorInfo option \<Rightarrow> wout" where
  "put_trailer status error =
     (if status \<noteq> 0 then encode_error (case error of Some e \<Rightarrow> e | None \<Rightarrow> error_default) else wcat [])"

definition get_trailer :: "u8 \<Rightarrow> ErrorInfo option wreader" where
  "get_trailer status = (if status \<noteq> 0 then bindR decode_error (\<lambda>e. retR (Some e)) else retR None)"

definition error_ok :: "ErrorInfo \<Rightarrow> bool" where
  "error_ok e \<longleftrightarrow> utf8_ok (ei_message e) \<and> utf8_ok (ei_detail e) \<and> length (ei_sqlstate e) = 5"

definition trailer_ok :: "u8 \<Rightarrow> ErrorInfo option \<Rightarrow> bool" where
  "trailer_ok status error \<longleftrightarrow> (case error of None \<Rightarrow> status = 0 | Some e \<Rightarrow> status \<noteq> 0 \<and> error_ok e)"

interpretation w_error: wire_codec encode_error decode_error error_ok
  by unfold_locales (auto simp: encode_error_def decode_error_def error_ok_def wire_simps reader_simps bindR_Inr_iff dest: get_str_ok get_raw_ok)

interpretation w_trailer: wire_codec "put_trailer status" "get_trailer status" "trailer_ok status" for status
  by unfold_locales (auto simp: put_trailer_def get_trailer_def trailer_ok_def wire_simps reader_simps bindR_Inr_iff w_error.dec_sent
      dest: w_error.dec_ok split: option.splits if_splits)


section \<open>Messages\<close>

definition FEATURE_CONNECT_DB :: u32 where [simp]: "FEATURE_CONNECT_DB = 1"

datatype Message =
    MHello u32 bytes bytes u32 bytes
  | MHelloAck u8 bytes u32 "128 word" "ErrorInfo option"
  | MAuth AuthMechanism bytes bytes
  | MAuthAck u8 u64 "ErrorInfo option"
  | MBegin WireTxnMode
  | MCommit "128 word"
  | MAbort
  | MTxnAck u8 u64 u64 "ErrorInfo option"
  | MSqlExecute bytes "Value list" u32
  | MSqlResult u8 u64 "ColumnDesc list" "Row list" bool "ErrorInfo option"
  | MDocOp bytes DocCommand
  | MDocResult u8 u64 "bytes list" "bytes list" bool "ErrorInfo option"
  | MKvOp bytes KvCommand
  | MKvResult u8 KvResultBody "ErrorInfo option"
  | MCancel u32
  | MNotice NoticeSeverity u32 bytes
  | MPing
  | MPong

definition hello :: "u32 \<Rightarrow> bytes \<Rightarrow> bytes \<Rightarrow> bytes \<Rightarrow> Message" where
  "hello protocol_version client_name client_version database =
     MHello protocol_version client_name client_version (if database = [] then 0 else FEATURE_CONNECT_DB) database"

fun message_type :: "Message \<Rightarrow> MessageType" where
  "message_type (MHello _ _ _ _ _) = THello"
| "message_type (MHelloAck _ _ _ _ _) = THelloAck"
| "message_type (MAuth _ _ _) = TAuth"
| "message_type (MAuthAck _ _ _) = TAuthAck"
| "message_type (MBegin _) = TBegin"
| "message_type (MCommit _) = TCommit"
| "message_type MAbort = TAbort"
| "message_type (MTxnAck _ _ _ _) = TTxnAck"
| "message_type (MSqlExecute _ _ _) = TSqlExecute"
| "message_type (MSqlResult _ _ _ _ _ _) = TSqlResult"
| "message_type (MDocOp _ _) = TDocOp"
| "message_type (MDocResult _ _ _ _ _ _) = TDocResult"
| "message_type (MKvOp _ _) = TKvOp"
| "message_type (MKvResult _ _ _) = TKvResult"
| "message_type (MCancel _) = TCancel"
| "message_type (MNotice _ _ _) = TNotice"
| "message_type MPing = TPing"
| "message_type MPong = TPong"

fun message_encode_body :: "Message \<Rightarrow> wout exec" where
  "message_encode_body (MHello protocol_version client_name client_version features database) =
     Some (wcat [put_word protocol_version, w_bytes_u16 ''hello.client_name'' client_name,
       w_bytes_u16 ''hello.client_version'' client_version, put_word features,
       if features AND FEATURE_CONNECT_DB \<noteq> 0 then w_bytes_u16 ''hello.database'' database else wcat []])"
| "message_encode_body (MHelloAck status server_version features session_id error) =
     Some (wcat [put_word status, w_bytes_u16 ''hello_ack.server_version'' server_version, put_word features, put_word session_id,
       put_trailer status error])"
| "message_encode_body (MAuth mechanism username password) =
     Some (wcat [put_word (auth_code mechanism), w_bytes_u16 ''auth.username'' username,
       if mechanism = AuthPassword then w_bytes_u16 ''auth.password'' password else wcat []])"
| "message_encode_body (MAuthAck status user_oid error) = Some (wcat [put_word status, put_word user_oid, put_trailer status error])"
| "message_encode_body (MBegin mode) = Some (put_word (mode_code mode))"
| "message_encode_body (MCommit idempotency_key) = Some (put_word idempotency_key)"
| "message_encode_body MAbort = Some (wcat [])"
| "message_encode_body (MTxnAck status txn_id commit_lsn error) =
     Some (wcat [put_word status, put_word txn_id, put_word commit_lsn, put_trailer status error])"
| "message_encode_body (MSqlExecute sql params options) =
     Some (wcat [w_bytes_u32 ''sql.sql'' sql, w_count_u16 ''sql.param_count'' params, wcat (map encode_tagged params), put_word options])"
| "message_encode_body (MSqlResult status affected_rows columns rows more_frames error) =
     xcat [Some (put_word status), Some (put_word affected_rows), Some (w_count_u16 ''sql.column_count'' columns),
       Some (wcat (map encode_column columns)), Some (w_count_u32 ''sql.row_count'' rows), encode_rows columns rows,
       Some (put_bool more_frames), Some (put_trailer status error)]"
| "message_encode_body (MDocOp collection command) =
     Some (wcat [put_word (doc_op_type command), w_bytes_u16 ''doc.collection'' collection, doc_encode_body command])"
| "message_encode_body (MDocResult status affected inserted_ids docs more_frames error) =
     Some (wcat [put_word status, put_word affected, w_count_u32 ''doc.inserted_count'' inserted_ids, wcat (map put_raw inserted_ids),
       w_count_u32 ''doc.doc_count'' docs, wcat (map (w_bytes_u32 ''doc.result_doc'') docs), put_bool more_frames, put_trailer status error])"
| "message_encode_body (MKvOp namespace command) =
     Some (wcat [put_word (kv_op_type command), w_bytes_u16 ''kv.namespace'' namespace, kv_encode_body command])"
| "message_encode_body (MKvResult status body error) =
     Some (wcat [put_word status, put_word (kvr_op_type body), kvr_encode_body body, put_trailer status error])"
| "message_encode_body (MCancel target_request_id) = Some (put_word target_request_id)"
| "message_encode_body (MNotice severity code message) =
     Some (wcat [put_word (severity_code severity), put_word code, w_bytes_u16 ''notice.message'' message])"
| "message_encode_body MPing = Some (wcat [])"
| "message_encode_body MPong = Some (wcat [])"

fun message_decode_body :: "MessageType \<Rightarrow> Message wreader" where
  "message_decode_body THello =
     bindR (get_word ''hello.protocol_version'') (\<lambda>protocol_version. bindR (get_str_u16 ''hello.client_name'') (\<lambda>client_name.
     bindR (get_str_u16 ''hello.client_version'') (\<lambda>client_version. bindR (get_word ''hello.features'') (\<lambda>features.
     bindR (if features AND FEATURE_CONNECT_DB \<noteq> 0 then get_str_u16 ''hello.database'' else retR []) (\<lambda>database.
     retR (MHello protocol_version client_name client_version features database))))))"
| "message_decode_body THelloAck =
     bindR (get_word ''hello_ack.status'') (\<lambda>status. bindR (get_str_u16 ''hello_ack.server_version'') (\<lambda>server_version.
     bindR (get_word ''hello_ack.features'') (\<lambda>features. bindR (get_word ''hello_ack.session_id'') (\<lambda>session_id.
     bindR (get_trailer status) (\<lambda>error. retR (MHelloAck status server_version features session_id error))))))"
| "message_decode_body TAuth =
     bindR (bindR (get_word ''auth.mechanism'') auth_from_code) (\<lambda>mechanism. bindR (get_str_u16 ''auth.username'') (\<lambda>username.
     bindR (if mechanism = AuthPassword then get_str_u16 ''auth.password'' else retR []) (\<lambda>password.
     retR (MAuth mechanism username password))))"
| "message_decode_body TAuthAck =
     bindR (get_word ''auth_ack.status'') (\<lambda>status. bindR (get_word ''auth_ack.user_oid'') (\<lambda>user_oid.
     bindR (get_trailer status) (\<lambda>error. retR (MAuthAck status user_oid error))))"
| "message_decode_body TBegin = bindR (bindR (get_word ''begin.mode'') mode_from_code) (\<lambda>mode. retR (MBegin mode))"
| "message_decode_body TCommit = bindR (get_word ''commit.idempotency_key'') (\<lambda>k. retR (MCommit k))"
| "message_decode_body TAbort = retR MAbort"
| "message_decode_body TTxnAck =
     bindR (get_word ''txn_ack.status'') (\<lambda>status. bindR (get_word ''txn_ack.txn_id'') (\<lambda>txn_id.
     bindR (get_word ''txn_ack.commit_lsn'') (\<lambda>commit_lsn. bindR (get_trailer status) (\<lambda>error.
     retR (MTxnAck status txn_id commit_lsn error)))))"
| "message_decode_body TSqlExecute =
     bindR (get_str_u32 ''sql.sql'') (\<lambda>sql. bindR (get_word ''sql.param_count'') (\<lambda>param_count :: u16.
     bindR (repR (unat param_count) decode_tagged) (\<lambda>params. bindR (get_word ''sql.options'') (\<lambda>options.
     retR (MSqlExecute sql params options)))))"
| "message_decode_body TSqlResult =
     bindR (get_word ''sql.status'') (\<lambda>status. bindR (get_word ''sql.affected_rows'') (\<lambda>affected_rows.
     bindR (get_word ''sql.column_count'') (\<lambda>col_count :: u16. bindR (repR (unat col_count) decode_column) (\<lambda>columns.
     bindR (get_word ''sql.row_count'') (\<lambda>row_count :: u32. bindR (decode_rows columns (unat row_count)) (\<lambda>rows.
     bindR (get_bool ''sql.more_frames'') (\<lambda>more_frames. bindR (get_trailer status) (\<lambda>error.
     retR (MSqlResult status affected_rows columns rows more_frames error)))))))))"
| "message_decode_body TDocOp =
     bindR (get_word ''doc.op_type'') (\<lambda>op_type. bindR (get_str_u16 ''doc.collection'') (\<lambda>collection.
     bindR (doc_decode_body op_type) (\<lambda>command. retR (MDocOp collection command))))"
| "message_decode_body TDocResult =
     bindR (get_word ''doc.status'') (\<lambda>status. bindR (get_word ''doc.affected'') (\<lambda>affected.
     bindR (get_word ''doc.inserted_count'') (\<lambda>id_count :: u32. bindR (repR (unat id_count) (get_raw 12 ''doc.inserted_id'')) (\<lambda>ids.
     bindR (get_word ''doc.doc_count'') (\<lambda>doc_count :: u32. bindR (repR (unat doc_count) (get_bytes_u32 ''doc.result_doc'')) (\<lambda>docs.
     bindR (get_bool ''doc.more_frames'') (\<lambda>more_frames. bindR (get_trailer status) (\<lambda>error.
     retR (MDocResult status affected ids docs more_frames error)))))))))"
| "message_decode_body TKvOp =
     bindR (get_word ''kv.op_type'') (\<lambda>op_type. bindR (get_str_u16 ''kv.namespace'') (\<lambda>namespace.
     bindR (kv_decode_body op_type) (\<lambda>command. retR (MKvOp namespace command))))"
| "message_decode_body TKvResult =
     bindR (get_word ''kv.status'') (\<lambda>status. bindR (get_word ''kv.op_type'') (\<lambda>op_type.
     bindR (kvr_decode_body op_type) (\<lambda>body. bindR (get_trailer status) (\<lambda>error. retR (MKvResult status body error)))))"
| "message_decode_body TCancel = bindR (get_word ''cancel.target_request_id'') (\<lambda>t. retR (MCancel t))"
| "message_decode_body TNotice =
     bindR (bindR (get_word ''notice.severity'') severity_from_code) (\<lambda>severity. bindR (get_word ''notice.code'') (\<lambda>code.
     bindR (get_str_u16 ''notice.message'') (\<lambda>message. retR (MNotice severity code message))))"
| "message_decode_body TPing = retR MPing"
| "message_decode_body TPong = retR MPong"

fun message_ok :: "Message \<Rightarrow> bool" where
  "message_ok (MHello _ client_name client_version features database) \<longleftrightarrow>
     utf8_ok client_name \<and> utf8_ok client_version \<and> utf8_ok database \<and> (features AND FEATURE_CONNECT_DB = 0 \<longrightarrow> database = [])"
| "message_ok (MHelloAck status server_version _ _ error) \<longleftrightarrow> utf8_ok server_version \<and> trailer_ok status error"
| "message_ok (MAuth mechanism username password) \<longleftrightarrow> utf8_ok username \<and> utf8_ok password \<and> (mechanism = AuthMtls \<longrightarrow> password = [])"
| "message_ok (MAuthAck status _ error) \<longleftrightarrow> trailer_ok status error"
| "message_ok (MTxnAck status _ _ error) \<longleftrightarrow> trailer_ok status error"
| "message_ok (MSqlExecute sql params _) \<longleftrightarrow> utf8_ok sql \<and> list_all value_ok params"
| "message_ok (MSqlResult status _ columns rows _ error) \<longleftrightarrow>
     list_all (\<lambda>c. utf8_ok (cd_name c)) columns \<and> list_all (row_ok columns) rows \<and> trailer_ok status error"
| "message_ok (MDocOp collection _) \<longleftrightarrow> utf8_ok collection"
| "message_ok (MDocResult status _ ids _ _ error) \<longleftrightarrow> list_all (\<lambda>i. length i = 12) ids \<and> trailer_ok status error"
| "message_ok (MKvOp namespace _) \<longleftrightarrow> utf8_ok namespace"
| "message_ok (MKvResult status _ error) \<longleftrightarrow> trailer_ok status error"
| "message_ok (MNotice _ _ message) \<longleftrightarrow> utf8_ok message"
| "message_ok _ \<longleftrightarrow> True"

lemma message_encode_ok: "message_ok m \<Longrightarrow> message_encode_body m \<noteq> None"
  by (cases m) (simp_all add: encode_rows_ok xcat_Some)

interpretation w_id: wire_codec put_raw "get_raw 12 f" "\<lambda>i. length i = 12" for f
  by unfold_locales (auto simp: wire_simps dest: get_raw_ok)

lemmas codec_sent = w_value.rep_sent w_column.rep_sent w_row.rep_sent w_id.rep_sent w_blob32.rep_sent w_trailer.dec_sent w_entries.dec_sent
  doc_decode_sent kv_decode_sent kvr_decode_sent

lemma message_decode_sent:
  assumes ok: "message_ok m" and enc: "message_encode_body m = Some w" and s: "sendable w"
  shows "message_decode_body (message_type m) (sent w @ rest) = Inr (m, rest)"
proof (cases m)
  case (MAuth mech username password)
  then show ?thesis using ok enc s by (cases mech) (auto simp: wire_simps reader_simps auth_from_code_def)
next
  case (MSqlResult status affected columns rows more error)
  then have "w = wcat [put_word status, put_word affected, w_count_u16 ''sql.column_count'' columns, wcat (map encode_column columns),
      w_count_u32 ''sql.row_count'' rows, wcat (map (encode_row columns) rows), put_bool more, put_trailer status error]"
    using ok enc by (simp add: encode_rows_ok xcat_Some)
  then show ?thesis using ok s MSqlResult
    by (simp add: wire_simps reader_simps unat_small_u16 unat_small_u32 codec_sent decode_rows_def)
qed (use ok enc s in \<open>auto simp: wire_simps reader_simps unat_small_u16 unat_small_u32 codec_sent list_all_iff\<close>)

lemma message_decode_ok: "message_decode_body t b = Inr (m, rest) \<Longrightarrow> message_ok m \<and> message_type m = t"
  by (cases t) (auto simp: bindR_Inr_iff reader_simps decode_rows_def split: if_splits
      dest: get_str_ok w_trailer.dec_ok w_value.rep_ok w_column.rep_ok w_row.rep_ok w_id.rep_ok)


section \<open>Packets\<close>

record Packet =
  pk_request_id :: u32
  pk_message :: Message

definition to_payload :: "Packet \<Rightarrow> wout exec" where
  "to_payload p = xcat [Some (put_word (message_type_code (message_type (pk_message p)))), Some (put_zeros 3),
     Some (put_word (pk_request_id p)), Some (put_zeros 4), message_encode_body (pk_message p)]"

definition from_payload :: "bytes \<Rightarrow> ProtocolError + Packet" where
  "from_payload = read_all (bindR (bindR (get_word ''header.msg_type'') message_type_try_from) (\<lambda>ty.
     bindR (skip 3 ''header.reserved'') (\<lambda>_. bindR (get_word ''header.request_id'') (\<lambda>request_id.
     bindR (skip 4 ''header.reserved'') (\<lambda>_. bindR (message_decode_body ty) (\<lambda>message.
     retR \<lparr>pk_request_id = request_id, pk_message = message\<rparr>))))))"

definition to_frame :: "Packet \<Rightarrow> wout exec" where
  "to_frame p = map_option (\<lambda>w. bindE w (\<lambda>payload. Inr (frame_encode payload))) (to_payload p)"

lemma to_payload_wcat:
  assumes "message_encode_body (pk_message p) = Some w"
  shows "to_payload p = Some (wcat [put_word (message_type_code (message_type (pk_message p))), put_zeros 3, put_word (pk_request_id p), put_zeros 4, w])"
  using assms by (simp add: to_payload_def xcat_Some)

lemma payload_roundtrip:
  assumes ok: "message_ok (pk_message p)" and enc: "to_payload p = Some (Inr b)"
  shows "from_payload b = Inr p"
proof -
  obtain w where w: "message_encode_body (pk_message p) = Some w" using message_encode_ok [OF ok] by blast
  let ?w = "wcat [put_word (message_type_code (message_type (pk_message p))), put_zeros 3, put_word (pk_request_id p), put_zeros 4, w]"
  have b: "sendable ?w" "b = sent ?w" using to_payload_wcat [OF w] enc sent_Inr [of ?w b] by auto
  then have "sendable w" by (simp add: wire_simps)
  from message_decode_sent [OF ok w this, of "[]"] b(1) show ?thesis unfolding b(2)
    by (simp add: from_payload_def read_all_def wire_simps reader_simps)
qed

lemma frame_parse_prefix:
  assumes "length payload \<le> MAX_FRAME_SIZE" and "k < length (frame_encode payload)"
  shows "frame_parse (take k (frame_encode payload)) = Inr None"
  using assms by (auto simp: frame_parse_def frame_encode_def Let_def min_def unat_small_u32)

lemma frame_parse_encode:
  assumes "length payload \<le> MAX_FRAME_SIZE"
  shows "frame_parse (frame_encode payload @ tail) = Inr (Some (payload, length (frame_encode payload)))"
  using assms by (simp add: frame_parse_def frame_encode_def Let_def slice_def unat_small_u32)


section \<open>Properties\<close>

text \<open>
  C37: A packet survives the wire. Encoding a well-formed packet never panics, and when it gives a
  frame of a legal size, every proper prefix of the frame asks for more bytes, and a buffer that
  starts with the frame, whatever follows, parses to a payload that ends where the frame ends and
  decodes to exactly the packet that was sent.
\<close>

theorem packet_frame_roundtrip:
  assumes ok: "message_ok (pk_message p)"
  shows "\<exists>w. to_frame p = Some w \<and> (\<forall>f tail k. w = Inr f \<and> length f \<le> LENGTH_PREFIX + MAX_FRAME_SIZE \<longrightarrow>
     (k < length f \<longrightarrow> frame_parse (take k f) = Inr None) \<and>
     (\<exists>payload. frame_parse (f @ tail) = Inr (Some (payload, length f)) \<and> from_payload payload = Inr p))"
proof -
  obtain m where "message_encode_body (pk_message p) = Some m" using message_encode_ok [OF ok] by blast
  then obtain w where w: "to_payload p = Some w" using to_payload_wcat by blast
  have "to_frame p = Some (bindE w (\<lambda>payload. Inr (frame_encode payload)))" by (simp add: to_frame_def w)
  moreover have "(k < length f \<longrightarrow> frame_parse (take k f) = Inr None) \<and>
      (\<exists>payload. frame_parse (f @ tail) = Inr (Some (payload, length f)) \<and> from_payload payload = Inr p)"
    if fr: "bindE w (\<lambda>payload. Inr (frame_encode payload)) = Inr f" "length f \<le> LENGTH_PREFIX + MAX_FRAME_SIZE" for f tail k
  proof -
    obtain b where b: "w = Inr b" "f = frame_encode b" using fr(1) by (auto simp: bindE_Inr_iff)
    then have "length b \<le> MAX_FRAME_SIZE" using fr(2) by (simp add: b(2) frame_encode_def)
    then show ?thesis using b w frame_parse_prefix frame_parse_encode payload_roundtrip [OF ok] by blast
  qed
  ultimately show ?thesis by blast
qed

definition hello_packet :: Packet where
  "hello_packet = \<lparr>pk_request_id = 1, pk_message = hello 1 [99] [49] [100, 98]\<rparr>"

theorem packet_frame_roundtrip_witness:
  "\<exists>f payload. to_frame hello_packet = Some (Inr f) \<and> length f = 34 \<and> frame_parse (take 5 f) = Inr None \<and>
     frame_parse (f @ [0xFF, 0xFF]) = Inr (Some (payload, 34)) \<and> from_payload payload = Inr hello_packet"
proof -
  have ok: "message_ok (pk_message hello_packet)" by (simp add: hello_packet_def hello_def)
  have "\<exists>f. to_frame hello_packet = Some (Inr f) \<and> length f = 34"
    by (simp add: to_frame_def to_payload_def hello_packet_def hello_def put_word_def put_zeros_def w_bytes_u16_def put_bytes_u16_def wcat.simps
        frame_encode_def)
  then show ?thesis using packet_frame_roundtrip [OF ok] by fastforce
qed

lemma try_from_code: "message_type_try_from v b = Inr (t, b') \<Longrightarrow> b' = b \<and> message_type_code t = v"
  by (auto simp: message_type_try_from_def reader_simps failR_def split: if_splits)

text \<open>
  C38: What the decoder accepts is well typed. A packet decoded from arbitrary bytes has valid
  UTF-8 in every text field, an error trailer exactly when its status is non-zero, an empty
  password without the password mechanism, a database only with its feature bit, and result rows
  that match their column descriptors; its message type is the one of the first byte; and
  encoding it again cannot panic.
\<close>

theorem decoded_packet_well_formed:
  assumes "from_payload b = Inr p"
  shows "message_ok (pk_message p) \<and> b \<noteq> [] \<and> message_type_code (message_type (pk_message p)) = hd b \<and> to_payload p \<noteq> None"
proof -
  obtain v t b1 b2 m rest where h: "get_word ''header.msg_type'' b = Inr (v, b1)" "message_type_code t = v"
    "message_decode_body t b2 = Inr (m, rest)" "pk_message p = m"
    using assms unfolding from_payload_def read_all_def bindE_Inr_iff bindR_Inr_iff
    by (auto simp: reader_simps split: if_splits dest!: try_from_code)
  have m: "message_ok m" "message_type m = t" using message_decode_ok [OF h(3)] by auto
  have "b \<noteq> [] \<and> v = hd b"
    using h(1) by (cases b) (auto simp: get_word_def wordR_def bindR_Inr_iff takeR_def reader_simps from_le_bytes_def split: if_splits)
  moreover have "to_payload p \<noteq> None" using message_encode_ok [OF m(1)] to_payload_wcat [of p] h(4) by auto
  ultimately show ?thesis using m h(2,4) by simp
qed

theorem decoded_packet_well_formed_witness:
  "\<exists>p. from_payload (0x70 # replicate 11 0) = Inr p \<and> message_ok (pk_message p) \<and> message_type_code (message_type (pk_message p)) = 0x70"
proof -
  have "from_payload (0x70 # replicate 11 0) = Inr \<lparr>pk_request_id = 0, pk_message = MPing\<rparr>"
    by code_simp
  from decoded_packet_well_formed [OF this] show ?thesis using \<open>from_payload _ = _\<close> by auto
qed

text \<open>More fuel changes nothing once the decoder has ended.\<close>

definition extends :: "'a qreader \<Rightarrow> 'a qreader \<Rightarrow> bool" where
  "extends r r' \<longleftrightarrow> (\<forall>b. r b \<noteq> Inl None \<longrightarrow> r' b = r b)"

named_theorems extends_intros \<open>the readers that only gain results with more fuel\<close>

lemma extends_refl [extends_intros]: "extends r r"
  by (simp add: extends_def)

lemma extends_bind [extends_intros]: "extends r r' \<Longrightarrow> (\<And>x. extends (f x) (f' x)) \<Longrightarrow> extends (bindR r f) (bindR r' f')"
  unfolding extends_def bindR_def bindE_def by (fastforce split: sum.splits prod.splits)

lemma extends_rep [extends_intros]: "extends r r' \<Longrightarrow> extends (repR n r) (repR n r')"
  by (induction n) (auto intro!: extends_intros)

lemma extends_step: "extends (decode_query m) (decode_query n) \<Longrightarrow> extends (decode_query (Suc m)) (decode_query (Suc n))"
  unfolding decode_query.simps(2) decode_group_def by (auto intro!: extends_intros)

lemma extends_query: "extends (decode_query n) (decode_query (Suc n))"
proof (induction n)
  case (Suc n)
  then show ?case by (rule extends_step)
qed (simp add: extends_def failR_def)

lemma decode_query_more:
  assumes "length b < n"
  shows "decode_query (n + k) b = decode_query n b"
proof (induction k)
  case (Suc k)
  have "decode_query (n + k) b \<noteq> Inl None" using fuelled_query [of n] assms Suc by (simp add: fuelled_def)
  then show ?case using extends_query [of "n + k"] Suc by (simp add: extends_def)
qed simp

lemma decode_not: "decode_query (Suc n) (12 # b) = bindR (decode_query n) (\<lambda>q. retR (QNot q)) b"
  by (simp add: liftR_bind wire_simps)

declare decode_query.simps(2) [simp del]

lemma decode_nested: "decode_query n (replicate n 12 @ [0]) = Inl None"
  by (induction n) (simp_all add: failR_def decode_not bindR_def bindE_def)

lemma decode_nested_enough: "decode_query (Suc n) (replicate n 12 @ 0 # rest) = Inr ((QNot ^^ n) QAll, rest)"
  by (induction n) (simp_all add: decode_not decode_query.simps(2) [of 0] liftR_bind wire_simps reader_simps)

text \<open>
  C39: Decoding a query blob ends on every input, with an error or with a well-formed query. The
  recursion never needs to go deeper than the number of input bytes, so that any larger fuel gives the same
  result, and a well-formed query that can be encoded is decoded to itself.
\<close>

theorem query_decode_ends:
  "(\<exists>r. query_from_bytes b = Some r) \<and> (\<forall>k. decode_query (length b + 1 + k) b = decode_query (length b + 1) b) \<and>
   (\<forall>q. query_from_bytes b = Some (Inr q) \<longrightarrow> query_ok q) \<and>
   (\<forall>q. query_ok q \<and> query_to_bytes q = Inr b \<longrightarrow> query_from_bytes b = Some (Inr q))"
proof (intro conjI allI impI)
  show "query_ok q" if "query_from_bytes b = Some (Inr q)" for q
    using that decode_query_ok by (auto simp: query_from_bytes_def split: sum.splits option.splits if_splits)
qed (use query_from_bytes_ends [of b] query_roundtrip decode_query_more [of b "length b + 1"] in auto)

theorem query_decode_ends_witness:
  "query_ok (QAnd [QEq [97] (VInt32 7), QNot QAll]) \<and>
   query_from_bytes (sent (query_to_bytes (QAnd [QEq [97] (VInt32 7), QNot QAll]))) = Some (Inr (QAnd [QEq [97] (VInt32 7), QNot QAll]))"
proof -
  let ?q = "QAnd [QEq [97] (VInt32 7), QNot QAll]"
  have "query_to_bytes ?q = Inr (sent (query_to_bytes ?q))"
    by (simp add: query_to_bytes_def field_op_def encode_tagged_def wcat.simps put_word_def w_bytes_u16_def w_count_u32_def sent_simps)
  moreover have "query_ok ?q" by simp
  ultimately show ?thesis using query_decode_ends [of "sent (query_to_bytes ?q)"] by blast
qed

text \<open>
  C40: Nothing bounds the nesting of a query. For every \<open>n\<close>, the blob of \<open>n + 1\<close> bytes that
  repeats the tag of a negation \<open>n\<close> times is accepted as a query, and the recursive decoder must
  go \<open>n + 1\<close> calls deep to read it: with room for only \<open>n\<close> calls it does not finish. A frame may carry
  64 MiB of such a blob, so a client chooses the depth of the server's stack.
\<close>

theorem query_nesting_unbounded:
  "query_from_bytes (replicate n 12 @ [0]) = Some (Inr ((QNot ^^ n) QAll)) \<and> decode_query n (replicate n 12 @ [0]) = Inl None"
proof -
  have "decode_query (Suc (Suc n)) (replicate n 12 @ [0]) = decode_query (Suc n) (replicate n 12 @ [0])"
    using extends_query [of "Suc n"] decode_nested_enough [of n "[]"] by (simp add: extends_def)
  then show ?thesis using decode_nested decode_nested_enough [of n "[]"] by (simp add: query_from_bytes_def)
qed

end
