(* ===== verification/Spec2Isabelle.thy ===== *)
theory Spec2Isabelle
  imports KvProps WireMsg
begin

text \<open>
  A verification of the storage core of PrismDB, of its key-value engine and of its wire protocol.

  \<^bold>\<open>The program.\<close> PrismDB is a database server in Rust. A heap file holds pages of 8 KiB
  (\<open>prism-storage\<close>). A write-ahead log records every change (\<open>prism-wal\<close>). A buffer pool caches
  pages and flushes the log before it writes them back (\<open>prism-buffer\<close>). The transactional core
  (\<open>prism-core\<close>) keeps versioned records in heap pages, with snapshots, record locks, commit and
  abort, and rebuilds the heap file from the log after a crash. A B+tree (\<open>prism-index\<close>) maps keys
  to record ids, in pages of the same pool. The engines use the core and the tree; the key-value
  engine is \<open>prism-kv\<close>. Clients speak a framed binary protocol (\<open>prism-protocol\<close>).

  \<^bold>\<open>Conventions.\<close> Bytes are \<open>8 word\<close>, integers keep their width, \<open>usize\<close> is \<open>nat\<close>. A Rust panic
  is the value \<open>None\<close> of an \<open>exec\<close>; a \<open>Result\<close> is a sum with the error on the left. The state of a
  component is a record and its operations pass it explicitly. Where several threads may interleave
  inside an operation (begin, the flush of the log, the flush of the pool), each atomic moment is a
  definition of its own. An operation of the record store returns an \<open>Outcome\<close>, an operation of an
  engine an \<open>EngOut\<close>; \<open>Waits\<close> and \<open>Blocked\<close> stand for a wait on a record lock. CRC32, the wall
  clock and the expiry of a lock deadline are parameters.

  \<^bold>\<open>The theories.\<close> All paths are under \<open>src/crates\<close>.
  \<^item> \<open>Prelude\<close>: little-endian integers, slices, bounds-checked readers; locale \<open>codec\<close>, the
    contract of an encoder and its reader.
  \<^item> \<open>Page\<close>: \<open>prism-storage/src/page.rs\<close>, \<open>checksum.rs\<close>. \<open>page_insert\<close>, \<open>page_delete\<close>,
    \<open>compact\<close>, \<open>record_at\<close>, \<open>get_mut\<close> on the bytes of a page; \<open>page_inv\<close> is the invariant and
    \<open>page_abs\<close> the map from slots to records; locale \<open>slot_map\<close>. Insertion and compaction are
    correct and never panic; every sequence of operations on a fresh page is a sequence of map
    operations.
  \<^item> \<open>WalRecord\<close>, \<open>Wal\<close>: \<open>prism-wal/src/lib.rs\<close>, \<open>record.rs\<close>, \<open>segment.rs\<close>, \<open>wal.rs\<close>. Records
    and their frames, \<open>wal_open\<close>, \<open>wal_append\<close> with rotation, the three moments of
    \<open>flush_through\<close>, \<open>wal_replay\<close>. Files are byte lists with the synced contents beside them; a
    crash keeps some prefix that contains what was synced. Frames round trip; what the published
    durable LSN covers survives every crash; replay returns what was appended; a torn tail
    followed by a rotation hides later records.
  \<^item> \<open>Mvcc\<close>: \<open>prism-core/src/record.rs\<close>, \<open>visibility.rs\<close> and the commit log. Version headers,
    statuses, \<open>visible\<close>.
  \<^item> \<open>Locks\<close>: \<open>prism-core/src/lock.rs\<close>. One round of \<open>acquire\<close>, its timeout, \<open>release_all\<close>, the
    wait-for graph. Locks are exclusive; deadlock detection is exact.
  \<^item> \<open>Disk\<close>: \<open>prism-storage/src/disk.rs\<close>, \<open>db_header.rs\<close>; locale \<open>page_device\<close>.
  \<^item> \<open>Buffer\<close>: \<open>prism-buffer/src/pool.rs\<close>. Frames, clock eviction, guards, flushing. The pool
    simulates a map of pages, keeps the write-ahead rule, finds a victim whenever a frame is
    unpinned; a flush that interleaves with an eviction writes the wrong page.
  \<^item> \<open>Txn\<close>: \<open>prism-core/src/txn.rs\<close>. \<open>begin_alloc\<close> and \<open>begin_snapshot\<close>, \<open>commit_internal\<close>,
    \<open>abort_internal\<close>. Snapshot isolation for a begin that is not overlapped, and how an overlapped
    one breaks it; durable commit.
  \<^item> \<open>Recovery\<close>: \<open>prism-core/src/recovery.rs\<close>, the whole pass \<open>recover\<close>. The recovered pages are
    those of a redo of the log, transactions are classified as logged, a second recovery changes
    nothing; a heap page without its insertion leaves a directory entry for a missing page.
  \<^item> \<open>Store\<close>, \<open>Versions\<close>, \<open>VersionProps\<close>: \<open>prism-core/src/store.rs\<close> over the pool, the log, the
    locks and the transaction manager. \<open>versions\<close> is the map of the stored versions and \<open>vstep\<close>
    the abstract machine on it, which every operation of a reachable store refines. Updates keep
    the snapshots of others, the first updater wins, versions are immutable, scans list the visible
    rows, reads end; a deletion that was rolled back blocks its record.
  \<^item> \<open>Index\<close>, \<open>BTree\<close>, \<open>TreeShape\<close>, \<open>TreeInsert\<close>, \<open>TreeMap\<close>, \<open>TreeProps\<close>:
    \<open>prism-index/src/btree.rs\<close>. Nodes and their pages, \<open>bt_search\<close>, \<open>bt_insert\<close>, \<open>bt_delete\<close>,
    \<open>bt_range\<close>; \<open>repr\<close> ties a tree shape to pages, \<open>index_at\<close> to its sorted entries. Any sequence
    of operations is a sequence of operations of a sorted map. The locale \<open>follows\<close> of
    \<open>TreeProps\<close> carries such theorems from one step to sequences.
  \<^item> \<open>Engine\<close>: calls of the record store and of a tree in one pool. \<open>ready\<close> stores serve every call,
    \<open>aside\<close> says that the heap operations leave the pages of a tree alone; \<open>store_read\<close> is
    \<open>RecordStore::read\<close> as an unbounded loop.
  \<^item> \<open>Kv\<close>, \<open>KvProps\<close>: \<open>prism-kv/src/lib.rs\<close>, every operation of \<open>KvNamespace\<close>. \<open>kv_follows\<close> shows
    that one transaction sees a map, \<open>txn_follows\<close> (the same locale, one level up) that
    transactions in sequence do, through \<open>begin_txn\<close> and \<open>commit_internal\<close>. Two properties show
    what goes wrong with other writers: an aborted put and a key that is stored again.
  \<^item> \<open>Wire\<close>, \<open>WireData\<close>, \<open>WireMsg\<close>: \<open>prism-protocol/src/codec.rs\<close>, \<open>frame.rs\<close>, \<open>data.rs\<close>,
    \<open>message.rs\<close>; locale \<open>wire_codec\<close>. Every packet survives its frame, every accepted packet is
    well formed, the query decoder ends; its recursion has no limit but the length of the input.

  \<^bold>\<open>Bounds and fuel.\<close> \<open>read_chain\<close> takes the number of steps as fuel; as many as there are versions
  are enough, and more change nothing, because every version points to an older one. The query
  decoder takes the length of the blob plus one. The eviction clock makes 4n visits for n frames, as
  the code does, and this is enough when a frame is unpinned, since usage counts are bounded. The
  trees of the refinement theorem have keys of at most 256 bytes, so that both halves of a split fit
  a page; an insertion then allocates at most 66 pages (a tree of height 64 would exceed the page
  ids). An operation of a namespace allocates at most 67. Namespaces stay below page 2 to the 32,
  where the six-byte pointer of a version header ends. A store is \<open>strained\<close> when no frame is
  unpinned or log segments are shorter than 20000 bytes; then operations may fail cleanly.

  \<^bold>\<open>Not modelled.\<close> The SQL engine (\<open>prism-sql\<close>) evaluates the syntax trees of the external crate
  \<open>sqlparser\<close>. The document engine (\<open>prism-doc\<close>) orders 64-bit integers and doubles together,
  which needs IEEE comparison and rounding. The server (\<open>prism-server\<close>), client, shell and command
  line programs are socket, thread and terminal handling around the modelled packets and the two
  engines above; passwords and TLS are external crates. \<open>prism-fsck\<close> only reports. The test kit, the
  benchmarks and the bank harness only test. Errors of the operating system are not modelled, except
  the creation of a log segment that exists; neither are wake-ups of threads that wait for a lock,
  which is the choice of the next step.
\<close>

end
